(* ===== verification/Prelude.thy ===== *)
theory Prelude
  imports Main "HOL-Library.Word"
begin

text \<open>
  The vocabulary the component theories share.

  \<^item> C scalars: a byte is an \<^typ>\<open>8 word\<close>; a length or a counter is a \<^typ>\<open>nat\<close>
    and every place where the C code stores it in a \<^verbatim>\<open>uint16_t\<close>, \<^verbatim>\<open>uint32_t\<close> or
    \<^verbatim>\<open>uint64_t\<close> writes the truncation out with \<open>u16\<close>, \<open>u32\<close>, \<open>u64\<close>.
  \<^item> Memory: a buffer is a byte list; \<open>memcpy_at\<close> is \<^verbatim>\<open>memcpy\<close> into a buffer at an
    offset; \<open>le_bytes\<close> and \<open>le_val\<close> are little-endian stores and loads.
  \<^item> Interfaces: \<open>codec\<close> (an encoder and its decoder), \<open>invariant_system\<close> (a step
    relation with an invariant), \<open>object_map\<close> (a keyed store with the laws of a
    finite map) and \<open>fifo\<close> (a queue) are the contracts the components are interpreted against.
\<close>

section \<open>Scalars and buffers\<close>

type_synonym byte = "8 word"
type_synonym bytes = "byte list"

definition u8 :: "nat \<Rightarrow> nat" where
  "u8 n = n mod 2 ^ 8"

definition u16 :: "nat \<Rightarrow> nat" where
  "u16 n = n mod 2 ^ 16"

definition u32 :: "nat \<Rightarrow> nat" where
  "u32 n = n mod 2 ^ 32"

definition u64 :: "nat \<Rightarrow> nat" where
  "u64 n = n mod 2 ^ 64"

definition uint32_max :: nat where
  "uint32_max = 2 ^ 32 - 1"

primrec le_bytes :: "nat \<Rightarrow> nat \<Rightarrow> bytes" where
  "le_bytes 0 n = []"
| "le_bytes (Suc k) n = word_of_nat (n mod 256) # le_bytes k (n div 256)"

primrec le_val :: "bytes \<Rightarrow> nat" where
  "le_val [] = 0"
| "le_val (b # bs) = unat b + 256 * le_val bs"

definition memcpy_at :: "nat \<Rightarrow> 'a list \<Rightarrow> 'a list \<Rightarrow> 'a list" where
  "memcpy_at off src dst = take off dst @ src @ drop (off + length src) dst"

named_theorems trunc_simps \<open>truncations that are the identity in range\<close>
named_theorems codec_simps \<open>decode after encode\<close>

section \<open>Interfaces\<close>

text \<open>
  An encoder \<open>enc\<close> with a decoder \<open>dec\<close> that recovers every well-formed value from
  its image.
\<close>

locale codec =
  fixes enc :: "'a \<Rightarrow> 'b"
    and dec :: "'b \<Rightarrow> 'a option"
    and wf :: "'a \<Rightarrow> bool"
  assumes dec_enc: "wf x \<Longrightarrow> dec (enc x) = Some x"
begin

lemma enc_inject:
  assumes "wf x" and "wf y"
  shows "enc x = enc y \<longleftrightarrow> x = y"
  using assms by (metis dec_enc option.inject)

lemma inj_on_enc: "inj_on enc {x. wf x}"
  by (rule inj_onI) (simp add: enc_inject)

lemma map_dec_enc: "\<forall>x \<in> set xs. wf x \<Longrightarrow> map dec (map enc xs) = map Some xs"
  by (induction xs) (simp_all add: dec_enc)

end

text \<open>
  A prefix codec: the decoder reads one value off the front of a byte stream and
  hands the rest back, so that encodings can be concatenated.
\<close>

locale stream_codec =
  fixes put :: "'a \<Rightarrow> bytes"
    and get :: "bytes \<Rightarrow> ('a \<times> bytes) option"
    and wf :: "'a \<Rightarrow> bool"
  assumes get_put: "wf x \<Longrightarrow> get (put x @ rest) = Some (x, rest)"
begin

primrec get_many :: "nat \<Rightarrow> bytes \<Rightarrow> ('a list \<times> bytes) option" where
  "get_many 0 bs = Some ([], bs)"
| "get_many (Suc n) bs =
    (case get bs of
      None \<Rightarrow> None
    | Some (x, rest) \<Rightarrow>
        (case get_many n rest of None \<Rightarrow> None | Some (xs, r) \<Rightarrow> Some (x # xs, r)))"

lemma get_many_concat:
  "\<forall>x \<in> set xs. wf x \<Longrightarrow> get_many (length xs) (concat (map put xs) @ rest) = Some (xs, rest)"
  by (induction xs) (simp_all add: get_put)

lemma put_inject:
  assumes "wf x" and "wf y" and "put x @ r = put y @ s"
  shows "x = y \<and> r = s"
proof -
  have "Some (x, r) = Some (y, s)"
    unfolding get_put [OF assms(1), symmetric] get_put [OF assms(2), symmetric]
    by (simp only: assms(3))
  then show ?thesis by simp
qed

end

text \<open>
  A step relation with an initial state and an invariant every step keeps: every
  reachable state satisfies the invariant.
\<close>

inductive reachable :: "('s \<Rightarrow> bool) \<Rightarrow> ('s \<Rightarrow> 'e \<Rightarrow> 's \<Rightarrow> bool) \<Rightarrow> 's \<Rightarrow> bool"
  for init :: "'s \<Rightarrow> bool" and step :: "'s \<Rightarrow> 'e \<Rightarrow> 's \<Rightarrow> bool" where
  reach_init: "init s \<Longrightarrow> reachable init step s"
| reach_step: "reachable init step s \<Longrightarrow> step s e s' \<Longrightarrow> reachable init step s'"

inductive steps :: "('s \<Rightarrow> 'e \<Rightarrow> 's \<Rightarrow> bool) \<Rightarrow> 's \<Rightarrow> 'e list \<Rightarrow> 's \<Rightarrow> bool"
  for step :: "'s \<Rightarrow> 'e \<Rightarrow> 's \<Rightarrow> bool" where
  steps_nil: "steps step s [] s"
| steps_cons: "step s e s' \<Longrightarrow> steps step s' es s'' \<Longrightarrow> steps step s (e # es) s''"

inductive_simps steps_nil_iff [simp]: "steps step s [] t"
inductive_simps steps_cons_iff: "steps step s (e # es) t"

locale invariant_system =
  fixes init :: "'s \<Rightarrow> bool"
    and step :: "'s \<Rightarrow> 'e \<Rightarrow> 's \<Rightarrow> bool"
    and inv :: "'s \<Rightarrow> bool"
  assumes inv_init: "init s \<Longrightarrow> inv s"
    and inv_step: "inv s \<Longrightarrow> step s e s' \<Longrightarrow> inv s'"
begin

lemma reachable_inv: "reachable init step s \<Longrightarrow> inv s"
  by (induction rule: reachable.induct) (auto intro: inv_init inv_step)

lemma steps_inv: "steps step s es t \<Longrightarrow> inv s \<Longrightarrow> inv t"
  by (induction rule: steps.induct) (auto intro: inv_step)

lemma steps_reachable: "steps step s es t \<Longrightarrow> reachable init step s \<Longrightarrow> reachable init step t"
  by (induction rule: steps.induct) (auto intro: reachable.reach_step)

end

text \<open>
  A keyed store whose contents are read through \<open>find\<close>: \<open>put\<close> and \<open>del\<close> act as the
  update and the removal of a finite map on every state that satisfies \<open>ok\<close>.
  \<open>fits\<close> says when a put is accepted.
\<close>

locale object_map =
  fixes find :: "'s \<Rightarrow> 'k \<Rightarrow> 'v option"
    and put :: "'s \<Rightarrow> 'k \<Rightarrow> 'v \<Rightarrow> 's"
    and del :: "'s \<Rightarrow> 'k \<Rightarrow> 's"
    and ok :: "'s \<Rightarrow> bool"
    and fits :: "'s \<Rightarrow> 'k \<Rightarrow> bool"
  assumes find_put: "ok s \<Longrightarrow> fits s k \<Longrightarrow> find (put s k v) = (find s)(k \<mapsto> v)"
    and find_del: "ok s \<Longrightarrow> find (del s k) = (find s)(k := None)"
    and ok_put: "ok s \<Longrightarrow> fits s k \<Longrightarrow> ok (put s k v)"
    and ok_del: "ok s \<Longrightarrow> ok (del s k)"
    and fits_present: "ok s \<Longrightarrow> find s k = Some v \<Longrightarrow> fits s k"
begin

lemma put_overwrites:
  assumes "ok s" and "fits s k"
  shows "find (put (put s k v) k w) = find (put s k w)"
proof -
  have "find (put s k v) k = Some v"
    using assms by (simp add: find_put)
  then have "fits (put s k v) k"
    using assms ok_put fits_present by blast
  then show ?thesis
    using assms by (simp add: find_put ok_put)
qed

lemma del_put: "ok s \<Longrightarrow> fits s k \<Longrightarrow> find (del (put s k v) k) = (find s)(k := None)"
  by (simp add: find_put find_del ok_put)

lemma put_other: "ok s \<Longrightarrow> fits s k \<Longrightarrow> j \<noteq> k \<Longrightarrow> find (put s k v) j = find s j"
  by (simp add: find_put)

lemma del_other: "ok s \<Longrightarrow> j \<noteq> k \<Longrightarrow> find (del s k) j = find s j"
  by (simp add: find_del)

end

text \<open>
  A queue. \<open>items\<close> is its contents, oldest first; \<open>push\<close> is called only when the queue is not
  full; \<open>pop\<close> takes the oldest item. \<open>fifo_run\<close> drives a queue with a list of attempts,
  \<^term>\<open>Some x\<close> to push \<open>x\<close> and \<^const>\<open>None\<close> to pop, and returns what was accepted, what was
  popped, and the state.
\<close>

fun fifo_run :: "('s \<Rightarrow> bool) \<Rightarrow> ('a \<Rightarrow> 's \<Rightarrow> 's) \<Rightarrow> ('s \<Rightarrow> ('a \<times> 's) option) \<Rightarrow> 'a option list \<Rightarrow> 's \<Rightarrow> 'a list \<times> 'a list \<times> 's" where
  "fifo_run full push pop [] s = ([], [], s)"
| "fifo_run full push pop (Some x # ops) s =
    (if full s then fifo_run full push pop ops s
     else case fifo_run full push pop ops (push x s) of (ps, qs, t) \<Rightarrow> (x # ps, qs, t))"
| "fifo_run full push pop (None # ops) s =
    (case pop s of
       None \<Rightarrow> fifo_run full push pop ops s
     | Some (y, s') \<Rightarrow> (case fifo_run full push pop ops s' of (ps, qs, t) \<Rightarrow> (ps, y # qs, t)))"

locale fifo =
  fixes ok :: "'s \<Rightarrow> bool"
    and items :: "'s \<Rightarrow> 'a list"
    and full :: "'s \<Rightarrow> bool"
    and push :: "'a \<Rightarrow> 's \<Rightarrow> 's"
    and pop :: "'s \<Rightarrow> ('a \<times> 's) option"
  assumes push_ok: "ok s \<Longrightarrow> \<not> full s \<Longrightarrow> ok (push x s)"
    and push_items: "ok s \<Longrightarrow> \<not> full s \<Longrightarrow> items (push x s) = items s @ [x]"
    and pop_None: "ok s \<Longrightarrow> pop s = None \<longleftrightarrow> items s = []"
    and pop_ok: "ok s \<Longrightarrow> pop s = Some (y, s') \<Longrightarrow> ok s'"
    and pop_items: "ok s \<Longrightarrow> pop s = Some (y, s') \<Longrightarrow> items s = y # items s'"
begin

lemma in_order:
  "ok s \<Longrightarrow> fifo_run full push pop ops s = (ps, qs, t) \<Longrightarrow> ok t \<and> qs @ items t = items s @ ps"
proof (induction ops arbitrary: s ps qs)
  case (Cons a ops)
  show ?case
  proof (cases a)
    case None
    show ?thesis
    proof (cases "pop s")
      case None
      then show ?thesis using Cons \<open>a = None\<close> by simp
    next
      case (Some ys)
      obtain y s' where "ys = (y, s')" by (cases ys)
      then show ?thesis
        using Cons.IH [of s'] Cons.prems \<open>a = None\<close> Some pop_ok [of s y s'] pop_items [of s y s'] by (auto split: prod.splits)
    qed
  next
    case (Some x)
    then show ?thesis
      using Cons.IH [of s] Cons.IH [of "push x s"] Cons.prems push_ok [of s x] push_items [of s x] by (auto split: if_splits prod.splits)
  qed
qed simp

end

section \<open>Lemmas on scalars and buffers\<close>

lemma u8_id [trunc_simps]: "n < 256 \<Longrightarrow> u8 n = n"
  by (simp add: u8_def)

lemma u16_id [trunc_simps]: "n < 65536 \<Longrightarrow> u16 n = n"
  by (simp add: u16_def)

lemma u32_id [trunc_simps]: "n < 2 ^ 32 \<Longrightarrow> u32 n = n"
  by (simp add: u32_def)

lemma u64_id [trunc_simps]: "n < 2 ^ 64 \<Longrightarrow> u64 n = n"
  by (simp add: u64_def)

lemma u32_less [simp]: "u32 n < 2 ^ 32"
  by (simp add: u32_def)

lemma u64_less [simp]: "u64 n < 2 ^ 64"
  by (simp add: u64_def)

lemma u32_le: "u32 n \<le> n"
  by (simp add: u32_def)

lemma u64_le: "u64 n \<le> n"
  by (simp add: u64_def)

lemma length_le_bytes [simp]: "length (le_bytes k n) = k"
  by (induction k arbitrary: n) simp_all

lemma le_bytes_2: "le_bytes 2 n = [word_of_nat (n mod 256), word_of_nat (n div 256 mod 256)]"
  by (simp add: numeral_2_eq_2)

lemma unat_byte_less: "unat (b :: byte) < 256"
  using unsigned_less [of b, where 'a = nat] by simp

lemma unat_byte_of_nat: "unat (word_of_nat (n mod 256) :: byte) = n mod 256"
  by (simp add: unat_of_nat)

lemma le_val_le_bytes [codec_simps]: "le_val (le_bytes k n) = n mod 256 ^ k"
proof (induction k arbitrary: n)
  case (Suc k)
  have "n mod (256 * 256 ^ k) = 256 * (n div 256 mod 256 ^ k) + n mod 256"
    by (rule mod_mult2_eq)
  then show ?case
    using Suc by (simp add: unat_byte_of_nat)
qed simp

lemma le_val_bound: "le_val bs < 256 ^ length bs"
proof (induction bs)
  case (Cons b bs)
  show ?case
    using Cons unat_byte_less [of b] by simp
qed simp

lemma length_memcpy_at:
  "off + length src \<le> length dst \<Longrightarrow> length (memcpy_at off src dst) = length dst"
  by (simp add: memcpy_at_def)

lemma memcpy_at_read:
  "off \<le> length dst \<Longrightarrow> take (length src) (drop off (memcpy_at off src dst)) = src"
  by (simp add: memcpy_at_def)

lemma take_memcpy_at: "n \<le> off \<Longrightarrow> off \<le> length dst \<Longrightarrow> take n (memcpy_at off src dst) = take n dst"
  by (simp add: memcpy_at_def min_absorb1)

lemma memcpy_at_zero: "memcpy_at 0 src dst = src @ drop (length src) dst"
  by (simp add: memcpy_at_def)

lemma sum_list_filter_split:
  "sum_list (map f xs) = sum_list (map f (filter P xs)) + sum_list (map f (filter (\<lambda>x. \<not> P x) xs))"
  for f :: "'a \<Rightarrow> nat"
  by (induction xs) simp_all

section \<open>Tables of records and event logs\<close>

text \<open>A list of records with distinct keys: the record of a key, its replacement and its removal.\<close>

lemma keyed_split:
  assumes "distinct (map k rs)" "r \<in> set rs"
  obtains xs ys where "rs = xs @ r # ys" "\<forall>x \<in> set xs \<union> set ys. k x \<noteq> k r"
proof -
  obtain xs ys where "rs = xs @ r # ys" using assms(2) by (meson split_list)
  moreover from this have "\<forall>x \<in> set xs \<union> set ys. k x \<noteq> k r" using assms(1) by (auto simp: image_iff)
  ultimately show thesis by (rule that)
qed

lemma filter_other: "\<forall>x \<in> set xs. k x \<noteq> h \<Longrightarrow> filter (\<lambda>x. k x \<noteq> h) xs = xs"
  by (rule filter_True)

lemma map_other: "\<forall>x \<in> set xs. k x \<noteq> h \<Longrightarrow> map (\<lambda>x. if k x = h then r else x) xs = xs"
  by (rule map_idI) auto

lemma find_mem: "find P xs = Some x \<Longrightarrow> x \<in> set xs \<and> P x"
  by (auto simp: find_Some_iff)

text \<open>How often an event of a kind is in a log.\<close>

definition occurs :: "('e \<Rightarrow> bool) \<Rightarrow> 'e list \<Rightarrow> nat" where
  "occurs P log = length (filter P log)"

lemma occurs_simps [simp]: "occurs P [] = 0" "occurs P (e # es) = (if P e then 1 else 0) + occurs P es"
  "occurs P (xs @ ys) = occurs P xs + occurs P ys"
  by (simp_all add: occurs_def)

lemma occurs_0_iff: "occurs P log = 0 \<longleftrightarrow> (\<forall>e \<in> set log. \<not> P e)"
  by (simp add: occurs_def filter_empty_conv)

end
