(* ===== verification/Kvdev.thy ===== *)
theory Kvdev
  imports Prelude
begin

text \<open>
  The key-value device vocabulary of \<^verbatim>\<open>target/include/spdk/kvdev.h\<close>, the wire status
  mapping of \<^verbatim>\<open>target/nkvx_exec_rpc.c\<close>, and the object-id codec that the front
  (\<^verbatim>\<open>target/kvdev_rados.h\<close>) and the executor (\<^verbatim>\<open>rados-nkvx/nkvx_oid.h\<close>,
  \<^verbatim>\<open>rados-nkvx/nkvx_executor.c\<close>) must share.

  A C \<^verbatim>\<open>enum\<close> that crosses the wire is an \<^typ>\<open>int\<close> on the wire and a datatype inside
  a process; a NUL-terminated C string is a \<^typ>\<open>string\<close> without its terminator.
\<close>

unbundle bit_operations_syntax

section \<open>Status codes\<close>

datatype io_status =
    IO_SUCCESS | IO_FAILED | IO_KEY_NOT_EXIST | IO_KEY_EXIST | IO_BUFFER_TOO_SMALL
  | IO_INVALID | IO_NOMEM | IO_NOT_SUPPORTED | IO_ABORTED | IO_READ_ONLY

fun status_code :: "io_status \<Rightarrow> int" where
  "status_code IO_SUCCESS = 0"
| "status_code IO_FAILED = - 1"
| "status_code IO_KEY_NOT_EXIST = - 2"
| "status_code IO_KEY_EXIST = - 6"
| "status_code IO_BUFFER_TOO_SMALL = - 3"
| "status_code IO_INVALID = - 4"
| "status_code IO_NOMEM = - 5"
| "status_code IO_NOT_SUPPORTED = - 7"
| "status_code IO_ABORTED = - 8"
| "status_code IO_READ_ONLY = - 9"

definition known_status :: "int \<Rightarrow> bool" where
  "known_status c \<longleftrightarrow> c \<in> {0, - 1, - 2, - 3, - 4, - 5, - 6, - 7, - 8, - 9}"

text \<open>\<^verbatim>\<open>nkvx_status_to_wire\<close>: a C enum argument may hold any integer.\<close>

definition nkvx_status_to_wire :: "int \<Rightarrow> int" where
  "nkvx_status_to_wire status =
    (if status = status_code IO_SUCCESS \<or> status = status_code IO_FAILED
      \<or> status = status_code IO_KEY_NOT_EXIST \<or> status = status_code IO_BUFFER_TOO_SMALL
      \<or> status = status_code IO_INVALID \<or> status = status_code IO_NOMEM
      \<or> status = status_code IO_KEY_EXIST \<or> status = status_code IO_NOT_SUPPORTED
      \<or> status = status_code IO_ABORTED \<or> status = status_code IO_READ_ONLY
     then status else status_code IO_FAILED)"

definition nkvx_status_from_wire :: "int \<Rightarrow> io_status" where
  "nkvx_status_from_wire wire =
    (if wire = status_code IO_SUCCESS then IO_SUCCESS
     else if wire = status_code IO_FAILED then IO_FAILED
     else if wire = status_code IO_KEY_NOT_EXIST then IO_KEY_NOT_EXIST
     else if wire = status_code IO_BUFFER_TOO_SMALL then IO_BUFFER_TOO_SMALL
     else if wire = status_code IO_INVALID then IO_INVALID
     else if wire = status_code IO_NOMEM then IO_NOMEM
     else if wire = status_code IO_KEY_EXIST then IO_KEY_EXIST
     else if wire = status_code IO_NOT_SUPPORTED then IO_NOT_SUPPORTED
     else if wire = status_code IO_ABORTED then IO_ABORTED
     else if wire = status_code IO_READ_ONLY then IO_READ_ONLY
     else IO_FAILED)"

section \<open>Limits, store flags, Exec bindings\<close>

definition exec_key_max_len :: nat where
  "exec_key_max_len = 255"

definition sha256_len :: nat where
  "sha256_len = 32"

definition store_flag_sike :: nat where
  "store_flag_sike = 1"

definition store_flag_sinke :: nat where
  "store_flag_sinke = 2"

datatype exec_runtime = RUNTIME_NONE | RUNTIME_NKVX | RUNTIME_CLS

record exec_cmd =
  ec_op_id :: nat
  ec_osize :: nat

definition spdk_kv_exec_decode :: "nat \<Rightarrow> nat \<Rightarrow> exec_cmd" where
  "spdk_kv_exec_decode cdw12 cdw13 = \<lparr>ec_op_id = cdw13, ec_osize = cdw12\<rparr>"

text \<open>\<^verbatim>\<open>nkvx_deliver_len\<close> and \<^verbatim>\<open>nkvx_result_too_small\<close>: the truncation contract.\<close>

definition nkvx_deliver_len :: "nat \<Rightarrow> nat \<Rightarrow> nat" where
  "nkvx_deliver_len result_len osize = (if result_len < osize then result_len else osize)"

definition nkvx_result_too_small :: "nat \<Rightarrow> nat \<Rightarrow> bool" where
  "nkvx_result_too_small result_len osize \<longleftrightarrow> result_len > osize"

section \<open>Object ids\<close>

definition hex_digits :: string where
  "hex_digits = ''0123456789abcdef''"

text \<open>
  The loop writes two digits per key byte; the executor's private copy in
  \<^verbatim>\<open>nkvx_executor.c\<close> and the front's copy in \<^verbatim>\<open>kvdev_rados.h\<close> are separate functions
  in the source and separate definitions here.
\<close>

primrec key_to_oid_loop :: "bytes \<Rightarrow> string" where
  "key_to_oid_loop [] = []"
| "key_to_oid_loop (b # k) =
    hex_digits ! unat (drop_bit 4 b) # hex_digits ! unat (b AND 15) # key_to_oid_loop k"

definition nkvx_key_to_oid :: "bytes \<Rightarrow> nat \<Rightarrow> string" where
  "nkvx_key_to_oid key key_len = key_to_oid_loop (take key_len key)"

function kvdev_oid_at :: "bytes \<Rightarrow> nat \<Rightarrow> nat \<Rightarrow> string" where
  "kvdev_oid_at k key_len i =
    (if i < key_len
     then [hex_digits ! unat (drop_bit 4 (k ! i)), hex_digits ! unat (k ! i AND 15)]
          @ kvdev_oid_at k key_len (Suc i)
     else [])"
  by pat_completeness auto
termination by (relation "measure (\<lambda>(k, key_len, i). key_len - i)") auto

declare kvdev_oid_at.simps [simp del]

definition kvdev_rados_key_to_oid :: "bytes \<Rightarrow> nat \<Rightarrow> string" where
  "kvdev_rados_key_to_oid key key_len = kvdev_oid_at key key_len 0"

text \<open>
  \<^verbatim>\<open>nkvx_oid_to_key\<close> returns the key length and fills the key buffer; a result of
  length 0 is the C function's 0 (not a valid hex oid).
\<close>

definition hex_val :: "char \<Rightarrow> int" where
  "hex_val c =
    (let n = of_char c :: int in
     if of_char CHR ''0'' \<le> n \<and> n \<le> of_char CHR ''9'' then n - of_char CHR ''0''
     else if of_char CHR ''a'' \<le> n \<and> n \<le> of_char CHR ''f'' then n - of_char CHR ''a'' + 10
     else - 1)"

fun oid_to_key_loop :: "string \<Rightarrow> bytes option" where
  "oid_to_key_loop [] = Some []"
| "oid_to_key_loop [c] = None"
| "oid_to_key_loop (c # d # cs) =
    (let hi = hex_val c; lo = hex_val d in
     if hi < 0 \<or> lo < 0 then None
     else map_option ((#) (push_bit 4 (word_of_int hi) OR word_of_int lo)) (oid_to_key_loop cs))"

definition nkvx_oid_to_key :: "string \<Rightarrow> bytes" where
  "nkvx_oid_to_key oid =
    (if length oid = 0 \<or> odd (length oid) \<or> length oid div 2 > exec_key_max_len then []
     else case oid_to_key_loop oid of None \<Rightarrow> [] | Some k \<Rightarrow> k)"

definition key_ok :: "bytes \<Rightarrow> bool" where
  "key_ok k \<longleftrightarrow> 1 \<le> length k \<and> length k \<le> exec_key_max_len"

section \<open>Lemmas: statuses\<close>

lemma status_code_inject [simp]: "status_code s = status_code t \<longleftrightarrow> s = t"
  by (cases s; cases t) simp_all

lemma known_status_code [simp]: "known_status (status_code s)"
  by (cases s) (simp_all add: known_status_def)

lemma known_status_iff: "known_status c \<longleftrightarrow> (\<exists>s. c = status_code s)"
proof
  assume "known_status c"
  then show "\<exists>s. c = status_code s"
    unfolding known_status_def
    by (elim insertE emptyE)
      (metis status_code.simps(1) status_code.simps(2) status_code.simps(3) status_code.simps(4)
        status_code.simps(5) status_code.simps(6) status_code.simps(7) status_code.simps(8)
        status_code.simps(9) status_code.simps(10))+
qed auto

lemma nkvx_status_to_wire_code [simp]: "nkvx_status_to_wire (status_code s) = status_code s"
  by (cases s) (simp_all add: nkvx_status_to_wire_def)

lemma nkvx_status_to_wire_unknown: "\<not> known_status c \<Longrightarrow> nkvx_status_to_wire c = - 1"
  by (simp add: nkvx_status_to_wire_def known_status_def)

lemma nkvx_status_from_wire_code [simp]: "nkvx_status_from_wire (status_code s) = s"
  by (cases s) (simp_all add: nkvx_status_from_wire_def)

lemma nkvx_status_from_wire_unknown: "\<not> known_status c \<Longrightarrow> nkvx_status_from_wire c = IO_FAILED"
  by (simp add: nkvx_status_from_wire_def known_status_def)

interpretation status_wire: codec
  "\<lambda>s. nkvx_status_to_wire (status_code s)" "\<lambda>c. Some (nkvx_status_from_wire c)" "\<lambda>_. True"
  by unfold_locales simp

lemma nkvx_deliver_len_min: "nkvx_deliver_len n osize = min n osize"
  by (simp add: nkvx_deliver_len_def)

section \<open>Lemmas: the object-id codec\<close>

lemma nibble_hi: "unat (drop_bit 4 (b :: byte)) = unat b div 16"
  by (simp only: unsigned_drop_bit_eq) (simp add: drop_bit_eq_div take_bit_nat_eq_self unat_byte_less)

lemma nibble_lo: "unat ((b :: byte) AND 15) = unat b mod 16"
proof -
  have "b AND 15 = take_bit 4 b"
    by (simp add: take_bit_eq_mask mask_eq_exp_minus_1)
  then show ?thesis
    by (simp only: unsigned_take_bit_eq) (simp add: take_bit_eq_mod)
qed

lemma hex_val_digit: "n < 16 \<Longrightarrow> hex_val (hex_digits ! n) = int n"
proof -
  have "\<forall>n \<in> {0..<16}. hex_val (hex_digits ! n) = int n"
    by code_simp
  then show "n < 16 \<Longrightarrow> hex_val (hex_digits ! n) = int n"
    by simp
qed

lemma nibbles_join:
  "push_bit 4 (word_of_nat (unat (b :: byte) div 16)) OR word_of_nat (unat b mod 16) = b"
proof -
  have "word_of_nat (unat b div 16) = drop_bit 4 b"
    by (simp add: nibble_hi [symmetric])
  moreover have "word_of_nat (unat b mod 16) = take_bit 4 b"
    by (simp add: nibble_lo [symmetric] take_bit_eq_mask mask_eq_exp_minus_1)
  moreover have "push_bit 4 (drop_bit 4 b) OR take_bit 4 b = b"
    by (rule bit_eqI) (auto simp: bit_simps)
  ultimately show ?thesis
    by simp
qed

lemma length_key_to_oid_loop [simp]: "length (key_to_oid_loop k) = 2 * length k"
  by (induction k) simp_all

lemma oid_to_key_loop_key_to_oid [codec_simps]: "oid_to_key_loop (key_to_oid_loop k) = Some k"
proof (induction k)
  case (Cons b k)
  have "unat b div 16 < 16"
    using unat_byte_less [of b] by (simp add: less_mult_imp_div_less)
  then show ?case
    using Cons by (simp add: nibble_hi nibble_lo hex_val_digit nibbles_join)
qed simp

lemma nkvx_oid_to_key_of_key: "key_ok k \<Longrightarrow> nkvx_oid_to_key (nkvx_key_to_oid k (length k)) = k"
  by (auto simp: nkvx_oid_to_key_def nkvx_key_to_oid_def key_ok_def oid_to_key_loop_key_to_oid)

interpretation oid_codec: codec
  "\<lambda>k. nkvx_key_to_oid k (length k)"
  "\<lambda>oid. let k = nkvx_oid_to_key oid in if k = [] then None else Some k" key_ok
  by unfold_locales (auto simp: nkvx_oid_to_key_of_key key_ok_def)

lemma kvdev_oid_at_drop:
  "key_len \<le> length k \<Longrightarrow> i \<le> key_len \<Longrightarrow>
    kvdev_oid_at k key_len i = key_to_oid_loop (drop i (take key_len k))"
proof (induction k key_len i rule: kvdev_oid_at.induct)
  case (1 k key_len i)
  show ?case
  proof (cases "i < key_len")
    case True
    then have "drop i (take key_len k) = k ! i # drop (Suc i) (take key_len k)"
      using 1 by (simp add: Cons_nth_drop_Suc [symmetric])
    then show ?thesis
      using 1 True by (simp add: kvdev_oid_at.simps [of k key_len i])
  next
    case False
    then show ?thesis
      using 1 kvdev_oid_at.simps [of k key_len i] by simp
  qed
qed

lemma kvdev_rados_key_to_oid_eq:
  "key_len \<le> length key \<Longrightarrow> kvdev_rados_key_to_oid key key_len = nkvx_key_to_oid key key_len"
  by (simp add: kvdev_rados_key_to_oid_def nkvx_key_to_oid_def kvdev_oid_at_drop)

end
