(* ===== verification/Rpc.thy ===== *)
theory Rpc
  imports Kvdev
begin

text \<open>
  The inter-tier RPC envelopes of \<^verbatim>\<open>target/nkvx_exec_rpc.h\<close> and their Mercury
  serializers of \<^verbatim>\<open>target/nkvx_exec_rpc.c\<close>.

  A serializer is one C routine that runs in three phases (\<^verbatim>\<open>HG_ENCODE\<close>, \<^verbatim>\<open>HG_DECODE\<close>,
  \<^verbatim>\<open>HG_FREE\<close>); it is one definition here, over a byte stream that encoding appends to
  and decoding consumes. The Mercury primitives it calls are the fields of
  \<open>hg_prims\<close>; \<open>hg_prims_ok\<close> states what Mercury documents of them: encoding a value
  appends bytes from which decoding recovers it. A NULL pointer is \<^const>\<open>None\<close>, and a
  bulk handle is a value of the parameter type.
\<close>

section \<open>Mercury serializer interface\<close>

datatype hg_op = HG_ENCODE | HG_DECODE | HG_FREE

datatype hg_err = HG_NOMEM | HG_FAULT nat

type_synonym 'a hg_field = "hg_op \<Rightarrow> 'a \<Rightarrow> bytes \<Rightarrow> hg_err + 'a \<times> bytes"

record 'h hg_prims =
  hg_u8 :: "nat hg_field"
  hg_u32 :: "nat hg_field"
  hg_u64 :: "nat hg_field"
  hg_i32 :: "int hg_field"
  hg_string :: "string option hg_field"
  hg_bulk :: "'h option hg_field"
  hg_bytes :: "nat \<Rightarrow> bytes hg_field"
  hg_malloc_ok :: "nat \<Rightarrow> bool"

definition hg_encodes :: "'a hg_field \<Rightarrow> ('a \<Rightarrow> bool) \<Rightarrow> ('a \<Rightarrow> bytes) \<Rightarrow> bool" where
  "hg_encodes p okv enc \<longleftrightarrow>
    (\<forall>v. okv v \<longrightarrow>
      (\<forall>s. p HG_ENCODE v s = Inr (v, s @ enc v)) \<and>
      (\<forall>z r. p HG_DECODE z (enc v @ r) = Inr (v, r)))"

definition hg_field_ok :: "'a hg_field \<Rightarrow> ('a \<Rightarrow> bool) \<Rightarrow> bool" where
  "hg_field_ok p okv \<longleftrightarrow> (\<exists>enc. hg_encodes p okv enc)"

definition hg_prims_ok :: "'h hg_prims \<Rightarrow> bool" where
  "hg_prims_ok P \<longleftrightarrow>
    hg_field_ok (hg_u8 P) (\<lambda>v. v < 2 ^ 8) \<and>
    hg_field_ok (hg_u32 P) (\<lambda>v. v < 2 ^ 32) \<and>
    hg_field_ok (hg_u64 P) (\<lambda>v. v < 2 ^ 64) \<and>
    hg_field_ok (hg_i32 P) (\<lambda>v. - (2 ^ 31) \<le> v \<and> v < 2 ^ 31) \<and>
    hg_field_ok (hg_string P) (\<lambda>_. True) \<and>
    hg_field_ok (hg_bulk P) (\<lambda>_. True) \<and>
    (\<forall>n. hg_field_ok (hg_bytes P n) (\<lambda>b. length b = n)) \<and>
    (\<forall>n. hg_malloc_ok P n)"

fun pbind :: "hg_err + 'a \<times> bytes \<Rightarrow> ('a \<Rightarrow> bytes \<Rightarrow> hg_err + 'b \<times> bytes) \<Rightarrow> hg_err + 'b \<times> bytes" where
  "pbind (Inl e) f = Inl e"
| "pbind (Inr (v, s)) f = f v s"

section \<open>Envelopes\<close>

definition nkvx_inline_max :: nat where
  "nkvx_inline_max = 4 * 1024"

datatype kv_verb = VERB_INVALID | VERB_STORE | VERB_RETRIEVE | VERB_DELETE | VERB_EXIST | VERB_LIST

fun verb_code :: "kv_verb \<Rightarrow> nat" where
  "verb_code VERB_INVALID = 0"
| "verb_code VERB_STORE = 1"
| "verb_code VERB_RETRIEVE = 2"
| "verb_code VERB_DELETE = 3"
| "verb_code VERB_EXIST = 4"
| "verb_code VERB_LIST = 5"

record 'h kv_in =
  ki_verb :: nat
  ki_read_only :: nat
  ki_client_call_id :: nat
  ki_key_len :: nat
  ki_key :: bytes
  ki_osize :: nat
  ki_store_flags :: nat
  ki_value_len :: nat
  ki_value_inline :: "bytes option"
  ki_value_bulk :: "'h option"
  ki_result_sink :: "'h option"

record kv_out =
  ko_status :: int
  ko_result_len :: nat
  ko_result_inline_len :: nat
  ko_result_inline :: "bytes option"

record 'h exec_in =
  ei_op_id :: nat
  ei_client_call_id :: nat
  ei_read_only :: nat
  ei_runtime :: nat
  ei_caps :: nat
  ei_key_len :: nat
  ei_key :: bytes
  ei_sha256 :: bytes
  ei_sha256_valid :: nat
  ei_module_key :: "string option"
  ei_module_ns :: "string option"
  ei_osize :: nat
  ei_input_len :: nat
  ei_input_inline :: "bytes option"
  ei_input_bulk :: "'h option"
  ei_result_sink :: "'h option"

record exec_out =
  eo_status :: int
  eo_result_len :: nat
  eo_result_inline_len :: nat
  eo_result_inline :: "bytes option"

datatype cancel_ack = CANCEL_ALREADY_DONE | CANCEL_ABORTED | CANCEL_PUSH_CANCELED

fun cancel_ack_code :: "cancel_ack \<Rightarrow> int" where
  "cancel_ack_code CANCEL_ALREADY_DONE = 0"
| "cancel_ack_code CANCEL_ABORTED = 1"
| "cancel_ack_code CANCEL_PUSH_CANCELED = 2"

section \<open>Serializers\<close>

definition nkvx_proc_string :: "'h hg_prims \<Rightarrow> string option hg_field" where
  "nkvx_proc_string P op sp s = hg_string P op sp s"

text \<open>
  \<^verbatim>\<open>nkvx_proc_opaque\<close>: a \<^verbatim>\<open>uint32\<close> length and that many raw bytes. On decode the
  length comes from the stream and the buffer is allocated for it.
\<close>

definition buf_bytes :: "bytes option \<Rightarrow> nat \<Rightarrow> bytes" where
  "buf_bytes buf n = (case buf of None \<Rightarrow> [] | Some b \<Rightarrow> take n b)"

definition nkvx_proc_opaque :: "'h hg_prims \<Rightarrow> (bytes option \<times> nat) hg_field" where
  "nkvx_proc_opaque P op bl s =
    (let (buf, lenp) = bl in
     pbind (hg_u32 P op lenp s) (\<lambda>len s.
       case op of
         HG_ENCODE \<Rightarrow>
           if len > 0
           then pbind (hg_bytes P len op (buf_bytes buf len) s) (\<lambda>_ s. Inr ((buf, lenp), s))
           else Inr ((buf, lenp), s)
       | HG_DECODE \<Rightarrow>
           if len > 0
           then (if hg_malloc_ok P len
                 then pbind (hg_bytes P len op (replicate len 0) s) (\<lambda>b s. Inr ((Some b, len), s))
                 else Inl HG_NOMEM)
           else Inr ((None, len), s)
       | HG_FREE \<Rightarrow> Inr ((None, lenp), s)))"

text \<open>The fixed key buffer: only the first \<^verbatim>\<open>key_len\<close> bytes travel.\<close>

definition proc_key :: "'h hg_prims \<Rightarrow> nat \<Rightarrow> bytes hg_field" where
  "proc_key P key_len op key s =
    (if key_len > 0
     then pbind (hg_bytes P key_len op (take key_len key) s) (\<lambda>b s. Inr (memcpy_at 0 b key, s))
     else Inr (key, s))"

definition hg_proc_nkvx_kv_in_t :: "'h hg_prims \<Rightarrow> 'h kv_in hg_field" where
  "hg_proc_nkvx_kv_in_t P op i s =
    pbind (hg_u8 P op (ki_verb i) s) (\<lambda>verb s.
    pbind (hg_u8 P op (ki_read_only i) s) (\<lambda>ro s.
    pbind (hg_u64 P op (ki_client_call_id i) s) (\<lambda>cid s.
    pbind (hg_u8 P op (ki_key_len i) s) (\<lambda>klen s.
    pbind (proc_key P klen op (ki_key i) s) (\<lambda>key s.
    pbind (hg_u32 P op (ki_osize i) s) (\<lambda>osize s.
    pbind (hg_u8 P op (ki_store_flags i) s) (\<lambda>fl s.
    pbind (hg_u32 P op (ki_value_len i) s) (\<lambda>vlen s.
    pbind (nkvx_proc_opaque P op
            (ki_value_inline i, if vlen \<le> nkvx_inline_max then vlen else 0) s) (\<lambda>bl s.
    pbind (hg_bulk P op (ki_value_bulk i) s) (\<lambda>vb s.
    pbind (hg_bulk P op (ki_result_sink i) s) (\<lambda>rs s.
      Inr (\<lparr>ki_verb = verb, ki_read_only = ro, ki_client_call_id = cid, ki_key_len = klen,
            ki_key = key, ki_osize = osize, ki_store_flags = fl, ki_value_len = vlen,
            ki_value_inline = fst bl, ki_value_bulk = vb, ki_result_sink = rs\<rparr>, s))))))))))))"

definition hg_proc_nkvx_kv_out_t :: "'h hg_prims \<Rightarrow> kv_out hg_field" where
  "hg_proc_nkvx_kv_out_t P op out s =
    pbind (hg_i32 P op (ko_status out) s) (\<lambda>st s.
    pbind (hg_u32 P op (ko_result_len out) s) (\<lambda>rl s.
    pbind (nkvx_proc_opaque P op (ko_result_inline out, ko_result_inline_len out) s) (\<lambda>bl s.
      Inr (\<lparr>ko_status = st, ko_result_len = rl, ko_result_inline_len = snd bl,
            ko_result_inline = fst bl\<rparr>, s))))"

definition hg_proc_nkvx_exec_in_t :: "'h hg_prims \<Rightarrow> 'h exec_in hg_field" where
  "hg_proc_nkvx_exec_in_t P op i s =
    pbind (hg_u32 P op (ei_op_id i) s) (\<lambda>opid s.
    pbind (hg_u64 P op (ei_client_call_id i) s) (\<lambda>cid s.
    pbind (hg_u8 P op (ei_read_only i) s) (\<lambda>ro s.
    pbind (hg_u8 P op (ei_runtime i) s) (\<lambda>rt s.
    pbind (hg_u64 P op (ei_caps i) s) (\<lambda>caps s.
    pbind (hg_u8 P op (ei_key_len i) s) (\<lambda>klen s.
    pbind (proc_key P klen op (ei_key i) s) (\<lambda>key s.
    pbind (hg_bytes P sha256_len op (ei_sha256 i) s) (\<lambda>sha s.
    pbind (hg_u8 P op (ei_sha256_valid i) s) (\<lambda>sv s.
    pbind (nkvx_proc_string P op (ei_module_key i) s) (\<lambda>mk s.
    pbind (nkvx_proc_string P op (ei_module_ns i) s) (\<lambda>mn s.
    pbind (hg_u32 P op (ei_osize i) s) (\<lambda>osize s.
    pbind (hg_u32 P op (ei_input_len i) s) (\<lambda>ilen s.
    pbind (nkvx_proc_opaque P op
            (ei_input_inline i, if ilen \<le> nkvx_inline_max then ilen else 0) s) (\<lambda>bl s.
    pbind (hg_bulk P op (ei_input_bulk i) s) (\<lambda>ib s.
    pbind (hg_bulk P op (ei_result_sink i) s) (\<lambda>rs s.
      Inr (\<lparr>ei_op_id = opid, ei_client_call_id = cid, ei_read_only = ro, ei_runtime = rt,
            ei_caps = caps, ei_key_len = klen, ei_key = key, ei_sha256 = sha,
            ei_sha256_valid = sv, ei_module_key = mk, ei_module_ns = mn, ei_osize = osize,
            ei_input_len = ilen, ei_input_inline = fst bl, ei_input_bulk = ib,
            ei_result_sink = rs\<rparr>, s)))))))))))))))))"

definition hg_proc_nkvx_exec_out_t :: "'h hg_prims \<Rightarrow> exec_out hg_field" where
  "hg_proc_nkvx_exec_out_t P op out s =
    pbind (hg_i32 P op (eo_status out) s) (\<lambda>st s.
    pbind (hg_u32 P op (eo_result_len out) s) (\<lambda>rl s.
    pbind (nkvx_proc_opaque P op (eo_result_inline out, eo_result_inline_len out) s) (\<lambda>bl s.
      Inr (\<lparr>eo_status = st, eo_result_len = rl, eo_result_inline_len = snd bl,
            eo_result_inline = fst bl\<rparr>, s))))"

definition hg_proc_nkvx_cancel_in_t :: "'h hg_prims \<Rightarrow> nat hg_field" where
  "hg_proc_nkvx_cancel_in_t P op call_id s = hg_u64 P op call_id s"

definition hg_proc_nkvx_cancel_out_t :: "'h hg_prims \<Rightarrow> int hg_field" where
  "hg_proc_nkvx_cancel_out_t P op ack s = hg_i32 P op ack s"

text \<open>The \<^verbatim>\<open>_free\<close> helpers release the heap fields and clear the pointers.\<close>

definition nkvx_kv_in_free :: "'h kv_in \<Rightarrow> 'h kv_in" where
  "nkvx_kv_in_free i = i\<lparr>ki_value_inline := None\<rparr>"

definition nkvx_kv_out_free :: "kv_out \<Rightarrow> kv_out" where
  "nkvx_kv_out_free out = out\<lparr>ko_result_inline := None, ko_result_inline_len := 0\<rparr>"

definition nkvx_exec_in_free :: "'h exec_in \<Rightarrow> 'h exec_in" where
  "nkvx_exec_in_free i = i\<lparr>ei_module_key := None, ei_module_ns := None, ei_input_inline := None\<rparr>"

definition nkvx_exec_out_free :: "exec_out \<Rightarrow> exec_out" where
  "nkvx_exec_out_free out = out\<lparr>eo_result_inline := None, eo_result_inline_len := 0\<rparr>"

section \<open>Well-formed envelopes\<close>

text \<open>
  What the front and the executor build: every scalar in the range of its C type, the
  key within its fixed buffer, and inline bytes present exactly when the length says so.
\<close>

definition inline_wf :: "bytes option \<Rightarrow> nat \<Rightarrow> bool" where
  "inline_wf buf n \<longleftrightarrow>
    n < 2 ^ 32 \<and> (if n = 0 then buf = None else case buf of None \<Rightarrow> False | Some b \<Rightarrow> length b = n)"

definition kv_in_wf :: "'h kv_in \<Rightarrow> bool" where
  "kv_in_wf i \<longleftrightarrow>
    ki_verb i < 2 ^ 8 \<and> ki_read_only i < 2 ^ 8 \<and> ki_client_call_id i < 2 ^ 64 \<and>
    ki_key_len i \<le> exec_key_max_len \<and> length (ki_key i) = exec_key_max_len \<and>
    ki_osize i < 2 ^ 32 \<and> ki_store_flags i < 2 ^ 8 \<and> ki_value_len i < 2 ^ 32 \<and>
    inline_wf (ki_value_inline i) (if ki_value_len i \<le> nkvx_inline_max then ki_value_len i else 0)"

definition kv_out_wf :: "kv_out \<Rightarrow> bool" where
  "kv_out_wf out \<longleftrightarrow>
    - (2 ^ 31) \<le> ko_status out \<and> ko_status out < 2 ^ 31 \<and> ko_result_len out < 2 ^ 32 \<and>
    inline_wf (ko_result_inline out) (ko_result_inline_len out)"

definition exec_in_wf :: "'h exec_in \<Rightarrow> bool" where
  "exec_in_wf i \<longleftrightarrow>
    ei_op_id i < 2 ^ 32 \<and> ei_client_call_id i < 2 ^ 64 \<and> ei_read_only i < 2 ^ 8 \<and>
    ei_runtime i < 2 ^ 8 \<and> ei_caps i < 2 ^ 64 \<and>
    ei_key_len i \<le> exec_key_max_len \<and> length (ei_key i) = exec_key_max_len \<and>
    length (ei_sha256 i) = sha256_len \<and> ei_sha256_valid i < 2 ^ 8 \<and>
    ei_osize i < 2 ^ 32 \<and> ei_input_len i < 2 ^ 32 \<and>
    inline_wf (ei_input_inline i) (if ei_input_len i \<le> nkvx_inline_max then ei_input_len i else 0)"

definition exec_out_wf :: "exec_out \<Rightarrow> bool" where
  "exec_out_wf out \<longleftrightarrow>
    - (2 ^ 31) \<le> eo_status out \<and> eo_status out < 2 ^ 31 \<and> eo_result_len out < 2 ^ 32 \<and>
    inline_wf (eo_result_inline out) (eo_result_inline_len out)"

section \<open>Lemmas: the serializers\<close>

lemma pbind_Inr_iff: "pbind m f = Inr y \<longleftrightarrow> (\<exists>v s. m = Inr (v, s) \<and> f v s = Inr y)"
  by (cases "(m, f)" rule: pbind.cases) auto

lemma hg_encodesD:
  assumes "hg_encodes p okv enc" and "okv v"
  shows "p HG_ENCODE v s = Inr (v, s @ enc v)" and "p HG_DECODE z (enc v @ r) = Inr (v, r)"
  using assms unfolding hg_encodes_def by blast+

lemma hg_field_okE:
  assumes "hg_field_ok p okv"
  obtains enc where "hg_encodes p okv enc"
  using assms unfolding hg_field_ok_def by blast

lemma hg_field_okI:
  assumes "\<And>v s. okv v \<Longrightarrow> p HG_ENCODE v s = Inr (v, s @ enc v)"
    and "\<And>v z r. okv v \<Longrightarrow> p HG_DECODE z (enc v @ r) = Inr (v, r)"
  shows "hg_field_ok p okv"
  using assms unfolding hg_field_ok_def hg_encodes_def by blast

lemma hg_prims_okD:
  assumes "hg_prims_ok P"
  shows "hg_field_ok (hg_u8 P) (\<lambda>v. v < 2 ^ 8)"
    and "hg_field_ok (hg_u32 P) (\<lambda>v. v < 2 ^ 32)"
    and "hg_field_ok (hg_u64 P) (\<lambda>v. v < 2 ^ 64)"
    and "hg_field_ok (hg_i32 P) (\<lambda>v. - (2 ^ 31) \<le> v \<and> v < 2 ^ 31)"
    and "hg_field_ok (hg_string P) (\<lambda>_. True)"
    and "hg_field_ok (hg_bulk P) (\<lambda>_. True)"
    and "hg_field_ok (hg_bytes P n) (\<lambda>b. length b = n)"
    and "hg_malloc_ok P n"
  using assms unfolding hg_prims_ok_def by blast+

lemma nkvx_proc_opaque_ok:
  assumes "hg_prims_ok P"
  shows "hg_field_ok (nkvx_proc_opaque P) (\<lambda>bl. inline_wf (fst bl) (snd bl))"
proof -
  obtain e32 where e32: "hg_encodes (hg_u32 P) (\<lambda>v. v < 2 ^ 32) e32"
    by (rule hg_field_okE [OF hg_prims_okD(2) [OF assms]])
  have "\<forall>n. \<exists>eb. hg_encodes (hg_bytes P n) (\<lambda>b. length b = n) eb"
    using hg_prims_okD(7) [OF assms] unfolding hg_field_ok_def by (rule allI)
  then obtain eb where "\<forall>n. hg_encodes (hg_bytes P n) (\<lambda>b. length b = n) (eb n)"
    unfolding choice_iff by (rule exE)
  note eb = this [rule_format]
  define enc where "enc bl = e32 (snd bl) @ (case fst bl of None \<Rightarrow> [] | Some b \<Rightarrow> eb (snd bl) b)"
    for bl :: "bytes option \<times> nat"
  show ?thesis
    by (rule hg_field_okI [where enc = enc])
      (auto simp: inline_wf_def nkvx_proc_opaque_def buf_bytes_def enc_def
        hg_encodesD [OF e32] hg_encodesD [OF eb] hg_prims_okD(8) [OF assms]
        split: if_splits option.splits)
qed

lemma proc_key_encoder:
  assumes "hg_prims_ok P" and "n \<le> length key"
  obtains ek where "\<And>s. proc_key P n HG_ENCODE key s = Inr (key, s @ ek)"
    and "\<And>z r. proc_key P n HG_DECODE z (ek @ r) = Inr (memcpy_at 0 (take n key) z, r)"
proof -
  obtain eb where "hg_encodes (hg_bytes P n) (\<lambda>b. length b = n) eb"
    by (rule hg_field_okE [OF hg_prims_okD(7) [OF assms(1)]])
  note eb = hg_encodesD [OF this]
  show ?thesis
    by (rule that [of "if n > 0 then eb (take n key) else []"])
      (use assms(2) in \<open>auto simp: proc_key_def eb memcpy_at_zero min_absorb2\<close>)
qed

section \<open>A concrete serializer\<close>

text \<open>
  A little-endian instance of the Mercury interface, with one bulk handle, on which the
  round trips are evaluated.
\<close>

definition field_of :: "('a \<Rightarrow> bytes) \<Rightarrow> (bytes \<Rightarrow> ('a \<times> bytes) option) \<Rightarrow> 'a hg_field" where
  "field_of enc dec op v s =
    (case op of
      HG_ENCODE \<Rightarrow> Inr (v, s @ enc v)
    | HG_DECODE \<Rightarrow> (case dec s of None \<Rightarrow> Inl (HG_FAULT 1) | Some r \<Rightarrow> Inr r)
    | HG_FREE \<Rightarrow> Inr (v, s))"

definition le_dec :: "nat \<Rightarrow> bytes \<Rightarrow> (nat \<times> bytes) option" where
  "le_dec k s = (if length s < k then None else Some (le_val (take k s), drop k s))"

definition i32_enc :: "int \<Rightarrow> bytes" where
  "i32_enc v = le_bytes 4 (nat (v mod 2 ^ 32))"

definition i32_dec :: "bytes \<Rightarrow> (int \<times> bytes) option" where
  "i32_dec s = map_option (\<lambda>(n, r). (if n < 2 ^ 31 then int n else int n - 2 ^ 32, r)) (le_dec 4 s)"

primrec chars_enc :: "string \<Rightarrow> bytes" where
  "chars_enc [] = [0]"
| "chars_enc (c # cs) = 1 # word_of_nat (of_char c) # chars_enc cs"

fun chars_dec :: "bytes \<Rightarrow> (string \<times> bytes) option" where
  "chars_dec [] = None"
| "chars_dec [b] = (if b = 0 then Some ([], []) else None)"
| "chars_dec (b # c # s) =
    (if b = 0 then Some ([], c # s)
     else map_option (\<lambda>(cs, r). (char_of (unat c) # cs, r)) (chars_dec s))"

definition opt_enc :: "('a \<Rightarrow> bytes) \<Rightarrow> 'a option \<Rightarrow> bytes" where
  "opt_enc enc v = (case v of None \<Rightarrow> [0] | Some x \<Rightarrow> 1 # enc x)"

definition opt_dec :: "(bytes \<Rightarrow> ('a \<times> bytes) option) \<Rightarrow> bytes \<Rightarrow> ('a option \<times> bytes) option" where
  "opt_dec dec s =
    (case s of
      [] \<Rightarrow> None
    | b # r \<Rightarrow> if b = 0 then Some (None, r) else map_option (\<lambda>(x, q). (Some x, q)) (dec r))"

definition le_prims :: "unit hg_prims" where
  "le_prims = \<lparr>
    hg_u8 = field_of (le_bytes 1) (le_dec 1),
    hg_u32 = field_of (le_bytes 4) (le_dec 4),
    hg_u64 = field_of (le_bytes 8) (le_dec 8),
    hg_i32 = field_of i32_enc i32_dec,
    hg_string = field_of (opt_enc chars_enc) (opt_dec chars_dec),
    hg_bulk = field_of (opt_enc (\<lambda>_. [])) (opt_dec (\<lambda>s. Some ((), s))),
    hg_bytes = (\<lambda>n. field_of (\<lambda>b. b) (\<lambda>s. if length s < n then None else Some (take n s, drop n s))),
    hg_malloc_ok = (\<lambda>_. True)\<rparr>"

lemma field_of_ok: "(\<And>v r. okv v \<Longrightarrow> dec (enc v @ r) = Some (v, r)) \<Longrightarrow> hg_field_ok (field_of enc dec) okv"
  by (rule hg_field_okI [where enc = enc]) (simp_all add: field_of_def)

lemma le_dec_le_bytes: "v < 256 ^ k \<Longrightarrow> le_dec k (le_bytes k v @ r) = Some (v, r)"
  by (simp add: le_dec_def le_val_le_bytes)

lemma i32_dec_enc: "- (2 ^ 31) \<le> v \<Longrightarrow> v < 2 ^ 31 \<Longrightarrow> i32_dec (i32_enc v @ r) = Some (v, r)"
proof -
  assume b: "- (2 ^ 31) \<le> v" "v < 2 ^ 31"
  have "nat (v mod 2 ^ 32) < 256 ^ 4"
    by (simp add: nat_less_iff)
  then have "le_dec 4 (i32_enc v @ r) = Some (nat (v mod 2 ^ 32), r)"
    by (simp only: i32_enc_def le_dec_le_bytes)
  moreover have "v mod 2 ^ 32 = (if 0 \<le> v then v else v + 2 ^ 32)"
    using b mod_pos_pos_trivial [of v "2 ^ 32"] mod_pos_pos_trivial [of "v + 2 ^ 32" "2 ^ 32"]
    by (simp split: if_splits)
  ultimately show ?thesis
    using b by (auto simp: i32_dec_def)
qed

lemma chars_dec_enc: "chars_dec (chars_enc cs @ r) = Some (cs, r)"
proof (induction cs)
  case Nil
  then show ?case by (cases r) simp_all
next
  case (Cons c cs)
  have "unat (word_of_nat (of_char c) :: byte) = of_char c"
    using of_char_mod_256 [of c, where 'a = nat] by (simp add: unat_of_nat)
  then show ?case
    using Cons by simp
qed

lemma opt_dec_enc: "(\<And>x r. dec (enc x @ r) = Some (x, r)) \<Longrightarrow> opt_dec dec (opt_enc enc v @ r) = Some (v, r)"
  by (cases v) (simp_all add: opt_dec_def opt_enc_def)

lemma le_prims_ok: "hg_prims_ok le_prims"
  unfolding hg_prims_ok_def le_prims_def
  using le_dec_le_bytes [of _ 1] le_dec_le_bytes [of _ 4] le_dec_le_bytes [of _ 8]
  by (auto intro!: field_of_ok simp: i32_dec_enc chars_dec_enc opt_dec_enc simp del: le_bytes.simps)

section \<open>Round trips\<close>

lemma kv_in_encoder:
  assumes "hg_prims_ok P" and "kv_in_wf i"
  shows "\<exists>bs. (\<forall>s. hg_proc_nkvx_kv_in_t P HG_ENCODE i s = Inr (i, s @ bs)) \<and>
    (\<forall>z r. hg_proc_nkvx_kv_in_t P HG_DECODE z (bs @ r) =
      Inr (i\<lparr>ki_key := memcpy_at 0 (take (ki_key_len i) (ki_key i)) (ki_key z)\<rparr>, r))"
proof -
  obtain e8 where e8: "hg_encodes (hg_u8 P) (\<lambda>v. v < 2 ^ 8) e8"
    by (rule hg_field_okE [OF hg_prims_okD(1) [OF assms(1)]])
  obtain e32 where e32: "hg_encodes (hg_u32 P) (\<lambda>v. v < 2 ^ 32) e32"
    by (rule hg_field_okE [OF hg_prims_okD(2) [OF assms(1)]])
  obtain e64 where e64: "hg_encodes (hg_u64 P) (\<lambda>v. v < 2 ^ 64) e64"
    by (rule hg_field_okE [OF hg_prims_okD(3) [OF assms(1)]])
  obtain ebulk where ebulk: "hg_encodes (hg_bulk P) (\<lambda>_. True) ebulk"
    by (rule hg_field_okE [OF hg_prims_okD(6) [OF assms(1)]])
  obtain eo where eo: "hg_encodes (nkvx_proc_opaque P) (\<lambda>bl. inline_wf (fst bl) (snd bl)) eo"
    by (rule hg_field_okE [OF nkvx_proc_opaque_ok [OF assms(1)]])
  obtain ek where ek:
    "\<And>s. proc_key P (ki_key_len i) HG_ENCODE (ki_key i) s = Inr (ki_key i, s @ ek)"
    "\<And>z r. proc_key P (ki_key_len i) HG_DECODE z (ek @ r) =
      Inr (memcpy_at 0 (take (ki_key_len i) (ki_key i)) z, r)"
    by (rule proc_key_encoder [OF assms(1), of "ki_key_len i" "ki_key i"])
      (use assms(2) in \<open>simp_all add: kv_in_wf_def\<close>)
  let ?il = "(ki_value_inline i, if ki_value_len i \<le> nkvx_inline_max then ki_value_len i else 0)"
  let ?bs = "e8 (ki_verb i) @ e8 (ki_read_only i) @ e64 (ki_client_call_id i) @ e8 (ki_key_len i) @ ek
    @ e32 (ki_osize i) @ e8 (ki_store_flags i) @ e32 (ki_value_len i) @ eo ?il
    @ ebulk (ki_value_bulk i) @ ebulk (ki_result_sink i)"
  show ?thesis
    using assms(2)
    by (intro exI [where x = ?bs])
      (simp add: hg_proc_nkvx_kv_in_t_def kv_in_wf_def exec_key_max_len_def ek hg_encodesD [OF e8]
        hg_encodesD [OF e32] hg_encodesD [OF e64] hg_encodesD [OF ebulk] hg_encodesD [OF eo])
qed

text \<open>
  A KV-verb request that the front encodes is the request the executor decodes:
  every field arrives, the inline value included, and exactly the encoded bytes are
  consumed. Of the fixed 255-byte key buffer the first \<^verbatim>\<open>key_len\<close> bytes arrive.
\<close>

theorem kv_in_roundtrip:
  assumes "hg_prims_ok P" and "kv_in_wf i"
  shows "\<exists>bs. (\<forall>s. hg_proc_nkvx_kv_in_t P HG_ENCODE i s = Inr (i, s @ bs)) \<and>
    (\<forall>z r. hg_proc_nkvx_kv_in_t P HG_DECODE z (bs @ r) =
      Inr (i\<lparr>ki_key := memcpy_at 0 (take (ki_key_len i) (ki_key i)) (ki_key z)\<rparr>, r))"
  using assms by (rule kv_in_encoder)

definition kv_in_example :: "unit kv_in" where
  "kv_in_example = \<lparr>ki_verb = verb_code VERB_STORE, ki_read_only = 0, ki_client_call_id = 7,
    ki_key_len = 2, ki_key = [0xca, 0xfe] @ replicate 253 0, ki_osize = 0, ki_store_flags = 2,
    ki_value_len = 3, ki_value_inline = Some [1, 2, 3], ki_value_bulk = None,
    ki_result_sink = Some ()\<rparr>"

lemma kv_in_example_wf: "kv_in_wf kv_in_example"
  by (simp add: kv_in_wf_def kv_in_example_def exec_key_max_len_def inline_wf_def nkvx_inline_max_def)

theorem kv_in_roundtrip_witness:
  "hg_prims_ok le_prims \<and> kv_in_wf kv_in_example \<and>
   (\<exists>bs. (\<forall>s. hg_proc_nkvx_kv_in_t le_prims HG_ENCODE kv_in_example s = Inr (kv_in_example, s @ bs)) \<and>
    (\<forall>z r. hg_proc_nkvx_kv_in_t le_prims HG_DECODE z (bs @ r) =
      Inr (kv_in_example\<lparr>ki_key := memcpy_at 0 (take (ki_key_len kv_in_example) (ki_key kv_in_example)) (ki_key z)\<rparr>, r)))"
  by (intro conjI le_prims_ok kv_in_example_wf kv_in_roundtrip)

text \<open>
  An Exec request survives the wire: op id, call id, read-only bit, runtime, tier,
  key, content hash and its validity flag, the module locator strings (NULL included),
  the output cap, the inline input and both bulk handles.
\<close>

theorem exec_in_roundtrip:
  assumes "hg_prims_ok P" and "exec_in_wf i"
  shows "\<exists>bs. (\<forall>s. hg_proc_nkvx_exec_in_t P HG_ENCODE i s = Inr (i, s @ bs)) \<and>
    (\<forall>z r. hg_proc_nkvx_exec_in_t P HG_DECODE z (bs @ r) =
      Inr (i\<lparr>ei_key := memcpy_at 0 (take (ei_key_len i) (ei_key i)) (ei_key z)\<rparr>, r))"
proof -
  obtain e8 where e8: "hg_encodes (hg_u8 P) (\<lambda>v. v < 2 ^ 8) e8"
    by (rule hg_field_okE [OF hg_prims_okD(1) [OF assms(1)]])
  obtain e32 where e32: "hg_encodes (hg_u32 P) (\<lambda>v. v < 2 ^ 32) e32"
    by (rule hg_field_okE [OF hg_prims_okD(2) [OF assms(1)]])
  obtain e64 where e64: "hg_encodes (hg_u64 P) (\<lambda>v. v < 2 ^ 64) e64"
    by (rule hg_field_okE [OF hg_prims_okD(3) [OF assms(1)]])
  obtain estr where estr: "hg_encodes (hg_string P) (\<lambda>_. True) estr"
    by (rule hg_field_okE [OF hg_prims_okD(5) [OF assms(1)]])
  obtain ebulk where ebulk: "hg_encodes (hg_bulk P) (\<lambda>_. True) ebulk"
    by (rule hg_field_okE [OF hg_prims_okD(6) [OF assms(1)]])
  obtain esha where esha: "hg_encodes (hg_bytes P sha256_len) (\<lambda>b. length b = sha256_len) esha"
    by (rule hg_field_okE [OF hg_prims_okD(7) [OF assms(1)]])
  obtain eo where eo: "hg_encodes (nkvx_proc_opaque P) (\<lambda>bl. inline_wf (fst bl) (snd bl)) eo"
    by (rule hg_field_okE [OF nkvx_proc_opaque_ok [OF assms(1)]])
  obtain ek where ek:
    "\<And>s. proc_key P (ei_key_len i) HG_ENCODE (ei_key i) s = Inr (ei_key i, s @ ek)"
    "\<And>z r. proc_key P (ei_key_len i) HG_DECODE z (ek @ r) =
      Inr (memcpy_at 0 (take (ei_key_len i) (ei_key i)) z, r)"
    by (rule proc_key_encoder [OF assms(1), of "ei_key_len i" "ei_key i"])
      (use assms(2) in \<open>simp_all add: exec_in_wf_def\<close>)
  let ?il = "(ei_input_inline i, if ei_input_len i \<le> nkvx_inline_max then ei_input_len i else 0)"
  let ?bs = "e32 (ei_op_id i) @ e64 (ei_client_call_id i) @ e8 (ei_read_only i) @ e8 (ei_runtime i)
    @ e64 (ei_caps i) @ e8 (ei_key_len i) @ ek @ esha (ei_sha256 i) @ e8 (ei_sha256_valid i)
    @ estr (ei_module_key i) @ estr (ei_module_ns i) @ e32 (ei_osize i) @ e32 (ei_input_len i)
    @ eo ?il @ ebulk (ei_input_bulk i) @ ebulk (ei_result_sink i)"
  show ?thesis
    using assms(2)
    by (intro exI [where x = ?bs])
      (simp add: hg_proc_nkvx_exec_in_t_def nkvx_proc_string_def exec_in_wf_def exec_key_max_len_def ek
        hg_encodesD [OF e8] hg_encodesD [OF e32] hg_encodesD [OF e64] hg_encodesD [OF ebulk]
        hg_encodesD [OF estr] hg_encodesD [OF esha] hg_encodesD [OF eo])
qed

definition exec_in_example :: "unit exec_in" where
  "exec_in_example = \<lparr>ei_op_id = 9, ei_client_call_id = 7, ei_read_only = 1, ei_runtime = 1,
    ei_caps = 3, ei_key_len = 1, ei_key = [0xab] @ replicate 254 0, ei_sha256 = replicate 32 5,
    ei_sha256_valid = 1, ei_module_key = Some ''bytecount'', ei_module_ns = None, ei_osize = 64,
    ei_input_len = 2, ei_input_inline = Some [4, 5], ei_input_bulk = None, ei_result_sink = Some ()\<rparr>"

lemma exec_in_example_wf: "exec_in_wf exec_in_example"
  by (simp add: exec_in_wf_def exec_in_example_def exec_key_max_len_def sha256_len_def inline_wf_def
      nkvx_inline_max_def)

theorem exec_in_roundtrip_witness:
  "hg_prims_ok le_prims \<and> exec_in_wf exec_in_example \<and>
   (\<exists>bs. (\<forall>s. hg_proc_nkvx_exec_in_t le_prims HG_ENCODE exec_in_example s = Inr (exec_in_example, s @ bs)) \<and>
    (\<forall>z r. hg_proc_nkvx_exec_in_t le_prims HG_DECODE z (bs @ r) =
      Inr (exec_in_example\<lparr>ei_key := memcpy_at 0 (take (ei_key_len exec_in_example) (ei_key exec_in_example)) (ei_key z)\<rparr>, r)))"
  by (intro conjI le_prims_ok exec_in_example_wf exec_in_roundtrip)

lemma kv_out_encoder:
  assumes "hg_prims_ok P"
  shows "hg_field_ok (hg_proc_nkvx_kv_out_t P) kv_out_wf"
proof -
  obtain ei where ei: "hg_encodes (hg_i32 P) (\<lambda>v. - (2 ^ 31) \<le> v \<and> v < 2 ^ 31) ei"
    by (rule hg_field_okE [OF hg_prims_okD(4) [OF assms]])
  obtain e32 where e32: "hg_encodes (hg_u32 P) (\<lambda>v. v < 2 ^ 32) e32"
    by (rule hg_field_okE [OF hg_prims_okD(2) [OF assms]])
  obtain eo where eo: "hg_encodes (nkvx_proc_opaque P) (\<lambda>bl. inline_wf (fst bl) (snd bl)) eo"
    by (rule hg_field_okE [OF nkvx_proc_opaque_ok [OF assms]])
  show ?thesis
    by (rule hg_field_okI [where enc = "\<lambda>out. ei (ko_status out) @ e32 (ko_result_len out)
          @ eo (ko_result_inline out, ko_result_inline_len out)"])
      (simp_all add: hg_proc_nkvx_kv_out_t_def kv_out_wf_def hg_encodesD [OF ei] hg_encodesD [OF e32]
        hg_encodesD [OF eo])
qed

lemma status_code_range: "- (2 ^ 31) \<le> status_code s \<and> status_code s < 2 ^ 31"
  by (cases s) simp_all

text \<open>
  The status the executor answers a KV verb with is the status the front maps to the
  tenant completion, with the true result length and the inline bytes: encode, decode and
  \<^verbatim>\<open>nkvx_status_from_wire\<close> compose to the identity on every status.
\<close>

theorem kv_response_roundtrip:
  assumes "hg_prims_ok P" and "ko_status out = nkvx_status_to_wire (status_code st)"
    and "ko_result_len out < 2 ^ 32" and "inline_wf (ko_result_inline out) (ko_result_inline_len out)"
  shows "\<exists>bs. (\<forall>s. hg_proc_nkvx_kv_out_t P HG_ENCODE out s = Inr (out, s @ bs)) \<and>
    (\<forall>z r. \<exists>out'. hg_proc_nkvx_kv_out_t P HG_DECODE z (bs @ r) = Inr (out', r) \<and>
      nkvx_status_from_wire (ko_status out') = st \<and> ko_result_len out' = ko_result_len out \<and>
      ko_result_inline out' = ko_result_inline out)"
proof -
  obtain enc where enc: "hg_encodes (hg_proc_nkvx_kv_out_t P) kv_out_wf enc"
    by (rule hg_field_okE [OF kv_out_encoder [OF assms(1)]])
  have "kv_out_wf out"
    using assms(2-4) status_code_range [of st] by (simp add: kv_out_wf_def)
  then show ?thesis
    using assms(2) by (intro exI [where x = "enc out"]) (simp add: hg_encodesD [OF enc])
qed

theorem kv_response_roundtrip_witness:
  "\<exists>bs. (\<forall>s. hg_proc_nkvx_kv_out_t le_prims HG_ENCODE
      \<lparr>ko_status = - 3, ko_result_len = 9, ko_result_inline_len = 2, ko_result_inline = Some [1, 2]\<rparr> s =
      Inr (\<lparr>ko_status = - 3, ko_result_len = 9, ko_result_inline_len = 2,
            ko_result_inline = Some [1, 2]\<rparr>, s @ bs)) \<and>
    (\<forall>z r. \<exists>out'. hg_proc_nkvx_kv_out_t le_prims HG_DECODE z (bs @ r) = Inr (out', r) \<and>
      nkvx_status_from_wire (ko_status out') = IO_BUFFER_TOO_SMALL \<and> ko_result_len out' = 9 \<and>
      ko_result_inline out' = Some [1, 2])"
  using kv_response_roundtrip [OF le_prims_ok, of "\<lparr>ko_status = - 3, ko_result_len = 9,
      ko_result_inline_len = 2, ko_result_inline = Some [1, 2]\<rparr>" IO_BUFFER_TOO_SMALL]
  by (simp add: inline_wf_def nkvx_status_to_wire_def)

text \<open>
  The decoder takes the length of the inline value from the opaque blob and never
  compares it with \<^verbatim>\<open>value_len\<close>: a peer can send a request that decodes successfully with
  a declared value length of \<open>n\<close> and an inline buffer of any other length \<open>m\<close>. The
  executor's Store then reads \<^verbatim>\<open>value_len\<close> bytes from that buffer.
\<close>

theorem kv_in_inline_len_unchecked:
  fixes P :: "'h hg_prims" and i :: "'h kv_in"
  assumes "hg_prims_ok P" and "kv_in_wf i" and "n < 2 ^ 32" and "inline_wf b m"
  shows "\<exists>bs. \<forall>z r. \<exists>i'. hg_proc_nkvx_kv_in_t P HG_DECODE z (bs @ r) = Inr (i', r) \<and>
    ki_value_len i' = n \<and> ki_value_inline i' = b"
proof -
  obtain e8 where e8: "hg_encodes (hg_u8 P) (\<lambda>v. v < 2 ^ 8) e8"
    by (rule hg_field_okE [OF hg_prims_okD(1) [OF assms(1)]])
  obtain e32 where e32: "hg_encodes (hg_u32 P) (\<lambda>v. v < 2 ^ 32) e32"
    by (rule hg_field_okE [OF hg_prims_okD(2) [OF assms(1)]])
  obtain e64 where e64: "hg_encodes (hg_u64 P) (\<lambda>v. v < 2 ^ 64) e64"
    by (rule hg_field_okE [OF hg_prims_okD(3) [OF assms(1)]])
  obtain ebulk where ebulk: "hg_encodes (hg_bulk P) (\<lambda>_. True) ebulk"
    by (rule hg_field_okE [OF hg_prims_okD(6) [OF assms(1)]])
  obtain eo where eo: "hg_encodes (nkvx_proc_opaque P) (\<lambda>bl. inline_wf (fst bl) (snd bl)) eo"
    by (rule hg_field_okE [OF nkvx_proc_opaque_ok [OF assms(1)]])
  obtain ek where ek:
    "\<And>s. proc_key P (ki_key_len i) HG_ENCODE (ki_key i) s = Inr (ki_key i, s @ ek)"
    "\<And>z r. proc_key P (ki_key_len i) HG_DECODE z (ek @ r) =
      Inr (memcpy_at 0 (take (ki_key_len i) (ki_key i)) z, r)"
    by (rule proc_key_encoder [OF assms(1), of "ki_key_len i" "ki_key i"])
      (use assms(2) in \<open>simp_all add: kv_in_wf_def\<close>)
  let ?bs = "e8 (ki_verb i) @ e8 (ki_read_only i) @ e64 (ki_client_call_id i) @ e8 (ki_key_len i) @ ek
    @ e32 (ki_osize i) @ e8 (ki_store_flags i) @ e32 n @ eo (b, m)
    @ ebulk (ki_value_bulk i) @ ebulk (ki_result_sink i)"
  show ?thesis
    using assms(2-4)
    by (intro exI [where x = ?bs])
      (simp add: hg_proc_nkvx_kv_in_t_def kv_in_wf_def exec_key_max_len_def ek hg_encodesD [OF e8]
        hg_encodesD [OF e32] hg_encodesD [OF e64] hg_encodesD [OF ebulk] hg_encodesD [OF eo])
qed

theorem kv_in_inline_len_unchecked_witness:
  "\<exists>bs. \<forall>z r. \<exists>i'. hg_proc_nkvx_kv_in_t le_prims HG_DECODE z (bs @ r) = Inr (i', r) \<and>
    ki_value_len i' = 4096 \<and> ki_value_inline i' = Some [7]"
  using kv_in_inline_len_unchecked [OF le_prims_ok kv_in_example_wf, of 4096 "Some [7]" 1]
  by (simp add: inline_wf_def)

end
