(* ===== verification/Bdev.thy ===== *)
theory Bdev
  imports Rpc
begin

text \<open>
  The forwarder bdev of \<^verbatim>\<open>target/bdev_kvrados.c\<close>: it parses the in-payload key out of the
  host scatter list, applies the read-only and Exec allowlist gates, and forwards the verb
  to the executor through the front bridge.

  A scatter list is the list of its segments' contents. A handler returns what becomes of
  the I/O: \<open>Completed\<close> with DW0 and an NVMe status, or \<open>Forwarded\<close> with the request the front
  bridge accepted; the completion callbacks \<open>kvrados_retrieve_done\<close> and \<open>kvrados_exec_done\<close> give
  the completion of a forwarded request. What the forwarder takes from outside it (whether
  an allocation succeeds, the bridge's submit code and cancel token, and how \<^verbatim>\<open>sscanf\<close> reads a
  bare \<^verbatim>\<open>0x\<close>, on which C libraries differ) is the record \<open>bdev_env\<close>. The model is the
  \<^verbatim>\<open>NKVX_WITH_MERCURY\<close> build.
\<close>

section \<open>NVMe vocabulary\<close>

datatype nvme_sct = SCT_GENERIC | SCT_COMMAND_SPECIFIC

datatype nvme_sc =
    SC_SUCCESS | SC_INVALID_OPCODE | SC_INVALID_FIELD | SC_INTERNAL_DEVICE_ERROR
  | SC_ABORTED_BY_REQUEST | SC_INVALID_NAMESPACE_OR_FORMAT | SC_INVALID_KEY_SIZE
  | SC_KV_KEY_DOES_NOT_EXIST | SC_KEY_EXISTS | SC_CAPACITY_EXCEEDED
  | SC_ATTEMPTED_WRITE_TO_RO_RANGE

type_synonym nvme_status = "nvme_sct \<times> nvme_sc"

datatype nvme_opc = KV_STORE | KV_RETRIEVE | KV_LIST | KV_DELETE | KV_EXIST | KV_EXEC | OPC_IDENTIFY | OPC_OTHER nat

record nvme_cmd =
  cmd_opc :: nvme_opc
  cmd_nsid :: nat
  cmd_dont_store_if_not_exists :: bool
  cmd_dont_store_if_exists :: bool
  cmd_cdw12 :: nat
  cmd_cdw13 :: nat

definition kvrados_kvdev_status_to_nvme :: "io_status \<Rightarrow> nvme_status" where
  "kvrados_kvdev_status_to_nvme status =
    (case status of
      IO_SUCCESS \<Rightarrow> (SCT_GENERIC, SC_SUCCESS)
    | IO_KEY_NOT_EXIST \<Rightarrow> (SCT_COMMAND_SPECIFIC, SC_KV_KEY_DOES_NOT_EXIST)
    | IO_KEY_EXIST \<Rightarrow> (SCT_COMMAND_SPECIFIC, SC_KEY_EXISTS)
    | IO_BUFFER_TOO_SMALL \<Rightarrow> (SCT_COMMAND_SPECIFIC, SC_CAPACITY_EXCEEDED)
    | IO_INVALID \<Rightarrow> (SCT_GENERIC, SC_INVALID_FIELD)
    | IO_NOMEM \<Rightarrow> (SCT_GENERIC, SC_INTERNAL_DEVICE_ERROR)
    | IO_NOT_SUPPORTED \<Rightarrow> (SCT_GENERIC, SC_INVALID_OPCODE)
    | IO_READ_ONLY \<Rightarrow> (SCT_COMMAND_SPECIFIC, SC_ATTEMPTED_WRITE_TO_RO_RANGE)
    | IO_ABORTED \<Rightarrow> (SCT_GENERIC, SC_ABORTED_BY_REQUEST)
    | IO_FAILED \<Rightarrow> (SCT_GENERIC, SC_INTERNAL_DEVICE_ERROR))"

section \<open>The disk, its channel, and requests\<close>

record exec_binding =
  eb_op_id :: nat
  eb_binding :: "string option"
  eb_runtime :: "string option"
  eb_module_namespace :: "string option"
  eb_module_key :: "string option"
  eb_sha256 :: "string option"
  eb_caps :: nat

record kvrados_disk =
  kd_max_key_size :: nat
  kd_max_value_size :: nat
  kd_optimal_value_granularity :: nat
  kd_num_keys :: nat
  kd_executor_endpoint :: "string option"
  kd_read_only :: bool
  kd_exec_allowlist :: "exec_binding list"
  kd_nsid :: nat
  kd_blocklen :: nat
  kd_blockcnt :: nat

record resolved_binding =
  rb_runtime :: exec_runtime
  rb_module_ns :: "string option"
  rb_module_key :: "string option"
  rb_sha256 :: bytes
  rb_sha256_valid :: bool
  rb_caps :: nat

text \<open>
  A result sink is a host address (segment index and offset in it) or NULL, with a length.
\<close>

record sink =
  sk_addr :: "(nat \<times> nat) option"
  sk_len :: nat

record exec_request =
  xr_key :: bytes
  xr_op_id :: nat
  xr_read_only :: bool
  xr_runtime :: exec_runtime
  xr_module_key :: "string option"
  xr_module_ns :: "string option"
  xr_sha256 :: "bytes option"
  xr_caps :: nat
  xr_input :: "bytes option"
  xr_input_len :: nat
  xr_sink :: sink

datatype kv_request =
    Req_Retrieve bytes bool sink
  | Req_Store bytes bool nat "bytes option" nat
  | Req_Delete bytes bool
  | Req_Exist bytes bool
  | Req_List bytes bool sink
  | Req_Exec exec_request

datatype io_outcome = Completed nat nvme_status | Forwarded kv_request

record io_ctx =
  kc_io :: nat
  kc_cancel_token :: nat

record kvrados_channel =
  ch_front :: bool
  ch_exec_inflight :: "io_ctx list"

record bdev_env =
  be_malloc_ok :: "nat \<Rightarrow> bool"
  be_calloc_ok :: bool
  be_front_rc :: "kv_request \<Rightarrow> int"
  be_front_token :: "exec_request \<Rightarrow> nat"
  be_sscanf_0x :: "nat option"

abbreviation internal_error :: io_outcome where
  "internal_error \<equiv> Completed 0 (SCT_GENERIC, SC_INTERNAL_DEVICE_ERROR)"

abbreviation invalid_field :: io_outcome where
  "invalid_field \<equiv> Completed 0 (SCT_GENERIC, SC_INVALID_FIELD)"

abbreviation invalid_opcode :: io_outcome where
  "invalid_opcode \<equiv> Completed 0 (SCT_GENERIC, SC_INVALID_OPCODE)"

section \<open>Payload parsing\<close>

definition key_hdr_len :: nat where
  "key_hdr_len = 2"

primrec gather_loop :: "bytes list \<Rightarrow> nat \<Rightarrow> nat \<Rightarrow> bytes \<Rightarrow> nat \<Rightarrow> bytes" where
  "gather_loop [] off pos out n = out"
| "gather_loop (seg # iovs) off pos out n =
    (if length out < n
     then (if off \<ge> pos + length seg
           then gather_loop iovs off (pos + length seg) out n
           else (let seg_off = (if off > pos then off - pos else 0);
                     avail = length seg - seg_off;
                     tk = u32 (min avail (n - length out))
                 in gather_loop iovs (pos + length seg) (pos + length seg)
                      (out @ take tk (drop seg_off seg)) n))
     else out)"

text \<open>\<^verbatim>\<open>kvrados_gather\<close>: the bytes written to the destination; its length is the C result.\<close>

definition kvrados_gather :: "bytes list \<Rightarrow> nat \<Rightarrow> nat \<Rightarrow> bytes" where
  "kvrados_gather iovs off n = gather_loop iovs off 0 [] n"

text \<open>\<^verbatim>\<open>kvrados_parse_inpayload_key\<close>: the key and the value offset, or \<^const>\<open>None\<close> for 0.\<close>

definition kvrados_parse_inpayload_key :: "bytes list \<Rightarrow> nat \<Rightarrow> (bytes \<times> nat) option" where
  "kvrados_parse_inpayload_key iovs payload_len =
    (if payload_len < key_hdr_len then None
     else let hdr = kvrados_gather iovs 0 key_hdr_len in
       if length hdr \<noteq> key_hdr_len then None
       else let key_len = le_val hdr in
         if key_len = 0 \<or> key_len > exec_key_max_len then None
         else if payload_len < key_hdr_len + key_len then None
         else let key = kvrados_gather iovs key_hdr_len key_len in
           if length key \<noteq> key_len then None
           else Some (key, key_hdr_len + key_len))"

definition kvrados_decode_store_flags :: "nvme_cmd \<Rightarrow> nat" where
  "kvrados_decode_store_flags cmd =
    (if cmd_dont_store_if_not_exists cmd then store_flag_sike else 0)
    + (if cmd_dont_store_if_exists cmd then store_flag_sinke else 0)"

definition kvrados_retrieve_done :: "io_status \<Rightarrow> nat \<Rightarrow> io_outcome" where
  "kvrados_retrieve_done status value_len = Completed value_len (kvrados_kvdev_status_to_nvme status)"

text \<open>The walk that finds the segment holding the value, shared by Retrieve and Store.\<close>

primrec span_walk :: "bytes list \<Rightarrow> nat \<Rightarrow> nat \<Rightarrow> nat \<Rightarrow> (nat \<times> nat \<times> nat) option" where
  "span_walk [] value_off io_off j = None"
| "span_walk (seg # iovs) value_off io_off j =
    (if value_off < io_off + length seg
     then (let in_iov = value_off - io_off in Some (j, in_iov, length seg - in_iov))
     else span_walk iovs value_off (io_off + length seg) (Suc j))"

section \<open>Exec bindings\<close>

primrec kvrados_exec_op_allowed :: "exec_binding list \<Rightarrow> nat \<Rightarrow> exec_binding option" where
  "kvrados_exec_op_allowed [] op_id = None"
| "kvrados_exec_op_allowed (e # es) op_id =
    (if eb_op_id e = op_id then Some e else kvrados_exec_op_allowed es op_id)"

text \<open>
  \<^verbatim>\<open>sscanf(s, "%2x", ...)\<close>: leading white space is skipped, then at most two characters are
  read: an optional sign, an optional \<^verbatim>\<open>0x\<close>, hexadecimal digits of either case.
\<close>

definition c_isspace :: "char \<Rightarrow> bool" where
  "c_isspace c \<longleftrightarrow> c \<in> set [CHR '' '', CHR 0x09, CHR 0x0A, CHR 0x0B, CHR 0x0C, CHR 0x0D]"

definition c_xdigit :: "char \<Rightarrow> nat option" where
  "c_xdigit c =
    (let n = of_char c :: nat in
     if 48 \<le> n \<and> n \<le> 57 then Some (n - 48)
     else if 97 \<le> n \<and> n \<le> 102 then Some (n - 87)
     else if 65 \<le> n \<and> n \<le> 70 then Some (n - 55)
     else None)"

definition sscanf_2x :: "nat option \<Rightarrow> string \<Rightarrow> nat option" where
  "sscanf_2x bare_0x s =
    (case dropWhile c_isspace s of
      [] \<Rightarrow> None
    | c # cs \<Rightarrow>
        if c = CHR ''+'' \<or> c = CHR ''-'' then
          (case cs of
            [] \<Rightarrow> None
          | d # _ \<Rightarrow> map_option (\<lambda>v. if c = CHR ''-'' then u32 (2 ^ 32 - v) else v) (c_xdigit d))
        else
          (case c_xdigit c of
            None \<Rightarrow> None
          | Some h \<Rightarrow>
              (case cs of
                [] \<Rightarrow> Some h
              | d # _ \<Rightarrow>
                  if h = 0 \<and> (d = CHR ''x'' \<or> d = CHR ''X'') then bare_0x
                  else (case c_xdigit d of None \<Rightarrow> Some h | Some l \<Rightarrow> Some (16 * h + l)))))"

primrec decode_sha_loop :: "nat option \<Rightarrow> string \<Rightarrow> nat \<Rightarrow> nat \<Rightarrow> bytes option" where
  "decode_sha_loop bare_0x hex 0 = (\<lambda>i. Some [])"
| "decode_sha_loop bare_0x hex (Suc k) = (\<lambda>i.
    case sscanf_2x bare_0x (drop (i * 2) hex) of
      None \<Rightarrow> None
    | Some byte \<Rightarrow> map_option ((#) (word_of_nat (u8 byte))) (decode_sha_loop bare_0x hex k (Suc i)))"

definition kvrados_decode_sha256_hex :: "nat option \<Rightarrow> string option \<Rightarrow> bytes option" where
  "kvrados_decode_sha256_hex bare_0x hex =
    (case hex of
      None \<Rightarrow> None
    | Some h \<Rightarrow> if length h \<noteq> sha256_len * 2 then None else decode_sha_loop bare_0x h sha256_len 0)"

definition kvrados_runtime_from_name :: "string option \<Rightarrow> exec_runtime" where
  "kvrados_runtime_from_name name =
    (case name of
      None \<Rightarrow> RUNTIME_NONE
    | Some s \<Rightarrow>
        if s = ''nkvx'' \<or> s = ''wasm'' then RUNTIME_NKVX
        else if s = ''cls'' then RUNTIME_CLS
        else RUNTIME_NONE)"

definition has_structured :: "exec_binding \<Rightarrow> bool" where
  "has_structured e \<longleftrightarrow>
    eb_runtime e \<noteq> None \<or> eb_module_namespace e \<noteq> None \<or> eb_module_key e \<noteq> None \<or>
    eb_sha256 e \<noteq> None \<or> eb_caps e \<noteq> 0"

text \<open>\<^verbatim>\<open>kvrados_resolve_binding\<close>; \<^const>\<open>None\<close> is \<^verbatim>\<open>-EINVAL\<close>.\<close>

definition kvrados_resolve_binding :: "nat option \<Rightarrow> exec_binding \<Rightarrow> nat \<Rightarrow> resolved_binding option" where
  "kvrados_resolve_binding bare_0x e cls_buf_len =
    (let out = \<lparr>rb_runtime = RUNTIME_NONE, rb_module_ns = None, rb_module_key = None,
                rb_sha256 = replicate sha256_len 0, rb_sha256_valid = False, rb_caps = eb_caps e\<rparr> in
     case eb_binding e of
       Some b \<Rightarrow>
         if has_structured e then None
         else let cls = takeWhile (\<lambda>c. c \<noteq> CHR '':'') b;
                  rest = dropWhile (\<lambda>c. c \<noteq> CHR '':'') b in
           if rest = [] \<or> cls = [] \<or> tl rest = [] then None
           else if length cls \<ge> cls_buf_len then None
           else Some (out\<lparr>rb_runtime := (if cls = ''nkvx'' then RUNTIME_NKVX else RUNTIME_CLS),
                          rb_module_ns := Some cls, rb_module_key := Some (tl rest)\<rparr>)
     | None \<Rightarrow>
         let out1 = out\<lparr>rb_runtime := kvrados_runtime_from_name (eb_runtime e),
                        rb_module_ns := eb_module_namespace e, rb_module_key := eb_module_key e\<rparr> in
         if eb_sha256 e \<noteq> None
         then (case kvrados_decode_sha256_hex bare_0x (eb_sha256 e) of
                 None \<Rightarrow> None
               | Some h \<Rightarrow> Some (out1\<lparr>rb_sha256 := h, rb_sha256_valid := True\<rparr>))
         else Some out1)"

definition caps_tier_max :: nat where
  "caps_tier_max = 3"

text \<open>
  \<^verbatim>\<open>kvrados_native_builtin_exec\<close>: status, true result length, bytes written to the output
  buffer. \<open>has_out\<close> says whether the output pointer is non-NULL.
\<close>

definition kvrados_native_builtin_exec ::
    "string option \<Rightarrow> bytes option \<Rightarrow> nat \<Rightarrow> bool \<Rightarrow> nat \<Rightarrow> io_status \<times> nat \<times> bytes" where
  "kvrados_native_builtin_exec module_key input input_len has_out out_len =
    (case module_key of
      None \<Rightarrow> (IO_NOT_SUPPORTED, 0, [])
    | Some m \<Rightarrow>
        if m = ''inputlen'' then
          (let rlen = 8; deliver = min out_len rlen in
           (if rlen > out_len then IO_BUFFER_TOO_SMALL else IO_SUCCESS, rlen,
            if deliver > 0 \<and> has_out then take deliver (le_bytes 8 input_len) else []))
        else if m = ''inputecho'' then
          (let rlen = input_len; deliver = min out_len rlen;
               st = (if rlen > out_len then IO_BUFFER_TOO_SMALL else IO_SUCCESS) in
           if deliver > 0
           then (case input of
                   None \<Rightarrow> (IO_INVALID, rlen, [])
                 | Some b \<Rightarrow> if has_out then (st, rlen, take deliver b) else (IO_INVALID, rlen, []))
           else (st, rlen, []))
        else (IO_NOT_SUPPORTED, 0, []))"

section \<open>Handlers\<close>

record io_result =
  ir_outcome :: io_outcome
  ir_channel :: kvrados_channel
  ir_iovs :: "bytes list"

definition kvrados_exec_complete ::
    "nat \<Rightarrow> io_status \<Rightarrow> nat \<Rightarrow> kvrados_channel \<Rightarrow> io_outcome \<times> kvrados_channel" where
  "kvrados_exec_complete io status result_len ch =
    (Completed result_len (kvrados_kvdev_status_to_nvme status),
     ch\<lparr>ch_exec_inflight := filter (\<lambda>c. kc_io c \<noteq> io) (ch_exec_inflight ch)\<rparr>)"

definition kvrados_exec_done :: "nat \<Rightarrow> io_status \<Rightarrow> nat \<Rightarrow> kvrados_channel \<Rightarrow> io_outcome \<times> kvrados_channel" where
  "kvrados_exec_done io status result_len ch = kvrados_exec_complete io status result_len ch"

text \<open>
  Steps (3) of \<^verbatim>\<open>kvrados_handle_exec\<close>: the input, aliasing the first segment when it holds
  all of it and gathered into a bounce buffer otherwise, and the host-VA result sink.
  \<open>Inl ()\<close> is a failed bounce allocation.
\<close>

definition exec_input :: "bdev_env \<Rightarrow> bytes list \<Rightarrow> nat \<Rightarrow> nat \<Rightarrow> unit + bytes option \<times> nat" where
  "exec_input env iovs value_off payload_len =
    (if payload_len > value_off
     then let input_len = min (payload_len - value_off) uint32_max in
       if iovs \<noteq> [] \<and> length (hd iovs) \<ge> value_off + input_len
       then Inr (Some (take input_len (drop value_off (hd iovs))), input_len)
       else if input_len > 0
       then (if be_malloc_ok env input_len
             then Inr (Some (kvrados_gather iovs value_off input_len), input_len)
             else Inl ())
       else Inr (None, input_len)
     else Inr (None, 0))"

definition exec_sink :: "bytes list \<Rightarrow> nat \<Rightarrow> nat \<Rightarrow> sink" where
  "exec_sink iovs value_off osize =
    (if iovs \<noteq> [] \<and> length (hd iovs) > value_off
     then \<lparr>sk_addr = Some (0, value_off), sk_len = u32 (min (length (hd iovs) - value_off) osize)\<rparr>
     else \<lparr>sk_addr = None, sk_len = 0\<rparr>)"

text \<open>A write of \<open>bs\<close> through a sink address.\<close>

definition sink_write :: "sink \<Rightarrow> bytes \<Rightarrow> bytes list \<Rightarrow> bytes list" where
  "sink_write sk bs iovs =
    (case sk_addr sk of
      None \<Rightarrow> iovs
    | Some (j, off) \<Rightarrow> iovs[j := memcpy_at off bs (iovs ! j)])"

text \<open>Step (4) and (5): run a native built-in in place, or forward over Mercury.\<close>

definition exec_dispatch ::
    "bdev_env \<Rightarrow> kvrados_disk \<Rightarrow> kvrados_channel \<Rightarrow> nat \<Rightarrow> exec_request \<Rightarrow> bytes list \<Rightarrow> io_result" where
  "exec_dispatch env d ch0 io xr iovs =
    (let ch = ch0\<lparr>ch_exec_inflight := ch_exec_inflight ch0 @ [\<lparr>kc_io = io, kc_cancel_token = 0\<rparr>]\<rparr>;
         native = (if xr_runtime xr = RUNTIME_NKVX \<and> xr_module_ns xr = Some ''nkvx''
                   then kvrados_native_builtin_exec (xr_module_key xr) (xr_input xr) (xr_input_len xr)
                          (sk_addr (xr_sink xr) \<noteq> None) (sk_len (xr_sink xr))
                   else (IO_NOT_SUPPORTED, 0, [])) in
     case native of (st, result_len, out) \<Rightarrow>
       if st \<noteq> IO_NOT_SUPPORTED
       then (case kvrados_exec_complete io st result_len ch of (oc, ch') \<Rightarrow>
              \<lparr>ir_outcome = oc, ir_channel = ch', ir_iovs = sink_write (xr_sink xr) out iovs\<rparr>)
       else if \<not> ch_front ch
       then (case kvrados_exec_complete io IO_NOT_SUPPORTED 0 ch of (oc, ch') \<Rightarrow>
              \<lparr>ir_outcome = oc, ir_channel = ch', ir_iovs = iovs\<rparr>)
       else if be_front_rc env (Req_Exec xr) \<noteq> 0
       then (case kvrados_exec_complete io IO_FAILED 0 ch of (oc, ch') \<Rightarrow>
              \<lparr>ir_outcome = oc, ir_channel = ch', ir_iovs = iovs\<rparr>)
       else \<lparr>ir_outcome = Forwarded (Req_Exec xr),
             ir_channel = ch0\<lparr>ch_exec_inflight :=
               ch_exec_inflight ch0 @ [\<lparr>kc_io = io, kc_cancel_token = be_front_token env xr\<rparr>]\<rparr>,
             ir_iovs = iovs\<rparr>)"

definition kvrados_handle_exec ::
    "bdev_env \<Rightarrow> kvrados_disk \<Rightarrow> kvrados_channel \<Rightarrow> nat \<Rightarrow> nvme_cmd \<Rightarrow> bytes \<Rightarrow> nat \<Rightarrow> nat
      \<Rightarrow> bytes list \<Rightarrow> io_result" where
  "kvrados_handle_exec env d ch io cmd key value_off payload_len iovs =
    (let exec = spdk_kv_exec_decode (cmd_cdw12 cmd) (cmd_cdw13 cmd);
         done = (\<lambda>oc. \<lparr>ir_outcome = oc, ir_channel = ch, ir_iovs = iovs\<rparr>) in
     if key = [] then done (Completed 0 (SCT_GENERIC, SC_INVALID_KEY_SIZE))
     else case kvrados_exec_op_allowed (kd_exec_allowlist d) (ec_op_id exec) of
       None \<Rightarrow> done invalid_opcode
     | Some e \<Rightarrow>
         (case kvrados_resolve_binding (be_sscanf_0x env) e 64 of
           None \<Rightarrow> done invalid_field
         | Some b \<Rightarrow>
             if rb_caps b > caps_tier_max then done invalid_field
             else (case exec_input env iovs value_off payload_len of
               Inl _ \<Rightarrow> done internal_error
             | Inr (input, input_len) \<Rightarrow>
                 if \<not> be_calloc_ok env then done internal_error
                 else exec_dispatch env d ch io
                   \<lparr>xr_key = key, xr_op_id = ec_op_id exec, xr_read_only = kd_read_only d,
                    xr_runtime = rb_runtime b, xr_module_key = rb_module_key b,
                    xr_module_ns = rb_module_ns b,
                    xr_sha256 = (if rb_sha256_valid b then Some (rb_sha256 b) else None),
                    xr_caps = rb_caps b, xr_input = input, xr_input_len = input_len,
                    xr_sink = exec_sink iovs value_off (ec_osize exec)\<rparr> iovs)))"

text \<open>The forward call shared by the five data verbs: allocate the context, submit.\<close>

definition kv_forward :: "bdev_env \<Rightarrow> kvrados_channel \<Rightarrow> kv_request \<Rightarrow> io_outcome" where
  "kv_forward env ch req =
    (if \<not> be_calloc_ok env then internal_error
     else if be_front_rc env req \<noteq> 0 then internal_error
     else Forwarded req)"

definition kv_retrieve_io :: "bdev_env \<Rightarrow> kvrados_disk \<Rightarrow> kvrados_channel \<Rightarrow> (bytes \<times> nat) option \<Rightarrow> bytes list \<Rightarrow> io_outcome" where
  "kv_retrieve_io env d ch parsed iovs =
    (case parsed of
      None \<Rightarrow> invalid_field
    | Some (key, value_off) \<Rightarrow>
        if \<not> ch_front ch then internal_error
        else let sk = (case span_walk iovs value_off 0 0 of
                 None \<Rightarrow> \<lparr>sk_addr = None, sk_len = 0\<rparr>
               | Some (j, in_iov, len) \<Rightarrow> \<lparr>sk_addr = Some (j, in_iov), sk_len = min len uint32_max\<rparr>)
             in kv_forward env ch (Req_Retrieve key (kd_read_only d) sk))"

definition kv_store_io ::
    "bdev_env \<Rightarrow> kvrados_disk \<Rightarrow> kvrados_channel \<Rightarrow> nvme_cmd \<Rightarrow> (bytes \<times> nat) option \<Rightarrow> nat
      \<Rightarrow> bytes list \<Rightarrow> io_outcome" where
  "kv_store_io env d ch cmd parsed payload_len iovs =
    (case parsed of
      None \<Rightarrow> invalid_field
    | Some (key, value_off) \<Rightarrow>
        if \<not> ch_front ch then internal_error
        else let value_len = min (if payload_len > value_off then payload_len - value_off else 0) uint32_max;
                 req = (\<lambda>v. Req_Store key (kd_read_only d) (kvrados_decode_store_flags cmd) v value_len) in
          if value_len > 0
          then (case span_walk iovs value_off 0 0 of
                  Some (j, in_iov, len) \<Rightarrow>
                    if value_len \<le> nkvx_inline_max \<and> len \<ge> value_len
                    then kv_forward env ch (req (Some (take value_len (drop in_iov (iovs ! j)))))
                    else if be_malloc_ok env value_len
                    then kv_forward env ch (req (Some (kvrados_gather iovs value_off value_len)))
                    else internal_error
                | None \<Rightarrow>
                    if be_malloc_ok env value_len
                    then kv_forward env ch (req (Some (kvrados_gather iovs value_off value_len)))
                    else internal_error)
          else kv_forward env ch (req None))"

definition kv_delete_exist_io ::
    "bdev_env \<Rightarrow> kvrados_disk \<Rightarrow> kvrados_channel \<Rightarrow> bool \<Rightarrow> (bytes \<times> nat) option \<Rightarrow> io_outcome" where
  "kv_delete_exist_io env d ch is_delete parsed =
    (case parsed of
      None \<Rightarrow> invalid_field
    | Some (key, value_off) \<Rightarrow>
        if \<not> ch_front ch then internal_error
        else kv_forward env ch
          (if is_delete then Req_Delete key (kd_read_only d) else Req_Exist key (kd_read_only d)))"

definition kv_list_io :: "bdev_env \<Rightarrow> kvrados_disk \<Rightarrow> kvrados_channel \<Rightarrow> (bytes \<times> nat) option \<Rightarrow> bytes list \<Rightarrow> io_outcome" where
  "kv_list_io env d ch parsed iovs =
    (if \<not> ch_front ch then internal_error
     else let start = (case parsed of None \<Rightarrow> [] | Some (key, _) \<Rightarrow> key);
              sk = (case iovs of
                  [] \<Rightarrow> \<lparr>sk_addr = None, sk_len = 0\<rparr>
                | seg # _ \<Rightarrow> \<lparr>sk_addr = Some (0, 0), sk_len = min (length seg) uint32_max\<rparr>)
          in kv_forward env ch (Req_List start (kd_read_only d) sk))"

definition kvrados_handle_kv_io ::
    "bdev_env \<Rightarrow> kvrados_disk \<Rightarrow> kvrados_channel \<Rightarrow> nat \<Rightarrow> nvme_cmd \<Rightarrow> bytes list \<Rightarrow> io_result" where
  "kvrados_handle_kv_io env d ch io cmd iovs =
    (let payload_len = sum_list (map length iovs);
         parsed = kvrados_parse_inpayload_key iovs payload_len;
         done = (\<lambda>oc. \<lparr>ir_outcome = oc, ir_channel = ch, ir_iovs = iovs\<rparr>) in
     if kd_read_only d \<and> (cmd_opc cmd = KV_STORE \<or> cmd_opc cmd = KV_DELETE)
     then done (Completed 0 (SCT_COMMAND_SPECIFIC, SC_ATTEMPTED_WRITE_TO_RO_RANGE))
     else case cmd_opc cmd of
       KV_RETRIEVE \<Rightarrow> done (kv_retrieve_io env d ch parsed iovs)
     | KV_STORE \<Rightarrow> done (kv_store_io env d ch cmd parsed payload_len iovs)
     | KV_DELETE \<Rightarrow> done (kv_delete_exist_io env d ch True parsed)
     | KV_EXIST \<Rightarrow> done (kv_delete_exist_io env d ch False parsed)
     | KV_LIST \<Rightarrow> done (kv_list_io env d ch parsed iovs)
     | KV_EXEC \<Rightarrow>
         (case parsed of
           None \<Rightarrow> kvrados_handle_exec env d ch io cmd [] 0 payload_len iovs
         | Some (key, value_off) \<Rightarrow> kvrados_handle_exec env d ch io cmd key value_off payload_len iovs)
     | _ \<Rightarrow> done invalid_opcode)"

text \<open>
  Admin Identify: the structure sizes and the KV spec version come from the NVMe headers.
\<close>

record kv_ns_data =
  ns_nsze :: nat
  ns_nuse :: nat
  ns_nkvf :: nat
  ns_kvfi :: nat
  ns_novg :: nat
  ns_kvkml :: nat
  ns_kvvml :: nat

datatype ident_data = Ident_None | Ident_Ns kv_ns_data | Ident_Ctrlr nat

datatype ident_cns = CNS_NS_IOCS | CNS_CTRLR_IOCS | CNS_OTHER nat

record ident_env =
  ie_sizeof_ns :: nat
  ie_sizeof_ctrlr :: nat
  ie_kv_spec_ver :: nat

record ident_io =
  ii_has_buf :: bool
  ii_nbytes :: nat
  ii_cns :: ident_cns
  ii_csi_kv :: bool
  ii_nsid :: nat

definition kvrados_handle_admin_identify :: "ident_env \<Rightarrow> kvrados_disk \<Rightarrow> ident_io \<Rightarrow> io_outcome \<times> ident_data" where
  "kvrados_handle_admin_identify ie d i =
    (if \<not> ii_csi_kv i then (invalid_field, Ident_None)
     else case ii_cns i of
       CNS_NS_IOCS \<Rightarrow>
         if ii_nsid i \<noteq> kd_nsid d
         then (Completed 0 (SCT_GENERIC, SC_INVALID_NAMESPACE_OR_FORMAT), Ident_None)
         else if \<not> ii_has_buf i \<or> ii_nbytes i < ie_sizeof_ns ie then (invalid_field, Ident_None)
         else (Completed 0 (SCT_GENERIC, SC_SUCCESS),
               Ident_Ns \<lparr>ns_nsze = kd_num_keys d, ns_nuse = 0, ns_nkvf = 0, ns_kvfi = 0,
                 ns_novg = kd_optimal_value_granularity d, ns_kvkml = kd_max_key_size d,
                 ns_kvvml = kd_max_value_size d\<rparr>)
     | CNS_CTRLR_IOCS \<Rightarrow>
         if \<not> ii_has_buf i \<or> ii_nbytes i < ie_sizeof_ctrlr ie then (invalid_field, Ident_None)
         else (Completed 0 (SCT_GENERIC, SC_SUCCESS), Ident_Ctrlr (ie_kv_spec_ver ie))
     | CNS_OTHER _ \<Rightarrow> (invalid_field, Ident_None))"

text \<open>
  \<^verbatim>\<open>kvrados_handle_abort\<close>: the result is whether the Abort reports the command as aborted.
  \<open>front_cancel\<close> is \<^verbatim>\<open>kvdev_rados_nkvx_front_cancel\<close> on a token; token 0 is none. The original
  Exec stays on the in-flight list: it completes from its own callback.
\<close>

definition kvrados_handle_abort :: "(nat \<Rightarrow> bool) \<Rightarrow> kvrados_channel \<Rightarrow> nat \<Rightarrow> bool" where
  "kvrados_handle_abort front_cancel ch to_abort =
    (case filter (\<lambda>c. kc_io c = to_abort) (ch_exec_inflight ch) of
      [] \<Rightarrow> False
    | c # _ \<Rightarrow> ch_front ch \<and> kc_cancel_token c \<noteq> 0 \<and> front_cancel (kc_cancel_token c))"

datatype bdev_io =
    Bio_Nvme nvme_cmd "bytes list"
  | Bio_Admin nvme_opc ident_io
  | Bio_Abort nat
  | Bio_Other

datatype submit_result = Sub_IO io_result | Sub_Admin io_outcome ident_data | Sub_Abort bool

definition kvrados_submit_request ::
    "bdev_env \<Rightarrow> ident_env \<Rightarrow> (nat \<Rightarrow> bool) \<Rightarrow> kvrados_disk \<Rightarrow> kvrados_channel \<Rightarrow> nat \<Rightarrow> bdev_io \<Rightarrow> submit_result" where
  "kvrados_submit_request env ie front_cancel d ch io b =
    (case b of
      Bio_Nvme cmd iovs \<Rightarrow>
        if cmd_nsid cmd \<noteq> kd_nsid d
        then Sub_IO \<lparr>ir_outcome = Completed 0 (SCT_GENERIC, SC_INVALID_NAMESPACE_OR_FORMAT),
                     ir_channel = ch, ir_iovs = iovs\<rparr>
        else Sub_IO (kvrados_handle_kv_io env d ch io cmd iovs)
    | Bio_Admin opc i \<Rightarrow>
        if opc = OPC_IDENTIFY
        then (case kvrados_handle_admin_identify ie d i of (oc, x) \<Rightarrow> Sub_Admin oc x)
        else Sub_Admin invalid_opcode Ident_None
    | Bio_Abort to_abort \<Rightarrow> Sub_Abort (kvrados_handle_abort front_cancel ch to_abort)
    | Bio_Other \<Rightarrow> Sub_Admin invalid_opcode Ident_None)"

definition kvrados_io_type_supported :: "bdev_io \<Rightarrow> bool" where
  "kvrados_io_type_supported b \<longleftrightarrow> (case b of Bio_Other \<Rightarrow> False | _ \<Rightarrow> True)"

section \<open>Disk creation\<close>

record bdev_opts =
  bo_max_key_size :: nat
  bo_max_value_size :: nat
  bo_optimal_value_granularity :: nat
  bo_num_keys :: nat
  bo_executor_endpoint :: "string option"
  bo_read_only :: bool
  bo_exec_allowlist :: "exec_binding list"

datatype create_err = C_EINVAL | C_ENOMEM | C_REGISTER int

text \<open>
  \<^verbatim>\<open>create_kvrados_disk\<close>: \<open>alloc_ok\<close> is whether every allocation and string copy succeeds and
  \<open>register_rc\<close> the result of registering the bdev.
\<close>

definition create_kvrados_disk :: "bool \<Rightarrow> int \<Rightarrow> bdev_opts \<Rightarrow> create_err + kvrados_disk" where
  "create_kvrados_disk alloc_ok register_rc opts =
    (if bo_max_key_size opts > exec_key_max_len then Inl C_EINVAL
     else if bo_max_value_size opts > 0
       \<and> bo_optimal_value_granularity opts > bo_max_value_size opts then Inl C_EINVAL
     else if \<not> alloc_ok then Inl C_ENOMEM
     else let mv = (if bo_max_value_size opts > 0 then bo_max_value_size opts else 128 * 1024);
              d = \<lparr>kd_max_key_size = (if bo_max_key_size opts > 0 then bo_max_key_size opts else 16),
                   kd_max_value_size = mv,
                   kd_optimal_value_granularity =
                     (if bo_optimal_value_granularity opts > 0
                      then bo_optimal_value_granularity opts else 4096),
                   kd_num_keys = bo_num_keys opts, kd_executor_endpoint = bo_executor_endpoint opts,
                   kd_read_only = bo_read_only opts, kd_exec_allowlist = bo_exec_allowlist opts,
                   kd_nsid = 1, kd_blocklen = 1, kd_blockcnt = mv\<rparr>
          in if register_rc \<noteq> 0 then Inl (C_REGISTER register_rc) else Inr d)"

section \<open>Lemmas: the scatter list\<close>

lemma gather_loop_spec:
  assumes "n < 2 ^ 32" and "length out \<le> n"
  shows "gather_loop iovs off pos out n = out @ take (n - length out) (drop (off - pos) (concat iovs))"
  using assms(2)
proof (induction iovs arbitrary: off pos out)
  case (Cons seg iovs)
  show ?case
  proof (cases "length out < n")
    case True
    show ?thesis
    proof (cases "off \<ge> pos + length seg")
      case True
      have "drop (off - pos) (seg @ concat iovs) = drop (off - (pos + length seg)) (concat iovs)"
        using True by simp
      then show ?thesis
        using True \<open>length out < n\<close> Cons by (auto simp: Cons.IH)
    next
      case False
      define tk where "tk = min (length seg - (off - pos)) (n - length out)"
      have "u32 tk = tk"
        using assms(1) by (simp add: tk_def u32_id)
      moreover have "(if off > pos then off - pos else 0) = off - pos"
        by simp
      ultimately have "gather_loop (seg # iovs) off pos out n =
          gather_loop iovs (pos + length seg) (pos + length seg) (out @ take tk (drop (off - pos) seg)) n"
        using False \<open>length out < n\<close> by (simp add: tk_def Let_def)
      also have "\<dots> = (out @ take tk (drop (off - pos) seg))
          @ take (n - length (out @ take tk (drop (off - pos) seg))) (concat iovs)"
        using Cons.IH [of "out @ take tk (drop (off - pos) seg)" "pos + length seg" "pos + length seg"]
          \<open>length out < n\<close> by (simp add: tk_def)
      also have "\<dots> = out @ take (n - length out) (drop (off - pos) (concat (seg # iovs)))"
        using \<open>length out < n\<close> False by (auto simp: tk_def min_def)
      finally show ?thesis .
    qed
  next
    case False
    then show ?thesis
      using Cons.prems by simp
  qed
qed simp

lemma kvrados_gather_spec: "n < 2 ^ 32 \<Longrightarrow> kvrados_gather iovs off n = take n (drop off (concat iovs))"
  unfolding kvrados_gather_def by (subst gather_loop_spec) simp_all

lemma length_concat_iovs: "length (concat iovs) = sum_list (map length iovs)"
  by (simp add: length_concat)

lemma span_walk_None:
  "io_off \<le> value_off \<Longrightarrow>
    span_walk iovs value_off io_off j = None \<longleftrightarrow> io_off + length (concat iovs) \<le> value_off"
  by (induction iovs arbitrary: io_off j) (auto simp: Let_def)

lemma span_walk_Some:
  assumes "span_walk iovs value_off io_off j = Some (j', in_iov, len)" and "io_off \<le> value_off"
  shows "\<exists>pre seg post. iovs = pre @ seg # post \<and> j' = j + length pre \<and>
    value_off - io_off = length (concat pre) + in_iov \<and> in_iov < length seg \<and> len = length seg - in_iov"
  using assms
proof (induction iovs arbitrary: io_off j)
  case (Cons seg iovs)
  show ?case
  proof (cases "value_off < io_off + length seg")
    case True
    then show ?thesis
      using Cons.prems by (intro exI [of _ "[]"] exI [of _ seg] exI [of _ iovs]) (auto simp: Let_def)
  next
    case False
    then have "span_walk iovs value_off (io_off + length seg) (Suc j) = Some (j', in_iov, len)"
      using Cons.prems by simp
    then obtain pre seg' post where "iovs = pre @ seg' # post" "j' = Suc j + length pre"
      "value_off - (io_off + length seg) = length (concat pre) + in_iov" "in_iov < length seg'"
      "len = length seg' - in_iov"
      using Cons.IH False by fastforce
    then show ?thesis
      using False by (intro exI [of _ "seg # pre"] exI [of _ seg'] exI [of _ post]) auto
  qed
qed simp

text \<open>The parser reads the head of the payload, however the payload is cut into segments.\<close>

lemma kvrados_parse_spec:
  "kvrados_parse_inpayload_key iovs (length (concat iovs)) =
    (let p = concat iovs; key_len = le_val (take 2 p) in
     if 2 \<le> length p \<and> 1 \<le> key_len \<and> key_len \<le> 255 \<and> 2 + key_len \<le> length p
     then Some (take key_len (drop 2 p), 2 + key_len) else None)"
  by (auto simp: kvrados_parse_inpayload_key_def kvrados_gather_spec key_hdr_len_def exec_key_max_len_def Let_def)

definition encode_key :: "bytes \<Rightarrow> bytes" where
  "encode_key k = le_bytes 2 (length k) @ k"

definition decode_key :: "bytes \<Rightarrow> (bytes \<times> bytes) option" where
  "decode_key p = map_option (\<lambda>(k, off). (k, drop off p)) (kvrados_parse_inpayload_key [p] (length p))"

lemma length_encode_key [simp]: "length (encode_key k) = 2 + length k"
  by (simp add: encode_key_def)

lemma parse_encode_key:
  assumes "key_ok k" and "concat iovs = encode_key k @ v"
  shows "kvrados_parse_inpayload_key iovs (length (concat iovs)) = Some (k, 2 + length k)"
proof -
  have "le_val (take 2 (encode_key k @ v)) = length k"
    using assms(1) by (simp add: encode_key_def le_val_le_bytes key_ok_def exec_key_max_len_def)
  moreover have "take (length k) (drop 2 (encode_key k @ v)) = k"
    by (simp add: encode_key_def)
  ultimately show ?thesis
    unfolding kvrados_parse_spec
    unfolding Let_def assms(2)
    using assms(1) by (simp add: key_ok_def exec_key_max_len_def)
qed

interpretation inpayload: stream_codec encode_key decode_key key_ok
proof unfold_locales
  fix k rest
  assume "key_ok k"
  then show "decode_key (encode_key k @ rest) = Some (k, rest)"
    using parse_encode_key [of k "[encode_key k @ rest]" rest] by (simp add: decode_key_def)
qed

lemma concat_update:
  "concat ((pre @ seg # post)[length pre := seg']) = concat pre @ seg' @ concat post"
  by simp

lemma memcpy_at_segment:
  assumes "off + length bs \<le> length seg"
  shows "concat pre @ memcpy_at off bs seg @ concat post =
    memcpy_at (length (concat pre) + off) bs (concat (pre @ seg # post))"
  using assms by (simp add: memcpy_at_def)

text \<open>A write through the sink the Retrieve walk found is a write at the value offset.\<close>

lemma sink_write_span:
  assumes "span_walk iovs value_off 0 0 = Some (j, in_iov, len)" and "length bs \<le> len"
  shows "concat (sink_write \<lparr>sk_addr = Some (j, in_iov), sk_len = n\<rparr> bs iovs) =
    memcpy_at value_off bs (concat iovs)"
proof -
  obtain pre seg post where d: "iovs = pre @ seg # post" "j = length pre"
    "value_off = length (concat pre) + in_iov" "in_iov < length seg" "len = length seg - in_iov"
    using span_walk_Some [OF assms(1)] by auto
  then show ?thesis
    using assms(2) memcpy_at_segment [of in_iov bs seg pre post]
    by (simp add: sink_write_def nth_append)
qed

section \<open>Lemmas: hashes, bindings, built-ins\<close>

lemma c_xdigit_hex_digit: "n < 16 \<Longrightarrow> c_xdigit (hex_digits ! n) = Some n"
proof -
  have "\<forall>n \<in> {0..<16}. c_xdigit (hex_digits ! n) = Some n"
    by code_simp
  then show "n < 16 \<Longrightarrow> c_xdigit (hex_digits ! n) = Some n"
    by simp
qed

lemma hex_digit_plain:
  "n < 16 \<Longrightarrow> \<not> c_isspace (hex_digits ! n) \<and> hex_digits ! n \<notin> {CHR ''+'', CHR ''-'', CHR ''x'', CHR ''X''}"
proof -
  have "\<forall>n \<in> {0..<16}. \<not> c_isspace (hex_digits ! n) \<and> hex_digits ! n \<noteq> CHR ''+'' \<and>
      hex_digits ! n \<noteq> CHR ''-'' \<and> hex_digits ! n \<noteq> CHR ''x'' \<and> hex_digits ! n \<noteq> CHR ''X''"
    by code_simp
  then show "n < 16 \<Longrightarrow> \<not> c_isspace (hex_digits ! n) \<and> hex_digits ! n \<notin> {CHR ''+'', CHR ''-'', CHR ''x'', CHR ''X''}"
    by simp
qed

lemma sscanf_2x_hex_pair:
  "h < 16 \<Longrightarrow> l < 16 \<Longrightarrow> sscanf_2x z (hex_digits ! h # hex_digits ! l # s) = Some (16 * h + l)"
  using hex_digit_plain [of h] hex_digit_plain [of l]
  by (simp add: sscanf_2x_def c_xdigit_hex_digit)

lemma decode_sha_loop_hex:
  "decode_sha_loop z (pre @ key_to_oid_loop h) (length h) (length pre div 2) = Some h"
  if "even (length pre)"
  using that
proof (induction h arbitrary: pre)
  case (Cons b h)
  let ?d = "[hex_digits ! (unat b div 16), hex_digits ! (unat b mod 16)]"
  have "unat b div 16 < 16"
    using unat_byte_less [of b] by (simp add: less_mult_imp_div_less)
  moreover have "drop (length pre div 2 * 2) (pre @ key_to_oid_loop (b # h)) = key_to_oid_loop (b # h)"
    using Cons.prems by simp
  ultimately have "sscanf_2x z (drop (length pre div 2 * 2) (pre @ key_to_oid_loop (b # h))) = Some (unat b)"
    by (simp only: key_to_oid_loop.simps nibble_hi nibble_lo) (simp add: sscanf_2x_hex_pair)
  moreover have "decode_sha_loop z ((pre @ ?d) @ key_to_oid_loop h) (length h) (length (pre @ ?d) div 2) = Some h"
    using Cons.prems by (intro Cons.IH) simp
  ultimately show ?case
    using unat_byte_less [of b] Cons.prems by (simp add: nibble_hi nibble_lo u8_id)
qed simp

lemma kvrados_decode_sha256_hex_ok:
  "length h = sha256_len \<Longrightarrow> kvrados_decode_sha256_hex z (Some (key_to_oid_loop h)) = Some h"
  using decode_sha_loop_hex [of "[]" z h] by (simp add: kvrados_decode_sha256_hex_def)

interpretation sha_hex: codec key_to_oid_loop "\<lambda>s. kvrados_decode_sha256_hex z (Some s)" "\<lambda>h. length h = sha256_len"
  by unfold_locales (rule kvrados_decode_sha256_hex_ok)

section \<open>Properties: parsing and forwarding\<close>

text \<open>
  However the fabric transport cuts the payload into segments, the gather copies the
  bytes \<open>off .. off + n\<close> of the concatenated payload, and fewer only when the payload ends.
\<close>

theorem gather_is_slice:
  assumes "n < 2 ^ 32"
  shows "kvrados_gather iovs off n = take n (drop off (concat iovs)) \<and>
    length (kvrados_gather iovs off n) = min n (length (concat iovs) - off)"
  using assms by (simp add: kvrados_gather_spec min.commute)

theorem gather_is_slice_witness:
  "kvrados_gather [[1, 2], [], [3, 4, 5], [6]] 1 4 = [2, 3, 4, 5]"
  using gather_is_slice [of 4 "[[1, 2], [], [3, 4, 5], [6]]" 1] by simp

lemma store_forward:
  assumes "cmd_opc cmd = KV_STORE" and "\<not> kd_read_only d" and "ch_front ch"
    and "be_calloc_ok env" and "\<forall>n. be_malloc_ok env n" and "\<forall>r. be_front_rc env r = 0"
    and "key_ok k" and "length v < 2 ^ 32" and "concat iovs = encode_key k @ v"
  shows "ir_outcome (kvrados_handle_kv_io env d ch io cmd iovs) =
    Forwarded (Req_Store k False (kvrados_decode_store_flags cmd)
      (if v = [] then None else Some v) (length v))"
proof -
  have parsed: "kvrados_parse_inpayload_key iovs (length (concat iovs)) = Some (k, 2 + length k)"
    using assms(7,9) by (rule parse_encode_key)
  have plen: "length (concat iovs) = 2 + length k + length v"
    using assms(9) by simp
  have vlen: "min (length v) uint32_max = length v"
    using assms(8) by (simp add: uint32_max_def)
  have pos: "0 < uint32_max"
    by (simp add: uint32_max_def)
  have gather: "kvrados_gather iovs (2 + length k) (length v) = v"
    using assms(8,9) by (simp add: kvrados_gather_spec encode_key_def)
  have span: "take (length v) (drop in_iov (iovs ! j)) = v"
    if w: "span_walk iovs (2 + length k) 0 0 = Some (j, in_iov, len)" and "len \<ge> length v" for j in_iov len
  proof -
    obtain pre seg post where s: "iovs = pre @ seg # post" "j = length pre"
      "2 + length k = length (concat pre) + in_iov" "in_iov < length seg" "len = length seg - in_iov"
      using span_walk_Some [OF w] by auto
    have "v = drop (length (concat pre) + in_iov) (concat iovs)"
      using assms(9) s(3) by (simp add: encode_key_def)
    also have "\<dots> = drop in_iov seg @ concat post"
      using s by simp
    finally have v: "v = drop in_iov seg @ concat post" .
    have "length (concat post) = 0"
      using arg_cong [OF v, of length] s(4,5) that(2) unfolding length_append length_drop by linarith
    then have "concat post = []"
      by (simp only: length_0_conv)
    then show ?thesis
      using s v by (simp add: nth_append)
  qed
  show ?thesis
    using assms(1-6) parsed plen vlen pos gather span
    by (auto simp: kvrados_handle_kv_io_def kv_store_io_def kv_forward_def length_concat_iovs [symmetric]
        Let_def split: option.split)
qed

text \<open>
  A Store forwards exactly the tenant's value: for every segmentation of the payload
  \<^verbatim>\<open>[u16 key_len][key][value]\<close>, whether the value is handed over in place or gathered into
  a bounce buffer, the request carries the key, the conditional flags of the command and
  the value bytes.
\<close>

theorem store_forwards_value:
  assumes "cmd_opc cmd = KV_STORE" and "\<not> kd_read_only d" and "ch_front ch"
    and "be_calloc_ok env" and "\<forall>n. be_malloc_ok env n" and "\<forall>r. be_front_rc env r = 0"
    and "key_ok k" and "length v < 2 ^ 32" and "concat iovs = encode_key k @ v"
  shows "ir_outcome (kvrados_handle_kv_io env d ch io cmd iovs) =
    Forwarded (Req_Store k False (kvrados_decode_store_flags cmd)
      (if v = [] then None else Some v) (length v))"
  using store_forward [OF assms] by blast

definition env_ok :: bdev_env where
  "env_ok = \<lparr>be_malloc_ok = \<lambda>_. True, be_calloc_ok = True, be_front_rc = \<lambda>_. 0,
    be_front_token = \<lambda>_. 5, be_sscanf_0x = None\<rparr>"

definition disk_example :: kvrados_disk where
  "disk_example = \<lparr>kd_max_key_size = 16, kd_max_value_size = 131072, kd_optimal_value_granularity = 4096,
    kd_num_keys = 0, kd_executor_endpoint = Some ''tcp'', kd_read_only = False,
    kd_exec_allowlist = [\<lparr>eb_op_id = 9, eb_binding = Some ''nkvx:inputlen'', eb_runtime = None,
      eb_module_namespace = None, eb_module_key = None, eb_sha256 = None, eb_caps = 0\<rparr>],
    kd_nsid = 1, kd_blocklen = 1, kd_blockcnt = 131072\<rparr>"

definition channel_example :: kvrados_channel where
  "channel_example = \<lparr>ch_front = True, ch_exec_inflight = []\<rparr>"

definition cmd_example :: "nvme_opc \<Rightarrow> nvme_cmd" where
  "cmd_example opc = \<lparr>cmd_opc = opc, cmd_nsid = 1, cmd_dont_store_if_not_exists = False,
    cmd_dont_store_if_exists = True, cmd_cdw12 = 64, cmd_cdw13 = 9\<rparr>"

lemmas bdev_examples = env_ok_def disk_example_def channel_example_def cmd_example_def

theorem store_forwards_value_witness:
  "ir_outcome (kvrados_handle_kv_io env_ok disk_example channel_example 1 (cmd_example KV_STORE)
      [[2], [0, 0xca], [0xfe, 1, 2], [3]]) =
    Forwarded (Req_Store [0xca, 0xfe] False 2 (Some [1, 2, 3]) 3)"
  using store_forwards_value [of "cmd_example KV_STORE" disk_example channel_example env_ok
      "[0xca, 0xfe]" "[1, 2, 3]" "[[2], [0, 0xca], [0xfe, 1, 2], [3]]" 1]
  by (simp add: bdev_examples key_ok_def exec_key_max_len_def encode_key_def kvrados_decode_store_flags_def
      store_flag_sinke_def le_bytes_2)

lemma retrieve_sink:
  assumes "cmd_opc cmd = KV_RETRIEVE" and "ch_front ch" and "be_calloc_ok env"
    and "\<forall>r. be_front_rc env r = 0" and "key_ok k" and "concat iovs = encode_key k @ room"
  shows "\<exists>sk. ir_outcome (kvrados_handle_kv_io env d ch io cmd iovs) = Forwarded (Req_Retrieve k (kd_read_only d) sk) \<and>
    sk_len sk < 2 ^ 32 \<and> (sk_addr sk = None \<longleftrightarrow> room = []) \<and> (sk_addr sk = None \<longrightarrow> sk_len sk = 0) \<and>
    (\<forall>bs. length bs \<le> sk_len sk \<longrightarrow>
      concat (sink_write sk bs iovs) = encode_key k @ memcpy_at 0 bs room)"
proof -
  have parsed: "kvrados_parse_inpayload_key iovs (length (concat iovs)) = Some (k, 2 + length k)"
    using assms(5,6) by (rule parse_encode_key)
  have split: "memcpy_at (2 + length k) bs (encode_key k @ room) = encode_key k @ memcpy_at 0 bs room" for bs
    by (simp add: memcpy_at_def)
  show ?thesis
  proof (cases "span_walk iovs (2 + length k) 0 0")
    case None
    then have "room = []"
      using assms(6) by (simp add: span_walk_None)
    then show ?thesis
      using assms parsed None
      by (intro exI [of _ "\<lparr>sk_addr = None, sk_len = 0\<rparr>"])
        (simp add: kvrados_handle_kv_io_def kv_retrieve_io_def kv_forward_def length_concat_iovs [symmetric]
          sink_write_def memcpy_at_def)
  next
    case (Some w)
    obtain j in_iov len where w: "w = (j, in_iov, len)"
      by (rule prod_cases3)
    have "room \<noteq> []"
      using assms(6) Some span_walk_None [of 0 "2 + length k" iovs 0] by auto
    then show ?thesis
      using assms parsed Some w
      by (intro exI [of _ "\<lparr>sk_addr = Some (j, in_iov), sk_len = min len uint32_max\<rparr>"])
        (auto simp: kvrados_handle_kv_io_def kv_retrieve_io_def kv_forward_def length_concat_iovs [symmetric]
          sink_write_span split [simplified] uint32_max_def)
  qed
qed

text \<open>
  A Retrieve forwards the key with a result sink that starts right after the key
  header: a body of up to the sink's length written through it lands at payload offset
  \<open>2 + key_len\<close> and changes nothing else, for every segmentation. The sink is NULL with
  length 0 exactly when there is no room after the key.
\<close>

theorem retrieve_sink_after_key:
  assumes "cmd_opc cmd = KV_RETRIEVE" and "ch_front ch" and "be_calloc_ok env"
    and "\<forall>r. be_front_rc env r = 0" and "key_ok k" and "concat iovs = encode_key k @ room"
  shows "\<exists>sk. ir_outcome (kvrados_handle_kv_io env d ch io cmd iovs) = Forwarded (Req_Retrieve k (kd_read_only d) sk) \<and>
    (sk_addr sk = None \<longleftrightarrow> room = []) \<and> (sk_addr sk = None \<longrightarrow> sk_len sk = 0) \<and>
    (\<forall>bs. length bs \<le> sk_len sk \<longrightarrow>
      concat (sink_write sk bs iovs) = encode_key k @ memcpy_at 0 bs room)"
  using retrieve_sink [OF assms, of d io] by auto

theorem retrieve_sink_after_key_witness:
  "\<exists>sk. ir_outcome (kvrados_handle_kv_io env_ok disk_example channel_example 1 (cmd_example KV_RETRIEVE)
      [[1, 0, 0xca], [0, 0, 0]]) = Forwarded (Req_Retrieve [0xca] False sk) \<and>
    (sk_addr sk = None \<longleftrightarrow> [0, 0, 0 :: byte] = []) \<and> (sk_addr sk = None \<longrightarrow> sk_len sk = 0) \<and>
    (\<forall>bs. length bs \<le> sk_len sk \<longrightarrow>
      concat (sink_write sk bs [[1, 0, 0xca], [0, 0, 0]]) = encode_key [0xca] @ memcpy_at 0 bs [0, 0, 0])"
  using retrieve_sink_after_key [of "cmd_example KV_RETRIEVE" channel_example env_ok "[0xca]"
      "[[1, 0, 0xca], [0, 0, 0]]" "[0, 0, 0]" disk_example 1]
  by (simp add: bdev_examples key_ok_def exec_key_max_len_def encode_key_def le_bytes_2)

text \<open>
  On a read-only namespace no Store and no Delete is forwarded, whatever the payload,
  the channel and the environment: it completes at once with "Attempted Write to Read Only
  Range" and leaves the channel and the host buffers alone.
\<close>

theorem read_only_gate:
  assumes "kd_read_only d" and "cmd_opc cmd \<in> {KV_STORE, KV_DELETE}"
  shows "kvrados_handle_kv_io env d ch io cmd iovs =
    \<lparr>ir_outcome = Completed 0 (SCT_COMMAND_SPECIFIC, SC_ATTEMPTED_WRITE_TO_RO_RANGE),
     ir_channel = ch, ir_iovs = iovs\<rparr>"
  using assms by (auto simp: kvrados_handle_kv_io_def Let_def)

theorem read_only_gate_witness:
  "kvrados_handle_kv_io env_ok (disk_example\<lparr>kd_read_only := True\<rparr>) channel_example 1 (cmd_example KV_STORE)
      [[1, 0, 0xca, 7]] =
    \<lparr>ir_outcome = Completed 0 (SCT_COMMAND_SPECIFIC, SC_ATTEMPTED_WRITE_TO_RO_RANGE),
     ir_channel = channel_example, ir_iovs = [[1, 0, 0xca, 7]]\<rparr>"
  using read_only_gate [of "disk_example\<lparr>kd_read_only := True\<rparr>" "cmd_example KV_STORE" env_ok
      channel_example 1 "[[1, 0, 0xca, 7]]"]
  by (simp add: cmd_example_def)

section \<open>Properties: Exec\<close>

lemma kvrados_exec_op_allowed_None:
  "kvrados_exec_op_allowed es op_id = None \<longleftrightarrow> op_id \<notin> eb_op_id ` set es"
  by (induction es) auto

lemma kvrados_exec_op_allowed_Some:
  "kvrados_exec_op_allowed es op_id = Some e \<Longrightarrow> e \<in> set es \<and> eb_op_id e = op_id"
  by (induction es) (auto split: if_splits)

lemma filter_fresh_io:
  "io \<notin> kc_io ` set cs \<Longrightarrow> filter (\<lambda>c. kc_io c \<noteq> io) (cs @ [\<lparr>kc_io = io, kc_cancel_token = t\<rparr>]) = cs"
  by (auto simp: filter_id_conv)

lemma exec_dispatch_cases:
  assumes "io \<notin> kc_io ` set (ch_exec_inflight ch)"
  shows "(\<exists>dw0 st. ir_outcome (exec_dispatch env d ch io xr iovs) = Completed dw0 st \<and>
      ir_channel (exec_dispatch env d ch io xr iovs) = ch) \<or>
    (ir_outcome (exec_dispatch env d ch io xr iovs) = Forwarded (Req_Exec xr) \<and>
     ir_iovs (exec_dispatch env d ch io xr iovs) = iovs \<and>
     ir_channel (exec_dispatch env d ch io xr iovs) =
       ch\<lparr>ch_exec_inflight := ch_exec_inflight ch @ [\<lparr>kc_io = io, kc_cancel_token = be_front_token env xr\<rparr>]\<rparr>)"
  using filter_fresh_io [OF assms]
  by (auto simp: exec_dispatch_def kvrados_exec_complete_def Let_def split: prod.splits)

lemma exec_dispatch_Forwarded:
  "ir_outcome (exec_dispatch env d ch io xr iovs) = Forwarded (Req_Exec xr') \<Longrightarrow> xr' = xr"
  by (auto simp: exec_dispatch_def kvrados_exec_complete_def Let_def split: prod.splits if_splits)

definition exec_request_of ::
    "kvrados_disk \<Rightarrow> nvme_cmd \<Rightarrow> bytes \<Rightarrow> resolved_binding \<Rightarrow> bytes option \<Rightarrow> nat \<Rightarrow> sink \<Rightarrow> exec_request" where
  "exec_request_of d cmd key b input input_len sk =
    \<lparr>xr_key = key, xr_op_id = cmd_cdw13 cmd, xr_read_only = kd_read_only d,
     xr_runtime = rb_runtime b, xr_module_key = rb_module_key b, xr_module_ns = rb_module_ns b,
     xr_sha256 = (if rb_sha256_valid b then Some (rb_sha256 b) else None),
     xr_caps = rb_caps b, xr_input = input, xr_input_len = input_len, xr_sink = sk\<rparr>"

lemma kvrados_handle_exec_cases:
  assumes "r = kvrados_handle_exec env d ch io cmd key off plen iovs"
  shows "((\<exists>dw0 st. ir_outcome r = Completed dw0 st) \<and> ir_channel r = ch) \<or>
    (\<exists>e b input input_len sk. key \<noteq> [] \<and> e \<in> set (kd_exec_allowlist d) \<and> eb_op_id e = cmd_cdw13 cmd \<and>
      kvrados_resolve_binding (be_sscanf_0x env) e 64 = Some b \<and> rb_caps b \<le> 3 \<and>
      r = exec_dispatch env d ch io (exec_request_of d cmd key b input input_len sk) iovs)"
proof (cases "key = [] \<or> kvrados_exec_op_allowed (kd_exec_allowlist d) (cmd_cdw13 cmd) = None")
  case True
  then show ?thesis
    by (intro disjI1) (auto simp: assms kvrados_handle_exec_def spdk_kv_exec_decode_def Let_def)
next
  case False
  then obtain e where e: "key \<noteq> []" "kvrados_exec_op_allowed (kd_exec_allowlist d) (cmd_cdw13 cmd) = Some e"
    by auto
  show ?thesis
  proof (cases "kvrados_resolve_binding (be_sscanf_0x env) e 64")
    case None
    then show ?thesis
      using e by (intro disjI1) (simp add: assms kvrados_handle_exec_def spdk_kv_exec_decode_def Let_def)
  next
    case (Some b)
    show ?thesis
    proof (cases "rb_caps b \<le> 3 \<and> be_calloc_ok env \<and> exec_input env iovs off plen \<noteq> Inl ()")
      case True
      then obtain input input_len where "exec_input env iovs off plen = Inr (input, input_len)"
        by (cases "exec_input env iovs off plen") auto
      then show ?thesis
        using True Some e kvrados_exec_op_allowed_Some [OF e(2)]
        by (intro disjI2 exI [of _ e] exI [of _ b] exI [of _ input] exI [of _ input_len]
            exI [of _ "exec_sink iovs off (cmd_cdw12 cmd)"])
          (simp add: assms kvrados_handle_exec_def spdk_kv_exec_decode_def exec_request_of_def caps_tier_max_def)
    next
      case False
      then show ?thesis
        using Some e
        by (intro disjI1) (cases "exec_input env iovs off plen",
          auto simp: assms kvrados_handle_exec_def spdk_kv_exec_decode_def caps_tier_max_def Let_def)
    qed
  qed
qed

text \<open>
  C35. Deny by default, and nothing past the gates: an Exec the forwarder forwards has an op
  id of the namespace's allowlist, carries the module, hash and tier of that entry's
  binding (tier at most 3) and the namespace's read-only bit, and its key is the one parsed
  from the payload.
\<close>

theorem exec_forward_is_allowlisted:
  assumes "cmd_opc cmd = KV_EXEC"
    and "ir_outcome (kvrados_handle_kv_io env d ch io cmd iovs) = Forwarded (Req_Exec xr)"
  shows "\<exists>e b. e \<in> set (kd_exec_allowlist d) \<and> eb_op_id e = cmd_cdw13 cmd \<and> xr_op_id xr = cmd_cdw13 cmd \<and>
    kvrados_resolve_binding (be_sscanf_0x env) e 64 = Some b \<and> rb_caps b \<le> 3 \<and>
    xr_runtime xr = rb_runtime b \<and> xr_module_ns xr = rb_module_ns b \<and> xr_module_key xr = rb_module_key b \<and>
    xr_sha256 xr = (if rb_sha256_valid b then Some (rb_sha256 b) else None) \<and> xr_caps xr = rb_caps b \<and>
    xr_read_only xr = kd_read_only d \<and>
    kvrados_parse_inpayload_key iovs (length (concat iovs)) = Some (xr_key xr, 2 + length (xr_key xr))"
proof -
  obtain key off where parsed: "kvrados_parse_inpayload_key iovs (length (concat iovs)) = Some (key, off)"
    and h: "ir_outcome (kvrados_handle_exec env d ch io cmd key off (length (concat iovs)) iovs) =
      Forwarded (Req_Exec xr)"
    using assms(1,2)
    by (auto simp: kvrados_handle_kv_io_def kvrados_handle_exec_def length_concat_iovs Let_def
        split: option.splits)
  have off: "off = 2 + length key"
    using parsed by (auto simp: kvrados_parse_spec Let_def min_absorb2 split: if_splits)
  obtain e b input input_len sk where e: "e \<in> set (kd_exec_allowlist d)" "eb_op_id e = cmd_cdw13 cmd"
      "kvrados_resolve_binding (be_sscanf_0x env) e 64 = Some b" "rb_caps b \<le> 3"
    and disp: "kvrados_handle_exec env d ch io cmd key off (length (concat iovs)) iovs =
      exec_dispatch env d ch io (exec_request_of d cmd key b input input_len sk) iovs"
    using kvrados_handle_exec_cases [OF refl, of env d ch io cmd key off "length (concat iovs)" iovs] h
    by auto
  have "xr = exec_request_of d cmd key b input input_len sk"
    using h unfolding disp by (rule exec_dispatch_Forwarded)
  then show ?thesis
    using e parsed off by (intro exI [of _ e] exI [of _ b]) (simp add: exec_request_of_def)
qed

definition disk_forward_example :: kvrados_disk where
  "disk_forward_example = disk_example\<lparr>kd_exec_allowlist :=
    [\<lparr>eb_op_id = 9, eb_binding = Some ''nkvx:bytecount'', eb_runtime = None,
      eb_module_namespace = None, eb_module_key = None, eb_sha256 = None, eb_caps = 0\<rparr>]\<rparr>"

lemma exec_example_forwarded:
  "ir_outcome (kvrados_handle_kv_io env_ok disk_forward_example channel_example 2 (cmd_example KV_EXEC)
      [[1, 0, 0xca, 7]]) =
    Forwarded (Req_Exec \<lparr>xr_key = [0xca], xr_op_id = 9, xr_read_only = False, xr_runtime = RUNTIME_NKVX,
      xr_module_key = Some ''bytecount'', xr_module_ns = Some ''nkvx'', xr_sha256 = None, xr_caps = 0,
      xr_input = Some [7], xr_input_len = 1, xr_sink = \<lparr>sk_addr = Some (0, 3), sk_len = 1\<rparr>\<rparr>)"
proof -
  have "kvrados_parse_inpayload_key [[1, 0, 0xca, 7]] (length (concat [[1, 0, 0xca, 7 :: byte]])) =
      Some ([0xca], 2 + length [0xca :: byte])"
    by (rule parse_encode_key [where v = "[7]"])
      (simp_all add: key_ok_def exec_key_max_len_def encode_key_def le_bytes_2)
  moreover have "length (concat [[1, 0, 0xca, 7 :: byte]]) = Suc (Suc (Suc (Suc 0)))" "2 + length [0xca :: byte] = 3"
    by simp_all
  ultimately have "kvrados_parse_inpayload_key [[1, 0, 0xca, 7]] (Suc (Suc (Suc (Suc 0)))) = Some ([0xca], 3)"
    by (simp only:)
  then show ?thesis
    by (simp add: kvrados_handle_kv_io_def kvrados_handle_exec_def exec_dispatch_def disk_forward_example_def
        bdev_examples spdk_kv_exec_decode_def kvrados_resolve_binding_def has_structured_def caps_tier_max_def
        exec_input_def exec_sink_def kvrados_native_builtin_exec_def uint32_max_def u32_def)
qed

theorem exec_forward_is_allowlisted_witness:
  "\<exists>e b. e \<in> set (kd_exec_allowlist disk_forward_example) \<and> eb_op_id e = 9 \<and>
    kvrados_resolve_binding None e 64 = Some b \<and> rb_caps b \<le> 3 \<and> rb_module_key b = Some ''bytecount''"
  using exec_forward_is_allowlisted [OF _ exec_example_forwarded]
  by (auto simp: cmd_example_def env_ok_def)

text \<open>
  C36. Every Exec submitted with a fresh I/O is accounted for exactly once: either it
  completes at once and the channel's in-flight list is as before, or it is on the list
  until its done callback, which completes it and restores the list. An Abort finds it only
  in between.
\<close>

theorem exec_completes_once:
  assumes "cmd_opc cmd = KV_EXEC" and "io \<notin> kc_io ` set (ch_exec_inflight ch)"
    and "r = kvrados_handle_kv_io env d ch io cmd iovs"
  shows "case ir_outcome r of
      Completed dw0 st \<Rightarrow> ir_channel r = ch \<and> \<not> kvrados_handle_abort front_cancel (ir_channel r) io
    | Forwarded req \<Rightarrow>
        map kc_io (ch_exec_inflight (ir_channel r)) = map kc_io (ch_exec_inflight ch) @ [io] \<and>
        (\<forall>st len. kvrados_exec_done io st len (ir_channel r) =
          (Completed len (kvrados_kvdev_status_to_nvme st), ch))"
proof -
  have "filter (\<lambda>c. kc_io c = io) (ch_exec_inflight ch) = []"
    using assms(2) by (auto simp: filter_empty_conv)
  then have no_abort: "\<not> kvrados_handle_abort front_cancel ch io"
    by (simp add: kvrados_handle_abort_def)
  obtain key off where r: "r = kvrados_handle_exec env d ch io cmd key off (length (concat iovs)) iovs"
    using assms(1,3) by (auto simp: kvrados_handle_kv_io_def length_concat_iovs Let_def split: option.splits)
  consider (now) dw0 st where "ir_outcome r = Completed dw0 st" "ir_channel r = ch"
    | (sent) xr where "r = exec_dispatch env d ch io xr iovs"
    using kvrados_handle_exec_cases [OF r] by blast
  then show ?thesis
  proof cases
    case now
    then show ?thesis
      using no_abort by simp
  next
    case (sent xr)
    then show ?thesis
      using exec_dispatch_cases [OF assms(2), of env d xr iovs] no_abort filter_fresh_io [OF assms(2)]
      by (auto simp: kvrados_exec_done_def kvrados_exec_complete_def)
  qed
qed

lemma cmd_example_opc [simp]: "cmd_opc (cmd_example opc) = opc"
  by (simp add: cmd_example_def)

lemma channel_example_inflight [simp]: "ch_exec_inflight channel_example = []"
  by (simp add: channel_example_def)

theorem exec_completes_once_witness:
  "map kc_io (ch_exec_inflight (ir_channel (kvrados_handle_kv_io env_ok disk_forward_example channel_example 2
      (cmd_example KV_EXEC) [[1, 0, 0xca, 7]]))) = [2] \<and>
    kvrados_exec_done 2 IO_ABORTED 0 (ir_channel (kvrados_handle_kv_io env_ok disk_forward_example channel_example 2
      (cmd_example KV_EXEC) [[1, 0, 0xca, 7]])) =
      (Completed 0 (SCT_GENERIC, SC_ABORTED_BY_REQUEST), channel_example)"
  using exec_completes_once [of "cmd_example KV_EXEC" 2 channel_example _ env_ok disk_forward_example
      "[[1, 0, 0xca, 7]]" "\<lambda>_. True", OF _ _ refl]
  by (simp add: exec_example_forwarded kvrados_kvdev_status_to_nvme_def)

lemma drop_blank_pairs: "drop (i * 2) (concat (replicate m [a, b])) = concat (replicate (m - i) [a, b])"
proof (induction m arbitrary: i)
  case (Suc m)
  then show ?case by (cases i) auto
qed simp

lemma sscanf_2x_blank_digit: "sscanf_2x z (concat (replicate (Suc n) '' 1'')) = Some 1"
  by (cases n) (simp_all add: sscanf_2x_def c_isspace_def c_xdigit_def)

lemma decode_sha_loop_blank:
  "i + k \<le> m \<Longrightarrow> decode_sha_loop z (concat (replicate m '' 1'')) k i = Some (replicate k 1)"
proof (induction k arbitrary: i)
  case (Suc k)
  then obtain n where n: "m - i = Suc n"
    by (cases "m - i") auto
  have "sscanf_2x z (drop (i * 2) (concat (replicate m '' 1''))) = Some 1"
    unfolding drop_blank_pairs n by (rule sscanf_2x_blank_digit)
  then show ?case
    using Suc by (simp add: u8_def)
qed simp

text \<open>
  The content hash of a structured binding is the hash the operator wrote in lower-case
  hexadecimal, but the decoder is not strict: \<^verbatim>\<open>sscanf\<close> skips white space, so a 64-character
  string of blanks and digits that is not a hash is accepted as one.
\<close>

theorem sha256_hex_decoding:
  "(length h = 32 \<longrightarrow> kvrados_decode_sha256_hex z (Some (key_to_oid_loop h)) = Some h) \<and>
   kvrados_decode_sha256_hex z (Some (concat (replicate 32 '' 1''))) = Some (replicate 32 1)"
proof
  show "length h = 32 \<longrightarrow> kvrados_decode_sha256_hex z (Some (key_to_oid_loop h)) = Some h"
    using kvrados_decode_sha256_hex_ok [of h z] by (simp add: sha256_len_def)
  show "kvrados_decode_sha256_hex z (Some (concat (replicate 32 '' 1''))) = Some (replicate 32 1)"
    using decode_sha_loop_blank [of 0 32 32 z]
    by (simp add: kvrados_decode_sha256_hex_def sha256_len_def length_concat sum_list_replicate)
qed

theorem sha256_hex_decoding_witness:
  "kvrados_decode_sha256_hex None (Some (key_to_oid_loop (replicate 32 0xab))) = Some (replicate 32 0xab)"
  using sha256_hex_decoding [of "replicate 32 0xab" None] by simp

text \<open>
  A disk the create RPC brings up advertises a key limit between 1 and 255 and a
  positive value limit that is also its block count, on namespace 1, and keeps the
  operator's read-only bit and allowlist. Defaulting runs after validation, though: with no
  granularity given, a value limit below 4096 comes up with a granularity larger than it.
\<close>

theorem create_disk_limits:
  "(create_kvrados_disk a rc opts = Inr d \<longrightarrow>
     1 \<le> kd_max_key_size d \<and> kd_max_key_size d \<le> 255 \<and> 1 \<le> kd_max_value_size d \<and>
     kd_blockcnt d = kd_max_value_size d \<and> kd_nsid d = 1 \<and>
     kd_read_only d = bo_read_only opts \<and> kd_exec_allowlist d = bo_exec_allowlist opts \<and>
     (0 < bo_optimal_value_granularity opts \<longrightarrow> 0 < bo_max_value_size opts \<longrightarrow>
       kd_optimal_value_granularity d \<le> kd_max_value_size d)) \<and>
   (0 < m \<longrightarrow> m < 4096 \<longrightarrow>
     (\<exists>d'. create_kvrados_disk True 0 \<lparr>bo_max_key_size = 0, bo_max_value_size = m,
        bo_optimal_value_granularity = 0, bo_num_keys = 0, bo_executor_endpoint = None,
        bo_read_only = False, bo_exec_allowlist = []\<rparr> = Inr d' \<and>
      kd_optimal_value_granularity d' > kd_max_value_size d'))"
  by (auto simp: create_kvrados_disk_def exec_key_max_len_def Let_def split: if_splits)

theorem create_disk_limits_witness:
  "\<exists>d. create_kvrados_disk True 0 \<lparr>bo_max_key_size = 0, bo_max_value_size = 1024,
        bo_optimal_value_granularity = 0, bo_num_keys = 0, bo_executor_endpoint = None,
        bo_read_only = False, bo_exec_allowlist = []\<rparr> = Inr d \<and>
      kd_optimal_value_granularity d > kd_max_value_size d"
  using create_disk_limits [of True 0 _ _ 1024] by simp

end
