(* ===== verification/ObjCache.thy ===== *)
theory ObjCache
  imports Kvdev "HOL-Library.Multiset"
begin

text \<open>
  The executor's content cache of \<^verbatim>\<open>target/kvdev_rados_nkvx_wasm.c\<close>: the object entries with
  their pins and dead marks, the warm entries that alias an object's buffer, LRU eviction
  and invalidation. Both lists keep the least recently used entry at the head.

  A heap object is named by an identifier that is never reused; it is allocated exactly
  while it is on the object list, so freeing it is removing it, and a use after free would
  be a reference to an identifier that is not on the list. The reference count is the C
  \<^verbatim>\<open>int\<close>. The module handle of a warm entry is a parameter type. The environment variables
  that set the caps are the arguments \<open>max_count\<close> and \<open>max_bytes\<close> (0 disables a cap), and the
  cold-fill callback is a function from the capacity to the bytes it wrote, or \<^const>\<open>None\<close> for a
  failure.
\<close>

unbundle bit_operations_syntax

section \<open>State\<close>

record obj_entry =
  oe_id :: nat
  oe_key :: string
  oe_mem :: bytes
  oe_mem_size :: nat
  oe_obj_len :: nat
  oe_filled :: bool
  oe_refcount :: int
  oe_dead :: bool

record 'm warm_entry =
  we_id :: nat
  we_module :: string
  we_obj_key :: string
  we_handle :: 'm
  we_obj :: nat

record cache_stats =
  cs_content_hits :: nat
  cs_cold_fills :: nat
  cs_warm_hits :: nat
  cs_obj_evictions :: nat
  cs_warm_evictions :: nat

record 'm obj_cache =
  oc_objects :: "obj_entry list"
  oc_warm :: "'m warm_entry list"
  oc_obj_count :: nat
  oc_obj_bytes :: nat
  oc_warm_count :: nat
  oc_next :: nat
  oc_stats :: cache_stats

definition wasm_page :: nat where
  "wasm_page = 65536"

definition wasm_obj_off :: nat where
  "wasm_obj_off = 256"

definition obj_key_cap :: nat where
  "obj_key_cap = 255"

definition mem_cap :: "obj_entry \<Rightarrow> nat" where
  "mem_cap e = length (oe_mem e)"

definition stats_zero :: cache_stats where
  "stats_zero = \<lparr>cs_content_hits = 0, cs_cold_fills = 0, cs_warm_hits = 0, cs_obj_evictions = 0,
    cs_warm_evictions = 0\<rparr>"

definition nkvx_cache_init_once :: "'m obj_cache" where
  "nkvx_cache_init_once = \<lparr>oc_objects = [], oc_warm = [], oc_obj_count = 0, oc_obj_bytes = 0,
    oc_warm_count = 0, oc_next = 0, oc_stats = stats_zero\<rparr>"

text \<open>\<^verbatim>\<open>nkvx_round_up\<close> on the 64-bit \<^verbatim>\<open>size_t\<close>, wrap-around included.\<close>

definition nkvx_round_up :: "nat \<Rightarrow> nat \<Rightarrow> nat" where
  "nkvx_round_up x a = unat ((word_of_nat (x + a - 1) :: 64 word) AND NOT (word_of_nat (a - 1)))"

section \<open>Operations on the lists\<close>

definition obj_by_id :: "'m obj_cache \<Rightarrow> nat \<Rightarrow> obj_entry option" where
  "obj_by_id c i = find (\<lambda>e. oe_id e = i) (oc_objects c)"

definition upd_obj :: "nat \<Rightarrow> (obj_entry \<Rightarrow> obj_entry) \<Rightarrow> 'm obj_cache \<Rightarrow> 'm obj_cache" where
  "upd_obj i f c = c\<lparr>oc_objects := map (\<lambda>e. if oe_id e = i then f e else e) (oc_objects c)\<rparr>"

definition nkvx_obj_lookup :: "'m obj_cache \<Rightarrow> string \<Rightarrow> obj_entry option" where
  "nkvx_obj_lookup c obj_key = find (\<lambda>e. \<not> oe_dead e \<and> oe_key e = obj_key) (oc_objects c)"

definition nkvx_obj_list_add :: "obj_entry \<Rightarrow> 'm obj_cache \<Rightarrow> 'm obj_cache" where
  "nkvx_obj_list_add e c = c\<lparr>oc_objects := oc_objects c @ [e], oc_obj_count := oc_obj_count c + 1,
    oc_obj_bytes := oc_obj_bytes c + mem_cap e\<rparr>"

definition nkvx_obj_list_remove :: "obj_entry \<Rightarrow> 'm obj_cache \<Rightarrow> 'm obj_cache" where
  "nkvx_obj_list_remove e c = c\<lparr>oc_objects := filter (\<lambda>x. oe_id x \<noteq> oe_id e) (oc_objects c),
    oc_obj_count := oc_obj_count c - 1, oc_obj_bytes := oc_obj_bytes c - mem_cap e\<rparr>"

definition nkvx_obj_touch :: "nat \<Rightarrow> 'm obj_cache \<Rightarrow> 'm obj_cache" where
  "nkvx_obj_touch i c = c\<lparr>oc_objects := filter (\<lambda>e. oe_id e \<noteq> i) (oc_objects c)
    @ filter (\<lambda>e. oe_id e = i) (oc_objects c)\<rparr>"

definition nkvx_obj_unref :: "nat \<Rightarrow> 'm obj_cache \<Rightarrow> 'm obj_cache" where
  "nkvx_obj_unref i c =
    (let c1 = upd_obj i (\<lambda>e. e\<lparr>oe_refcount := oe_refcount e - 1\<rparr>) c in
     case obj_by_id c1 i of
       None \<Rightarrow> c1
     | Some e \<Rightarrow> if oe_refcount e = 0 \<and> oe_dead e then nkvx_obj_list_remove e c1 else c1)"

definition nkvx_warm_destroy :: "'m warm_entry \<Rightarrow> 'm obj_cache \<Rightarrow> 'm obj_cache" where
  "nkvx_warm_destroy w c =
    nkvx_obj_unref (we_obj w)
      (c\<lparr>oc_warm := filter (\<lambda>x. we_id x \<noteq> we_id w) (oc_warm c), oc_warm_count := oc_warm_count c - 1\<rparr>)"

definition nkvx_warm_touch :: "nat \<Rightarrow> 'm obj_cache \<Rightarrow> 'm obj_cache" where
  "nkvx_warm_touch i c = c\<lparr>oc_warm := filter (\<lambda>w. we_id w \<noteq> i) (oc_warm c)
    @ filter (\<lambda>w. we_id w = i) (oc_warm c)\<rparr>"

text \<open>Mark dead through a temporary pin, so that one path frees.\<close>

definition obj_kill :: "nat \<Rightarrow> 'm obj_cache \<Rightarrow> 'm obj_cache" where
  "obj_kill i c = nkvx_obj_unref i (upd_obj i (\<lambda>e. e\<lparr>oe_dead := True, oe_refcount := oe_refcount e + 1\<rparr>) c)"

definition destroy_warm_if :: "('m warm_entry \<Rightarrow> bool) \<Rightarrow> 'm obj_cache \<Rightarrow> 'm obj_cache" where
  "destroy_warm_if P c = fold (\<lambda>w c. if P w then nkvx_warm_destroy w c else c) (oc_warm c) c"

definition nkvx_cache_invalidate_locked :: "string \<Rightarrow> 'm obj_cache \<Rightarrow> 'm obj_cache" where
  "nkvx_cache_invalidate_locked obj_key c =
    (let c1 = destroy_warm_if (\<lambda>w. we_obj_key w = obj_key) c in
     fold (\<lambda>e c. if \<not> oe_dead e \<and> oe_key e = obj_key then obj_kill (oe_id e) c else c) (oc_objects c1) c1)"

definition nkvx_obj_evict_locked :: "nat \<Rightarrow> 'm obj_cache \<Rightarrow> 'm obj_cache" where
  "nkvx_obj_evict_locked i c =
    (let c1 = obj_kill i (destroy_warm_if (\<lambda>w. we_obj w = i) c) in
     c1\<lparr>oc_stats := (oc_stats c1)\<lparr>cs_obj_evictions := cs_obj_evictions (oc_stats c1) + 1\<rparr>\<rparr>)"

definition live_objects :: "'m obj_cache \<Rightarrow> obj_entry list" where
  "live_objects c = filter (\<lambda>e. \<not> oe_dead e) (oc_objects c)"

section \<open>Lemmas: which entries stay visible\<close>

definition live_ids :: "'m obj_cache \<Rightarrow> nat list" where
  "live_ids c = map oe_id (live_objects c)"

lemma upd_obj_simps [simp]:
  "oc_warm (upd_obj i f c) = oc_warm c" "oc_obj_count (upd_obj i f c) = oc_obj_count c"
  "oc_obj_bytes (upd_obj i f c) = oc_obj_bytes c" "oc_warm_count (upd_obj i f c) = oc_warm_count c"
  "oc_next (upd_obj i f c) = oc_next c" "oc_stats (upd_obj i f c) = oc_stats c"
  by (simp_all add: upd_obj_def)

lemma live_ids_upd_ref [simp]:
  "live_ids (upd_obj i (\<lambda>e. e\<lparr>oe_refcount := f e\<rparr>) c) = live_ids c"
proof -
  have "map oe_id (filter (\<lambda>e. \<not> oe_dead e) (map (\<lambda>e. if oe_id e = i then e\<lparr>oe_refcount := f e\<rparr> else e) es))
      = map oe_id (filter (\<lambda>e. \<not> oe_dead e) es)" for es
    by (induction es) auto
  then show ?thesis by (simp add: live_ids_def live_objects_def upd_obj_def)
qed

lemma live_ids_upd_dead:
  "live_ids (upd_obj i (\<lambda>e. e\<lparr>oe_dead := True, oe_refcount := f e\<rparr>) c) = filter (\<lambda>j. j \<noteq> i) (live_ids c)"
proof -
  have "map oe_id (filter (\<lambda>e. \<not> oe_dead e) (map (\<lambda>e. if oe_id e = i then e\<lparr>oe_dead := True, oe_refcount := f e\<rparr> else e) es))
      = filter (\<lambda>j. j \<noteq> i) (map oe_id (filter (\<lambda>e. \<not> oe_dead e) es))" for es
    by (induction es) auto
  then show ?thesis by (simp add: live_ids_def live_objects_def upd_obj_def)
qed

lemma live_ids_remove:
  "live_ids (nkvx_obj_list_remove e c) = filter (\<lambda>j. j \<noteq> oe_id e) (live_ids c)"
proof -
  have "map oe_id (filter (\<lambda>x. \<not> oe_dead x) (filter (\<lambda>x. oe_id x \<noteq> i) es))
      = filter (\<lambda>j. j \<noteq> i) (map oe_id (filter (\<lambda>x. \<not> oe_dead x) es))" for es i
    by (induction es) auto
  then show ?thesis by (simp add: live_ids_def live_objects_def nkvx_obj_list_remove_def)
qed

lemma live_ids_unref_filter: "\<exists>P. live_ids (nkvx_obj_unref i c) = filter P (live_ids c)"
  by (auto simp: nkvx_obj_unref_def Let_def live_ids_remove split: option.splits
      intro: exI [of _ "\<lambda>_. True"])

lemma warm_unref [simp]: "oc_warm (nkvx_obj_unref i c) = oc_warm c"
  by (simp add: nkvx_obj_unref_def Let_def nkvx_obj_list_remove_def split: option.splits)

lemma warm_destroy_warm:
  "oc_warm (nkvx_warm_destroy w c) = filter (\<lambda>x. we_id x \<noteq> we_id w) (oc_warm c)"
  by (simp add: nkvx_warm_destroy_def)

lemma live_ids_destroy_filter: "\<exists>P. live_ids (nkvx_warm_destroy w c) = filter P (live_ids c)"
  using live_ids_unref_filter
    [of "we_obj w" "c\<lparr>oc_warm := filter (\<lambda>x. we_id x \<noteq> we_id w) (oc_warm c), oc_warm_count := oc_warm_count c - 1\<rparr>"]
  by (simp add: nkvx_warm_destroy_def live_ids_def live_objects_def)

lemma live_ids_destroy_if_filter: "\<exists>P. live_ids (destroy_warm_if Q c) = filter P (live_ids c)"
  unfolding destroy_warm_if_def
proof (rule fold_invariant [where Q = "\<lambda>_. True" and P = "\<lambda>s. \<exists>P. live_ids s = filter P (live_ids c)"])
  show "\<exists>P. live_ids c = filter P (live_ids c)" by (rule exI [of _ "\<lambda>_. True"]) simp
next
  fix w and s :: "'a obj_cache" assume "\<exists>P. live_ids s = filter P (live_ids c)"
  then obtain P where P: "live_ids s = filter P (live_ids c)" ..
  obtain P' where "live_ids (nkvx_warm_destroy w s) = filter P' (live_ids s)"
    using live_ids_destroy_filter [of w s] ..
  then have "live_ids (if Q w then nkvx_warm_destroy w s else s)
      = filter (\<lambda>x. (Q w \<longrightarrow> P' x) \<and> P x) (live_ids c)"
    by (cases "Q w") (simp_all only: if_True if_False P filter_filter simp_thms conj_commute)
  then show "\<exists>P. live_ids (if Q w then nkvx_warm_destroy w s else s) = filter P (live_ids c)"
    by (intro exI [of _ "\<lambda>x. (Q w \<longrightarrow> P' x) \<and> P x"])
qed simp

lemma live_ids_kill: "\<exists>P. live_ids (obj_kill i c) = filter P (live_ids c) \<and> \<not> P i"
proof -
  obtain P where "live_ids (obj_kill i c)
      = filter P (live_ids (upd_obj i (\<lambda>e. e\<lparr>oe_dead := True, oe_refcount := oe_refcount e + 1\<rparr>) c))"
    unfolding obj_kill_def using live_ids_unref_filter by blast
  then have "live_ids (obj_kill i c) = filter (\<lambda>j. j \<noteq> i \<and> P j) (live_ids c)"
    by (simp add: live_ids_upd_dead conj_commute)
  then show ?thesis by (intro exI [of _ "\<lambda>j. j \<noteq> i \<and> P j"]) simp
qed

lemma live_ids_stats [simp]: "live_ids (c\<lparr>oc_stats := s\<rparr>) = live_ids c"
  by (simp add: live_ids_def live_objects_def)

lemma live_ids_evict: "\<exists>P. live_ids (nkvx_obj_evict_locked i c) = filter P (live_ids c) \<and> \<not> P i"
proof -
  let ?c = "destroy_warm_if (\<lambda>w. we_obj w = i) c"
  obtain P where P: "live_ids ?c = filter P (live_ids c)"
    using live_ids_destroy_if_filter ..
  obtain P' where P': "live_ids (obj_kill i ?c) = filter P' (live_ids ?c)" "\<not> P' i"
    using live_ids_kill [of i ?c] by (elim exE conjE)
  have "live_ids (nkvx_obj_evict_locked i c) = filter (\<lambda>j. P j \<and> P' j) (live_ids c)"
    by (simp add: nkvx_obj_evict_locked_def Let_def P P'(1))
  then show ?thesis using P'(2) by (intro exI [of _ "\<lambda>j. P j \<and> P' j"]) simp
qed

lemma evict_decreases:
  assumes "i \<in> set (live_ids c)"
  shows "length (live_ids (nkvx_obj_evict_locked i c)) < length (live_ids c)"
proof -
  obtain P where "live_ids (nkvx_obj_evict_locked i c) = filter P (live_ids c)" "\<not> P i"
    using live_ids_evict [of i c] by (elim exE conjE)
  then show ?thesis using assms by (simp add: length_filter_less)
qed

section \<open>Enforcing the caps\<close>

function nkvx_obj_cache_enforce_caps :: "nat \<Rightarrow> nat \<Rightarrow> 'm obj_cache \<Rightarrow> 'm obj_cache" where
  "nkvx_obj_cache_enforce_caps max_count max_bytes c =
    (case live_objects c of
       [] \<Rightarrow> c
     | victim # _ \<Rightarrow>
         let live = length (live_objects c);
             over_count = (max_count \<noteq> 0 \<and> live > max_count);
             over_bytes = (max_bytes \<noteq> 0 \<and> oc_obj_bytes c > max_bytes) in
         if \<not> over_count \<and> \<not> over_bytes then c
         else if live = 1 then nkvx_obj_evict_locked (oe_id victim) c
         else nkvx_obj_cache_enforce_caps max_count max_bytes (nkvx_obj_evict_locked (oe_id victim) c))"
  by pat_completeness auto
termination
proof (relation "measure (\<lambda>(_, _, c). length (live_ids c))", goal_cases)
  case (2 max_count max_bytes c victim rest)
  then show ?case
    by (simp del: One_nat_def) (rule evict_decreases, simp add: live_ids_def)
qed simp

declare nkvx_obj_cache_enforce_caps.simps [simp del]

function nkvx_warm_cache_enforce_caps :: "nat \<Rightarrow> 'm obj_cache \<Rightarrow> 'm obj_cache" where
  "nkvx_warm_cache_enforce_caps max_count c =
    (case oc_warm c of
       [] \<Rightarrow> c
     | w # _ \<Rightarrow>
         if max_count = 0 \<or> oc_warm_count c \<le> max_count then c
         else let c1 = nkvx_warm_destroy w c in
           nkvx_warm_cache_enforce_caps max_count
             (c1\<lparr>oc_stats := (oc_stats c1)\<lparr>cs_warm_evictions := cs_warm_evictions (oc_stats c1) + 1\<rparr>\<rparr>))"
  by pat_completeness auto
termination
proof (relation "measure (\<lambda>(_, c). length (oc_warm c))", goal_cases)
  case (2 max_count c w rest c1)
  then have "oc_warm c1 = filter (\<lambda>x. we_id x \<noteq> we_id w) rest"
    by (simp only: warm_destroy_warm filter.simps) simp
  then show ?case using 2(1) by (simp add: less_Suc_eq_le)
qed simp

declare nkvx_warm_cache_enforce_caps.simps [simp del]

section \<open>The operations other components call\<close>

definition bump_hits :: "'m obj_cache \<Rightarrow> 'm obj_cache" where
  "bump_hits c = c\<lparr>oc_stats := (oc_stats c)\<lparr>cs_content_hits := cs_content_hits (oc_stats c) + 1\<rparr>\<rparr>"

definition bump_fills :: "'m obj_cache \<Rightarrow> 'm obj_cache" where
  "bump_fills c = c\<lparr>oc_stats := (oc_stats c)\<lparr>cs_cold_fills := cs_cold_fills (oc_stats c) + 1\<rparr>\<rparr>"

definition cache_need :: "nat \<Rightarrow> nat" where
  "cache_need object_len =
    (let need = nkvx_round_up (wasm_obj_off + object_len) wasm_page in
     if need = 0 then wasm_page else need)"

text \<open>
  A fresh entry over a zeroed backing with the object bytes at \<open>wasm_obj_off\<close>. The key is
  cut to the 255 characters of the entry's buffer.
\<close>

definition new_entry :: "nat \<Rightarrow> string \<Rightarrow> nat \<Rightarrow> bytes \<Rightarrow> obj_entry" where
  "new_entry i obj_key need got = \<lparr>oe_id = i, oe_key = take obj_key_cap obj_key,
     oe_mem = memcpy_at wasm_obj_off got (replicate need 0), oe_mem_size = need,
     oe_obj_len = length got, oe_filled = True, oe_refcount = 0, oe_dead = False\<rparr>"

text \<open>
  The miss arm shared by \<^verbatim>\<open>cache_fill\<close> and \<^verbatim>\<open>run_cached\<close>: allocate, cold-fill once, link as
  the most recently used entry, enforce the caps. It returns the entry's identifier.
\<close>

definition cold_fill :: "nat \<Rightarrow> nat \<Rightarrow> bool \<Rightarrow> string \<Rightarrow> nat \<Rightarrow> (nat \<Rightarrow> bytes option) \<Rightarrow> 'm obj_cache
    \<Rightarrow> (io_status + nat) \<times> 'm obj_cache" where
  "cold_fill max_count max_bytes alloc_ok obj_key object_len fill c =
    (let need = cache_need object_len in
     if \<not> alloc_ok then (Inl IO_NOMEM, c)
     else case fill (need - wasm_obj_off) of
       None \<Rightarrow> (Inl IO_FAILED, c)
     | Some got \<Rightarrow>
         (Inr (oc_next c),
          nkvx_obj_cache_enforce_caps max_count max_bytes
            (nkvx_obj_list_add (new_entry (oc_next c) obj_key need got)
              (bump_fills (c\<lparr>oc_next := oc_next c + 1\<rparr>)))))"

definition nkvx_wasm_cache_fill :: "nat \<Rightarrow> nat \<Rightarrow> bool \<Rightarrow> bool \<Rightarrow> string \<Rightarrow> nat \<Rightarrow> (nat \<Rightarrow> bytes option)
    \<Rightarrow> 'm obj_cache \<Rightarrow> io_status \<times> 'm obj_cache" where
  "nkvx_wasm_cache_fill max_count max_bytes api_ok alloc_ok obj_key object_len fill c =
    (if \<not> api_ok then (IO_NOT_SUPPORTED, c)
     else if obj_key = [] then (IO_INVALID, c)
     else case nkvx_obj_lookup c obj_key of
       Some e \<Rightarrow>
         if oe_filled e then (IO_SUCCESS, nkvx_obj_touch (oe_id e) (bump_hits c))
         else (case cold_fill max_count max_bytes alloc_ok obj_key object_len fill c of
             (Inl st, c') \<Rightarrow> (st, c') | (Inr _, c') \<Rightarrow> (IO_SUCCESS, c'))
     | None \<Rightarrow> (case cold_fill max_count max_bytes alloc_ok obj_key object_len fill c of
           (Inl st, c') \<Rightarrow> (st, c') | (Inr _, c') \<Rightarrow> (IO_SUCCESS, c')))"

definition nkvx_wasm_cache_has :: "'m obj_cache \<Rightarrow> string \<Rightarrow> bool" where
  "nkvx_wasm_cache_has c obj_key =
    (obj_key \<noteq> [] \<and> (case nkvx_obj_lookup c obj_key of None \<Rightarrow> False | Some e \<Rightarrow> oe_filled e))"

definition nkvx_wasm_cache_pin :: "string \<Rightarrow> 'm obj_cache \<Rightarrow> nat option \<times> 'm obj_cache" where
  "nkvx_wasm_cache_pin obj_key c =
    (if obj_key = [] then (None, c)
     else case nkvx_obj_lookup c obj_key of
       None \<Rightarrow> (None, c)
     | Some e \<Rightarrow>
         if oe_filled e then
           (Some (oe_id e), upd_obj (oe_id e) (\<lambda>e. e\<lparr>oe_refcount := oe_refcount e + 1\<rparr>) c)
         else (None, c))"

definition nkvx_wasm_cache_unpin :: "nat option \<Rightarrow> 'm obj_cache \<Rightarrow> 'm obj_cache" where
  "nkvx_wasm_cache_unpin handle c = (case handle of None \<Rightarrow> c | Some i \<Rightarrow> nkvx_obj_unref i c)"

text \<open>The bytes behind a pin, \<^const>\<open>None\<close> for the C null pointer with length 0.\<close>

definition nkvx_wasm_pin_object :: "nat option \<Rightarrow> 'm obj_cache \<Rightarrow> bytes option" where
  "nkvx_wasm_pin_object handle c =
    (case handle of None \<Rightarrow> None
     | Some i \<Rightarrow> (case obj_by_id c i of None \<Rightarrow> None
       | Some e \<Rightarrow> if oe_filled e then Some (take (oe_obj_len e) (drop wasm_obj_off (oe_mem e))) else None))"

definition nkvx_wasm_cache_invalidate :: "string \<Rightarrow> 'm obj_cache \<Rightarrow> 'm obj_cache" where
  "nkvx_wasm_cache_invalidate obj_key c =
    (if obj_key = [] then c else nkvx_cache_invalidate_locked obj_key c)"

definition nkvx_wasm_cache_reset :: "'m obj_cache \<Rightarrow> 'm obj_cache" where
  "nkvx_wasm_cache_reset c =
    (let c1 = fold nkvx_warm_destroy (oc_warm c) c;
         c2 = fold nkvx_obj_list_remove (oc_objects c1) c1 in c2\<lparr>oc_stats := stats_zero\<rparr>)"

definition nkvx_wasm_obj_cache_count :: "'m obj_cache \<Rightarrow> nat" where
  "nkvx_wasm_obj_cache_count c = length (live_objects c)"

definition nkvx_wasm_obj_cache_bytes :: "'m obj_cache \<Rightarrow> nat" where
  "nkvx_wasm_obj_cache_bytes c = oc_obj_bytes c"

definition nkvx_wasm_warm_cache_count :: "'m obj_cache \<Rightarrow> nat" where
  "nkvx_wasm_warm_cache_count c = oc_warm_count c"

definition nkvx_warm_lookup :: "string \<Rightarrow> nat \<Rightarrow> 'm obj_cache \<Rightarrow> 'm warm_entry option" where
  "nkvx_warm_lookup module i c = find (\<lambda>w. we_module w = module \<and> we_obj w = i) (oc_warm c)"

text \<open>
  The cache part of \<^verbatim>\<open>nkvx_warm_build\<close>, once the engine and the compiled module exist: pin
  the object, link the entry at the tail, bound the warm cache. The module name is cut to the
  63 characters of the entry's buffer.
\<close>

definition warm_insert :: "nat \<Rightarrow> string \<Rightarrow> 'm \<Rightarrow> obj_entry \<Rightarrow> 'm obj_cache \<Rightarrow> 'm obj_cache" where
  "warm_insert max_warm module handle e c =
    (let w = \<lparr>we_id = oc_next c, we_module = take 63 module, we_obj_key = oe_key e,
              we_handle = handle, we_obj = oe_id e\<rparr>;
         c1 = upd_obj (oe_id e) (\<lambda>e. e\<lparr>oe_refcount := oe_refcount e + 1\<rparr>) c in
     nkvx_warm_cache_enforce_caps max_warm
       (c1\<lparr>oc_warm := oc_warm c1 @ [w], oc_warm_count := oc_warm_count c1 + 1, oc_next := oc_next c1 + 1\<rparr>))"

section \<open>The invariant\<close>

text \<open>
  The invariant is relative to the pins handed out: \<open>pins i\<close> counts the handles of entry \<open>i\<close>
  held by callers. A reference count is the number of warm entries on the object plus those
  pins, a dead entry is still referenced (the last unreference frees it), and the three
  counters agree with the lists; a stored key has at most 255
  characters and only filled entries are linked.
\<close>

definition warm_refs :: "'m obj_cache \<Rightarrow> nat \<Rightarrow> nat" where
  "warm_refs c i = length (filter (\<lambda>w. we_obj w = i) (oc_warm c))"

definition obj_ids :: "'m obj_cache \<Rightarrow> nat set" where
  "obj_ids c = oe_id ` set (oc_objects c)"

definition entry_ok :: "(nat \<Rightarrow> nat) \<Rightarrow> 'm obj_cache \<Rightarrow> obj_entry \<Rightarrow> bool" where
  "entry_ok pins c e =
    (oe_refcount e = int (warm_refs c (oe_id e)) + int (pins (oe_id e)) \<and> (oe_dead e \<longrightarrow> oe_refcount e > 0)
     \<and> oe_id e < oc_next c \<and> length (oe_key e) \<le> obj_key_cap \<and> oe_filled e)"

definition obj_cache_inv :: "(nat \<Rightarrow> nat) \<Rightarrow> 'm obj_cache \<Rightarrow> bool" where
  "obj_cache_inv pins c =
    (distinct (map oe_id (oc_objects c)) \<and> distinct (map we_id (oc_warm c))
     \<and> oc_obj_count c = length (oc_objects c) \<and> oc_obj_bytes c = sum_list (map mem_cap (oc_objects c))
     \<and> oc_warm_count c = length (oc_warm c)
     \<and> (\<forall>e \<in> set (oc_objects c). entry_ok pins c e)
     \<and> (\<forall>w \<in> set (oc_warm c). we_obj w \<in> obj_ids c \<and> we_id w < oc_next c)
     \<and> (\<forall>i. pins i > 0 \<longrightarrow> i \<in> obj_ids c))"

lemma entry_ok_other [simp]: "oe_id e \<noteq> i \<Longrightarrow> entry_ok (p(i := k)) c e = entry_ok p c e"
  by (simp add: entry_ok_def)

lemma entry_ok_cache [simp]:
  "entry_ok p (c\<lparr>oc_objects := os\<rparr>) e = entry_ok p c e"
  "entry_ok p (c\<lparr>oc_obj_count := n\<rparr>) e = entry_ok p c e"
  "entry_ok p (c\<lparr>oc_obj_bytes := n\<rparr>) e = entry_ok p c e"
  "entry_ok p (c\<lparr>oc_warm_count := n\<rparr>) e = entry_ok p c e"
  "entry_ok p (c\<lparr>oc_stats := st\<rparr>) e = entry_ok p c e"
  by (simp_all add: entry_ok_def warm_refs_def)

lemma obj_split:
  assumes "distinct (map oe_id (oc_objects c))" "i \<in> obj_ids c"
  obtains xs e ys where "oc_objects c = xs @ e # ys" "oe_id e = i" "\<forall>x \<in> set xs. oe_id x \<noteq> i" "\<forall>x \<in> set ys. oe_id x \<noteq> i"
proof -
  obtain e where "e \<in> set (oc_objects c)" "oe_id e = i" using assms(2) by (auto simp: obj_ids_def)
  then obtain xs ys where "oc_objects c = xs @ e # ys" by (meson split_list)
  with assms(1) \<open>oe_id e = i\<close> show thesis by (intro that [of xs e ys]) (auto simp: image_iff)
qed

lemma map_if_other: "\<forall>x \<in> set xs. oe_id x \<noteq> i \<Longrightarrow> map (\<lambda>x. if oe_id x = i then f x else x) xs = xs"
  by (induction xs) auto

lemma filter_id_other: "\<forall>x \<in> set xs. oe_id x \<noteq> i \<Longrightarrow> filter (\<lambda>x. oe_id x \<noteq> i) xs = xs"
  by (induction xs) auto

lemma filter_id_none: "\<forall>x \<in> set xs. oe_id x \<noteq> i \<Longrightarrow> filter (\<lambda>x. oe_id x = i) xs = []"
  by (induction xs) auto

lemma find_id_none: "\<forall>x \<in> set xs. oe_id x \<noteq> i \<Longrightarrow> find (\<lambda>x. oe_id x = i) xs = None"
  by (induction xs) auto

lemma find_append: "find P (xs @ ys) = (case find P xs of None \<Rightarrow> find P ys | Some x \<Rightarrow> Some x)"
  by (induction xs) auto

lemma upd_obj_split:
  assumes "oc_objects c = xs @ e # ys" "oe_id e = i" "\<forall>x \<in> set xs. oe_id x \<noteq> i" "\<forall>x \<in> set ys. oe_id x \<noteq> i"
  shows "upd_obj i f c = c\<lparr>oc_objects := xs @ f e # ys\<rparr>"
  using assms by (simp add: upd_obj_def map_if_other)

lemma unref_split:
  assumes "oc_objects c = xs @ e # ys" "oe_id e = i" "\<forall>x \<in> set xs. oe_id x \<noteq> i" "\<forall>x \<in> set ys. oe_id x \<noteq> i"
  shows "nkvx_obj_unref i c =
    (if oe_refcount e = 1 \<and> oe_dead e
     then c\<lparr>oc_objects := xs @ ys, oc_obj_count := oc_obj_count c - 1, oc_obj_bytes := oc_obj_bytes c - mem_cap e\<rparr>
     else c\<lparr>oc_objects := xs @ e\<lparr>oe_refcount := oe_refcount e - 1\<rparr> # ys\<rparr>)"
  using assms
  by (simp add: nkvx_obj_unref_def upd_obj_split Let_def obj_by_id_def find_append find_id_none
      nkvx_obj_list_remove_def filter_id_other mem_cap_def)

lemma unref_inv:
  assumes "obj_cache_inv (p(i := p i + 1)) c"
  shows "obj_cache_inv p (nkvx_obj_unref i c)"
proof -
  have "distinct (map oe_id (oc_objects c))" "i \<in> obj_ids c"
    using assms by (auto simp: obj_cache_inv_def)
  then obtain xs e ys where sp: "oc_objects c = xs @ e # ys" "oe_id e = i"
      "\<forall>x \<in> set xs. oe_id x \<noteq> i" "\<forall>x \<in> set ys. oe_id x \<noteq> i"
    by (rule obj_split)
  have e: "oe_refcount e = int (warm_refs c i) + int (p i) + 1" "i < oc_next c"
      "length (oe_key e) \<le> obj_key_cap" "oe_filled e"
    using assms sp(2) by (simp_all add: obj_cache_inv_def sp(1) entry_ok_def)
  have ok: "entry_ok p c x" if "x \<in> set xs \<union> set ys" for x
  proof -
    have "oe_id x \<noteq> i" using that sp(3,4) by auto
    moreover have "entry_ok (p(i := p i + 1)) c x" using assms that by (simp add: obj_cache_inv_def sp(1))
    ultimately show ?thesis by (simp del: fun_upd_apply)
  qed
  have pins: "p j > 0 \<Longrightarrow> j \<in> obj_ids c" for j
    using assms by (simp add: obj_cache_inv_def split: if_splits)
  have warm: "\<forall>w \<in> set (oc_warm c). we_obj w \<in> obj_ids c \<and> we_id w < oc_next c"
    using assms by (simp add: obj_cache_inv_def)
  show ?thesis
  proof (cases "oe_refcount e = 1 \<and> oe_dead e")
    case True
    then have "warm_refs c i = 0" "p i = 0" using e by auto
    then have "\<forall>w \<in> set (oc_warm c). we_obj w \<noteq> i"
      by (auto simp: warm_refs_def filter_empty_conv)
    moreover have "j \<noteq> i" if "p j > 0" for j using that \<open>p i = 0\<close> by auto
    ultimately show ?thesis using True assms sp(1,2) ok pins warm
      by (simp add: unref_split [OF sp] obj_cache_inv_def obj_ids_def del: fun_upd_apply)
  next
    case False
    have "entry_ok p c (e\<lparr>oe_refcount := oe_refcount e - 1\<rparr>)"
      using False e sp(2) by (auto simp: entry_ok_def)
    then show ?thesis using assms sp(1,2) ok pins warm
      unfolding unref_split [OF sp] if_not_P [OF False]
      by (simp add: obj_cache_inv_def obj_ids_def mem_cap_def del: fun_upd_apply)
  qed
qed

text \<open>Dropping a warm entry turns its reference into a pin, which the unreference takes back.\<close>

lemma length_filter_remove:
  assumes "distinct (map f xs)" "x \<in> set xs"
  shows "length (filter (\<lambda>y. f y \<noteq> f x) xs) = length xs - 1"
    "length (filter (\<lambda>y. P y \<and> f y \<noteq> f x) xs) = length (filter P xs) - (if P x then 1 else 0)"
proof -
  obtain as bs where xs: "xs = as @ x # bs" using assms(2) by (meson split_list)
  have other: "f y \<noteq> f x" if "y \<in> set as \<or> y \<in> set bs" for y
    using assms(1) that by (auto simp: xs image_iff)
  have "filter (\<lambda>y. Q y \<and> f y \<noteq> f x) as = filter Q as" "filter (\<lambda>y. Q y \<and> f y \<noteq> f x) bs = filter Q bs" for Q
    using other by (blast intro: filter_cong)+
  note this [of P] this [of "\<lambda>_. True"]
  then show "length (filter (\<lambda>y. f y \<noteq> f x) xs) = length xs - 1"
    "length (filter (\<lambda>y. P y \<and> f y \<noteq> f x) xs) = length (filter P xs) - (if P x then 1 else 0)"
    by (simp_all add: xs)
qed

lemma warm_drop_inv:
  assumes "obj_cache_inv p c" "w \<in> set (oc_warm c)"
  shows "obj_cache_inv (p(we_obj w := p (we_obj w) + 1))
    (c\<lparr>oc_warm := filter (\<lambda>x. we_id x \<noteq> we_id w) (oc_warm c), oc_warm_count := oc_warm_count c - 1\<rparr>)"
proof -
  let ?c = "c\<lparr>oc_warm := filter (\<lambda>x. we_id x \<noteq> we_id w) (oc_warm c), oc_warm_count := oc_warm_count c - 1\<rparr>"
  have d: "distinct (map we_id (oc_warm c))" using assms(1) by (simp add: obj_cache_inv_def)
  have "warm_refs c (we_obj w) > 0" using assms(2) by (auto simp: warm_refs_def filter_empty_conv)
  then have refs: "int (warm_refs c i) = int (warm_refs ?c i) + (if i = we_obj w then 1 else 0)" for i
    using length_filter_remove(2) [OF d assms(2), of "\<lambda>w. we_obj w = i"]
    by (cases "i = we_obj w") (simp_all add: warm_refs_def Suc_le_eq conj_commute)
  show "obj_cache_inv (p(we_obj w := p (we_obj w) + 1)) ?c"
    using assms length_filter_remove(1) [OF d assms(2)] refs
    by (auto simp: obj_cache_inv_def entry_ok_def obj_ids_def distinct_map inj_on_def)
qed

lemma warm_destroy_inv:
  "obj_cache_inv p c \<Longrightarrow> w \<in> set (oc_warm c) \<Longrightarrow> obj_cache_inv p (nkvx_warm_destroy w c)"
  unfolding nkvx_warm_destroy_def by (intro unref_inv warm_drop_inv)

lemma destroy_warm_inv:
  assumes "obj_cache_inv p c"
  shows "obj_cache_inv p (destroy_warm_if P c)"
proof -
  have "obj_cache_inv p (fold (\<lambda>w c. if P w then nkvx_warm_destroy w c else c) ws s)"
    if "obj_cache_inv p s" "distinct (map we_id ws)" "set ws \<subseteq> set (oc_warm s)" for ws and s :: "'a obj_cache"
    using that
  proof (induction ws arbitrary: s)
    case (Cons w ws)
    then have "set ws \<subseteq> set (oc_warm (nkvx_warm_destroy w s))"
      by (auto simp: warm_destroy_warm image_iff)
    with Cons show ?case by (cases "P w") (simp_all add: warm_destroy_inv)
  qed simp
  then show ?thesis using assms by (simp add: destroy_warm_if_def obj_cache_inv_def)
qed

lemma kill_mark_inv:
  assumes "obj_cache_inv p c" "i \<in> obj_ids c"
  shows "obj_cache_inv (p(i := p i + 1))
    (upd_obj i (\<lambda>e. e\<lparr>oe_dead := True, oe_refcount := oe_refcount e + 1\<rparr>) c)"
proof -
  have "distinct (map oe_id (oc_objects c))" using assms(1) by (simp add: obj_cache_inv_def)
  then obtain xs e ys where sp: "oc_objects c = xs @ e # ys" "oe_id e = i"
      "\<forall>x \<in> set xs. oe_id x \<noteq> i" "\<forall>x \<in> set ys. oe_id x \<noteq> i"
    using assms(2) by (rule obj_split)
  let ?e = "e\<lparr>oe_dead := True, oe_refcount := oe_refcount e + 1\<rparr>"
  have "\<forall>j. p j > 0 \<longrightarrow> j \<in> obj_ids c"
    using assms(1) by (simp add: obj_cache_inv_def)
  then have pins: "\<forall>j. j \<noteq> i \<longrightarrow> p j > 0 \<longrightarrow> j \<in> oe_id ` (set xs \<union> set ys)"
    by (simp add: obj_ids_def sp(1,2)) blast
  have ok: "\<forall>x \<in> set xs \<union> set ys. entry_ok (p(i := Suc (p i))) c x"
    using assms(1) sp by (auto simp: obj_cache_inv_def)
  have "entry_ok (p(i := p i + 1)) c ?e"
    using assms(1) sp(2) by (simp add: obj_cache_inv_def sp(1) entry_ok_def)
  then show ?thesis
    using assms(1) sp(1,2) ok pins by (simp add: upd_obj_split [OF sp] obj_cache_inv_def obj_ids_def mem_cap_def)
qed

lemma kill_inv: "obj_cache_inv p c \<Longrightarrow> i \<in> obj_ids c \<Longrightarrow> obj_cache_inv p (obj_kill i c)"
  unfolding obj_kill_def by (intro unref_inv kill_mark_inv)

lemma inv_stats [simp]: "obj_cache_inv p (c\<lparr>oc_stats := st\<rparr>) = obj_cache_inv p c"
  by (simp add: obj_cache_inv_def obj_ids_def)

lemma obj_ids_unref: "obj_ids c - {i} \<subseteq> obj_ids (nkvx_obj_unref i c)"
  by (auto simp: nkvx_obj_unref_def Let_def obj_ids_def upd_obj_def obj_by_id_def nkvx_obj_list_remove_def
      image_iff find_Some_iff split: option.splits)

lemma obj_ids_upd:
  assumes "\<And>e. oe_id (f e) = oe_id e"
  shows "obj_ids (upd_obj i f c) = obj_ids c"
proof -
  have "map oe_id (map (\<lambda>e. if oe_id e = i then f e else e) es) = map oe_id es" for es
    by (simp add: assms)
  from arg_cong [OF this, of set]
  have "oe_id ` set (map (\<lambda>e. if oe_id e = i then f e else e) (oc_objects c)) = oe_id ` set (oc_objects c)"
    by (simp only: set_map)
  moreover have "oc_objects (upd_obj i f c) = map (\<lambda>e. if oe_id e = i then f e else e) (oc_objects c)"
    by (simp add: upd_obj_def)
  ultimately show ?thesis by (simp only: obj_ids_def)
qed

lemma obj_ids_kill: "obj_ids c - {i} \<subseteq> obj_ids (obj_kill i c)"
  using obj_ids_unref [of "upd_obj i (\<lambda>e. e\<lparr>oe_dead := True, oe_refcount := oe_refcount e + 1\<rparr>) c" i]
  by (simp add: obj_kill_def obj_ids_upd)

lemma destroy_warm_refs:
  assumes "obj_cache_inv p c"
  shows "oc_warm (destroy_warm_if P c) = filter (\<lambda>w. \<not> P w) (oc_warm c)"
proof -
  have "oc_warm (fold (\<lambda>w c. if P w then nkvx_warm_destroy w c else c) ws s)
      = filter (\<lambda>w. \<not> (we_id w \<in> we_id ` {w \<in> set ws. P w})) (oc_warm s)" for ws and s :: "'a obj_cache"
    by (induction ws arbitrary: s) (auto simp: warm_destroy_warm intro!: filter_cong)
  moreover have "inj_on we_id (set (oc_warm c))" using assms by (simp add: obj_cache_inv_def distinct_map)
  ultimately show ?thesis
    by (auto simp: destroy_warm_if_def inj_on_def intro!: filter_cong)
qed

section \<open>What lookups can see\<close>

text \<open>
  The view of the live entries in LRU order, reference counts set aside. Unreferencing and
  destroying warm entries keep it; killing an entry removes exactly that entry.
\<close>

definition live_view :: "'m obj_cache \<Rightarrow> obj_entry list" where
  "live_view c = map (\<lambda>e. e\<lparr>oe_refcount := 0\<rparr>) (live_objects c)"

lemma live_ids_view: "live_ids c = map oe_id (live_view c)"
  by (simp add: live_ids_def live_view_def)

lemma live_view_stats [simp]: "live_view (c\<lparr>oc_stats := st\<rparr>) = live_view c"
  by (simp add: live_view_def live_objects_def)

lemma lookup_view:
  "map_option (\<lambda>e. e\<lparr>oe_refcount := 0\<rparr>) (nkvx_obj_lookup c k) = find (\<lambda>e. oe_key e = k) (live_view c)"
proof -
  have "map_option (\<lambda>e. e\<lparr>oe_refcount := 0\<rparr>) (find (\<lambda>e. \<not> oe_dead e \<and> oe_key e = k) es)
      = find (\<lambda>e. oe_key e = k) (map (\<lambda>e. e\<lparr>oe_refcount := 0\<rparr>) (filter (\<lambda>e. \<not> oe_dead e) es))" for es
    by (induction es) auto
  then show ?thesis by (simp add: nkvx_obj_lookup_def live_view_def live_objects_def)
qed

lemma view_unref:
  assumes "obj_cache_inv (p(i := p i + 1)) c"
  shows "live_view (nkvx_obj_unref i c) = live_view c"
proof -
  have "distinct (map oe_id (oc_objects c))" "i \<in> obj_ids c"
    using assms by (auto simp: obj_cache_inv_def)
  then obtain xs e ys where sp: "oc_objects c = xs @ e # ys" "oe_id e = i"
      "\<forall>x \<in> set xs. oe_id x \<noteq> i" "\<forall>x \<in> set ys. oe_id x \<noteq> i"
    by (rule obj_split)
  then show ?thesis by (simp add: unref_split [OF sp] live_view_def live_objects_def)
qed

lemma view_warm_destroy:
  assumes "obj_cache_inv p c" "w \<in> set (oc_warm c)"
  shows "live_view (nkvx_warm_destroy w c) = live_view c"
  using view_unref [OF warm_drop_inv [OF assms]]
  by (simp add: nkvx_warm_destroy_def live_view_def live_objects_def)

lemma view_destroy_warm:
  assumes "obj_cache_inv p c"
  shows "live_view (destroy_warm_if P c) = live_view c"
proof -
  have "live_view (fold (\<lambda>w c. if P w then nkvx_warm_destroy w c else c) ws s) = live_view s"
    if "obj_cache_inv p s" "distinct (map we_id ws)" "set ws \<subseteq> set (oc_warm s)" for ws and s :: "'a obj_cache"
    using that
  proof (induction ws arbitrary: s)
    case (Cons w ws)
    then have "set ws \<subseteq> set (oc_warm (nkvx_warm_destroy w s))"
      by (auto simp: warm_destroy_warm image_iff)
    with Cons show ?case by (cases "P w") (simp_all add: warm_destroy_inv view_warm_destroy)
  qed simp
  then show ?thesis using assms by (simp add: destroy_warm_if_def obj_cache_inv_def)
qed

lemma view_kill:
  assumes "obj_cache_inv p c" "i \<in> obj_ids c"
  shows "live_view (obj_kill i c) = filter (\<lambda>e. oe_id e \<noteq> i) (live_view c)"
proof -
  have "map (\<lambda>e. e\<lparr>oe_refcount := 0\<rparr>) (filter (\<lambda>e. \<not> oe_dead e)
        (map (\<lambda>e. if oe_id e = i then e\<lparr>oe_dead := True, oe_refcount := oe_refcount e + 1\<rparr> else e) es))
      = filter (\<lambda>e. oe_id e \<noteq> i) (map (\<lambda>e. e\<lparr>oe_refcount := 0\<rparr>) (filter (\<lambda>e. \<not> oe_dead e) es))" for es
    by (induction es) auto
  then show ?thesis
    using view_unref [OF kill_mark_inv [OF assms]]
    by (simp add: obj_kill_def live_view_def live_objects_def upd_obj_def)
qed

lemma kill_fold:
  assumes "obj_cache_inv p s" "distinct (map oe_id es)" "oe_id ` set es \<subseteq> obj_ids s"
  shows "obj_cache_inv p (fold (\<lambda>e c. if Q e then obj_kill (oe_id e) c else c) es s)
    \<and> live_view (fold (\<lambda>e c. if Q e then obj_kill (oe_id e) c else c) es s)
      = filter (\<lambda>v. oe_id v \<notin> oe_id ` {e \<in> set es. Q e}) (live_view s)"
  using assms
proof (induction es arbitrary: s)
  case (Cons e es)
  from Cons.prems have "oe_id ` set es \<subseteq> obj_ids s - {oe_id e}" by (auto simp: image_iff)
  then have sub: "oe_id ` set es \<subseteq> obj_ids (obj_kill (oe_id e) s)"
    using obj_ids_kill by (rule order_trans)
  show ?case
  proof (cases "Q e")
    case True
    then have "{x. (x = e \<or> x \<in> set es) \<and> Q x} = insert e {x \<in> set es. Q x}" by auto
    then show ?thesis using True Cons sub by (simp add: kill_inv view_kill)
  next
    case False
    then have "{x. (x = e \<or> x \<in> set es) \<and> Q x} = {x \<in> set es. Q x}" by auto
    then show ?thesis using False Cons by simp
  qed
qed simp

lemma invalidate_fold:
  assumes "obj_cache_inv p c"
  shows "obj_cache_inv p (nkvx_cache_invalidate_locked k c)
    \<and> live_view (nkvx_cache_invalidate_locked k c) = filter (\<lambda>v. oe_key v \<noteq> k) (live_view c)"
proof -
  let ?s = "destroy_warm_if (\<lambda>w. we_obj_key w = k) c"
  let ?Q = "\<lambda>e. \<not> oe_dead e \<and> oe_key e = k"
  have inv: "obj_cache_inv p ?s" using assms by (rule destroy_warm_inv)
  then have d: "distinct (map oe_id (oc_objects ?s))" "oe_id ` set (oc_objects ?s) \<subseteq> obj_ids ?s"
    by (simp_all add: obj_cache_inv_def obj_ids_def)
  have "oe_id v \<in> oe_id ` {e \<in> set (oc_objects ?s). ?Q e} \<longleftrightarrow> oe_key v = k" if "v \<in> set (live_view ?s)" for v
    using d(1) that by (auto simp: live_view_def live_objects_def distinct_map inj_on_def image_iff)
  then have "filter (\<lambda>v. oe_id v \<notin> oe_id ` {e \<in> set (oc_objects ?s). ?Q e}) (live_view ?s)
      = filter (\<lambda>v. oe_key v \<noteq> k) (live_view ?s)"
    by (intro filter_cong) simp_all
  then show ?thesis
    using kill_fold [OF inv d, of ?Q] view_destroy_warm [OF assms]
    by (simp add: nkvx_cache_invalidate_locked_def Let_def)
qed

lemma evict_fold:
  assumes "obj_cache_inv p c" "i \<in> set (live_ids c)"
  shows "obj_cache_inv p (nkvx_obj_evict_locked i c)
    \<and> live_view (nkvx_obj_evict_locked i c) = filter (\<lambda>e. oe_id e \<noteq> i) (live_view c)"
proof -
  let ?s = "destroy_warm_if (\<lambda>w. we_obj w = i) c"
  have inv: "obj_cache_inv p ?s" "live_view ?s = live_view c"
    using assms(1) by (rule destroy_warm_inv, rule view_destroy_warm)
  then have "i \<in> set (live_ids ?s)" using assms(2) by (simp add: live_ids_view)
  then have "i \<in> obj_ids ?s" by (auto simp: live_ids_def live_objects_def obj_ids_def)
  then show ?thesis using inv(2) kill_inv [OF inv(1)] view_kill [OF inv(1)]
    by (simp add: nkvx_obj_evict_locked_def Let_def)
qed

text \<open>
  Enforcing the caps evicts a prefix of the LRU order, and ends with both caps met or no live
  entry left.
\<close>

lemma filter_hd_id:
  "distinct (map oe_id (v # vs)) \<Longrightarrow> filter (\<lambda>e. oe_id e \<noteq> oe_id v) (v # vs) = vs"
  by (auto simp: filter_id_conv image_iff)

definition caps_met :: "nat \<Rightarrow> nat \<Rightarrow> 'm obj_cache \<Rightarrow> bool" where
  "caps_met max_count max_bytes c =
    ((max_count = 0 \<or> length (live_view c) \<le> max_count) \<and> (max_bytes = 0 \<or> oc_obj_bytes c \<le> max_bytes))"

lemma distinct_live_view: "obj_cache_inv p c \<Longrightarrow> distinct (map oe_id (live_view c))"
  by (auto simp: obj_cache_inv_def live_view_def live_objects_def distinct_map inj_on_def intro: distinct_filter)

lemma enforce_fold:
  assumes "obj_cache_inv p c"
  shows "obj_cache_inv p (nkvx_obj_cache_enforce_caps mc mb c)
    \<and> (\<exists>n. live_view (nkvx_obj_cache_enforce_caps mc mb c) = drop n (live_view c))
    \<and> (caps_met mc mb (nkvx_obj_cache_enforce_caps mc mb c)
       \<or> live_view (nkvx_obj_cache_enforce_caps mc mb c) = [])"
  using assms
proof (induction mc mb c rule: nkvx_obj_cache_enforce_caps.induct)
  case (1 mc mb c)
  let ?over = "(mc \<noteq> 0 \<and> length (live_objects c) > mc) \<or> (mb \<noteq> 0 \<and> oc_obj_bytes c > mb)"
  show ?case
  proof (cases "live_objects c")
    case Nil
    then show ?thesis using 1(2)
      by (simp add: nkvx_obj_cache_enforce_caps.simps [of mc mb c] live_view_def)
  next
    case (Cons v vs)
    let ?e = "nkvx_obj_evict_locked (oe_id v) c"
    have view: "live_view c = v\<lparr>oe_refcount := 0\<rparr> # tl (live_view c)" by (simp add: live_view_def Cons)
    have "oe_id v \<in> set (live_ids c)" by (simp add: live_ids_def Cons)
    then have e: "obj_cache_inv p ?e" "live_view ?e = drop 1 (live_view c)"
      using evict_fold [OF 1(2), of "oe_id v"] filter_hd_id [of "v\<lparr>oe_refcount := 0\<rparr>" "tl (live_view c)"]
        distinct_live_view [OF 1(2)] view by (simp_all add: drop_Suc)
    consider "\<not> ?over" | "?over" "length (live_objects c) = 1" | "?over" "length (live_objects c) \<noteq> 1"
      by blast
    then show ?thesis
    proof cases
      case 1
      then show ?thesis using \<open>obj_cache_inv p c\<close>
        by (auto simp: nkvx_obj_cache_enforce_caps.simps [of mc mb c] Cons caps_met_def live_view_def
            intro: exI [of _ 0])
    next
      case 2
      then show ?thesis using e
        by (auto simp: nkvx_obj_cache_enforce_caps.simps [of mc mb c] Cons live_view_def
            intro: exI [of _ 1])
    next
      case 3
      then have *: "nkvx_obj_cache_enforce_caps mc mb c = nkvx_obj_cache_enforce_caps mc mb ?e"
        by (auto simp: nkvx_obj_cache_enforce_caps.simps [of mc mb c] Cons)
      show ?thesis using "1.IH" [OF Cons refl refl refl] 3 e Cons
        unfolding * by (auto simp del: One_nat_def) 
    qed
  qed
qed

lemma warm_enforce_inv: "obj_cache_inv p c \<Longrightarrow> obj_cache_inv p (nkvx_warm_cache_enforce_caps mw c)"
proof (induction mw c rule: nkvx_warm_cache_enforce_caps.induct)
  case (1 mw c)
  show ?case
  proof (cases "oc_warm c")
    case Nil
    then show ?thesis using 1(2) by (simp add: nkvx_warm_cache_enforce_caps.simps [of mw c])
  next
    case (Cons w ws)
    then have "obj_cache_inv p (nkvx_warm_destroy w c)" using 1(2) by (simp add: warm_destroy_inv)
    then show ?thesis using 1 Cons
      by (simp add: nkvx_warm_cache_enforce_caps.simps [of mw c] Let_def)
  qed
qed

lemma inv_reorder:
  assumes "obj_cache_inv p c" and os: "mset es = mset (oc_objects c)"
  shows "obj_cache_inv p (c\<lparr>oc_objects := es\<rparr>)"
proof -
  have "set es = set (oc_objects c)" "length es = length (oc_objects c)"
    using os by (rule mset_eq_setD, rule mset_eq_length)
  moreover have "distinct (map oe_id es) = distinct (map oe_id (oc_objects c))"
    by (rule mset_eq_imp_distinct_iff) (simp only: mset_map os)
  moreover have "sum_mset (mset (map mem_cap es)) = sum_mset (mset (map mem_cap (oc_objects c)))"
    by (simp only: mset_map os)
  then have "sum_list (map mem_cap es) = sum_list (map mem_cap (oc_objects c))"
    by (simp only: sum_mset_sum_list)
  ultimately show ?thesis using assms(1) by (simp add: obj_cache_inv_def obj_ids_def)
qed

lemma touch_inv: "obj_cache_inv p c \<Longrightarrow> obj_cache_inv p (nkvx_obj_touch i c)"
  unfolding nkvx_obj_touch_def
  by (rule inv_reorder) (simp_all add: multiset_partition [of "mset (oc_objects c)" "\<lambda>e. oe_id e \<noteq> i", symmetric])

lemma fresh_next:
  assumes "obj_cache_inv p c"
  shows "oc_next c \<notin> obj_ids c" "p (oc_next c) = 0" "\<forall>w \<in> set (oc_warm c). we_obj w \<noteq> oc_next c"
proof -
  show fresh: "oc_next c \<notin> obj_ids c"
    using assms by (auto simp: obj_cache_inv_def entry_ok_def obj_ids_def)
  then show "p (oc_next c) = 0" "\<forall>w \<in> set (oc_warm c). we_obj w \<noteq> oc_next c"
    using assms by (auto simp: obj_cache_inv_def)
qed

lemma add_inv:
  assumes "obj_cache_inv p c"
  shows "obj_cache_inv p (nkvx_obj_list_add (new_entry (oc_next c) k need got) (bump_fills (c\<lparr>oc_next := oc_next c + 1\<rparr>)))"
proof -
  have "warm_refs c (oc_next c) = 0"
    using fresh_next(3) [OF assms] by (simp add: warm_refs_def filter_empty_conv)
  then show ?thesis using assms fresh_next(1,2) [OF assms]
    by (auto simp: nkvx_obj_list_add_def bump_fills_def obj_cache_inv_def entry_ok_def warm_refs_def obj_ids_def
        new_entry_def less_SucI)
qed

lemmas enforce_inv = enforce_fold [THEN conjunct1]

lemma cold_fill_inv:
  assumes "obj_cache_inv p c"
  shows "obj_cache_inv p (snd (cold_fill mc mb al k n f c))"
  using assms enforce_inv [OF add_inv [OF assms]]
  by (simp add: cold_fill_def Let_def split: option.splits)

lemma fill_inv:
  "obj_cache_inv p c \<Longrightarrow> obj_cache_inv p (snd (nkvx_wasm_cache_fill mc mb api al k n f c))"
  using cold_fill_inv [of p c mc mb al k n f]
  by (auto simp: nkvx_wasm_cache_fill_def bump_hits_def touch_inv split: option.splits prod.splits sum.splits)

lemma pin_inv:
  assumes "obj_cache_inv p c" "i \<in> obj_ids c"
  shows "obj_cache_inv (p(i := p i + 1)) (upd_obj i (\<lambda>e. e\<lparr>oe_refcount := oe_refcount e + 1\<rparr>) c)"
proof -
  have "distinct (map oe_id (oc_objects c))" using assms(1) by (simp add: obj_cache_inv_def)
  then obtain xs e ys where sp: "oc_objects c = xs @ e # ys" "oe_id e = i"
      "\<forall>x \<in> set xs. oe_id x \<noteq> i" "\<forall>x \<in> set ys. oe_id x \<noteq> i"
    using assms(2) by (rule obj_split)
  have "\<forall>j. p j > 0 \<longrightarrow> j \<in> obj_ids c"
    using assms(1) by (simp add: obj_cache_inv_def)
  then have pins: "\<forall>j. j \<noteq> i \<longrightarrow> p j > 0 \<longrightarrow> j \<in> oe_id ` (set xs \<union> set ys)"
    by (simp add: obj_ids_def sp(1,2)) blast
  have ok: "\<forall>x \<in> set xs \<union> set ys. entry_ok (p(i := Suc (p i))) c x"
    using assms(1) sp by (auto simp: obj_cache_inv_def)
  have "entry_ok (p(i := p i + 1)) c (e\<lparr>oe_refcount := oe_refcount e + 1\<rparr>)"
    using assms(1) sp(2) by (simp add: obj_cache_inv_def sp(1) entry_ok_def)
  then show ?thesis
    using assms(1) sp(1,2) ok pins by (simp add: upd_obj_split [OF sp] obj_cache_inv_def obj_ids_def mem_cap_def)
qed

lemma warm_insert_inv:
  assumes "obj_cache_inv p c" "e \<in> set (oc_objects c)"
  shows "obj_cache_inv p (warm_insert mw m h e c)"
proof -
  let ?i = "oe_id e"
  let ?w = "\<lparr>we_id = oc_next c, we_module = take 63 m, we_obj_key = oe_key e, we_handle = h, we_obj = ?i\<rparr>"
  let ?c1 = "upd_obj ?i (\<lambda>e. e\<lparr>oe_refcount := oe_refcount e + 1\<rparr>) c"
  let ?c2 = "?c1\<lparr>oc_warm := oc_warm ?c1 @ [?w], oc_warm_count := oc_warm_count ?c1 + 1, oc_next := oc_next ?c1 + 1\<rparr>"
  have i: "?i \<in> obj_ids c" using assms(2) by (auto simp: obj_ids_def)
  have "obj_cache_inv (p(?i := p ?i + 1)) ?c1" using assms(1) i by (rule pin_inv)
  then have c1: "obj_cache_inv (p(?i := Suc (p ?i))) ?c1" by simp
  have i1: "?i \<in> obj_ids ?c1" using i by (simp add: obj_ids_upd)
  have "entry_ok p ?c2 x" if "entry_ok (p(?i := Suc (p ?i))) ?c1 x" for x
    using that by (cases "oe_id x = ?i") (auto simp: entry_ok_def warm_refs_def less_SucI)
  then have "obj_cache_inv p ?c2"
    using c1 i1 by (auto simp: obj_cache_inv_def obj_ids_def less_SucI split: if_splits)
  then show ?thesis unfolding warm_insert_def Let_def by (simp add: warm_enforce_inv)
qed

section \<open>What an entry holds\<close>

text \<open>No cache operation changes the bytes of an allocated entry; entries only appear by a fill.\<close>

definition entry_data :: "obj_entry \<Rightarrow> nat \<times> string \<times> bytes \<times> nat \<times> bool" where
  "entry_data e = (oe_id e, oe_key e, oe_mem e, oe_obj_len e, oe_filled e)"

definition contents :: "'m obj_cache \<Rightarrow> (nat \<times> string \<times> bytes \<times> nat \<times> bool) set" where
  "contents c = entry_data ` set (oc_objects c)"

lemma contents_upd:
  assumes "\<And>e. entry_data (f e) = entry_data e"
  shows "contents (upd_obj i f c) = contents c"
proof -
  have "map entry_data (map (\<lambda>e. if oe_id e = i then f e else e) es) = map entry_data es" for es
    by (simp add: assms)
  from arg_cong [OF this, of set]
  have "entry_data ` set (map (\<lambda>e. if oe_id e = i then f e else e) (oc_objects c)) = entry_data ` set (oc_objects c)"
    by (simp only: set_map)
  moreover have "oc_objects (upd_obj i f c) = map (\<lambda>e. if oe_id e = i then f e else e) (oc_objects c)"
    by (simp add: upd_obj_def)
  ultimately show ?thesis by (simp only: contents_def)
qed

lemma contents_unref: "contents (nkvx_obj_unref i c) \<subseteq> contents c"
proof -
  have "contents (upd_obj i (\<lambda>e. e\<lparr>oe_refcount := oe_refcount e - 1\<rparr>) c) = contents c"
    by (rule contents_upd) (simp add: entry_data_def)
  moreover have "contents (nkvx_obj_list_remove e s) \<subseteq> contents s" for e and s :: "'a obj_cache"
    by (auto simp: contents_def nkvx_obj_list_remove_def)
  ultimately show ?thesis by (auto simp: nkvx_obj_unref_def Let_def split: option.splits if_splits)
qed

lemma contents_warm_destroy: "contents (nkvx_warm_destroy w c) \<subseteq> contents c"
  unfolding nkvx_warm_destroy_def by (rule order_trans [OF contents_unref]) (simp add: contents_def)

lemma contents_kill: "contents (obj_kill i c) \<subseteq> contents c"
  unfolding obj_kill_def by (rule order_trans [OF contents_unref]) (simp add: contents_upd entry_data_def)

lemma contents_fold:
  assumes "\<And>x s. contents (f x s) \<subseteq> contents s"
  shows "contents (fold (\<lambda>x s. if P x then f x s else s) xs c) \<subseteq> contents c"
proof (induction xs arbitrary: c)
  case (Cons x xs)
  have "contents (if P x then f x c else c) \<subseteq> contents c" using assms by simp
  with Cons [of "if P x then f x c else c"] show ?case by simp
qed simp

lemma contents_stats [simp]: "contents (c\<lparr>oc_stats := st\<rparr>) = contents c"
  by (simp add: contents_def)

lemma contents_invalidate: "contents (nkvx_cache_invalidate_locked k c) \<subseteq> contents c"
  unfolding nkvx_cache_invalidate_locked_def Let_def destroy_warm_if_def
  by (rule order_trans [OF contents_fold [OF contents_kill] contents_fold [OF contents_warm_destroy]])

lemma contents_evict: "contents (nkvx_obj_evict_locked i c) \<subseteq> contents c"
  unfolding nkvx_obj_evict_locked_def Let_def destroy_warm_if_def contents_stats
  by (rule order_trans [OF contents_kill contents_fold [OF contents_warm_destroy]])

lemma contents_enforce: "contents (nkvx_obj_cache_enforce_caps mc mb c) \<subseteq> contents c"
proof (induction mc mb c rule: nkvx_obj_cache_enforce_caps.induct)
  case (1 mc mb c)
  show ?case
  proof (cases "live_objects c")
    case (Cons v vs)
    from 1 [OF Cons refl refl refl] contents_evict [of "oe_id v" c] show ?thesis
      by (auto simp: nkvx_obj_cache_enforce_caps.simps [of mc mb c] Cons Let_def)
  qed (simp add: nkvx_obj_cache_enforce_caps.simps [of mc mb c])
qed

lemma contents_warm_enforce: "contents (nkvx_warm_cache_enforce_caps mw c) \<subseteq> contents c"
proof (induction mw c rule: nkvx_warm_cache_enforce_caps.induct)
  case (1 mw c)
  show ?case
  proof (cases "oc_warm c")
    case (Cons w ws)
    from 1 [OF Cons] contents_warm_destroy [of w c] show ?thesis
      by (auto simp: nkvx_warm_cache_enforce_caps.simps [of mw c] Cons Let_def)
  qed (simp add: nkvx_warm_cache_enforce_caps.simps [of mw c])
qed

section \<open>Interleaved use of the cache\<close>

text \<open>
  The cache and the pins callers hold, under any sequence of calls. The mutex makes each call
  one step. \<open>CE_warm\<close> and \<open>CE_warm_hit\<close> are the two ways a module run enters the warm cache and
  \<open>CE_write\<close> is a run storing into the linear memory that aliases the entry's buffer.
\<close>

datatype 'm cache_event =
    CE_fill nat nat bool bool string nat "nat \<Rightarrow> bytes option"
  | CE_pin string
  | CE_unpin nat
  | CE_invalidate string
  | CE_warm nat string 'm nat
  | CE_warm_hit nat
  | CE_write nat bytes

type_synonym 'm cache_state = "(nat \<Rightarrow> nat) \<times> 'm obj_cache"

definition pin_handle :: "nat option \<Rightarrow> (nat \<Rightarrow> nat) \<Rightarrow> nat \<Rightarrow> nat" where
  "pin_handle h p = (case h of None \<Rightarrow> p | Some i \<Rightarrow> p(i := p i + 1))"

inductive cache_step :: "'m cache_state \<Rightarrow> 'm cache_event \<Rightarrow> 'm cache_state \<Rightarrow> bool" where
  step_fill: "cache_step (p, c) (CE_fill mc mb api al k n f) (p, snd (nkvx_wasm_cache_fill mc mb api al k n f c))"
| step_pin: "nkvx_wasm_cache_pin k c = (h, c') \<Longrightarrow> cache_step (p, c) (CE_pin k) (pin_handle h p, c')"
| step_unpin: "p i > 0 \<Longrightarrow> cache_step (p, c) (CE_unpin i) (p(i := p i - 1), nkvx_wasm_cache_unpin (Some i) c)"
| step_invalidate: "cache_step (p, c) (CE_invalidate k) (p, nkvx_wasm_cache_invalidate k c)"
| step_warm: "obj_by_id c i = Some e \<Longrightarrow> cache_step (p, c) (CE_warm mw m h i) (p, warm_insert mw m h e c)"
| step_warm_hit: "cache_step (p, c) (CE_warm_hit w) (p, nkvx_warm_touch w c)"
| step_write: "obj_by_id c i = Some e \<Longrightarrow> length m = mem_cap e \<Longrightarrow>
    cache_step (p, c) (CE_write i m) (p, upd_obj i (\<lambda>e. e\<lparr>oe_mem := m\<rparr>) c)"

inductive_cases cache_stepE: "cache_step (p, c) ev s"

lemma obj_by_id_mem: "obj_by_id c i = Some e \<Longrightarrow> e \<in> set (oc_objects c) \<and> oe_id e = i"
  by (auto simp: obj_by_id_def find_Some_iff)

lemma lookup_mem: "nkvx_obj_lookup c k = Some e \<Longrightarrow> e \<in> set (oc_objects c) \<and> \<not> oe_dead e \<and> oe_key e = k"
  by (auto simp: nkvx_obj_lookup_def find_Some_iff)

lemma inv_reorder_warm:
  assumes "obj_cache_inv p c" and m: "mset ws = mset (oc_warm c)"
  shows "obj_cache_inv p (c\<lparr>oc_warm := ws\<rparr>)"
proof -
  have "set ws = set (oc_warm c)" "length ws = length (oc_warm c)"
    using m by (rule mset_eq_setD, rule mset_eq_length)
  moreover have "distinct (map we_id ws) = distinct (map we_id (oc_warm c))"
    by (rule mset_eq_imp_distinct_iff) (simp only: mset_map m)
  moreover have "mset (filter (\<lambda>x. we_obj x = i) ws) = mset (filter (\<lambda>x. we_obj x = i) (oc_warm c))" for i
    by (simp only: mset_filter m)
  then have "length (filter (\<lambda>x. we_obj x = i) ws) = length (filter (\<lambda>x. we_obj x = i) (oc_warm c))" for i
    by (rule mset_eq_length)
  then have "entry_ok p (c\<lparr>oc_warm := ws\<rparr>) e = entry_ok p c e" for e
    by (simp add: entry_ok_def warm_refs_def)
  ultimately show ?thesis using assms(1) by (simp add: obj_cache_inv_def obj_ids_def)
qed

lemma warm_touch_inv: "obj_cache_inv p c \<Longrightarrow> obj_cache_inv p (nkvx_warm_touch w c)"
  unfolding nkvx_warm_touch_def
  by (rule inv_reorder_warm) (simp_all add: multiset_partition [of "mset (oc_warm c)" "\<lambda>x. we_id x \<noteq> w", symmetric])

lemma write_inv:
  assumes "obj_cache_inv p c" "obj_by_id c i = Some e" "length m = mem_cap e"
  shows "obj_cache_inv p (upd_obj i (\<lambda>e. e\<lparr>oe_mem := m\<rparr>) c)"
proof -
  have "distinct (map oe_id (oc_objects c))" "i \<in> obj_ids c"
    using assms(1) obj_by_id_mem [OF assms(2)] by (auto simp: obj_cache_inv_def obj_ids_def)
  then obtain xs e' ys where sp: "oc_objects c = xs @ e' # ys" "oe_id e' = i"
      "\<forall>x \<in> set xs. oe_id x \<noteq> i" "\<forall>x \<in> set ys. oe_id x \<noteq> i"
    by (rule obj_split)
  then have "e' = e" using assms(2) by (simp add: obj_by_id_def find_append find_id_none)
  moreover have "entry_ok p c (e'\<lparr>oe_mem := m\<rparr>) = entry_ok p c e'" by (simp add: entry_ok_def)
  ultimately show ?thesis using assms(1,3) sp(1,2)
    by (simp add: upd_obj_split [OF sp] obj_cache_inv_def obj_ids_def mem_cap_def)
qed

lemma cache_step_inv:
  assumes "cache_step s ev s'" "obj_cache_inv (fst s) (snd s)"
  shows "obj_cache_inv (fst s') (snd s')"
  using assms
proof cases
  case (step_pin k c h c' p)
  then show ?thesis using assms(2) pin_inv lookup_mem
    by (fastforce simp: nkvx_wasm_cache_pin_def pin_handle_def obj_ids_def split: if_splits option.splits)
next
  case (step_unpin p i c)
  then have "obj_cache_inv ((p(i := p i - 1))(i := (p(i := p i - 1)) i + 1)) c" using assms(2) by simp
  then show ?thesis unfolding step_unpin by (simp add: nkvx_wasm_cache_unpin_def unref_inv del: fun_upd_apply)
next
  case (step_invalidate p c k)
  then show ?thesis using assms(2) invalidate_fold [of p c k] by (simp add: nkvx_wasm_cache_invalidate_def)
next
  case (step_warm c i e p mw m h)
  then show ?thesis using assms(2) warm_insert_inv obj_by_id_mem by fastforce
qed (use assms(2) in \<open>simp_all add: fill_inv warm_touch_inv write_inv\<close>)

definition cache_init :: "'m cache_state \<Rightarrow> bool" where
  "cache_init s = (s = ((\<lambda>_. 0), nkvx_cache_init_once))"

interpretation cache_sys: invariant_system cache_init cache_step "\<lambda>s. obj_cache_inv (fst s) (snd s)"
  by unfold_locales
    (simp add: cache_init_def nkvx_cache_init_once_def obj_cache_inv_def, rule cache_step_inv)

section \<open>Pinned bytes are stable\<close>

lemma next_unref [simp]: "oc_next (nkvx_obj_unref i c) = oc_next c"
  by (simp add: nkvx_obj_unref_def Let_def nkvx_obj_list_remove_def split: option.splits)

lemma next_destroy [simp]: "oc_next (nkvx_warm_destroy w c) = oc_next c"
  by (simp add: nkvx_warm_destroy_def)

lemma next_kill [simp]: "oc_next (obj_kill i c) = oc_next c"
  by (simp add: obj_kill_def)

lemma next_fold:
  "(\<And>x s. oc_next (f x s) = oc_next s) \<Longrightarrow> oc_next (fold (\<lambda>x s. if P x then f x s else s) xs c) = oc_next c"
  by (induction xs arbitrary: c) simp_all

lemma next_evict [simp]: "oc_next (nkvx_obj_evict_locked i c) = oc_next c"
  by (simp add: nkvx_obj_evict_locked_def Let_def destroy_warm_if_def next_fold)

lemma next_invalidate [simp]: "oc_next (nkvx_cache_invalidate_locked k c) = oc_next c"
  by (simp add: nkvx_cache_invalidate_locked_def Let_def destroy_warm_if_def next_fold)

lemma next_enforce [simp]: "oc_next (nkvx_obj_cache_enforce_caps mc mb c) = oc_next c"
  by (induction mc mb c rule: nkvx_obj_cache_enforce_caps.induct)
    (subst nkvx_obj_cache_enforce_caps.simps, simp add: Let_def split: list.splits)

lemma next_warm_enforce [simp]: "oc_next (nkvx_warm_cache_enforce_caps mw c) = oc_next c"
  by (induction mw c rule: nkvx_warm_cache_enforce_caps.induct)
    (subst nkvx_warm_cache_enforce_caps.simps, auto simp: Let_def split: list.splits)

text \<open>
  Whatever a call leaves on the list under an identifier that was already in use is unchanged,
  a module run's own stores into that entry apart.
\<close>

definition kept :: "nat \<Rightarrow> 'm obj_cache \<Rightarrow> 'm obj_cache \<Rightarrow> bool" where
  "kept i c c' = (oc_next c \<le> oc_next c' \<and>
    (\<forall>x \<in> contents c'. fst x = i \<longrightarrow> i < oc_next c \<longrightarrow> x \<in> contents c))"

lemma kept_trans: "kept i a b \<Longrightarrow> kept i b c \<Longrightarrow> kept i a c"
  unfolding kept_def by (meson le_trans less_le_trans)

lemma keptI: "oc_next c' = oc_next c \<Longrightarrow> contents c' \<subseteq> contents c \<Longrightarrow> kept i c c'"
  by (auto simp: kept_def)

lemma kept_cold_fill: "kept i c (snd (cold_fill mc mb al k n f c))"
proof -
  have "kept i c (nkvx_obj_list_add (new_entry (oc_next c) k need got) (bump_fills (c\<lparr>oc_next := oc_next c + 1\<rparr>)))" for need got
    by (auto simp: kept_def nkvx_obj_list_add_def bump_fills_def contents_def entry_data_def new_entry_def)
  moreover have "kept i s (nkvx_obj_cache_enforce_caps mc mb s)" for s :: "'a obj_cache"
    by (rule keptI) (simp_all add: contents_enforce)
  ultimately have "kept i c (nkvx_obj_cache_enforce_caps mc mb
      (nkvx_obj_list_add (new_entry (oc_next c) k need got) (bump_fills (c\<lparr>oc_next := oc_next c + 1\<rparr>))))" for need got
    using kept_trans by blast
  moreover have "kept i c c" by (rule keptI) simp_all
  ultimately show ?thesis by (simp add: cold_fill_def Let_def split: option.splits)
qed

lemma kept_fill: "kept i c (snd (nkvx_wasm_cache_fill mc mb api al k n f c))"
proof -
  have "kept i c c" by (rule keptI) simp_all
  moreover have "kept i c (nkvx_obj_touch j (bump_hits c))" for j
    by (rule keptI) (auto simp: nkvx_obj_touch_def bump_hits_def contents_def)
  ultimately show ?thesis using kept_cold_fill [of i c mc mb al k n f]
    by (auto simp: nkvx_wasm_cache_fill_def split: option.splits prod.splits sum.splits)
qed

lemma kept_warm_insert: "kept i c (warm_insert mw m h e c)"
proof -
  have "contents (warm_insert mw m h e c) \<subseteq> contents (upd_obj (oe_id e) (\<lambda>e. e\<lparr>oe_refcount := oe_refcount e + 1\<rparr>) c)"
    unfolding warm_insert_def Let_def
    by (rule order_trans [OF contents_warm_enforce]) (simp add: contents_def)
  then have "contents (warm_insert mw m h e c) \<subseteq> contents c" by (simp add: contents_upd entry_data_def)
  moreover have "oc_next c \<le> oc_next (warm_insert mw m h e c)" by (simp add: warm_insert_def Let_def)
  ultimately show ?thesis by (auto simp: kept_def)
qed

lemma kept_step:
  assumes "cache_step s ev s'" "\<forall>m. ev \<noteq> CE_write i m"
  shows "kept i (snd s) (snd s')"
  using assms
proof cases
  case (step_pin k c h c' p)
  then show ?thesis
    by (auto simp: nkvx_wasm_cache_pin_def contents_upd entry_data_def split: if_splits option.splits intro!: keptI)
next
  case (step_unpin p j c)
  then show ?thesis by (simp add: nkvx_wasm_cache_unpin_def keptI contents_unref)
next
  case (step_invalidate p c k)
  then show ?thesis by (simp add: nkvx_wasm_cache_invalidate_def keptI contents_invalidate)
next
  case (step_write c j e m p)
  then have "j \<noteq> i" using assms(2) by auto
  then show ?thesis using step_write
    by (auto simp: kept_def contents_def upd_obj_def entry_data_def split: if_splits)
qed (simp_all add: kept_fill kept_warm_insert keptI nkvx_warm_touch_def contents_def)

lemma kept_steps:
  "steps cache_step s evs s' \<Longrightarrow> \<forall>m. CE_write i m \<notin> set evs \<Longrightarrow> kept i (snd s) (snd s')"
proof (induction rule: steps.induct)
  case (steps_cons s e s' es s'')
  then have "kept i (snd s) (snd s')" by (intro kept_step) auto
  then show ?case using steps_cons kept_trans by fastforce
qed (simp add: keptI)

lemma obj_by_id_Some:
  "obj_cache_inv p c \<Longrightarrow> obj_by_id c i = Some e \<longleftrightarrow> e \<in> set (oc_objects c) \<and> oe_id e = i"
proof
  assume "obj_cache_inv p c" and e: "e \<in> set (oc_objects c) \<and> oe_id e = i"
  then obtain e' where e': "obj_by_id c i = Some e'"
    by (cases "obj_by_id c i") (auto simp: obj_by_id_def find_None_iff)
  then have "e' = e" using \<open>obj_cache_inv p c\<close> e obj_by_id_mem [OF e']
    by (auto simp: obj_cache_inv_def distinct_map inj_on_def)
  then show "obj_by_id c i = Some e" using e' by simp
qed (rule obj_by_id_mem)

lemma pin_object_kept:
  assumes "obj_cache_inv p c" "obj_cache_inv p' c'" "kept i c c'" "p i > 0" "p' i > 0"
  shows "nkvx_wasm_pin_object (Some i) c' = nkvx_wasm_pin_object (Some i) c"
proof -
  have "i \<in> obj_ids c" "i \<in> obj_ids c'" using assms(1,2,4,5) by (auto simp: obj_cache_inv_def)
  then obtain e e' where e: "obj_by_id c i = Some e" "obj_by_id c' i = Some e'"
    using obj_by_id_Some [OF assms(1)] obj_by_id_Some [OF assms(2)] by (auto simp: obj_ids_def)
  then have m: "e \<in> set (oc_objects c)" "oe_id e = i" "e' \<in> set (oc_objects c')" "oe_id e' = i"
    using obj_by_id_mem by blast+
  have "i < oc_next c" using assms(1) m by (auto simp: obj_cache_inv_def entry_ok_def)
  moreover have "entry_data e' \<in> contents c'" using m by (simp add: contents_def)
  ultimately have "entry_data e' \<in> contents c" using assms(3) m by (simp add: kept_def entry_data_def)
  then obtain x where "x \<in> set (oc_objects c)" "entry_data x = entry_data e'" by (auto simp: contents_def)
  moreover from this have "x = e" using assms(1) m
    by (auto simp: obj_cache_inv_def distinct_map inj_on_def entry_data_def)
  ultimately show ?thesis by (simp add: nkvx_wasm_pin_object_def e entry_data_def)
qed

section \<open>Rounding, exact LRU eviction, and the effect of a fill\<close>

lemma and_not_mask_unat: "unat (w AND NOT (mask k)) = unat w div 2 ^ k * 2 ^ k" for w :: "64 word"
proof -
  have "w AND NOT (mask k) = push_bit k (drop_bit k w)"
    by (rule bit_word_eqI) (auto simp: bit_simps)
  also have "\<dots> = w - take_bit k w"
    using bits_ident [of k w] by (simp add: eq_diff_eq)
  finally have eq: "w AND NOT (mask k) = w - take_bit k w" .
  have t: "unat (take_bit k w) = unat w mod 2 ^ k"
    by (simp only: unsigned_take_bit_eq) (simp only: take_bit_eq_mod)
  then have "take_bit k w \<le> w" by (simp add: word_le_nat_alt)
  then have "unat (w - take_bit k w) = unat w - unat w mod 2 ^ k" by (simp add: unat_sub t)
  then show ?thesis by (simp add: eq minus_mod_eq_div_mult)
qed

lemma unat_of_nat64: "y < 2 ^ 64 \<Longrightarrow> unat (word_of_nat y :: 64 word) = y"
  by (simp add: unat_of_nat)

lemma nkvx_round_up_page:
  assumes "x + 65535 < 2 ^ 64"
  shows "nkvx_round_up x wasm_page = (x + 65535) div 65536 * 65536"
proof -
  have m: "(word_of_nat (65536 - 1) :: 64 word) = mask 16" by (simp add: mask_eq_decr_exp)
  have "unat (word_of_nat (x + 65536 - 1) :: 64 word) = x + 65536 - 1"
    using assms by (intro unat_of_nat64) simp
  then show ?thesis
    unfolding nkvx_round_up_def wasm_page_def m and_not_mask_unat by simp
qed

lemma cache_need_eq:
  assumes "n + 65791 < 2 ^ 64"
  shows "cache_need n = (n + 65791) div 65536 * 65536"
proof -
  have "nkvx_round_up (wasm_obj_off + n) wasm_page = (n + 65791) div 65536 * 65536"
    using nkvx_round_up_page [of "wasm_obj_off + n"] assms by (simp add: wasm_obj_off_def add.commute)
  moreover have "(n + 65791) div 65536 * 65536 \<noteq> 0" by simp
  ultimately show ?thesis by (simp add: cache_need_def Let_def)
qed

lemma cache_need_bounds:
  assumes "n + 65791 < 2 ^ 64"
  shows "wasm_obj_off + n \<le> cache_need n" "cache_need n < wasm_obj_off + n + wasm_page" "wasm_page dvd cache_need n"
proof -
  have "(n + 65791) div 65536 * 65536 = n + 65791 - (n + 65791) mod 65536"
    by (simp add: minus_mod_eq_div_mult)
  moreover have "(n + 65791) mod 65536 < 65536" by simp
  moreover have "(n + 65791) mod 65536 \<le> n + 65791" by (rule mod_less_eq_dividend)
  ultimately show "wasm_obj_off + n \<le> cache_need n" "cache_need n < wasm_obj_off + n + wasm_page"
    by (simp_all only: cache_need_eq [OF assms] wasm_obj_off_def wasm_page_def)
  show "wasm_page dvd cache_need n" by (simp add: cache_need_eq [OF assms] wasm_page_def)
qed

lemma bytes_unref: "oc_obj_bytes (nkvx_obj_unref i c) \<le> oc_obj_bytes c"
  by (simp add: nkvx_obj_unref_def Let_def nkvx_obj_list_remove_def split: option.splits)

lemma bytes_warm_destroy: "oc_obj_bytes (nkvx_warm_destroy w c) \<le> oc_obj_bytes c"
  unfolding nkvx_warm_destroy_def by (rule order_trans [OF bytes_unref]) simp

lemma bytes_kill: "oc_obj_bytes (obj_kill i c) \<le> oc_obj_bytes c"
  unfolding obj_kill_def by (rule order_trans [OF bytes_unref]) simp

lemma bytes_destroy_warm: "oc_obj_bytes (destroy_warm_if P c) \<le> oc_obj_bytes c"
proof -
  have "oc_obj_bytes (fold (\<lambda>w c. if P w then nkvx_warm_destroy w c else c) ws s) \<le> oc_obj_bytes s"
    for ws and s :: "'a obj_cache"
  proof (induction ws arbitrary: s)
    case (Cons w ws)
    have "oc_obj_bytes (if P w then nkvx_warm_destroy w s else s) \<le> oc_obj_bytes s"
      by (simp add: bytes_warm_destroy)
    then show ?case using Cons [of "if P w then nkvx_warm_destroy w s else s"] by simp
  qed simp
  then show ?thesis by (simp add: destroy_warm_if_def)
qed

lemma bytes_evict: "oc_obj_bytes (nkvx_obj_evict_locked i c) \<le> oc_obj_bytes c"
  using bytes_kill [of i "destroy_warm_if (\<lambda>w. we_obj w = i) c"] bytes_destroy_warm [of "\<lambda>w. we_obj w = i" c]
  by (simp add: nkvx_obj_evict_locked_def Let_def)

lemma evict_head:
  assumes "obj_cache_inv p c" "live_objects c = v # vs"
  shows "obj_cache_inv p (nkvx_obj_evict_locked (oe_id v) c)"
    "live_view (nkvx_obj_evict_locked (oe_id v) c) = tl (live_view c)"
proof -
  have view: "live_view c = v\<lparr>oe_refcount := 0\<rparr> # tl (live_view c)" by (simp add: live_view_def assms(2))
  have "oe_id v \<in> set (live_ids c)" by (simp add: live_ids_def assms(2))
  then show "obj_cache_inv p (nkvx_obj_evict_locked (oe_id v) c)"
    "live_view (nkvx_obj_evict_locked (oe_id v) c) = tl (live_view c)"
    using evict_fold [OF assms(1), of "oe_id v"] filter_hd_id [of "v\<lparr>oe_refcount := 0\<rparr>" "tl (live_view c)"]
      distinct_live_view [OF assms(1)] view by simp_all
qed

lemma enforce_count_exact:
  assumes "obj_cache_inv p c" "mb = 0 \<or> oc_obj_bytes c \<le> mb"
  shows "live_view (nkvx_obj_cache_enforce_caps mc mb c)
    = (if mc = 0 then live_view c else drop (length (live_view c) - mc) (live_view c))"
  using assms
proof (induction mc mb c rule: nkvx_obj_cache_enforce_caps.induct)
  case (1 mc mb c)
  show ?case
  proof (cases "live_objects c")
    case Nil
    then show ?thesis by (simp add: nkvx_obj_cache_enforce_caps.simps [of mc mb c] live_view_def)
  next
    case (Cons v vs)
    let ?e = "nkvx_obj_evict_locked (oe_id v) c"
    have len: "length (live_view c) = Suc (length vs)" by (simp add: live_view_def Cons)
    have e: "obj_cache_inv p ?e" "live_view ?e = tl (live_view c)"
      using evict_head [OF 1(2) Cons] by simp_all
    have b: "mb = 0 \<or> oc_obj_bytes ?e \<le> mb" using 1(3) bytes_evict [of "oe_id v" c] by auto
    show ?thesis
    proof (cases "mc = 0 \<or> Suc (length vs) \<le> mc")
      case True
      then show ?thesis using 1(3) len
        by (auto simp: nkvx_obj_cache_enforce_caps.simps [of mc mb c] Cons)
    next
      case False
      then have "vs \<noteq> []" by auto
      have "live_view (nkvx_obj_cache_enforce_caps mc mb c) = live_view (nkvx_obj_cache_enforce_caps mc mb ?e)"
        using 1(3) False \<open>vs \<noteq> []\<close> by (auto simp: nkvx_obj_cache_enforce_caps.simps [of mc mb c] Cons)
      also have "\<dots> = drop (length vs - mc) (tl (live_view c))"
        using "1.IH" [OF Cons refl refl refl] False Cons e b len \<open>vs \<noteq> []\<close> by auto
      also have "\<dots> = drop (length (live_view c) - mc) (live_view c)"
        using False len by (simp add: Suc_diff_le drop_Suc)
      finally show ?thesis using False by simp
    qed
  qed
qed

lemma warm_evict_subset: "set (oc_warm (nkvx_obj_evict_locked i c)) \<subseteq> set (oc_warm c)"
proof -
  have "set (oc_warm (fold (\<lambda>w c. if P w then nkvx_warm_destroy w c else c) ws s)) \<subseteq> set (oc_warm s)"
    for P ws and s :: "'a obj_cache"
  proof (induction ws arbitrary: s)
    case (Cons w ws)
    have "set (oc_warm (if P w then nkvx_warm_destroy w s else s)) \<subseteq> set (oc_warm s)"
      by (simp add: warm_destroy_warm)
    then show ?case using Cons [of "if P w then nkvx_warm_destroy w s else s"] by simp
  qed simp
  then show ?thesis by (simp add: nkvx_obj_evict_locked_def Let_def destroy_warm_if_def obj_kill_def)
qed

lemma warm_enforce_subset: "set (oc_warm (nkvx_obj_cache_enforce_caps mc mb c)) \<subseteq> set (oc_warm c)"
proof (induction mc mb c rule: nkvx_obj_cache_enforce_caps.induct)
  case (1 mc mb c)
  show ?case
  proof (cases "live_objects c")
    case (Cons v vs)
    from 1 [OF Cons refl refl refl] warm_evict_subset [of "oe_id v" c] show ?thesis
      by (auto simp: nkvx_obj_cache_enforce_caps.simps [of mc mb c] Cons Let_def)
  qed (simp add: nkvx_obj_cache_enforce_caps.simps [of mc mb c])
qed

lemma view_add:
  "live_view (nkvx_obj_list_add e (bump_fills (c\<lparr>oc_next := n\<rparr>)))
    = (if oe_dead e then live_view c else live_view c @ [e\<lparr>oe_refcount := 0\<rparr>])"
  by (simp add: live_view_def live_objects_def nkvx_obj_list_add_def bump_fills_def)

lemma new_entry_simps [simp]:
  "oe_id (new_entry i k need got) = i" "oe_key (new_entry i k need got) = take obj_key_cap k"
  "oe_dead (new_entry i k need got) = False" "oe_filled (new_entry i k need got) = True"
  "(new_entry i k need got)\<lparr>oe_refcount := 0\<rparr> = new_entry i k need got"
  by (simp_all add: new_entry_def)

lemma mem_cap_new: "wasm_obj_off + length got \<le> need \<Longrightarrow> mem_cap (new_entry i k need got) = need"
  by (simp add: mem_cap_def new_entry_def length_memcpy_at)

lemma new_entry_bytes:
  "wasm_obj_off + length got \<le> need \<Longrightarrow>
    take (oe_obj_len (new_entry i k need got)) (drop wasm_obj_off (oe_mem (new_entry i k need got))) = got"
  by (simp add: new_entry_def memcpy_at_read)

lemma pin_object_view:
  assumes "obj_cache_inv p c" "nkvx_obj_lookup c k = Some e" "oe_filled e" "k \<noteq> []"
  shows "\<exists>c'. nkvx_wasm_cache_pin k c = (Some (oe_id e), c')
    \<and> nkvx_wasm_pin_object (Some (oe_id e)) c' = Some (take (oe_obj_len e) (drop wasm_obj_off (oe_mem e)))"
proof -
  let ?f = "\<lambda>e. e\<lparr>oe_refcount := oe_refcount e + 1\<rparr>"
  let ?c = "upd_obj (oe_id e) ?f c"
  have e: "e \<in> set (oc_objects c)" using lookup_mem [OF assms(2)] by simp
  then have "oe_id e \<in> obj_ids c" by (simp add: obj_ids_def)
  with assms(1) have inv: "obj_cache_inv (p(oe_id e := p (oe_id e) + 1)) ?c" by (rule pin_inv)
  have "?f e \<in> set (oc_objects ?c) \<and> oe_id (?f e) = oe_id e" using e by (auto simp: upd_obj_def)
  with inv have "obj_by_id ?c (oe_id e) = Some (?f e)" by (rule obj_by_id_Some [THEN iffD2])
  then show ?thesis using assms(2,3,4)
    by (intro exI [of _ ?c]) (simp add: nkvx_wasm_cache_pin_def nkvx_wasm_pin_object_def)
qed

lemma cold_fill_lookup:
  assumes inv: "obj_cache_inv p c" and "nkvx_obj_lookup c k = None" "length k \<le> obj_key_cap"
    and got: "f (cache_need n - wasm_obj_off) = Some got" "length got \<le> cache_need n - wasm_obj_off"
    and "wasm_obj_off \<le> cache_need n" and bytes: "mb = 0 \<or> oc_obj_bytes c + cache_need n \<le> mb"
    and fill: "cold_fill mc mb True k n f c = (r, c')"
  shows "r = Inr (oc_next c)" "obj_cache_inv p c'"
    "map_option (\<lambda>e. e\<lparr>oe_refcount := 0\<rparr>) (nkvx_obj_lookup c' k) = Some (new_entry (oc_next c) k (cache_need n) got)"
proof -
  let ?e = "new_entry (oc_next c) k (cache_need n) got"
  let ?c = "nkvx_obj_list_add ?e (bump_fills (c\<lparr>oc_next := oc_next c + 1\<rparr>))"
  show "r = Inr (oc_next c)" using fill got(1) by (simp add: cold_fill_def Let_def)
  have c': "c' = nkvx_obj_cache_enforce_caps mc mb ?c" using fill got(1) by (simp add: cold_fill_def Let_def)
  show "obj_cache_inv p c'" unfolding c' by (intro enforce_inv add_inv inv)
  have "mb = 0 \<or> oc_obj_bytes ?c \<le> mb"
    using bytes got(2) assms(6) by (auto simp: nkvx_obj_list_add_def bump_fills_def mem_cap_new)
  with add_inv [OF inv] have view: "live_view c'
      = (if mc = 0 then live_view ?c else drop (length (live_view ?c) - mc) (live_view ?c))"
    unfolding c' by (rule enforce_count_exact)
  have "find (\<lambda>v. oe_key v = k) (live_view c) = None"
    using lookup_view [of c k] assms(2) by simp
  then have none: "\<forall>v \<in> set (live_view c). oe_key v \<noteq> k" by (auto simp: find_None_iff)
  have "find (\<lambda>v. oe_key v = k) (xs @ [?e]) = Some ?e" if "set xs \<subseteq> set (live_view c)" for xs
    using that none assms(3) by (induction xs) auto
  moreover have "\<exists>xs. live_view c' = xs @ [?e] \<and> set xs \<subseteq> set (live_view c)"
  proof (cases "mc = 0")
    case True
    then show ?thesis using view by (simp add: view_add)
  next
    case False
    then have "length (live_view ?c) - mc \<le> length (live_view c)" by (simp add: view_add)
    then show ?thesis using False view by (simp add: view_add set_drop_subset)
  qed
  ultimately show "map_option (\<lambda>e. e\<lparr>oe_refcount := 0\<rparr>) (nkvx_obj_lookup c' k) = Some ?e"
    by (auto simp: lookup_view)
qed

section \<open>A concrete run\<close>

text \<open>One object of three bytes filled with the caps off, then pinned.\<close>

definition cache_ex :: "unit obj_cache" where
  "cache_ex = snd (nkvx_wasm_cache_fill 0 0 True True ''6f'' 3 (\<lambda>_. Some [1, 2, 3]) nkvx_cache_init_once)"

definition cache_ex_pinned :: "unit obj_cache" where
  "cache_ex_pinned = upd_obj 0 (\<lambda>e. e\<lparr>oe_refcount := oe_refcount e + 1\<rparr>) cache_ex"

lemma enforce_disabled: "nkvx_obj_cache_enforce_caps 0 0 c = c"
  by (simp add: nkvx_obj_cache_enforce_caps.simps [of 0 0 c] split: list.splits)

lemma cache_need_3: "cache_need 3 = 65536"
  by (simp add: cache_need_eq)

lemma cache_ex_eq: "cache_ex = \<lparr>oc_objects = [new_entry 0 ''6f'' 65536 [1, 2, 3]], oc_warm = [], oc_obj_count = 1,
    oc_obj_bytes = 65536, oc_warm_count = 0, oc_next = 1, oc_stats = stats_zero\<lparr>cs_cold_fills := 1\<rparr>\<rparr>"
  by (simp add: cache_ex_def nkvx_wasm_cache_fill_def nkvx_obj_lookup_def nkvx_cache_init_once_def cold_fill_def
      cache_need_3 enforce_disabled nkvx_obj_list_add_def bump_fills_def mem_cap_new wasm_obj_off_def stats_zero_def)

lemma cache_ex_reachable: "reachable cache_init cache_step ((\<lambda>_. 0), cache_ex)"
proof -
  have "reachable cache_init cache_step ((\<lambda>_. 0), nkvx_cache_init_once :: unit obj_cache)"
    by (rule reach_init) (simp add: cache_init_def)
  then show ?thesis unfolding cache_ex_def by (rule reach_step) (rule step_fill)
qed

lemma cache_ex_has: "nkvx_wasm_cache_has cache_ex ''6f''"
  by (simp add: nkvx_wasm_cache_has_def cache_ex_eq nkvx_obj_lookup_def obj_key_cap_def)

lemma cache_ex_pin: "nkvx_wasm_cache_pin ''6f'' cache_ex = (Some 0, cache_ex_pinned)"
  by (simp add: nkvx_wasm_cache_pin_def cache_ex_eq nkvx_obj_lookup_def obj_key_cap_def cache_ex_pinned_def)

lemma cache_ex_pinned_reachable: "reachable cache_init cache_step ((\<lambda>_. 0)(0 := Suc 0), cache_ex_pinned)"
proof -
  have "cache_step ((\<lambda>_. 0), cache_ex) (CE_pin ''6f'') (pin_handle (Some 0) (\<lambda>_. 0), cache_ex_pinned)"
    using cache_ex_pin by (rule step_pin)
  with cache_ex_reachable have "reachable cache_init cache_step (pin_handle (Some 0) (\<lambda>_. 0), cache_ex_pinned)"
    by (rule reach_step)
  then show ?thesis by (simp add: pin_handle_def)
qed

lemma cache_ex_pinned_bytes: "nkvx_wasm_pin_object (Some 0) cache_ex_pinned = Some [1, 2, 3]"
proof -
  have "take (length [1, 2, 3 :: byte]) (drop 256 (memcpy_at 256 [1, 2, 3 :: byte] (replicate 65536 0))) = [1, 2, 3]"
    by (rule memcpy_at_read) simp
  then show ?thesis
    by (simp add: nkvx_wasm_pin_object_def cache_ex_pinned_def cache_ex_eq upd_obj_def obj_by_id_def new_entry_def
        wasm_obj_off_def)
qed

section \<open>Properties\<close>



text \<open>
  Invalidation: after a Store or Delete invalidated a key, that key misses, and every other
  key hits exactly if it did before.
\<close>

theorem invalidate_forces_miss:
  assumes "reachable cache_init cache_step (p, c)"
  shows "nkvx_wasm_cache_has (nkvx_wasm_cache_invalidate k c) k' \<longleftrightarrow> k' \<noteq> k \<and> nkvx_wasm_cache_has c k'"
proof -
  have "obj_cache_inv p c" using cache_sys.reachable_inv [OF assms] by simp
  then have view: "live_view (nkvx_cache_invalidate_locked k c) = filter (\<lambda>v. oe_key v \<noteq> k) (live_view c)"
    using invalidate_fold by blast
  have has: "nkvx_wasm_cache_has s k' \<longleftrightarrow> k' \<noteq> [] \<and>
      (case find (\<lambda>v. oe_key v = k') (live_view s) of None \<Rightarrow> False | Some v \<Rightarrow> oe_filled v)" for s :: "'a obj_cache"
    unfolding nkvx_wasm_cache_has_def lookup_view [symmetric] by (cases "nkvx_obj_lookup s k'") simp_all
  have "find (\<lambda>v. oe_key v = k') (filter (\<lambda>v. oe_key v \<noteq> k) vs)
      = (if k' = k then None else find (\<lambda>v. oe_key v = k') vs)" for vs :: "obj_entry list"
    by (induction vs) auto
  then show ?thesis by (simp add: has view nkvx_wasm_cache_invalidate_def)
qed

theorem invalidate_forces_miss_witness:
  "\<not> nkvx_wasm_cache_has (nkvx_wasm_cache_invalidate ''6f'' cache_ex) ''6f''
    \<and> nkvx_wasm_cache_has (nkvx_wasm_cache_invalidate ''70'' cache_ex) ''6f''"
  using invalidate_forces_miss [OF cache_ex_reachable, of "''6f''" "''6f''"]
    invalidate_forces_miss [OF cache_ex_reachable, of "''70''" "''6f''"] cache_ex_has by simp

text \<open>
  A cold fill is served: when a key of at most 255 characters misses, the fill callback
  delivers the object within the capacity it was given and the byte cap leaves room, the fill
  succeeds, and the next probe pins an entry whose object bytes are exactly those the callback
  delivered; the backing is a whole number of pages that holds them behind the 256-byte header.
\<close>

theorem cold_fill_served:
  assumes "reachable cache_init cache_step (p, c)" "\<not> nkvx_wasm_cache_has c k" "k \<noteq> []" "length k \<le> 255"
    and "n + 65791 < 2 ^ 64" "f (cache_need n - 256) = Some got" "length got \<le> cache_need n - 256"
    and "mb = 0 \<or> oc_obj_bytes c + cache_need n \<le> mb"
  shows "\<exists>c1 h c2. nkvx_wasm_cache_fill mc mb True True k n f c = (IO_SUCCESS, c1)
    \<and> nkvx_wasm_cache_pin k c1 = (Some h, c2) \<and> nkvx_wasm_pin_object (Some h) c2 = Some got
    \<and> 65536 dvd cache_need n \<and> 256 + n \<le> cache_need n"
proof -
  have inv: "obj_cache_inv p c" using cache_sys.reachable_inv [OF assms(1)] by simp
  have miss: "nkvx_obj_lookup c k = None"
    using assms(2,3) inv lookup_mem
    by (fastforce simp: nkvx_wasm_cache_has_def obj_cache_inv_def entry_ok_def split: option.splits)
  note need = cache_need_bounds [OF assms(5), unfolded wasm_obj_off_def wasm_page_def]
  obtain r c1 where cf: "cold_fill mc mb True k n f c = (r, c1)" by (cases "cold_fill mc mb True k n f c")
  have "wasm_obj_off \<le> cache_need n" using need(1) by (simp add: wasm_obj_off_def)
  note lk = cold_fill_lookup [OF inv miss assms(4) [folded obj_key_cap_def] assms(6,7) [folded wasm_obj_off_def] this assms(8) cf]
  then obtain e where e: "nkvx_obj_lookup c1 k = Some e"
      "e\<lparr>oe_refcount := 0\<rparr> = new_entry (oc_next c) k (cache_need n) got" by auto
  have fields: "oe_filled e" "oe_obj_len e = oe_obj_len (new_entry (oc_next c) k (cache_need n) got)"
      "oe_mem e = oe_mem (new_entry (oc_next c) k (cache_need n) got)"
    using e(2) by (metis new_entry_simps(4) obj_entry.select_convs obj_entry.surjective obj_entry.update_convs(7))+
  obtain c2 where "nkvx_wasm_cache_pin k c1 = (Some (oe_id e), c2)"
      "nkvx_wasm_pin_object (Some (oe_id e)) c2 = Some (take (oe_obj_len e) (drop wasm_obj_off (oe_mem e)))"
    using pin_object_view [OF lk(2) e(1) fields(1) assms(3)] by blast
  moreover have "wasm_obj_off + length got \<le> cache_need n" using assms(7) need(1) by (simp add: wasm_obj_off_def)
  then have "take (oe_obj_len e) (drop wasm_obj_off (oe_mem e)) = got"
    unfolding fields by (rule new_entry_bytes)
  moreover have "nkvx_wasm_cache_fill mc mb True True k n f c = (IO_SUCCESS, c1)"
    using assms(3) by (simp add: nkvx_wasm_cache_fill_def miss cf lk(1))
  ultimately show ?thesis using need by metis
qed

theorem cold_fill_served_witness:
  "\<exists>c1 h c2. nkvx_wasm_cache_fill 8 0 True True ''70'' 3 (\<lambda>_. Some [7]) cache_ex = (IO_SUCCESS, c1)
    \<and> nkvx_wasm_cache_pin ''70'' c1 = (Some h, c2) \<and> nkvx_wasm_pin_object (Some h) c2 = Some [7]"
proof -
  have "\<not> nkvx_wasm_cache_has cache_ex ''70''"
    by (simp add: nkvx_wasm_cache_has_def cache_ex_eq nkvx_obj_lookup_def obj_key_cap_def)
  from cold_fill_served [OF cache_ex_reachable this, of 3 "\<lambda>_. Some [7]" "[7]" 0 8]
  show ?thesis by (simp add: cache_need_3)
qed

text \<open>
  LRU eviction: with the byte cap off or respected, enforcing a count cap keeps exactly the
  most recently used live objects, in order; with the caps in force the cache always ends up
  within both of them or with no live object.
\<close>

theorem lru_eviction_exact:
  assumes "reachable cache_init cache_step (p, c)" "mc > 0"
  shows "(mb = 0 \<or> oc_obj_bytes c \<le> mb \<longrightarrow>
      map oe_key (live_objects (nkvx_obj_cache_enforce_caps mc mb c))
        = drop (length (live_objects c) - mc) (map oe_key (live_objects c)))
    \<and> (nkvx_wasm_obj_cache_count (nkvx_obj_cache_enforce_caps mc mb c) \<le> mc)
    \<and> (mb > 0 \<longrightarrow> nkvx_wasm_obj_cache_bytes (nkvx_obj_cache_enforce_caps mc mb c) \<le> mb
         \<or> nkvx_wasm_obj_cache_count (nkvx_obj_cache_enforce_caps mc mb c) = 0)"
proof -
  have inv: "obj_cache_inv p c" using cache_sys.reachable_inv [OF assms(1)] by simp
  have keys: "map oe_key (live_objects s) = map oe_key (live_view s)"
      "length (live_objects s) = length (live_view s)" for s :: "'a obj_cache"
    by (simp_all add: live_view_def)
  have "caps_met mc mb (nkvx_obj_cache_enforce_caps mc mb c) \<or> live_view (nkvx_obj_cache_enforce_caps mc mb c) = []"
    using enforce_fold [OF inv] by blast
  then show ?thesis using enforce_count_exact [OF inv, of mb mc] assms(2)
    by (auto simp: keys drop_map nkvx_wasm_obj_cache_count_def nkvx_wasm_obj_cache_bytes_def caps_met_def)
qed

theorem lru_eviction_exact_witness:
  "map oe_key (live_objects (nkvx_obj_cache_enforce_caps 1 0 cache_ex)) = [''6f'']
    \<and> nkvx_wasm_obj_cache_count (nkvx_obj_cache_enforce_caps 1 0 cache_ex) \<le> 1"
proof -
  have "live_objects cache_ex = [new_entry 0 ''6f'' 65536 [1, 2, 3]]"
    by (simp add: live_objects_def cache_ex_eq)
  then show ?thesis using lru_eviction_exact [OF cache_ex_reachable, of 1 0] by (simp add: obj_key_cap_def)
qed

text \<open>
  A cold fill of an object whose backing alone exceeds the byte cap reports the new entry
  but has already freed it: the comment that the just-filled entry is never the victim does not
  hold, and \<^verbatim>\<open>run_cached\<close> goes on to run on the freed entry.
\<close>

theorem oversize_fill_freed:
  assumes "reachable cache_init cache_step (p, c)" "0 < mb" "mb < cache_need n" "n + 65791 < 2 ^ 64"
    and "f (cache_need n - 256) = Some got" "length got \<le> cache_need n - 256"
    and "cold_fill mc mb True k n f c = (r, c')"
  shows "r = Inr (oc_next c) \<and> obj_by_id c' (oc_next c) = None"
proof -
  let ?e = "new_entry (oc_next c) k (cache_need n) got"
  let ?c = "nkvx_obj_list_add ?e (bump_fills (c\<lparr>oc_next := oc_next c + 1\<rparr>))"
  have inv: "obj_cache_inv p c" using cache_sys.reachable_inv [OF assms(1)] by simp
  have r: "r = Inr (oc_next c)" and c': "c' = nkvx_obj_cache_enforce_caps mc mb ?c"
    using assms(5,7) by (simp_all add: cold_fill_def Let_def wasm_obj_off_def)
  have inv': "obj_cache_inv p c'" unfolding c' by (intro enforce_inv add_inv inv)
  have "obj_by_id c' (oc_next c) = None"
  proof (rule ccontr)
    assume "obj_by_id c' (oc_next c) \<noteq> None"
    then obtain x where x: "x \<in> set (oc_objects c')" "oe_id x = oc_next c"
      using obj_by_id_mem by blast
    then have "entry_data x \<in> contents ?c" using contents_enforce [of mc mb ?c] by (auto simp: c' contents_def)
    moreover have "\<forall>y \<in> set (oc_objects c). oe_id y \<noteq> oc_next c"
      using fresh_next(1) [OF inv] by (auto simp: obj_ids_def image_iff)
    ultimately have "mem_cap x = mem_cap ?e"
      using x(2) by (auto simp: contents_def nkvx_obj_list_add_def bump_fills_def entry_data_def mem_cap_def)
    also have "\<dots> = cache_need n"
      using assms(6) cache_need_bounds(1) [OF assms(4)] by (intro mem_cap_new) (simp add: wasm_obj_off_def)
    finally have "cache_need n \<le> sum_list (map mem_cap (oc_objects c'))"
      using x(1) by (intro member_le_sum_list) (auto intro: rev_image_eqI)
    then have "oc_obj_bytes c' > mb" using inv' assms(3) by (simp add: obj_cache_inv_def)
    moreover have "caps_met mc mb c' \<or> live_view c' = []"
      unfolding c' using enforce_fold [OF add_inv [OF inv], of mc mb k "cache_need n" got] by blast
    ultimately have "live_view c' = []" using assms(2) by (auto simp: caps_met_def)
    then have "oe_dead x" using x(1) by (auto simp: live_view_def live_objects_def filter_empty_conv)
    moreover have "set (oc_warm c') \<subseteq> set (oc_warm c)"
      using warm_enforce_subset [of mc mb ?c] by (simp add: c' nkvx_obj_list_add_def bump_fills_def)
    then have "warm_refs c' (oc_next c) = 0"
      using fresh_next(3) [OF inv] by (auto simp: warm_refs_def filter_empty_conv)
    ultimately show False using inv' x fresh_next(2) [OF inv] by (auto simp: obj_cache_inv_def entry_ok_def)
  qed
  then show ?thesis using r by simp
qed

theorem oversize_fill_freed_witness:
  "fst (cold_fill 8 4096 True ''70'' 3 (\<lambda>_. Some [7]) cache_ex) = Inr 1
    \<and> obj_by_id (snd (cold_fill 8 4096 True ''70'' 3 (\<lambda>_. Some [7]) cache_ex)) 1 = None"
proof -
  obtain r c' where c': "cold_fill 8 4096 True ''70'' 3 (\<lambda>_. Some [7]) cache_ex = (r, c')" by (cases "cold_fill 8 4096 True ''70'' 3 (\<lambda>_. Some [7]) cache_ex")
  from oversize_fill_freed [OF cache_ex_reachable _ _ _ _ _ c'] c'
  show ?thesis by (simp add: cache_need_3 cache_ex_eq)
qed

text \<open>
  A key longer than the 255 characters an entry stores is never served from the cache: it
  never hits, is never pinned, and invalidating it changes nothing a lookup can see.
\<close>

theorem long_key_never_hits:
  assumes "reachable cache_init cache_step (p, c)" "length k > 255"
  shows "\<not> nkvx_wasm_cache_has c k \<and> nkvx_wasm_cache_pin k c = (None, c)
    \<and> map oe_key (live_objects (nkvx_wasm_cache_invalidate k c)) = map oe_key (live_objects c)"
proof -
  have inv: "obj_cache_inv p c" using cache_sys.reachable_inv [OF assms(1)] by simp
  then have keys: "oe_key e \<noteq> k" if "e \<in> set (oc_objects c)" for e
    using that assms(2) by (auto simp: obj_cache_inv_def entry_ok_def obj_key_cap_def)
  then have none: "nkvx_obj_lookup c k = None" by (auto simp: nkvx_obj_lookup_def find_None_iff)
  have "filter (\<lambda>v. oe_key v \<noteq> k) (live_view c) = live_view c"
    using keys by (auto simp: filter_id_conv live_view_def live_objects_def)
  then have "live_view (nkvx_wasm_cache_invalidate k c) = live_view c"
    using invalidate_fold [OF inv, of k] by (simp add: nkvx_wasm_cache_invalidate_def)
  moreover have "map oe_key (live_objects s) = map oe_key (live_view s)" for s :: "'a obj_cache"
    by (simp add: live_view_def)
  ultimately show ?thesis using none by (simp add: nkvx_wasm_cache_has_def nkvx_wasm_cache_pin_def)
qed

theorem long_key_never_hits_witness:
  "nkvx_wasm_cache_pin (replicate 256 CHR ''0'') cache_ex = (None, cache_ex)"
  using long_key_never_hits [OF cache_ex_reachable, of "replicate 256 CHR ''0''"] by simp

end
