(* ===== verification/MemStore.thy ===== *)
theory MemStore
  imports Rpc "HOL-Library.List_Lexorder" "HOL-Library.Char_ord" "HOL-Library.Multiset"
begin

text \<open>
  The executor's in-memory backend and the assembly of a key listing
  (\<^verbatim>\<open>rados-nkvx/nkvx_executor.c\<close>), with the host's parser of that listing
  (\<^verbatim>\<open>clients/nvme-kv/kv/kv_host.c\<close>). The table is the list of its first \<^verbatim>\<open>mem_count\<close>
  entries. \<^verbatim>\<open>SPDK_ALIGN_CEIL\<close> is the parameter \<open>align_ceil\<close>.
\<close>

section \<open>The table\<close>

datatype errno = E_INVAL | E_NOMEM | E_NOSPC | E_NOENT | E_EXIST | E_OTHER nat

record mem_obj =
  mo_oid :: string
  mo_value :: bytes

definition nkvx_mem_max_objs :: nat where
  "nkvx_mem_max_objs = 64"

definition mem_oid_size :: nat where
  "mem_oid_size = exec_key_max_len * 2 + 1"

definition nkvx_mem_find :: "mem_obj list \<Rightarrow> string \<Rightarrow> mem_obj option" where
  "nkvx_mem_find t oid = find (\<lambda>m. mo_oid m = oid) t"

text \<open>The index the C loops stop at; the table's length when no entry matches.\<close>

definition mem_index :: "mem_obj list \<Rightarrow> string \<Rightarrow> nat" where
  "mem_index t oid = length (takeWhile (\<lambda>m. mo_oid m \<noteq> oid) t)"

definition nkvx_mem_del :: "mem_obj list \<Rightarrow> string \<Rightarrow> bool \<times> mem_obj list" where
  "nkvx_mem_del t oid =
    (let i = mem_index t oid in
     if i < length t then (True, butlast (t[i := last t])) else (False, t))"

definition nkvx_executor_mem_put :: "bool \<Rightarrow> mem_obj list \<Rightarrow> string \<Rightarrow> bytes \<Rightarrow> errno option \<times> mem_obj list" where
  "nkvx_executor_mem_put alloc_ok t oid value =
    (if length oid \<ge> mem_oid_size then (Some E_INVAL, t)
     else if \<not> alloc_ok then (Some E_NOMEM, t)
     else case nkvx_mem_find t oid of
       None \<Rightarrow> if length t \<ge> nkvx_mem_max_objs then (Some E_NOSPC, t)
               else (None, t @ [\<lparr>mo_oid = oid, mo_value = value\<rparr>])
     | Some m \<Rightarrow> (None, t[mem_index t oid := m\<lparr>mo_value := value\<rparr>]))"

section \<open>Ordering\<close>

fun strcmp :: "string \<Rightarrow> string \<Rightarrow> int" where
  "strcmp [] [] = 0"
| "strcmp [] (d # ds) = - 1"
| "strcmp (c # cs) [] = 1"
| "strcmp (c # cs) (d # ds) =
    (if c = d then strcmp cs ds else int (of_char c) - int (of_char d))"

text \<open>
  The listing's exchange sort: the inner loop carries entry \<open>i\<close> past the later entries,
  swapping whenever it compares greater.
\<close>

primrec exchange_pass :: "mem_obj \<Rightarrow> mem_obj list \<Rightarrow> mem_obj \<times> mem_obj list" where
  "exchange_pass x [] = (x, [])"
| "exchange_pass x (y # ys) =
    (if strcmp (mo_oid x) (mo_oid y) > 0
     then let (m, r) = exchange_pass y ys in (m, x # r)
     else let (m, r) = exchange_pass x ys in (m, y # r))"

lemma exchange_pass_length: "exchange_pass x ys = (m, r) \<Longrightarrow> length r = length ys"
  by (induction ys arbitrary: x m r) (auto split: if_splits prod.splits)

function exchange_sort :: "mem_obj list \<Rightarrow> mem_obj list" where
  "exchange_sort [] = []"
| "exchange_sort (x # xs) = (let (m, r) = exchange_pass x xs in m # exchange_sort r)"
  by pat_completeness auto
termination
  by (relation "measure length") (auto dest: exchange_pass_length [OF sym])

section \<open>Listing\<close>

definition nkvx_list_nrk_size :: nat where
  "nkvx_list_nrk_size = 4"

definition nkvx_list_entry_size :: "(nat \<Rightarrow> nat \<Rightarrow> nat) \<Rightarrow> nat \<Rightarrow> nat" where
  "nkvx_list_entry_size align_ceil key_len = u32 (align_ceil (2 + key_len) 4)"

definition list_entry :: "(nat \<Rightarrow> nat \<Rightarrow> nat) \<Rightarrow> bytes \<Rightarrow> bytes" where
  "list_entry align_ceil key =
    le_bytes 2 (length key) @ key
      @ replicate (nkvx_list_entry_size align_ceil (length key) - 2 - length key) 0"

record list_acc =
  la_started :: bool
  la_body :: bytes
  la_off :: nat
  la_nrk :: nat
  la_full :: nat
  la_overflow :: bool

text \<open>
  \<^verbatim>\<open>nkvx_list_emit\<close>: append an entry at \<open>la_off\<close> when the whole of it fits below the cap.
  \<open>la_body\<close> is the buffer from behind the header up to \<open>la_off\<close>.
\<close>

definition nkvx_list_emit :: "(nat \<Rightarrow> nat \<Rightarrow> nat) \<Rightarrow> nat \<Rightarrow> bytes \<Rightarrow> list_acc \<Rightarrow> list_acc option" where
  "nkvx_list_emit align_ceil cap key a =
    (let entry = nkvx_list_entry_size align_ceil (length key) in
     if u32 (la_off a + entry) > cap then None
     else Some (a\<lparr>la_body := la_body a @ list_entry align_ceil key, la_off := u32 (la_off a + entry)\<rparr>))"

text \<open>One turn of the enumeration loop.\<close>

definition list_visit :: "(nat \<Rightarrow> nat \<Rightarrow> nat) \<Rightarrow> nat \<Rightarrow> string \<Rightarrow> string \<Rightarrow> list_acc \<Rightarrow> list_acc" where
  "list_visit align_ceil cap start_oid oid a =
    (if \<not> la_started a \<and> strcmp oid start_oid < 0 then a
     else let a = a\<lparr>la_started := True\<rparr>; key = nkvx_oid_to_key oid in
       if key = [] then a
       else let a = a\<lparr>la_full := u32 (la_full a + nkvx_list_entry_size align_ceil (length key))\<rparr> in
         if la_overflow a then a\<lparr>la_overflow := True\<rparr>
         else case nkvx_list_emit align_ceil cap key a of
           Some a' \<Rightarrow> a'\<lparr>la_nrk := u32 (la_nrk a' + 1)\<rparr>
         | None \<Rightarrow> a\<lparr>la_overflow := True\<rparr>)"

definition list_init :: "bytes \<Rightarrow> nat \<Rightarrow> list_acc" where
  "list_init key key_len = \<lparr>la_started = (key_len = 0), la_body = [], la_off = nkvx_list_nrk_size, la_nrk = 0,
     la_full = nkvx_list_nrk_size, la_overflow = False\<rparr>"

definition list_loop :: "(nat \<Rightarrow> nat \<Rightarrow> nat) \<Rightarrow> nat \<Rightarrow> string \<Rightarrow> string list \<Rightarrow> list_acc \<Rightarrow> list_acc" where
  "list_loop align_ceil cap start_oid oids a = fold (list_visit align_ceil cap start_oid) oids a"

section \<open>The host's parser\<close>

text \<open>
  The loop over a returned listing: \<open>n\<close> is what is left of the announced key count; the
  32-bit arithmetic of the offset is kept.
\<close>

primrec kv_list_parse :: "nat \<Rightarrow> nat \<Rightarrow> bytes \<Rightarrow> bytes list" where
  "kv_list_parse 0 off buf = []"
| "kv_list_parse (Suc n) off buf =
    (if u32 (off + 2) > length buf then []
     else let kl = le_val (take 2 (drop off buf)); off1 = u32 (off + 2) in
       if u32 (off1 + kl) > length buf then []
       else take kl (drop off1 buf) # kv_list_parse n (u32 (u32 (off1 + kl) + 3) div 4 * 4) buf)"

definition kv_list_keys :: "bytes \<Rightarrow> bytes list" where
  "kv_list_keys buf = kv_list_parse (le_val (take 4 buf)) 4 buf"

section \<open>The table is a finite map\<close>

definition mem_ok :: "mem_obj list \<Rightarrow> bool" where
  "mem_ok t = (distinct (map mo_oid t) \<and> length t \<le> nkvx_mem_max_objs \<and> (\<forall>m \<in> set t. length (mo_oid m) < mem_oid_size))"

definition mem_fits :: "mem_obj list \<Rightarrow> string \<Rightarrow> bool" where
  "mem_fits t oid = (length oid < mem_oid_size \<and> (nkvx_mem_find t oid \<noteq> None \<or> length t < nkvx_mem_max_objs))"

definition mem_get :: "mem_obj list \<Rightarrow> string \<Rightarrow> bytes option" where
  "mem_get t oid = map_option mo_value (nkvx_mem_find t oid)"

lemma mem_index_split:
  assumes "nkvx_mem_find t oid = Some m"
  obtains xs ys where "t = xs @ m # ys" "mo_oid m = oid" "\<forall>x \<in> set xs. mo_oid x \<noteq> oid" "mem_index t oid = length xs"
proof -
  from assms obtain i where i: "i < length t" "mo_oid (t ! i) = oid" "m = t ! i" "\<forall>j < i. mo_oid (t ! j) \<noteq> oid"
    by (auto simp: nkvx_mem_find_def find_Some_iff)
  have t: "t = take i t @ m # drop (Suc i) t" using i by (simp add: id_take_nth_drop)
  have other: "\<forall>x \<in> set (take i t). mo_oid x \<noteq> oid" using i by (auto simp: in_set_conv_nth)
  have "takeWhile (\<lambda>m. mo_oid m \<noteq> oid) t = take i t"
    by (subst t) (use other i in \<open>simp add: takeWhile_append2\<close>)
  then have "mem_index t oid = length (take i t)" by (simp add: mem_index_def)
  then show thesis using that [OF t _ other] i by simp
qed

lemma mem_index_none: "nkvx_mem_find t oid = None \<Longrightarrow> mem_index t oid = length t"
proof -
  assume "nkvx_mem_find t oid = None"
  then have "\<forall>m \<in> set t. mo_oid m \<noteq> oid" by (auto simp: nkvx_mem_find_def find_None_iff)
  then show ?thesis unfolding mem_index_def by (rule takeWhile_eq_all_conv [THEN iffD2, THEN arg_cong])
qed

lemma mem_find_append [simp]:
  "nkvx_mem_find (xs @ ys) k = (case nkvx_mem_find xs k of None \<Rightarrow> nkvx_mem_find ys k | Some m \<Rightarrow> Some m)"
  by (induction xs) (auto simp: nkvx_mem_find_def)

lemma mem_find_Cons [simp]: "nkvx_mem_find (x # xs) k = (if mo_oid x = k then Some x else nkvx_mem_find xs k)"
  by (simp add: nkvx_mem_find_def)

lemma mem_find_Nil [simp]: "nkvx_mem_find [] k = None"
  by (simp add: nkvx_mem_find_def)

lemma mem_find_none: "nkvx_mem_find xs k = None \<longleftrightarrow> k \<notin> mo_oid ` set xs"
  by (auto simp: nkvx_mem_find_def find_None_iff)

lemma mem_get_Some:
  "distinct (map mo_oid t) \<Longrightarrow> mem_get t k = Some v \<longleftrightarrow> (\<exists>m \<in> set t. mo_oid m = k \<and> mo_value m = v)"
  by (induction t) (auto simp: mem_get_def image_iff)

lemma mem_put_get:
  assumes "mem_ok t" "mem_fits t k"
  shows "mem_get (snd (nkvx_executor_mem_put True t k v)) = (mem_get t)(k \<mapsto> v)"
    "mem_ok (snd (nkvx_executor_mem_put True t k v))"
    "fst (nkvx_executor_mem_put True t k v) = None"
proof -
  have *: "mem_get (snd (nkvx_executor_mem_put True t k v)) = (mem_get t)(k \<mapsto> v)
    \<and> mem_ok (snd (nkvx_executor_mem_put True t k v)) \<and> fst (nkvx_executor_mem_put True t k v) = None"
  proof (cases "nkvx_mem_find t k")
    case None
    then have "k \<notin> mo_oid ` set t" by (simp add: mem_find_none)
    with None show ?thesis using assms
      by (auto simp: nkvx_executor_mem_put_def mem_fits_def mem_ok_def mem_get_def fun_eq_iff split: option.splits)
  next
    case (Some m)
    then obtain xs ys where sp: "t = xs @ m # ys" "mo_oid m = k" "\<forall>x \<in> set xs. mo_oid x \<noteq> k" "mem_index t k = length xs"
      by (rule mem_index_split)
    have "nkvx_mem_find xs k = None" using sp(3) by (auto simp: mem_find_none)
    then show ?thesis using assms Some sp
      by (auto simp: nkvx_executor_mem_put_def mem_fits_def mem_ok_def mem_get_def fun_eq_iff split: option.splits)
  qed
  then show "mem_get (snd (nkvx_executor_mem_put True t k v)) = (mem_get t)(k \<mapsto> v)"
    "mem_ok (snd (nkvx_executor_mem_put True t k v))"
    "fst (nkvx_executor_mem_put True t k v) = None" by simp_all
qed

lemma mem_del_mset:
  assumes "nkvx_mem_find t k = Some m"
  shows "fst (nkvx_mem_del t k)" "mset (snd (nkvx_mem_del t k)) = mset t - {#m#}"
proof -
  obtain xs ys where sp: "t = xs @ m # ys" "mo_oid m = k" "\<forall>x \<in> set xs. mo_oid x \<noteq> k" "mem_index t k = length xs"
    using assms by (rule mem_index_split)
  show "fst (nkvx_mem_del t k)" using sp by (simp add: nkvx_mem_del_def Let_def)
  show "mset (snd (nkvx_mem_del t k)) = mset t - {#m#}"
  proof (cases ys rule: rev_cases)
    case Nil
    then show ?thesis using sp by (simp add: nkvx_mem_del_def Let_def)
  next
    case (snoc zs z)
    then have "snd (nkvx_mem_del t k) = xs @ z # zs"
      using sp by (simp add: nkvx_mem_del_def Let_def butlast_append)
    then show ?thesis using sp snoc by simp
  qed
qed

lemma mem_get_mset:
  assumes "mset t = mset u" "distinct (map mo_oid u)"
  shows "mem_get t = mem_get u" "mem_ok t = mem_ok u"
proof -
  have "mset (map mo_oid t) = mset (map mo_oid u)" using assms(1) by (simp only: mset_map)
  then have d: "distinct (map mo_oid t) = distinct (map mo_oid u)" by (rule mset_eq_imp_distinct_iff)
  have s: "set t = set u" using assms(1) by (rule mset_eq_setD)
  have "mem_get t k = Some v \<longleftrightarrow> mem_get u k = Some v" for k v
    using d s assms(2) by (simp add: mem_get_Some)
  then show "mem_get t = mem_get u" by (metis ext not_Some_eq)
  show "mem_ok t = mem_ok u" using d s mset_eq_length [OF assms(1)] by (simp add: mem_ok_def)
qed

lemma mem_del_get:
  assumes "mem_ok t"
  shows "mem_get (snd (nkvx_mem_del t k)) = (mem_get t)(k := None)" "mem_ok (snd (nkvx_mem_del t k))"
    "fst (nkvx_mem_del t k) \<longleftrightarrow> mem_get t k \<noteq> None"
proof -
  have *: "mem_get (snd (nkvx_mem_del t k)) = (mem_get t)(k := None) \<and> mem_ok (snd (nkvx_mem_del t k))
    \<and> (fst (nkvx_mem_del t k) \<longleftrightarrow> mem_get t k \<noteq> None)"
  proof (cases "nkvx_mem_find t k")
    case None
    then show ?thesis using assms mem_index_none [OF None] by (simp add: nkvx_mem_del_def mem_get_def fun_eq_iff)
  next
    case (Some m)
    then obtain xs ys where sp: "t = xs @ m # ys" "mo_oid m = k" "\<forall>x \<in> set xs. mo_oid x \<noteq> k" "mem_index t k = length xs"
      by (rule mem_index_split)
    have "mset (snd (nkvx_mem_del t k)) = mset (xs @ ys)" using mem_del_mset(2) [OF Some] sp(1) by simp
    moreover have d: "distinct (map mo_oid (xs @ ys))" using assms sp(1) by (auto simp: mem_ok_def)
    ultimately have "mem_get (snd (nkvx_mem_del t k)) = mem_get (xs @ ys)"
        "mem_ok (snd (nkvx_mem_del t k)) = mem_ok (xs @ ys)" by (rule mem_get_mset)+
    moreover have "nkvx_mem_find ys k = None" "nkvx_mem_find xs k = None"
      using assms sp by (auto simp: mem_find_none mem_ok_def)
    then have "mem_get (xs @ ys) = (mem_get t)(k := None)"
      using sp(1,2) by (auto simp: mem_get_def fun_eq_iff split: option.splits)
    moreover have "mem_ok (xs @ ys)" using assms sp(1) d by (auto simp: mem_ok_def)
    ultimately show ?thesis using mem_del_mset(1) [OF Some] Some by (simp add: mem_get_def)
  qed
  then show "mem_get (snd (nkvx_mem_del t k)) = (mem_get t)(k := None)" "mem_ok (snd (nkvx_mem_del t k))"
    "fst (nkvx_mem_del t k) \<longleftrightarrow> mem_get t k \<noteq> None" by simp_all
qed

interpretation mem_table: object_map mem_get "\<lambda>t k v. snd (nkvx_executor_mem_put True t k v)"
  "\<lambda>t k. snd (nkvx_mem_del t k)" mem_ok mem_fits
proof unfold_locales
  fix t k and v :: bytes
  assume "mem_ok t" "mem_get t k = Some v"
  then show "mem_fits t k"
    using mem_index_split [of t k] by (fastforce simp: mem_get_def mem_fits_def mem_ok_def)
qed (simp_all add: mem_put_get mem_del_get)

section \<open>The exchange sort sorts\<close>

lemma strcmp_sign: "strcmp s t < 0 \<longleftrightarrow> s < t" "strcmp s t = 0 \<longleftrightarrow> s = t"
  by (induction s t rule: strcmp.induct) (auto simp: less_char_def)

lemma strcmp_greater: "strcmp s t > 0 \<longleftrightarrow> t < s"
  using strcmp_sign [of s t] by (cases s t rule: linorder_cases) auto

lemma exchange_pass_props:
  "exchange_pass x ys = (m, r) \<Longrightarrow> mset (m # r) = mset (x # ys) \<and> (\<forall>y \<in> set (x # ys). mo_oid m \<le> mo_oid y)"
proof (induction ys arbitrary: x m r)
  case (Cons y ys)
  show ?case
  proof (cases "strcmp (mo_oid x) (mo_oid y) > 0")
    case True
    then obtain r' where r': "exchange_pass y ys = (m, r')" "r = x # r'"
      using Cons.prems by (auto split: prod.splits)
    then show ?thesis using Cons.IH [OF r'(1)] True by (fastforce simp: strcmp_greater)
  next
    case False
    then obtain r' where r': "exchange_pass x ys = (m, r')" "r = y # r'"
      using Cons.prems by (auto split: prod.splits)
    then show ?thesis using Cons.IH [OF r'(1)] False by (fastforce simp: strcmp_greater not_less)
  qed
qed simp

lemma exchange_sort_mset: "mset (exchange_sort t) = mset t"
proof (induction t rule: exchange_sort.induct)
  case (2 x xs)
  obtain m r where m: "exchange_pass x xs = (m, r)" by (cases "exchange_pass x xs")
  then show ?case using 2 [OF m [symmetric] refl] exchange_pass_props [OF m] by simp
qed simp

lemma exchange_sort_sorted: "sorted (map mo_oid (exchange_sort t))"
proof (induction t rule: exchange_sort.induct)
  case (2 x xs)
  obtain m r where m: "exchange_pass x xs = (m, r)" by (cases "exchange_pass x xs")
  have "set (exchange_sort r) = set r" using exchange_sort_mset by (rule mset_eq_setD)
  moreover have "set (m # r) = set (x # xs)" using exchange_pass_props [OF m] by (blast dest: mset_eq_setD)
  ultimately show ?case using 2 [OF m [symmetric] refl] exchange_pass_props [OF m] m by auto
qed simp

section \<open>What the enumeration loop assembles\<close>

text \<open>\<^verbatim>\<open>SPDK_ALIGN_CEIL(n, 4)\<close> is the least multiple of 4 that is at least \<open>n\<close>.\<close>

definition align_ok :: "(nat \<Rightarrow> nat \<Rightarrow> nat) \<Rightarrow> bool" where
  "align_ok align_ceil = (\<forall>n. 4 dvd align_ceil n 4 \<and> n \<le> align_ceil n 4 \<and> align_ceil n 4 < n + 4)"

definition align4 :: "nat \<Rightarrow> nat \<Rightarrow> nat" where
  "align4 n a = (n + a - 1) div a * a"

lemma align4_ok: "align_ok align4"
proof -
  have "n \<le> (n + 3) div 4 * 4 \<and> (n + 3) div 4 * 4 < n + 4" for n :: nat by presburger
  then show ?thesis by (simp add: align_ok_def align4_def add.commute)
qed

text \<open>The longest prefix of the keys whose entries fit between \<open>off\<close> and \<open>cap\<close>.\<close>

primrec fitting :: "(nat \<Rightarrow> nat \<Rightarrow> nat) \<Rightarrow> nat \<Rightarrow> nat \<Rightarrow> bytes list \<Rightarrow> bytes list" where
  "fitting align_ceil cap off [] = []"
| "fitting align_ceil cap off (k # ks) =
    (let off' = off + nkvx_list_entry_size align_ceil (length k) in
     if off' > cap then [] else k # fitting align_ceil cap off' ks)"

definition listing_size :: "(nat \<Rightarrow> nat \<Rightarrow> nat) \<Rightarrow> bytes list \<Rightarrow> nat" where
  "listing_size align_ceil ks = sum_list (map (\<lambda>k. nkvx_list_entry_size align_ceil (length k)) ks)"

definition listed_keys :: "string list \<Rightarrow> bytes list" where
  "listed_keys oids = filter (\<lambda>k. k \<noteq> []) (map nkvx_oid_to_key oids)"

lemma oid_to_key_length: "length (nkvx_oid_to_key oid) \<le> exec_key_max_len"
proof -
  have "oid_to_key_loop s = Some k \<Longrightarrow> length s = 2 * length k" for s k
    by (induction s arbitrary: k rule: oid_to_key_loop.induct) (auto simp: Let_def split: if_splits)
  then show ?thesis by (fastforce simp: nkvx_oid_to_key_def split: option.splits)
qed

lemma entry_size:
  assumes "align_ok ac" "n \<le> 255"
  shows "nkvx_list_entry_size ac n = ac (2 + n) 4" "2 + n \<le> nkvx_list_entry_size ac n"
    "nkvx_list_entry_size ac n < 262" "4 dvd nkvx_list_entry_size ac n"
proof -
  have "4 dvd ac (2 + n) 4" "2 + n \<le> ac (2 + n) 4" "ac (2 + n) 4 < 2 + n + 4"
    using assms(1) by (simp_all only: align_ok_def)
  moreover from this have "nkvx_list_entry_size ac n = ac (2 + n) 4"
    using assms(2) by (simp add: nkvx_list_entry_size_def u32_id)
  ultimately show "nkvx_list_entry_size ac n = ac (2 + n) 4" "2 + n \<le> nkvx_list_entry_size ac n"
    "nkvx_list_entry_size ac n < 262" "4 dvd nkvx_list_entry_size ac n" using assms(2) by simp_all
qed

lemma length_list_entry:
  "align_ok ac \<Longrightarrow> length k \<le> 255 \<Longrightarrow> length (list_entry ac k) = nkvx_list_entry_size ac (length k)"
  using entry_size(2) [of ac "length k"] by (simp add: list_entry_def)

lemma listing_size_bound:
  "align_ok ac \<Longrightarrow> \<forall>k \<in> set ks. length k \<le> 255 \<Longrightarrow> listing_size ac ks \<le> length ks * 262"
proof (induction ks)
  case (Cons k ks)
  then show ?case using entry_size(3) [of ac "length k"] by (simp add: listing_size_def)
qed (simp add: listing_size_def)

lemma fitting_prefix: "\<exists>n. fitting ac cap off ks = take n ks"
proof (induction ks arbitrary: off)
  case (Cons k ks)
  obtain n where "fitting ac cap (off + nkvx_list_entry_size ac (length k)) ks = take n ks" using Cons ..
  then have "fitting ac cap off (k # ks) = take (if cap < off + nkvx_list_entry_size ac (length k) then 0 else Suc n) (k # ks)"
    by simp
  then show ?case by (rule exI)
qed simp

lemma fitting_bound: "off \<le> cap \<Longrightarrow> off + listing_size ac (fitting ac cap off ks) \<le> cap"
proof (induction ks arbitrary: off)
  case (Cons k ks)
  show ?case
  proof (cases "off + nkvx_list_entry_size ac (length k) > cap")
    case True
    then show ?thesis using Cons.prems by (simp add: listing_size_def)
  next
    case False
    then show ?thesis using Cons.IH [of "off + nkvx_list_entry_size ac (length k)"]
      by (simp add: listing_size_def add.assoc)
  qed
qed (simp add: listing_size_def)

lemma fitting_all: "off + listing_size ac ks \<le> cap \<Longrightarrow> fitting ac cap off ks = ks"
proof (induction ks arbitrary: off)
  case (Cons k ks)
  then show ?case using Cons.IH [of "off + nkvx_list_entry_size ac (length k)"]
    by (simp add: listing_size_def)
qed simp

lemma u32_u32 [simp]: "u32 (u32 a) = u32 a"
  by (simp add: u32_def)

lemma u32_add_left: "u32 (u32 a + b) = u32 (a + b)"
  by (simp add: u32_def mod_simps)

lemma list_loop_started:
  assumes "align_ok ac" "cap + 262 \<le> 2 ^ 32" "la_started a" "la_off a \<le> cap" "u32 (la_nrk a) = la_nrk a"
    "u32 (la_full a) = la_full a"
  shows "list_loop ac cap start oids a =
    (let keys = listed_keys oids; fit = (if la_overflow a then [] else fitting ac cap (la_off a) keys) in
     a\<lparr>la_body := la_body a @ concat (map (list_entry ac) fit), la_off := la_off a + listing_size ac fit,
       la_nrk := u32 (la_nrk a + length fit), la_full := u32 (la_full a + listing_size ac keys),
       la_overflow := (la_overflow a \<or> length fit < length keys)\<rparr>)"
  using assms(3-)
proof (induction oids arbitrary: a)
  case Nil
  then show ?case by (simp add: list_loop_def listed_keys_def listing_size_def)
next
  case (Cons oid oids)
  let ?k = "nkvx_oid_to_key oid"
  let ?n = "nkvx_list_entry_size ac (length ?k)"
  have k: "length ?k \<le> 255" using oid_to_key_length [of oid] by (simp add: exec_key_max_len_def)
  have step: "list_loop ac cap start (oid # oids) a = list_loop ac cap start oids (list_visit ac cap start oid a)"
    by (simp add: list_loop_def)
  show ?case
  proof (cases "?k = []")
    case True
    then have "list_visit ac cap start oid a = a"
      using Cons.prems by (cases a) (simp add: list_visit_def)
    then show ?thesis using Cons True by (simp add: step listed_keys_def)
  next
    case False
    have n: "?n < 262" using entry_size(3) [OF assms(1) k] .
    then have off: "u32 (la_off a + ?n) = la_off a + ?n"
      using Cons.prems(2) assms(2) by (intro u32_id) simp
    have keys: "listed_keys (oid # oids) = ?k # listed_keys oids" using False by (simp add: listed_keys_def)
    let ?full = "a\<lparr>la_full := u32 (la_full a + ?n)\<rparr>"
    show ?thesis
    proof (cases "la_overflow a \<or> la_off a + ?n > cap")
      case True
      then have visit: "list_visit ac cap start oid a = ?full\<lparr>la_overflow := True\<rparr>"
        using Cons.prems False off by (cases a) (auto simp: list_visit_def nkvx_list_emit_def Let_def)
      have "list_loop ac cap start oids (?full\<lparr>la_overflow := True\<rparr>)
          = ?full\<lparr>la_overflow := True, la_full := u32 (la_full a + listing_size ac (?k # listed_keys oids))\<rparr>"
        using Cons.IH [of "?full\<lparr>la_overflow := True\<rparr>"] Cons.prems
        by (simp add: listing_size_def u32_add_left add.assoc)
      then show ?thesis unfolding step visit keys using True Cons.prems
        by (cases a) (auto simp: listing_size_def)
    next
      case fit: False
      let ?a = "?full\<lparr>la_body := la_body a @ list_entry ac ?k, la_off := la_off a + ?n, la_nrk := u32 (la_nrk a + 1)\<rparr>"
      have visit: "list_visit ac cap start oid a = ?a"
        using Cons.prems False off fit by (cases a) (auto simp: list_visit_def nkvx_list_emit_def Let_def)
      then show ?thesis unfolding step visit keys using Cons.IH [of ?a] Cons.prems fit
        by (simp add: listing_size_def u32_add_left add.assoc Let_def)
    qed
  qed
qed

lemma list_loop_skip:
  "\<not> la_started a \<Longrightarrow> list_loop ac cap start oids a
    = (case dropWhile (\<lambda>oid. strcmp oid start < 0) oids of
         [] \<Rightarrow> a | oids' \<Rightarrow> list_loop ac cap start oids' (a\<lparr>la_started := True\<rparr>))"
proof (induction oids)
  case (Cons oid oids)
  have step: "list_loop ac cap start (oid # oids) s = list_loop ac cap start oids (list_visit ac cap start oid s)" for s
    by (simp add: list_loop_def)
  show ?case
  proof (cases "strcmp oid start < 0")
    case True
    then have "list_visit ac cap start oid a = a" using Cons.prems by (simp add: list_visit_def)
    then show ?thesis using True Cons by (simp add: step)
  next
    case False
    then have "list_visit ac cap start oid a = list_visit ac cap start oid (a\<lparr>la_started := True\<rparr>)"
      by (simp add: list_visit_def)
    then show ?thesis using False by (simp add: step)
  qed
qed (simp add: list_loop_def)

section \<open>The host reads back the listed keys\<close>

lemma pad4: "4 dvd a \<Longrightarrow> a - 4 < b \<Longrightarrow> b \<le> a \<Longrightarrow> (b + 3) div 4 * 4 = a" for a b :: nat
  by (auto elim!: dvdE)

lemma parse_step:
  assumes "u32 (off + 2) = off + 2" "u32 (off + 2 + kl) = off + 2 + kl" "u32 (off + 2 + kl + 3) = off + 2 + kl + 3"
    and "le_val (take 2 (drop off buf)) = kl" "off + 2 + kl \<le> length buf"
  shows "kv_list_parse (Suc n) off buf = take kl (drop (off + 2) buf) # kv_list_parse n ((off + 2 + kl + 3) div 4 * 4) buf"
proof -
  have "u32 (off + 2) \<le> length buf" using assms(1,5) by simp
  then show ?thesis using assms(2,3,5) by (simp only: kv_list_parse.simps assms(1,4) Let_def) simp
qed

lemma parse_entries:
  assumes ac: "align_ok ac"
  shows "4 dvd length pre \<Longrightarrow> \<forall>k \<in> set ks. length k \<le> 255 \<Longrightarrow>
    length pre + listing_size ac ks + length rest + 4 < 2 ^ 32 \<Longrightarrow>
    kv_list_parse (length ks) (length pre) (pre @ concat (map (list_entry ac) ks) @ rest) = ks"
proof (induction ks arbitrary: pre)
  case (Cons k ks)
  let ?n = "nkvx_list_entry_size ac (length k)"
  let ?tail = "concat (map (list_entry ac) ks) @ rest"
  let ?buf = "pre @ list_entry ac k @ ?tail"
  have k: "length k \<le> 255" using Cons.prems(2) by simp
  note n = entry_size [OF ac k]
  have "ac (2 + length k) 4 < 2 + length k + 4" using ac by (simp only: align_ok_def)
  then have n4: "?n < length k + 2 + 4" by (simp add: n(1))
  have size: "length pre + ?n + listing_size ac ks + length rest + 4 < 2 ^ 32"
    using Cons.prems(3) by (simp add: listing_size_def)
  have len: "length (list_entry ac k) = ?n" using ac k by (rule length_list_entry)
  have off: "u32 (length pre + 2) = length pre + 2" "u32 (length pre + 2 + length k) = length pre + 2 + length k"
      "u32 (length pre + 2 + length k + 3) = length pre + 2 + length k + 3"
    using size n(2) by (auto intro: u32_id)
  have kl: "le_val (take 2 (drop (length pre) ?buf)) = length k"
    using k by (simp add: list_entry_def le_val_le_bytes)
  have key: "take (length k) (drop (length pre + 2) ?buf) = k"
    by (simp add: list_entry_def)
  have pad: "(length pre + 2 + length k + 3) div 4 * 4 = length pre + ?n"
    using Cons.prems(1) n n4 by (intro pad4) auto
  have "kv_list_parse (length ks) (length (pre @ list_entry ac k)) ((pre @ list_entry ac k) @ ?tail) = ks"
    using Cons.prems n(4) size by (intro Cons.IH) (simp_all add: len)
  then have rest: "kv_list_parse (length ks) (length pre + ?n) ?buf = ks" by (simp add: len)
  have "length pre + 2 + length k \<le> length ?buf" using n(2) len by simp
  with off kl have "kv_list_parse (Suc (length ks)) (length pre) ?buf
      = take (length k) (drop (length pre + 2) ?buf) # kv_list_parse (length ks) ((length pre + 2 + length k + 3) div 4 * 4) ?buf"
    by (intro parse_step)
  then have "kv_list_parse (Suc (length ks)) (length pre) ?buf = k # ks" by (simp only: key pad rest)
  then show ?case by simp
qed simp

lemma list_loop_init:
  assumes "align_ok ac" "cap + 262 \<le> 2 ^ 32" "4 \<le> cap"
    and "oids' = (if n = 0 then oids else dropWhile (\<lambda>oid. strcmp oid start < 0) oids)"
    and "r = list_loop ac cap start oids (list_init k n)"
  shows "la_body r = concat (map (list_entry ac) (fitting ac cap 4 (listed_keys oids')))"
    "la_nrk r = u32 (length (fitting ac cap 4 (listed_keys oids')))"
    "la_full r = u32 (4 + listing_size ac (listed_keys oids'))"
proof -
  define a where "a = (list_init k n)\<lparr>la_started := True\<rparr>"
  have u: "u32 0 = 0" "u32 4 = 4" by (simp_all add: u32_def)
  have started: "list_loop ac cap start os a =
      (let fit = fitting ac cap 4 (listed_keys os) in
       a\<lparr>la_body := concat (map (list_entry ac) fit), la_off := 4 + listing_size ac fit, la_nrk := u32 (length fit),
         la_full := u32 (4 + listing_size ac (listed_keys os)), la_overflow := (length fit < length (listed_keys os))\<rparr>)" for os
    using list_loop_started [OF assms(1,2), of a start os] assms(3)
    by (simp add: a_def list_init_def nkvx_list_nrk_size_def u Let_def)
  have "la_body r = la_body (list_loop ac cap start oids' a) \<and> la_nrk r = la_nrk (list_loop ac cap start oids' a)
    \<and> la_full r = la_full (list_loop ac cap start oids' a)"
  proof (cases "n = 0")
    case True
    then show ?thesis using assms(4,5) by (simp add: a_def list_init_def)
  next
    case False
    then have "r = (case oids' of [] \<Rightarrow> list_init k n | os \<Rightarrow> list_loop ac cap start os a)"
      using assms(4,5) list_loop_skip [of "list_init k n" ac cap start oids, folded a_def] by (simp add: list_init_def)
    then show ?thesis
      by (cases oids') (simp_all add: a_def list_init_def list_loop_def)
  qed
  then show "la_body r = concat (map (list_entry ac) (fitting ac cap 4 (listed_keys oids')))"
    "la_nrk r = u32 (length (fitting ac cap 4 (listed_keys oids')))"
    "la_full r = u32 (4 + listing_size ac (listed_keys oids'))"
    by (simp_all add: started Let_def)
qed

lemma dropWhile_sorted: "sorted xs \<Longrightarrow> dropWhile (\<lambda>x. strcmp x s < 0) xs = filter (\<lambda>x. s \<le> x) xs"
proof (induction xs)
  case (Cons x xs)
  then show ?case
  proof (cases "x < s")
    case False
    then have "\<forall>y \<in> set (x # xs). s \<le> y" using Cons.prems by (auto simp: not_less)
    then show ?thesis using False by (simp add: strcmp_sign filter_id_conv)
  qed (simp add: strcmp_sign)
qed simp

lemma exchange_sort_oids: "map mo_oid (exchange_sort t) = sort (map mo_oid t)"
proof (rule properties_for_sort [symmetric])
  show "mset (map mo_oid (exchange_sort t)) = mset (map mo_oid t)" by (simp only: mset_map exchange_sort_mset)
qed (rule exchange_sort_sorted)

text \<open>The delivered listing fits the cap and the host's parser reads the emitted keys back.\<close>

lemma listing_parse:
  assumes "align_ok ac" "cap + 262 \<le> 2 ^ 32" "4 \<le> cap" "\<forall>k \<in> set ks. length k \<le> 255"
    and "fit = fitting ac cap 4 ks" "buf = le_bytes 4 (length fit) @ concat (map (list_entry ac) fit)"
  shows "length buf \<le> cap" "kv_list_keys buf = fit"
proof -
  have "set fit \<subseteq> set ks" using assms(5) fitting_prefix [of ac cap 4 ks] by (auto dest: in_set_takeD)
  then have fit: "\<forall>k \<in> set fit. length k \<le> 255" "4 + listing_size ac fit \<le> cap"
    using assms(4,5) fitting_bound [OF assms(3), of ac ks] by auto
  have "length (concat (map (list_entry ac) ks)) = listing_size ac ks" if "\<forall>k \<in> set ks. length k \<le> 255" for ks
    using that length_list_entry [OF assms(1)] by (induction ks) (simp_all add: listing_size_def)
  then have len: "length buf = 4 + listing_size ac fit" using fit(1) by (simp add: assms(6))
  then show "length buf \<le> cap" using fit(2) by simp
  have "length ks \<le> listing_size ac ks" if "\<forall>k \<in> set ks. length k \<le> 255" for ks
    using that
  proof (induction ks)
    case (Cons k ks)
    then show ?case using entry_size(2) [OF assms(1), of "length k"] by (simp add: listing_size_def)
  qed simp
  then have "length fit \<le> listing_size ac fit" using fit(1) by blast
  then have n: "length fit < 2 ^ 32" using fit(2) assms(2) by simp
  have "(256 :: nat) ^ 4 = 2 ^ 32" by simp
  then have "le_val (take 4 buf) = length fit" using n by (simp add: assms(6) le_val_le_bytes)
  moreover have "kv_list_parse (length fit) (length (le_bytes 4 (length fit)))
      (le_bytes 4 (length fit) @ concat (map (list_entry ac) fit) @ []) = fit"
    using fit assms(2) by (intro parse_entries [OF assms(1)]) simp_all
  ultimately show "kv_list_keys buf = fit" by (simp add: kv_list_keys_def assms(6))
qed

end
