(* ===== verification/Executor.thy ===== *)
theory Executor
  imports ObjCache MemStore
begin

text \<open>
  The executor's KV verbs (\<^verbatim>\<open>rados-nkvx/nkvx_executor.c\<close>): Retrieve through the shared object
  cache, conditional Store, Delete, Exist and List, on the in-memory backend and on RADOS.

  librados is the parameter record \<open>rados\<close> of functions over a cluster state of any type;
  a call returns the errno or its result, and the new cluster state where it writes.
  \<open>rd_write_op\<close> is the compound write operation: exclusive create, or assert-exists, together
  with the full write. \<open>rd_list\<close> is an enumeration: the failed open, or the entries with the
  code that ended it. \<open>exec_env\<close> holds what a call depends on besides: whether the wasm runtime
  is there, whether allocations succeed, the cache caps and \<^verbatim>\<open>SPDK_ALIGN_CEIL\<close>.
\<close>

section \<open>State and results\<close>

record 'r rados =
  rd_stat :: "'r \<Rightarrow> string \<Rightarrow> errno + nat"
  rd_read :: "'r \<Rightarrow> string \<Rightarrow> nat \<Rightarrow> errno + bytes"
  rd_write_full :: "'r \<Rightarrow> string \<Rightarrow> bytes \<Rightarrow> errno option \<times> 'r"
  rd_write_op :: "'r \<Rightarrow> bool \<Rightarrow> string \<Rightarrow> bytes \<Rightarrow> errno option \<times> 'r"
  rd_remove :: "'r \<Rightarrow> string \<Rightarrow> errno option \<times> 'r"
  rd_list :: "'r \<Rightarrow> errno + string list \<times> errno"
  rd_pool :: "'r \<Rightarrow> string \<Rightarrow> string \<Rightarrow> errno + 'r"

record exec_env =
  ee_api :: bool
  ee_alloc :: bool
  ee_max_count :: nat
  ee_max_bytes :: nat
  ee_align :: "nat \<Rightarrow> nat \<Rightarrow> nat"

record ('r, 'm) executor =
  ex_mem :: bool
  ex_table :: "mem_obj list"
  ex_rados :: 'r
  ex_cache :: "'m obj_cache"

record exec_result =
  er_status :: io_status
  er_result_len :: nat
  er_buf :: "bytes option"

definition clamp_u32 :: "nat \<Rightarrow> nat" where
  "clamp_u32 n = (if n > uint32_max then uint32_max else n)"

definition nkvx_exec_result_free :: "exec_result \<Rightarrow> exec_result" where
  "nkvx_exec_result_free res = res\<lparr>er_buf := None\<rparr>"

definition nkvx_result_set :: "bool \<Rightarrow> io_status \<Rightarrow> nat \<Rightarrow> bytes \<Rightarrow> nat \<Rightarrow> exec_result" where
  "nkvx_result_set alloc_ok status result_len src deliver =
    (if deliver = 0 then \<lparr>er_status = status, er_result_len = result_len, er_buf = None\<rparr>
     else if \<not> alloc_ok then \<lparr>er_status = IO_NOMEM, er_result_len = 0, er_buf = None\<rparr>
     else \<lparr>er_status = status, er_result_len = result_len, er_buf = Some (take deliver src)\<rparr>)"

definition plain_result :: "io_status \<Rightarrow> exec_result" where
  "plain_result status = nkvx_result_set True status 0 [] 0"

definition size_status :: "nat \<Rightarrow> nat \<Rightarrow> io_status" where
  "size_status result_len osize = (if result_len > osize then IO_BUFFER_TOO_SMALL else IO_SUCCESS)"

section \<open>Retrieve\<close>

definition nkvx_obj_fill :: "'r rados \<Rightarrow> 'r \<Rightarrow> string \<Rightarrow> nat \<Rightarrow> bytes option" where
  "nkvx_obj_fill rd r oid cap = (case rd_read rd r oid cap of Inl _ \<Rightarrow> None | Inr bs \<Rightarrow> Some bs)"

text \<open>The result served from bytes in memory: a table entry or a pinned object.\<close>

definition serve_bytes :: "bool \<Rightarrow> bytes \<Rightarrow> nat \<Rightarrow> exec_result" where
  "serve_bytes alloc_ok bs osize =
    (let result_len = clamp_u32 (length bs); deliver = min osize result_len in
     nkvx_result_set alloc_ok (size_status result_len osize) result_len bs deliver)"

definition serve_pin :: "bool \<Rightarrow> nat \<Rightarrow> nat \<Rightarrow> 'm obj_cache \<Rightarrow> exec_result \<times> 'm obj_cache" where
  "serve_pin alloc_ok pin osize c =
    (serve_bytes alloc_ok (case nkvx_wasm_pin_object (Some pin) c of None \<Rightarrow> [] | Some bs \<Rightarrow> bs) osize,
     nkvx_wasm_cache_unpin (Some pin) c)"

text \<open>The fallback of a Retrieve: a direct read of the bytes to deliver.\<close>

definition retrieve_direct :: "exec_env \<Rightarrow> 'r rados \<Rightarrow> 'r \<Rightarrow> string \<Rightarrow> nat \<Rightarrow> nat \<Rightarrow> exec_result" where
  "retrieve_direct env rd r oid sz osize =
    (let result_len = clamp_u32 sz; deliver = min osize result_len; st = size_status result_len osize in
     if deliver = 0 then nkvx_result_set (ee_alloc env) st result_len [] 0
     else if \<not> ee_alloc env then plain_result IO_NOMEM
     else case rd_read rd r oid deliver of
       Inl err \<Rightarrow> plain_result (if err = E_NOENT then IO_KEY_NOT_EXIST else IO_FAILED)
     | Inr bs \<Rightarrow> \<lparr>er_status = st, er_result_len = result_len, er_buf = Some bs\<rparr>)"

definition nkvx_retrieve :: "exec_env \<Rightarrow> 'r rados \<Rightarrow> ('r, 'm) executor \<Rightarrow> string \<Rightarrow> 'h kv_in
    \<Rightarrow> exec_result \<times> ('r, 'm) executor" where
  "nkvx_retrieve env rd ex oid i =
    (let osize = ki_osize i in
     if ex_mem ex then
       (case nkvx_mem_find (ex_table ex) oid of
          None \<Rightarrow> (plain_result IO_KEY_NOT_EXIST, ex)
        | Some m \<Rightarrow> (serve_bytes (ee_alloc env) (mo_value m) osize, ex))
     else case nkvx_wasm_cache_pin oid (ex_cache ex) of
       (Some pin, c) \<Rightarrow>
         let (res, c') = serve_pin (ee_alloc env) pin osize c in (res, ex\<lparr>ex_cache := c'\<rparr>)
     | (None, c) \<Rightarrow>
         case rd_stat rd (ex_rados ex) oid of
           Inl err \<Rightarrow> (plain_result (if err = E_NOENT then IO_KEY_NOT_EXIST else IO_FAILED), ex\<lparr>ex_cache := c\<rparr>)
         | Inr sz \<Rightarrow>
             let (frc, c1) = nkvx_wasm_cache_fill (ee_max_count env) (ee_max_bytes env) (ee_api env) (ee_alloc env)
                   oid sz (nkvx_obj_fill rd (ex_rados ex) oid) c in
             if frc = IO_SUCCESS then
               (case nkvx_wasm_cache_pin oid c1 of
                  (Some pin, c2) \<Rightarrow>
                    let (res, c3) = serve_pin (ee_alloc env) pin osize c2 in (res, ex\<lparr>ex_cache := c3\<rparr>)
                | (None, c2) \<Rightarrow> (retrieve_direct env rd (ex_rados ex) oid sz osize, ex\<lparr>ex_cache := c2\<rparr>))
             else (retrieve_direct env rd (ex_rados ex) oid sz osize, ex\<lparr>ex_cache := c1\<rparr>))"

section \<open>Store, Delete, Exist\<close>

definition has_flag :: "nat \<Rightarrow> nat \<Rightarrow> bool" where
  "has_flag flags f = (flags AND f \<noteq> 0)"

definition store_rc_status :: "errno option \<Rightarrow> io_status" where
  "store_rc_status rc =
    (case rc of None \<Rightarrow> IO_SUCCESS
     | Some err \<Rightarrow> if err = E_EXIST then IO_KEY_EXIST else if err = E_NOENT then IO_KEY_NOT_EXIST else IO_FAILED)"

definition store_mem :: "exec_env \<Rightarrow> ('r, 'm) executor \<Rightarrow> string \<Rightarrow> nat \<Rightarrow> bytes \<Rightarrow> exec_result \<times> ('r, 'm) executor" where
  "store_mem env ex oid flags value =
    (let found = nkvx_mem_find (ex_table ex) oid in
     if has_flag flags store_flag_sinke \<and> found \<noteq> None then (plain_result IO_KEY_EXIST, ex)
     else if has_flag flags store_flag_sike \<and> found = None then (plain_result IO_KEY_NOT_EXIST, ex)
     else case nkvx_executor_mem_put (ee_alloc env) (ex_table ex) oid value of
       (Some err, t) \<Rightarrow> (plain_result (if err = E_NOSPC then IO_NOMEM else IO_FAILED), ex\<lparr>ex_table := t\<rparr>)
     | (None, t) \<Rightarrow> (plain_result IO_SUCCESS,
         ex\<lparr>ex_table := t, ex_cache := nkvx_wasm_cache_invalidate oid (ex_cache ex)\<rparr>))"

definition nkvx_store :: "exec_env \<Rightarrow> 'r rados \<Rightarrow> ('r, 'm) executor \<Rightarrow> string \<Rightarrow> 'h kv_in
    \<Rightarrow> exec_result \<times> ('r, 'm) executor" where
  "nkvx_store env rd ex oid i =
    (let flags = ki_store_flags i; value_len = ki_value_len i;
         value = (case ki_value_inline i of None \<Rightarrow> [] | Some v \<Rightarrow> take value_len v) in
     if ki_read_only i \<noteq> 0 then (plain_result IO_READ_ONLY, ex)
     else if value_len > 0 \<and> ki_value_inline i = None then (plain_result IO_NOT_SUPPORTED, ex)
     else if ex_mem ex then store_mem env ex oid flags value
     else
       let ex1 = ex\<lparr>ex_cache := nkvx_wasm_cache_invalidate oid (ex_cache ex)\<rparr> in
       if has_flag flags (store_flag_sinke OR store_flag_sike) then
         (if \<not> ee_alloc env then (plain_result IO_NOMEM, ex1)
          else let (rc, r) = rd_write_op rd (ex_rados ex) (has_flag flags store_flag_sinke) oid value in
            (plain_result (store_rc_status rc), ex1\<lparr>ex_rados := r\<rparr>))
       else let (rc, r) = rd_write_full rd (ex_rados ex) oid value in
         (plain_result (store_rc_status rc), ex1\<lparr>ex_rados := r\<rparr>))"

definition nkvx_delete :: "'r rados \<Rightarrow> ('r, 'm) executor \<Rightarrow> string \<Rightarrow> 'h kv_in
    \<Rightarrow> exec_result \<times> ('r, 'm) executor" where
  "nkvx_delete rd ex oid i =
    (let ex1 = ex\<lparr>ex_cache := nkvx_wasm_cache_invalidate oid (ex_cache ex)\<rparr> in
     if ki_read_only i \<noteq> 0 then (plain_result IO_READ_ONLY, ex)
     else if ex_mem ex then
       (let (existed, t) = nkvx_mem_del (ex_table ex) oid in
        (plain_result (if existed then IO_SUCCESS else IO_KEY_NOT_EXIST), ex1\<lparr>ex_table := t\<rparr>))
     else
       let (rc, r) = rd_remove rd (ex_rados ex) oid in
       (plain_result (case rc of None \<Rightarrow> IO_SUCCESS
          | Some err \<Rightarrow> if err = E_NOENT then IO_KEY_NOT_EXIST else IO_FAILED), ex1\<lparr>ex_rados := r\<rparr>))"

definition nkvx_exist :: "'r rados \<Rightarrow> ('r, 'm) executor \<Rightarrow> string \<Rightarrow> exec_result" where
  "nkvx_exist rd ex oid =
    (if ex_mem ex then
       (case nkvx_mem_find (ex_table ex) oid of
          None \<Rightarrow> plain_result IO_KEY_NOT_EXIST
        | Some m \<Rightarrow> nkvx_result_set True IO_SUCCESS (clamp_u32 (length (mo_value m))) [] 0)
     else case rd_stat rd (ex_rados ex) oid of
       Inl err \<Rightarrow> plain_result (if err = E_NOENT then IO_KEY_NOT_EXIST else IO_FAILED)
     | Inr sz \<Rightarrow> nkvx_result_set True IO_SUCCESS (clamp_u32 sz) [] 0)"

section \<open>List and the dispatcher\<close>

definition list_result :: "nat \<Rightarrow> list_acc \<Rightarrow> exec_result" where
  "list_result osize a =
    \<lparr>er_status = (if la_full a > osize then IO_BUFFER_TOO_SMALL else IO_SUCCESS),
     er_result_len = la_full a, er_buf = Some (le_bytes 4 (la_nrk a) @ la_body a)\<rparr>"

definition nkvx_list :: "exec_env \<Rightarrow> 'r rados \<Rightarrow> ('r, 'm) executor \<Rightarrow> 'h kv_in
    \<Rightarrow> exec_result \<times> ('r, 'm) executor" where
  "nkvx_list env rd ex i =
    (let osize = ki_osize i; cap = max osize nkvx_list_nrk_size;
         start = (if ki_key_len i > 0 then nkvx_key_to_oid (ki_key i) (ki_key_len i) else []);
         a = list_init (ki_key i) (ki_key_len i) in
     if \<not> ee_alloc env then (plain_result IO_NOMEM, ex)
     else if ex_mem ex then
       (let t = exchange_sort (ex_table ex) in
        (list_result osize (list_loop (ee_align env) cap start (map mo_oid t) a), ex\<lparr>ex_table := t\<rparr>))
     else case rd_list rd (ex_rados ex) of
       Inl _ \<Rightarrow> (plain_result IO_FAILED, ex)
     | Inr (oids, rc) \<Rightarrow>
         if rc \<noteq> E_NOENT then (plain_result IO_FAILED, ex)
         else (list_result osize (list_loop (ee_align env) cap start oids a), ex))"

definition nkvx_executor_kv :: "exec_env \<Rightarrow> 'r rados \<Rightarrow> ('r, 'm) executor \<Rightarrow> 'h kv_in
    \<Rightarrow> exec_result \<times> ('r, 'm) executor" where
  "nkvx_executor_kv env rd ex i =
    (let oid = nkvx_key_to_oid (ki_key i) (ki_key_len i); verb = ki_verb i in
     if verb = verb_code VERB_LIST then nkvx_list env rd ex i
     else if verb \<notin> {verb_code VERB_RETRIEVE, verb_code VERB_STORE, verb_code VERB_DELETE, verb_code VERB_EXIST}
       then (plain_result IO_INVALID, ex)
     else if ki_key_len i = 0 then (plain_result IO_INVALID, ex)
     else if verb = verb_code VERB_RETRIEVE then nkvx_retrieve env rd ex oid i
     else if verb = verb_code VERB_STORE then nkvx_store env rd ex oid i
     else if verb = verb_code VERB_DELETE then nkvx_delete rd ex oid i
     else (nkvx_exist rd ex oid, ex))"

section \<open>Opening and closing\<close>

definition nkvx_executor_open_mem :: "bool \<Rightarrow> 'r \<Rightarrow> 'm obj_cache \<Rightarrow> errno + ('r, 'm) executor" where
  "nkvx_executor_open_mem alloc_ok r c =
    (if \<not> alloc_ok then Inl E_NOMEM
     else Inr \<lparr>ex_mem = True, ex_table = [], ex_rados = r, ex_cache = c\<rparr>)"

definition nkvx_executor_close :: "('r, 'm) executor \<Rightarrow> 'm obj_cache" where
  "nkvx_executor_close ex = nkvx_wasm_cache_reset (ex_cache ex)"

section \<open>The contract of librados\<close>

text \<open>
  Documented behaviour on a healthy cluster: \<open>view\<close> is the pool as a map from object names to
  contents; stat and read report it (a read returns at most the bytes asked for), a full write
  replaces an object, the exclusive create fails with \<open>E_EXIST\<close> and the existence assertion
  with \<open>E_NOENT\<close> and then change nothing, and an enumeration names every object once and ends
  with \<open>E_NOENT\<close>.
\<close>

definition rados_ok :: "'r rados \<Rightarrow> ('r \<Rightarrow> string \<Rightarrow> bytes option) \<Rightarrow> bool" where
  "rados_ok rd view = (\<forall>r oid.
     rd_stat rd r oid = (case view r oid of None \<Rightarrow> Inl E_NOENT | Some v \<Rightarrow> Inr (length v))
     \<and> (\<forall>n. rd_read rd r oid n = (case view r oid of None \<Rightarrow> Inl E_NOENT | Some v \<Rightarrow> Inr (take n v)))
     \<and> (\<forall>v. fst (rd_write_full rd r oid v) = None \<and> view (snd (rd_write_full rd r oid v)) = (view r)(oid \<mapsto> v))
     \<and> (\<forall>v. case view r oid of
           None \<Rightarrow> fst (rd_write_op rd r True oid v) = None
             \<and> view (snd (rd_write_op rd r True oid v)) = (view r)(oid \<mapsto> v)
             \<and> fst (rd_write_op rd r False oid v) = Some E_NOENT \<and> view (snd (rd_write_op rd r False oid v)) = view r
         | Some _ \<Rightarrow> fst (rd_write_op rd r True oid v) = Some E_EXIST
             \<and> view (snd (rd_write_op rd r True oid v)) = view r
             \<and> fst (rd_write_op rd r False oid v) = None
             \<and> view (snd (rd_write_op rd r False oid v)) = (view r)(oid \<mapsto> v))
     \<and> fst (rd_remove rd r oid) = (case view r oid of None \<Rightarrow> Some E_NOENT | Some _ \<Rightarrow> None)
     \<and> view (snd (rd_remove rd r oid)) = (view r)(oid := None)
     \<and> (\<exists>oids. rd_list rd r = Inr (oids, E_NOENT) \<and> distinct oids \<and> set oids = dom (view r)))"

lemma rados_okD:
  assumes "rados_ok rd view"
  shows "rd_stat rd r oid = (case view r oid of None \<Rightarrow> Inl E_NOENT | Some v \<Rightarrow> Inr (length v))"
    "rd_read rd r oid n = (case view r oid of None \<Rightarrow> Inl E_NOENT | Some v \<Rightarrow> Inr (take n v))"
    "fst (rd_write_full rd r oid v) = None" "view (snd (rd_write_full rd r oid v)) = (view r)(oid \<mapsto> v)"
    "fst (rd_remove rd r oid) = (case view r oid of None \<Rightarrow> Some E_NOENT | Some _ \<Rightarrow> None)"
    "view (snd (rd_remove rd r oid)) = (view r)(oid := None)"
  using assms by (simp_all add: rados_ok_def)

lemma rados_ok_write_op:
  assumes "rados_ok rd view"
  shows "fst (rd_write_op rd r excl oid v)
      = (if excl \<and> view r oid \<noteq> None then Some E_EXIST else if \<not> excl \<and> view r oid = None then Some E_NOENT else None)"
    "view (snd (rd_write_op rd r excl oid v))
      = (if excl = (view r oid = None) then (view r)(oid \<mapsto> v) else view r)"
proof -
  have "case view r oid of
           None \<Rightarrow> fst (rd_write_op rd r True oid v) = None
             \<and> view (snd (rd_write_op rd r True oid v)) = (view r)(oid \<mapsto> v)
             \<and> fst (rd_write_op rd r False oid v) = Some E_NOENT \<and> view (snd (rd_write_op rd r False oid v)) = view r
         | Some _ \<Rightarrow> fst (rd_write_op rd r True oid v) = Some E_EXIST
             \<and> view (snd (rd_write_op rd r True oid v)) = view r
             \<and> fst (rd_write_op rd r False oid v) = None
             \<and> view (snd (rd_write_op rd r False oid v)) = (view r)(oid \<mapsto> v)"
    using assms by (simp add: rados_ok_def)
  then show "fst (rd_write_op rd r excl oid v)
      = (if excl \<and> view r oid \<noteq> None then Some E_EXIST else if \<not> excl \<and> view r oid = None then Some E_NOENT else None)"
    "view (snd (rd_write_op rd r excl oid v))
      = (if excl = (view r oid = None) then (view r)(oid \<mapsto> v) else view r)"
    by (cases excl; simp split: option.splits)+
qed

section \<open>Cache coherence\<close>

text \<open>
  Every live entry stored under an even-length key holds the current object. Object ids have
  even length, so an entry whose key was cut to 255 characters can never stand for one.
\<close>

definition entry_bytes :: "obj_entry \<Rightarrow> bytes" where
  "entry_bytes e = take (oe_obj_len e) (drop wasm_obj_off (oe_mem e))"

definition coherent :: "(string \<Rightarrow> bytes option) \<Rightarrow> 'm obj_cache \<Rightarrow> bool" where
  "coherent m c = (obj_cache_inv (\<lambda>_. 0) c \<and>
    (\<forall>e \<in> set (live_view c). even (length (oe_key e)) \<longrightarrow> m (oe_key e) = Some (entry_bytes e)))"

lemma coherent_view:
  "obj_cache_inv (\<lambda>_. 0) c' \<Longrightarrow> set (live_view c') \<subseteq> set (live_view c) \<Longrightarrow> coherent m c \<Longrightarrow> coherent m c'"
  by (auto simp: coherent_def)

lemma coherent_invalidate:
  assumes "coherent m c" "oid \<noteq> []"
  shows "coherent (m(oid := v)) (nkvx_wasm_cache_invalidate oid c)" "coherent m (nkvx_wasm_cache_invalidate oid c)"
  using assms invalidate_fold [of "\<lambda>_. 0" c oid]
  by (auto simp: coherent_def nkvx_wasm_cache_invalidate_def)

lemma coherent_lookup:
  assumes "coherent m c" "nkvx_obj_lookup c oid = Some e" "even (length oid)"
  shows "m oid = Some (entry_bytes e)"
proof -
  have "e\<lparr>oe_refcount := 0\<rparr> \<in> set (live_view c)" "oe_key e = oid"
    using lookup_mem [OF assms(2)] by (auto simp: live_view_def live_objects_def)
  then show ?thesis using assms(1,3) by (force simp: coherent_def entry_bytes_def)
qed

text \<open>A pin followed by its unpin leaves the live entries and the invariant as they were.\<close>

lemma pin_unpin:
  assumes "obj_cache_inv p c" "nkvx_wasm_cache_pin oid c = (Some i, c1)"
  shows "obj_cache_inv p (nkvx_wasm_cache_unpin (Some i) c1)"
    "live_view (nkvx_wasm_cache_unpin (Some i) c1) = live_view c"
    "\<exists>e. nkvx_obj_lookup c oid = Some e \<and> nkvx_wasm_pin_object (Some i) c1 = Some (entry_bytes e)"
proof -
  from assms(2) obtain e where e: "nkvx_obj_lookup c oid = Some e" "oe_filled e" "i = oe_id e" "oid \<noteq> []"
      "c1 = upd_obj i (\<lambda>e. e\<lparr>oe_refcount := oe_refcount e + 1\<rparr>) c"
    by (auto simp: nkvx_wasm_cache_pin_def split: if_splits option.splits)
  then have "i \<in> obj_ids c" using lookup_mem [OF e(1)] by (auto simp: obj_ids_def)
  then have inv: "obj_cache_inv (p(i := p i + 1)) c1" using assms(1) unfolding e(5) by (intro pin_inv)
  show "obj_cache_inv p (nkvx_wasm_cache_unpin (Some i) c1)"
    using unref_inv [OF inv] by (simp add: nkvx_wasm_cache_unpin_def)
  have "map (\<lambda>e. e\<lparr>oe_refcount := 0\<rparr>) (filter (\<lambda>e. \<not> oe_dead e)
        (map (\<lambda>e. if oe_id e = i then e\<lparr>oe_refcount := oe_refcount e + 1\<rparr> else e) es))
      = map (\<lambda>e. e\<lparr>oe_refcount := 0\<rparr>) (filter (\<lambda>e. \<not> oe_dead e) es)" for es :: "obj_entry list"
    by (induction es) auto
  then have "live_view c1 = live_view c" by (simp add: e(5) live_view_def live_objects_def upd_obj_def)
  then show "live_view (nkvx_wasm_cache_unpin (Some i) c1) = live_view c"
    using view_unref [OF inv] by (simp add: nkvx_wasm_cache_unpin_def)
  show "\<exists>e. nkvx_obj_lookup c oid = Some e \<and> nkvx_wasm_pin_object (Some i) c1 = Some (entry_bytes e)"
    using pin_object_view [OF assms(1) e(1,2,4)] assms(2) e by (auto simp: entry_bytes_def)
qed

lemma coherent_serve_pin:
  assumes "coherent m c" "nkvx_wasm_cache_pin oid c = (Some i, c1)" "even (length oid)"
    "serve_pin al i osize c1 = (res, c2)"
  shows "coherent m c2" "\<exists>v. m oid = Some v \<and> res = serve_bytes al v osize"
proof -
  have inv: "obj_cache_inv (\<lambda>_. 0) c" using assms(1) by (simp add: coherent_def)
  note pu = pin_unpin [OF inv assms(2)]
  have c2: "c2 = nkvx_wasm_cache_unpin (Some i) c1" using assms(4) by (simp add: serve_pin_def)
  show "coherent m c2" using coherent_view [OF pu(1) _ assms(1)] pu(2) by (simp add: c2)
  obtain e where "nkvx_obj_lookup c oid = Some e" "nkvx_wasm_pin_object (Some i) c1 = Some (entry_bytes e)"
    using pu(3) by blast
  then show "\<exists>v. m oid = Some v \<and> res = serve_bytes al v osize"
    using coherent_lookup [OF assms(1) _ assms(3)] assms(4) by (simp add: serve_pin_def)
qed

lemma coherent_cold_fill:
  assumes "coherent m c" "m oid = Some v" "length v < 2 ^ 32" "f (cache_need (length v) - wasm_obj_off) = Some v"
  shows "coherent m (snd (cold_fill mc mb al oid (length v) f c))"
proof (cases al)
  case True
  let ?e = "new_entry (oc_next c) oid (cache_need (length v)) v"
  let ?c = "nkvx_obj_list_add ?e (bump_fills (c\<lparr>oc_next := oc_next c + 1\<rparr>))"
  have inv: "obj_cache_inv (\<lambda>_. 0) c" using assms(1) by (simp add: coherent_def)
  have "length v + 65791 < 2 ^ 64" using assms(3) by simp
  then have "entry_bytes ?e = v"
    unfolding entry_bytes_def by (intro new_entry_bytes cache_need_bounds(1))
  moreover have "oe_key ?e = oid" if "even (length (oe_key ?e))"
    using that by (cases "length oid \<le> 255") (simp_all add: obj_key_cap_def)
  ultimately have c: "coherent m ?c"
    using assms(1,2) add_inv [OF inv] by (auto simp: coherent_def view_add)
  then have "obj_cache_inv (\<lambda>_. 0) ?c" by (simp add: coherent_def)
  from enforce_fold [OF this, of mc mb] obtain n where
    "obj_cache_inv (\<lambda>_. 0) (nkvx_obj_cache_enforce_caps mc mb ?c)"
    "live_view (nkvx_obj_cache_enforce_caps mc mb ?c) = drop n (live_view ?c)" by blast
  then have "coherent m (nkvx_obj_cache_enforce_caps mc mb ?c)"
    by (intro coherent_view [OF _ _ c]) (simp_all add: set_drop_subset del: add_Suc_right)
  then show ?thesis using True assms(4) by (simp add: cold_fill_def Let_def)
qed (use assms(1) in \<open>simp add: cold_fill_def Let_def\<close>)

lemma view_touch: "set (live_view (nkvx_obj_touch i (bump_hits c))) = set (live_view c)"
  by (auto simp: live_view_def live_objects_def nkvx_obj_touch_def bump_hits_def)

lemma inv_bump: "obj_cache_inv p (bump_hits c) = obj_cache_inv p c"
  by (simp add: bump_hits_def)

lemma coherent_fill:
  assumes "coherent m c" "m oid = Some v" "length v < 2 ^ 32" "f (cache_need (length v) - wasm_obj_off) = Some v"
  shows "coherent m (snd (nkvx_wasm_cache_fill mc mb api al oid (length v) f c))"
proof -
  have inv: "obj_cache_inv (\<lambda>_. 0) c" using assms(1) by (simp add: coherent_def)
  have "coherent m (nkvx_obj_touch i (bump_hits c))" for i
    using inv by (intro coherent_view [OF _ _ assms(1)] touch_inv) (simp_all add: view_touch inv_bump)
  then show ?thesis using assms(1) coherent_cold_fill [where f = f, OF assms, of mc mb al]
    by (auto simp: nkvx_wasm_cache_fill_def split: option.splits prod.splits sum.splits)
qed

section \<open>The verbs refine a map\<close>

text \<open>
  The abstract executor: a map from object ids to values. Retrieve truncates to the host
  buffer and reports the true length, the two Store conditions guard the update, and a
  read-only request changes nothing.
\<close>

definition spec_store :: "nat \<Rightarrow> string \<Rightarrow> bytes \<Rightarrow> (string \<Rightarrow> bytes option) \<Rightarrow> io_status \<times> (string \<Rightarrow> bytes option)" where
  "spec_store flags oid value m =
    (if has_flag flags store_flag_sinke \<and> m oid \<noteq> None then (IO_KEY_EXIST, m)
     else if has_flag flags store_flag_sike \<and> m oid = None then (IO_KEY_NOT_EXIST, m)
     else (IO_SUCCESS, m(oid \<mapsto> value)))"

definition kv_spec :: "'h kv_in \<Rightarrow> (string \<Rightarrow> bytes option) \<Rightarrow> exec_result \<times> (string \<Rightarrow> bytes option)" where
  "kv_spec i m =
    (let oid = nkvx_key_to_oid (ki_key i) (ki_key_len i); verb = ki_verb i in
     if ki_key_len i = 0 then (plain_result IO_INVALID, m)
     else if verb = verb_code VERB_RETRIEVE then
       (case m oid of None \<Rightarrow> plain_result IO_KEY_NOT_EXIST | Some v \<Rightarrow> serve_bytes True v (ki_osize i), m)
     else if verb = verb_code VERB_EXIST then
       (case m oid of None \<Rightarrow> plain_result IO_KEY_NOT_EXIST
          | Some v \<Rightarrow> nkvx_result_set True IO_SUCCESS (clamp_u32 (length v)) [] 0, m)
     else if verb = verb_code VERB_DELETE then
       (if ki_read_only i \<noteq> 0 then (plain_result IO_READ_ONLY, m)
        else (plain_result (if m oid = None then IO_KEY_NOT_EXIST else IO_SUCCESS), m(oid := None)))
     else if verb = verb_code VERB_STORE then
       (if ki_read_only i \<noteq> 0 then (plain_result IO_READ_ONLY, m)
        else case ki_value_inline i of
          None \<Rightarrow> if ki_value_len i > 0 then (plain_result IO_NOT_SUPPORTED, m)
                  else apfst plain_result (spec_store (ki_store_flags i) oid [] m)
        | Some v \<Rightarrow> apfst plain_result (spec_store (ki_store_flags i) oid (take (ki_value_len i) v) m))
     else (plain_result IO_INVALID, m))"

definition sized :: "(string \<Rightarrow> bytes option) \<Rightarrow> bool" where
  "sized m = (\<forall>oid v. m oid = Some v \<longrightarrow> length v < 2 ^ 32)"

definition exec_inv :: "('r \<Rightarrow> string \<Rightarrow> bytes option) \<Rightarrow> ('r, 'm) executor \<Rightarrow> bool" where
  "exec_inv view ex = (\<not> ex_mem ex \<and> coherent (view (ex_rados ex)) (ex_cache ex) \<and> sized (view (ex_rados ex)))"

text \<open>What the model's concurrent callers may send: 32-bit lengths and not both conditions at once.\<close>

definition kv_call_ok :: "'h kv_in \<Rightarrow> bool" where
  "kv_call_ok i = (ki_value_len i < 2 ^ 32 \<and> ki_osize i < 2 ^ 32
     \<and> \<not> (has_flag (ki_store_flags i) store_flag_sinke \<and> has_flag (ki_store_flags i) store_flag_sike))"

lemma oid_even: "even (length (nkvx_key_to_oid k n))"
  by (simp add: nkvx_key_to_oid_def)

lemma retrieve_direct_eq:
  assumes "rados_ok rd view" "view r oid = Some v" "length v < 2 ^ 32" "ee_alloc env"
  shows "retrieve_direct env rd r oid (length v) osize = serve_bytes True v osize"
proof -
  have "clamp_u32 (length v) = length v" using assms(3) by (simp add: clamp_u32_def uint32_max_def)
  then show ?thesis using assms
    by (simp add: retrieve_direct_def serve_bytes_def nkvx_result_set_def rados_okD(2) [OF assms(1)] Let_def)
qed

lemma retrieve_refines:
  assumes "rados_ok rd view" "exec_inv view ex" "ee_alloc env" "even (length oid)"
    and run: "nkvx_retrieve env rd ex oid i = (res, ex')"
  shows "ex_mem ex' = ex_mem ex \<and> ex_rados ex' = ex_rados ex \<and> coherent (view (ex_rados ex)) (ex_cache ex')
    \<and> res = (case view (ex_rados ex) oid of None \<Rightarrow> plain_result IO_KEY_NOT_EXIST | Some v \<Rightarrow> serve_bytes True v (ki_osize i))"
proof -
  let ?m = "view (ex_rados ex)"
  have co: "coherent ?m (ex_cache ex)" and mem: "\<not> ex_mem ex" and sz: "sized ?m" using assms(2) by (simp_all add: exec_inv_def)
  obtain p c where pin: "nkvx_wasm_cache_pin oid (ex_cache ex) = (p, c)" by (cases "nkvx_wasm_cache_pin oid (ex_cache ex)")
  show ?thesis
  proof (cases p)
    case (Some h)
    obtain r2 c2 where sp: "serve_pin True h (ki_osize i) c = (r2, c2)" by (cases "serve_pin True h (ki_osize i) c")
    from coherent_serve_pin [OF co pin [unfolded Some] assms(4) sp] show ?thesis
      using run mem pin Some sp assms(3) by (auto simp: nkvx_retrieve_def)
  next
    case None
    then have c: "c = ex_cache ex"
      using pin by (auto simp: nkvx_wasm_cache_pin_def split: if_splits option.splits)
    show ?thesis
    proof (cases "?m oid")
      case no: None
      then show ?thesis using run mem pin None co c
        by (auto simp: nkvx_retrieve_def rados_okD(1) [OF assms(1)] Let_def)
    next
      case (Some v)
      have lv: "length v < 2 ^ 32" using sz Some by (simp add: sized_def)
      have need: "length v + wasm_obj_off \<le> cache_need (length v)"
        using cache_need_bounds(1) [of "length v"] lv by simp
      have fill: "nkvx_obj_fill rd (ex_rados ex) oid (cache_need (length v) - wasm_obj_off) = Some v"
        using Some need by (simp add: nkvx_obj_fill_def rados_okD(2) [OF assms(1)])
      obtain frc c1 where fc: "nkvx_wasm_cache_fill (ee_max_count env) (ee_max_bytes env) (ee_api env) (ee_alloc env)
          oid (length v) (nkvx_obj_fill rd (ex_rados ex) oid) c = (frc, c1)"
        by (cases "nkvx_wasm_cache_fill (ee_max_count env) (ee_max_bytes env) (ee_api env) (ee_alloc env)
          oid (length v) (nkvx_obj_fill rd (ex_rados ex) oid) c")
      have co1: "coherent ?m c1"
        using coherent_fill [where f = "nkvx_obj_fill rd (ex_rados ex) oid", OF co Some lv fill] fc c by (metis snd_conv)
      obtain p2 c2 where pin2: "nkvx_wasm_cache_pin oid c1 = (p2, c2)" by (cases "nkvx_wasm_cache_pin oid c1")
      note direct = retrieve_direct_eq [OF assms(1) Some lv assms(3)]
      show ?thesis
      proof (cases p2)
        case p2: None
        then have "c2 = c1" using pin2 by (auto simp: nkvx_wasm_cache_pin_def split: if_splits option.splits)
        then show ?thesis using run mem pin None Some fc pin2 p2 co1 direct
          by (auto simp: nkvx_retrieve_def rados_okD(1) [OF assms(1)] Let_def split: if_splits)
      next
        case p2: (Some h)
        obtain r3 c3 where sp: "serve_pin True h (ki_osize i) c2 = (r3, c3)" by (cases "serve_pin True h (ki_osize i) c2")
        from coherent_serve_pin [OF co1 pin2 [unfolded p2] assms(4) sp] show ?thesis
          using run mem pin None Some fc pin2 p2 co1 direct sp assms(3)
          by (auto simp: nkvx_retrieve_def rados_okD(1) [OF assms(1)] Let_def split: if_splits)
      qed
    qed
  qed
qed

lemma oid_nonempty: "n > 0 \<Longrightarrow> n \<le> length k \<Longrightarrow> nkvx_key_to_oid k n \<noteq> []"
  by (cases k; cases n) (simp_all add: nkvx_key_to_oid_def)

text \<open>A request's key buffer holds its declared key.\<close>

definition kv_key_ok :: "'h kv_in \<Rightarrow> bool" where
  "kv_key_ok i = (ki_key_len i \<le> length (ki_key i))"

definition store_value :: "'h kv_in \<Rightarrow> bytes" where
  "store_value i = (case ki_value_inline i of None \<Rightarrow> [] | Some v \<Rightarrow> take (ki_value_len i) v)"

lemma has_flag_or: "has_flag flags (a OR b) \<longleftrightarrow> has_flag flags a \<or> has_flag flags b"
  by (auto simp: has_flag_def bit_eq_iff bit_simps simp del: neq0_conv)

lemma store_refines:
  assumes "rados_ok rd view" "exec_inv view ex" "ee_alloc env" "oid \<noteq> []" "ki_read_only i = 0"
    and "\<not> (ki_value_len i > 0 \<and> ki_value_inline i = None)" "kv_call_ok i"
    and run: "nkvx_store env rd ex oid i = (res, ex')"
  shows "exec_inv view ex' \<and> (case spec_store (ki_store_flags i) oid (store_value i) (view (ex_rados ex)) of
      (st, m) \<Rightarrow> res = plain_result st \<and> view (ex_rados ex') = m)"
proof -
  let ?m = "view (ex_rados ex)"
  let ?f = "ki_store_flags i"
  have ex: "\<not> ex_mem ex" "coherent ?m (ex_cache ex)" "sized ?m" using assms(2) by (simp_all add: exec_inv_def)
  have "length (store_value i) < 2 ^ 32"
    using assms(7) by (auto simp: store_value_def kv_call_ok_def split: option.splits)
  then have sz: "sized (?m(oid \<mapsto> store_value i))" using ex(3) by (auto simp: sized_def)
  note co = coherent_invalidate [OF ex(2) assms(4)]
  show ?thesis
  proof (cases "has_flag ?f store_flag_sinke \<or> has_flag ?f store_flag_sike")
    case True
    then have "nkvx_store env rd ex oid i = (let (rc, r) = rd_write_op rd (ex_rados ex) (has_flag ?f store_flag_sinke) oid (store_value i) in
        (plain_result (store_rc_status rc), ex\<lparr>ex_cache := nkvx_wasm_cache_invalidate oid (ex_cache ex), ex_rados := r\<rparr>))"
      using assms(3,5,6) ex(1) by (auto simp: nkvx_store_def has_flag_or store_value_def Let_def)
    then have res: "res = plain_result (store_rc_status (fst (rd_write_op rd (ex_rados ex) (has_flag ?f store_flag_sinke) oid (store_value i))))"
      and ex': "ex' = ex\<lparr>ex_cache := nkvx_wasm_cache_invalidate oid (ex_cache ex),
        ex_rados := snd (rd_write_op rd (ex_rados ex) (has_flag ?f store_flag_sinke) oid (store_value i))\<rparr>"
      using run by (simp_all add: case_prod_unfold Let_def)
    have "has_flag ?f store_flag_sike \<longleftrightarrow> \<not> has_flag ?f store_flag_sinke"
      using True assms(7) by (auto simp: kv_call_ok_def)
    then show ?thesis
      using ex co sz by (auto simp: res ex' exec_inv_def spec_store_def store_rc_status_def
          rados_ok_write_op [OF assms(1)])
  next
    case False
    then have "nkvx_store env rd ex oid i = (let (rc, r) = rd_write_full rd (ex_rados ex) oid (store_value i) in
        (plain_result (store_rc_status rc), ex\<lparr>ex_cache := nkvx_wasm_cache_invalidate oid (ex_cache ex), ex_rados := r\<rparr>))"
      using assms(5,6) ex(1) by (auto simp: nkvx_store_def has_flag_or store_value_def Let_def)
    then have "res = plain_result IO_SUCCESS" "ex' = ex\<lparr>ex_cache := nkvx_wasm_cache_invalidate oid (ex_cache ex),
        ex_rados := snd (rd_write_full rd (ex_rados ex) oid (store_value i))\<rparr>"
      using run rados_okD(3) [OF assms(1)] by (simp_all add: case_prod_unfold store_rc_status_def Let_def)
    then show ?thesis
      using False ex co(1) sz rados_okD(4) [OF assms(1)] by (simp add: exec_inv_def spec_store_def)
  qed
qed

lemma delete_refines:
  assumes "rados_ok rd view" "exec_inv view ex" "oid \<noteq> []" "ki_read_only i = 0"
    and run: "nkvx_delete rd ex oid i = (res, ex')"
  shows "exec_inv view ex' \<and> view (ex_rados ex') = (view (ex_rados ex))(oid := None)
    \<and> res = plain_result (if view (ex_rados ex) oid = None then IO_KEY_NOT_EXIST else IO_SUCCESS)"
proof -
  let ?m = "view (ex_rados ex)"
  have ex: "\<not> ex_mem ex" "coherent ?m (ex_cache ex)" "sized ?m" using assms(2) by (simp_all add: exec_inv_def)
  have "sized (?m(oid := None))" using ex(3) by (auto simp: sized_def)
  moreover have ex': "ex' = ex\<lparr>ex_cache := nkvx_wasm_cache_invalidate oid (ex_cache ex), ex_rados := snd (rd_remove rd (ex_rados ex) oid)\<rparr>"
    and "res = plain_result (case fst (rd_remove rd (ex_rados ex) oid) of None \<Rightarrow> IO_SUCCESS
          | Some err \<Rightarrow> if err = E_NOENT then IO_KEY_NOT_EXIST else IO_FAILED)"
    using run assms(4) ex(1) by (simp_all add: nkvx_delete_def case_prod_unfold Let_def)
  ultimately show ?thesis
    using ex coherent_invalidate(1) [OF ex(2) assms(3)] rados_okD(5,6) [OF assms(1)]
    by (simp add: exec_inv_def split: option.splits)
qed

lemma kv_refines:
  assumes "rados_ok rd view" "exec_inv view ex" "ee_alloc env" "kv_call_ok i" "kv_key_ok i"
    and "ki_verb i \<noteq> verb_code VERB_LIST" and run: "nkvx_executor_kv env rd ex i = (res, ex')"
  shows "exec_inv view ex' \<and> kv_spec i (view (ex_rados ex)) = (res, view (ex_rados ex'))"
proof (cases "ki_key_len i = 0 \<or> ki_verb i \<notin> {verb_code VERB_RETRIEVE, verb_code VERB_STORE, verb_code VERB_DELETE, verb_code VERB_EXIST}")
  case True
  then show ?thesis using assms by (auto simp: nkvx_executor_kv_def kv_spec_def Let_def)
next
  case False
  let ?oid = "nkvx_key_to_oid (ki_key i) (ki_key_len i)"
  have oid: "?oid \<noteq> []" "even (length ?oid)"
    using False assms(5) oid_nonempty [of "ki_key_len i" "ki_key i"] by (simp_all add: kv_key_ok_def oid_even)
  have ex: "\<not> ex_mem ex" "coherent (view (ex_rados ex)) (ex_cache ex)" "sized (view (ex_rados ex))"
    using assms(2) by (simp_all add: exec_inv_def)
  from False consider "ki_verb i = 2" | "ki_verb i = 1" | "ki_verb i = 3" | "ki_verb i = 4" by auto
  then show ?thesis
  proof cases
    case 1
    then have "nkvx_retrieve env rd ex ?oid i = (res, ex')" using run False by (simp add: nkvx_executor_kv_def Let_def)
    from retrieve_refines [OF assms(1,2,3) oid(2) this] show ?thesis
      using 1 False ex by (simp add: kv_spec_def exec_inv_def Let_def)
  next
    case 2
    then have st: "nkvx_store env rd ex ?oid i = (res, ex')" using run False by (simp add: nkvx_executor_kv_def Let_def)
    show ?thesis
    proof (cases "ki_read_only i \<noteq> 0 \<or> (ki_value_len i > 0 \<and> ki_value_inline i = None)")
      case True
      then show ?thesis using st 2 False assms(2)
        by (auto simp: kv_spec_def Let_def nkvx_store_def split: option.splits)
    next
      case ok: False
      then have "exec_inv view ex' \<and> (case spec_store (ki_store_flags i) ?oid (store_value i) (view (ex_rados ex)) of
          (st, m) \<Rightarrow> res = plain_result st \<and> view (ex_rados ex') = m)"
        using store_refines [OF assms(1,2,3) oid(1) _ _ assms(4) st] by simp
      then show ?thesis using 2 False ok
        by (auto simp: kv_spec_def Let_def store_value_def split: option.splits prod.splits)
    qed
  next
    case 3
    then have del: "nkvx_delete rd ex ?oid i = (res, ex')" using run False by (simp add: nkvx_executor_kv_def Let_def)
    show ?thesis
    proof (cases "ki_read_only i = 0")
      case True
      from delete_refines [OF assms(1,2) oid(1) True del] show ?thesis
        using 3 False True by (simp add: kv_spec_def Let_def)
    next
      case ro: False
      then show ?thesis using del 3 False assms(2) by (simp add: kv_spec_def Let_def nkvx_delete_def)
    qed
  next
    case 4
    then show ?thesis using run False assms(2) ex(1)
      by (auto simp: nkvx_executor_kv_def kv_spec_def Let_def nkvx_exist_def rados_okD(1) [OF assms(1)] split: option.splits)
  qed
qed

section \<open>The in-memory backend refines the same map\<close>

definition mem_inv :: "('r, 'm) executor \<Rightarrow> bool" where
  "mem_inv ex = (ex_mem ex \<and> mem_ok (ex_table ex))"

text \<open>A Store that needs a new slot finds one.\<close>

definition mem_room :: "('r, 'm) executor \<Rightarrow> string \<Rightarrow> bool" where
  "mem_room ex oid = (mem_get (ex_table ex) oid \<noteq> None \<or> length (ex_table ex) < nkvx_mem_max_objs)"

lemma oid_short: "ki_key_len i \<le> exec_key_max_len \<Longrightarrow> length (nkvx_key_to_oid k (ki_key_len i)) < mem_oid_size"
  by (simp add: nkvx_key_to_oid_def mem_oid_size_def)

lemma mem_store_refines:
  assumes "mem_inv ex" "ee_alloc env" "length oid < mem_oid_size" "mem_room ex oid"
    and run: "store_mem env ex oid flags v = (res, ex')"
  shows "mem_inv ex' \<and> (case spec_store flags oid v (mem_get (ex_table ex)) of
    (st, m) \<Rightarrow> res = plain_result st \<and> mem_get (ex_table ex') = m)"
proof -
  let ?t = "ex_table ex"
  have ok: "mem_ok ?t" "ex_mem ex" using assms(1) by (simp_all add: mem_inv_def)
  have fits: "mem_fits ?t oid" using assms(3,4) by (auto simp: mem_fits_def mem_room_def mem_get_def)
  note put = mem_put_get [OF ok(1) fits, of v]
  obtain t' where t': "nkvx_executor_mem_put True ?t oid v = (None, t')"
    using put(3) by (metis prod.collapse)
  have found: "mem_get ?t oid = None \<longleftrightarrow> nkvx_mem_find ?t oid = None" by (simp add: mem_get_def)
  have "store_mem env ex oid flags v =
      (case spec_store flags oid v (mem_get ?t) of (st, m) \<Rightarrow>
        (plain_result st, if st = IO_SUCCESS
           then ex\<lparr>ex_table := t', ex_cache := nkvx_wasm_cache_invalidate oid (ex_cache ex)\<rparr> else ex))"
    using assms(2) by (auto simp: store_mem_def spec_store_def Let_def t' found)
  then show ?thesis using run ok put(1,2) t'
    by (auto simp: spec_store_def mem_inv_def split: if_splits)
qed

lemma mem_kv_refines:
  assumes "mem_inv ex" "ee_alloc env" "ki_key_len i \<le> exec_key_max_len"
    and "ki_verb i = verb_code VERB_STORE \<longrightarrow> mem_room ex (nkvx_key_to_oid (ki_key i) (ki_key_len i))"
    and "ki_verb i \<noteq> verb_code VERB_LIST" and run: "nkvx_executor_kv env rd ex i = (res, ex')"
  shows "mem_inv ex' \<and> kv_spec i (mem_get (ex_table ex)) = (res, mem_get (ex_table ex'))"
proof (cases "ki_key_len i = 0 \<or> ki_verb i \<notin> {verb_code VERB_RETRIEVE, verb_code VERB_STORE, verb_code VERB_DELETE, verb_code VERB_EXIST}")
  case True
  then show ?thesis using assms(1,5) run by (auto simp: nkvx_executor_kv_def kv_spec_def Let_def)
next
  case False
  let ?oid = "nkvx_key_to_oid (ki_key i) (ki_key_len i)"
  have ok: "mem_ok (ex_table ex)" "ex_mem ex" using assms(1) by (simp_all add: mem_inv_def)
  from False consider "ki_verb i = 2" | "ki_verb i = 1" | "ki_verb i = 3" | "ki_verb i = 4" by auto
  then show ?thesis
  proof cases
    case 2
    then have st: "nkvx_store env rd ex ?oid i = (res, ex')" using run False by (simp add: nkvx_executor_kv_def Let_def)
    show ?thesis
    proof (cases "ki_read_only i \<noteq> 0 \<or> (ki_value_len i > 0 \<and> ki_value_inline i = None)")
      case True
      then show ?thesis using st 2 False assms(1)
        by (auto simp: kv_spec_def Let_def nkvx_store_def split: option.splits)
    next
      case no: False
      then have "store_mem env ex ?oid (ki_store_flags i) (store_value i) = (res, ex')"
        using st ok(2) by (auto simp: nkvx_store_def Let_def store_value_def)
      from mem_store_refines [OF assms(1,2) oid_short [OF assms(3)] _ this] show ?thesis
        using 2 False no assms(4)
        by (auto simp: kv_spec_def Let_def store_value_def split: option.splits prod.splits)
    qed
  next
    case 3
    then have del: "nkvx_delete rd ex ?oid i = (res, ex')" using run False by (simp add: nkvx_executor_kv_def Let_def)
    then show ?thesis using 3 False ok mem_del_get [OF ok(1), of ?oid]
      by (auto simp: kv_spec_def Let_def nkvx_delete_def mem_inv_def case_prod_unfold split: if_splits)
  qed (use run False assms(1,2) ok in \<open>auto simp: nkvx_executor_kv_def kv_spec_def Let_def nkvx_retrieve_def
      nkvx_exist_def mem_get_def split: option.splits\<close>)
qed

section \<open>Sequences of calls\<close>

text \<open>
  A session of the RADOS executor: it starts with an empty cache on any pool of sized objects
  and serves any sequence of KV calls. librados and the view of the pool travel with the state.
\<close>

type_synonym ('r, 'm) exec_session = "'r rados \<times> ('r \<Rightarrow> string \<Rightarrow> bytes option) \<times> ('r, 'm) executor"

definition exec_init :: "('r, 'm) exec_session \<Rightarrow> bool" where
  "exec_init s = (case s of (rd, view, ex) \<Rightarrow>
     rados_ok rd view \<and> \<not> ex_mem ex \<and> ex_cache ex = nkvx_cache_init_once \<and> sized (view (ex_rados ex)))"

inductive exec_step :: "('r, 'm) exec_session \<Rightarrow> exec_env \<times> 'h kv_in \<Rightarrow> ('r, 'm) exec_session \<Rightarrow> bool" where
  "ee_alloc env \<Longrightarrow> kv_call_ok i \<Longrightarrow> kv_key_ok i \<Longrightarrow>
    exec_step (rd, view, ex) (env, i) (rd, view, snd (nkvx_executor_kv env rd ex i))"

definition session_inv :: "('r, 'm) exec_session \<Rightarrow> bool" where
  "session_inv s = (case s of (rd, view, ex) \<Rightarrow> rados_ok rd view \<and> exec_inv view ex)"

lemma list_keeps: "\<not> ex_mem ex \<Longrightarrow> snd (nkvx_list env rd ex i) = ex"
  by (auto simp: nkvx_list_def Let_def split: sum.splits)

interpretation exec_sys: invariant_system exec_init exec_step session_inv
proof
  fix s :: "('r, 'm) exec_session" assume "exec_init s"
  then show "session_inv s"
    by (auto simp: exec_init_def session_inv_def exec_inv_def coherent_def obj_cache_inv_def nkvx_cache_init_once_def
        live_view_def live_objects_def)
next
  fix s s' :: "('r, 'm) exec_session" and e :: "exec_env \<times> 'h kv_in"
  assume inv: "session_inv s" and "exec_step s e s'"
  from this(2) show "session_inv s'"
  proof cases
    case (1 env i rd view ex)
    show ?thesis
    proof (cases "ki_verb i = verb_code VERB_LIST")
      case True
      then show ?thesis using inv 1 by (simp add: session_inv_def nkvx_executor_kv_def exec_inv_def list_keeps)
    next
      case False
      then show ?thesis using inv 1 kv_refines [of rd view ex env i]
        by (auto simp: session_inv_def) (metis prod.collapse)
    qed
  qed
qed

section \<open>A pool held in an association list\<close>

definition alist_rados :: "(string \<times> bytes) list rados" where
  "alist_rados = \<lparr>
     rd_stat = (\<lambda>r oid. case map_of r oid of None \<Rightarrow> Inl E_NOENT | Some v \<Rightarrow> Inr (length v)),
     rd_read = (\<lambda>r oid n. case map_of r oid of None \<Rightarrow> Inl E_NOENT | Some v \<Rightarrow> Inr (take n v)),
     rd_write_full = (\<lambda>r oid v. (None, (oid, v) # r)),
     rd_write_op = (\<lambda>r excl oid v. case map_of r oid of
        None \<Rightarrow> if excl then (None, (oid, v) # r) else (Some E_NOENT, r)
      | Some _ \<Rightarrow> if excl then (Some E_EXIST, r) else (None, (oid, v) # r)),
     rd_remove = (\<lambda>r oid. (case map_of r oid of None \<Rightarrow> Some E_NOENT | Some _ \<Rightarrow> None,
        filter (\<lambda>x. fst x \<noteq> oid) r)),
     rd_list = (\<lambda>r. Inr (remdups (map fst r), E_NOENT)),
     rd_pool = (\<lambda>r pool ns. Inr r)\<rparr>"

lemma map_of_filter_ne: "map_of (filter (\<lambda>x. fst x \<noteq> k) r) = (map_of r)(k := None)"
  by (induction r) (auto simp: fun_eq_iff)

lemma alist_rados_ok: "rados_ok alist_rados map_of"
  by (auto simp: rados_ok_def alist_rados_def map_of_filter_ne dom_map_of_conv_image_fst fun_eq_iff split: option.splits)

definition exec_env_ex :: exec_env where
  "exec_env_ex = \<lparr>ee_api = True, ee_alloc = True, ee_max_count = 256, ee_max_bytes = 536870912, ee_align = align4\<rparr>"

definition executor_ex :: "((string \<times> bytes) list, unit) executor" where
  "executor_ex = \<lparr>ex_mem = False, ex_table = [], ex_rados = [(''6b'', [1, 2, 3])], ex_cache = nkvx_cache_init_once\<rparr>"

definition mem_executor_ex :: "((string \<times> bytes) list, unit) executor" where
  "mem_executor_ex = \<lparr>ex_mem = True, ex_table = [\<lparr>mo_oid = ''6d'', mo_value = [7, 7]\<rparr>, \<lparr>mo_oid = ''6b'', mo_value = [9]\<rparr>],
     ex_rados = [], ex_cache = nkvx_cache_init_once\<rparr>"

definition kv_call :: "nat \<Rightarrow> nat \<Rightarrow> bytes \<Rightarrow> nat \<Rightarrow> nat \<Rightarrow> bytes option \<Rightarrow> unit kv_in" where
  "kv_call verb ro key osize flags value = \<lparr>ki_verb = verb, ki_read_only = ro, ki_client_call_id = 7,
     ki_key_len = length key, ki_key = key, ki_osize = osize, ki_store_flags = flags,
     ki_value_len = (case value of None \<Rightarrow> 0 | Some v \<Rightarrow> length v), ki_value_inline = value,
     ki_value_bulk = None, ki_result_sink = None\<rparr>"

lemma executor_ex_session: "reachable exec_init exec_step (alist_rados, map_of, executor_ex)"
  by (rule reach_init) (simp add: exec_init_def alist_rados_ok executor_ex_def sized_def)

lemma oid_6b: "nkvx_key_to_oid [107] (Suc 0) = ''6b''"
  by (simp add: nkvx_key_to_oid_def hex_digits_def)

section \<open>Properties\<close>





text \<open>
  Read-only is enforced at the data: whatever the backend, librados and the cache do, a
  Store or Delete flagged read-only returns \<open>READ_ONLY\<close> for a non-empty key and leaves table,
  pool and cache untouched.
\<close>

theorem executor_read_only:
  assumes "ki_read_only i \<noteq> 0" "ki_key_len i > 0" "ki_verb i \<in> {verb_code VERB_STORE, verb_code VERB_DELETE}"
  shows "nkvx_executor_kv env rd ex i = (plain_result IO_READ_ONLY, ex)"
  using assms by (auto simp: nkvx_executor_kv_def nkvx_store_def nkvx_delete_def Let_def)

theorem executor_read_only_witness:
  "nkvx_executor_kv exec_env_ex alist_rados executor_ex (kv_call 3 1 [107] 0 0 None) = (plain_result IO_READ_ONLY, executor_ex)"
  using executor_read_only [of "kv_call 3 1 [107] 0 0 None"] by (simp add: kv_call_def)

text \<open>
  List on the in-memory backend, read back by the host's parser: for every table of keys
  and every host buffer of at least 4 bytes, the parser recovers, in ascending order, the
  longest prefix of the keys at or after the start key whose entries fit the buffer; the
  reported length is that of the complete listing, and the status tells whether it fitted.
\<close>

theorem list_roundtrip:
  assumes "ex_mem ex" "mem_ok (ex_table ex)" "\<forall>m \<in> set (ex_table ex). nkvx_oid_to_key (mo_oid m) \<noteq> []"
    and "align_ok (ee_align env)" "ee_alloc env" "4 \<le> ki_osize i" "ki_osize i + 262 \<le> 2 ^ 32" "ki_verb i = verb_code VERB_LIST"
    and "start = (if ki_key_len i > 0 then nkvx_key_to_oid (ki_key i) (ki_key_len i) else [])"
    and "oids = filter (\<lambda>oid. start \<le> oid) (sort (map mo_oid (ex_table ex)))"
    and "nkvx_executor_kv env rd ex i = (res, ex')"
  shows "\<exists>buf. er_buf res = Some buf \<and> length buf \<le> ki_osize i
    \<and> kv_list_keys buf = fitting (ee_align env) (ki_osize i) 4 (map nkvx_oid_to_key oids)
    \<and> er_result_len res = 4 + listing_size (ee_align env) (map nkvx_oid_to_key oids)
    \<and> er_status res = (if er_result_len res > ki_osize i then IO_BUFFER_TOO_SMALL else IO_SUCCESS)
    \<and> mset (ex_table ex') = mset (ex_table ex)"
proof -
  let ?ac = "ee_align env"
  let ?keys = "map nkvx_oid_to_key oids"
  let ?fit = "fitting ?ac (ki_osize i) 4 ?keys"
  let ?sorted = "sort (map mo_oid (ex_table ex))"
  let ?r = "list_loop ?ac (ki_osize i) start ?sorted (list_init (ki_key i) (ki_key_len i))"
  have cap: "max (ki_osize i) nkvx_list_nrk_size = ki_osize i" using assms(6) by (simp add: nkvx_list_nrk_size_def)
  have run: "res = list_result (ki_osize i) ?r" "ex' = ex\<lparr>ex_table := exchange_sort (ex_table ex)\<rparr>"
    using assms(1,5,8,9,11) by (simp_all add: nkvx_executor_kv_def nkvx_list_def Let_def exchange_sort_oids cap)
  have oids: "oids = (if ki_key_len i = 0 then ?sorted else dropWhile (\<lambda>oid. strcmp oid start < 0) ?sorted)"
    using assms(9,10) by (simp add: dropWhile_sorted)
  have keys: "listed_keys oids = ?keys"
    using assms(3,10) by (auto simp: listed_keys_def filter_id_conv)
  have k255: "\<forall>k \<in> set ?keys. length k \<le> 255" using oid_to_key_length by (auto simp: exec_key_max_len_def)
  note r = list_loop_init [OF assms(4,7,6) oids refl, of "ki_key i", unfolded keys]
  have n: "length ?fit \<le> length ?keys" using fitting_prefix [of ?ac "ki_osize i" 4 ?keys] by auto
  have len: "length ?keys \<le> 64" using assms(2,10) length_filter_le [of "\<lambda>oid. start \<le> oid" ?sorted]
    by (simp add: mem_ok_def nkvx_mem_max_objs_def)
  have size: "listing_size ?ac ?keys \<le> 64 * 262" using listing_size_bound [OF assms(4) k255] len by linarith
  have nrk: "la_nrk ?r = length ?fit" using r(2) n len by (simp add: u32_id)
  have full: "la_full ?r = 4 + listing_size ?ac ?keys" using r(3) size by (simp add: u32_id)
  have buf: "er_buf res = Some (le_bytes 4 (length ?fit) @ concat (map (list_entry ?ac) ?fit))"
    by (simp add: run(1) list_result_def nrk r(1))
  have "er_result_len res = la_full ?r"
      "er_status res = (if la_full ?r > ki_osize i then IO_BUFFER_TOO_SMALL else IO_SUCCESS)"
    by (simp_all add: run(1) list_result_def)
  then show ?thesis
    using buf full listing_parse [OF assms(4,7,6) k255 refl refl] run(2)
    by (simp add: exchange_sort_mset)
qed

theorem list_roundtrip_witness:
  "\<exists>buf. er_buf (fst (nkvx_executor_kv exec_env_ex alist_rados mem_executor_ex (kv_call 5 0 [] 64 0 None))) = Some buf
    \<and> kv_list_keys buf = [[107], [109]]"
proof -
  let ?i = "kv_call 5 0 [] 64 0 None"
  obtain res ex' where run: "nkvx_executor_kv exec_env_ex alist_rados mem_executor_ex ?i = (res, ex')"
    by (cases "nkvx_executor_kv exec_env_ex alist_rados mem_executor_ex ?i")
  have oid: "nkvx_oid_to_key ''6b'' = [107]" "nkvx_oid_to_key ''6d'' = [109]"
    using nkvx_oid_to_key_of_key [of "[107]"] nkvx_oid_to_key_of_key [of "[109]"]
    by (simp_all add: key_ok_def exec_key_max_len_def nkvx_key_to_oid_def hex_digits_def)
  have "\<exists>buf. er_buf res = Some buf \<and> length buf \<le> ki_osize ?i
    \<and> kv_list_keys buf = fitting (ee_align exec_env_ex) (ki_osize ?i) 4 (map nkvx_oid_to_key [''6b'', ''6d''])
    \<and> er_result_len res = 4 + listing_size (ee_align exec_env_ex) (map nkvx_oid_to_key [''6b'', ''6d''])
    \<and> er_status res = (if er_result_len res > ki_osize ?i then IO_BUFFER_TOO_SMALL else IO_SUCCESS)
    \<and> mset (ex_table ex') = mset (ex_table mem_executor_ex)"
    by (rule list_roundtrip [where start = "[]", OF _ _ _ _ _ _ _ _ _ _ run])
      (simp_all add: mem_executor_ex_def mem_ok_def nkvx_mem_max_objs_def mem_oid_size_def exec_key_max_len_def oid
        exec_env_ex_def align4_ok kv_call_def)
  then have "\<exists>buf. er_buf res = Some buf \<and> kv_list_keys buf = [[107], [109]]"
    by (auto simp: oid exec_env_ex_def kv_call_def align4_def nkvx_list_entry_size_def u32_def)
  then show ?thesis by (simp only: run fst_conv)
qed

end
