(* ===== verification/Wasm.thy ===== *)
theory Wasm
  imports ObjCache
begin

text \<open>
  The wasm runtime core of \<^verbatim>\<open>target/kvdev_rados_nkvx_wasm.c\<close>: resource caps, the SHA-256 gate
  and the compiled-module cache, the zero-copy linear memory and a module run on a cached
  object.

  OpenSSL and wasmtime are the parameter record \<open>wasmtime\<close>: the digest (\<^const>\<open>None\<close> on failure), compile
  and serialize, deserialize, the minimum memory a module declares, instantiation (data
  segments, start function) under a store limiter (0 for none) and a call on the instance and its
  linear memory, and the module's exports. A linear memory is passed
  to them and handed back by value; where it aliases the cached object the new bytes are
  written back to the entry.
\<close>

section \<open>Parameters\<close>

record zc_mem =
  zm_base :: bytes
  zm_size :: nat
  zm_cap :: nat
  zm_owned :: bool

datatype wasm_extern = Ext_memory | Ext_func | Ext_other

datatype wasm_outcome = Call_error | Call_trap string | Call_i32 nat | Call_other

record ('m, 'i) wasmtime =
  wt_digest :: "bytes \<Rightarrow> bytes option"
  wt_compile :: "bytes \<Rightarrow> bytes option"
  wt_load :: "bytes \<Rightarrow> 'm option"
  wt_minimum :: "'m \<Rightarrow> nat"
  wt_start :: "'m \<Rightarrow> nat \<Rightarrow> zc_mem \<Rightarrow> 'i option \<times> zc_mem"
  wt_export :: "'m \<Rightarrow> string \<Rightarrow> wasm_extern option"
  wt_set_fuel :: "nat \<Rightarrow> bool"
  wt_call :: "'i \<Rightarrow> string \<Rightarrow> nat \<Rightarrow> nat \<Rightarrow> zc_mem \<Rightarrow> nat \<Rightarrow> nat \<Rightarrow> wasm_outcome \<times> zc_mem"

text \<open>
  What a run reads from its surroundings: the environment overrides of the three default
  caps, the cache caps in effect, whether the library loaded and whether allocations succeed, and
  the module files of the legacy path.
\<close>

record wasm_env =
  wv_api :: bool
  wv_alloc :: bool
  wv_fuel :: "string option"
  wv_epoch :: "string option"
  wv_memory :: "string option"
  wv_obj_count :: nat
  wv_obj_bytes :: nat
  wv_warm_count :: nat
  wv_mod_count :: nat
  wv_mod_bytes :: nat
  wv_file :: "string \<Rightarrow> bytes option"

section \<open>Resource caps\<close>

record wasm_caps =
  cap_fuel :: nat
  cap_epoch :: nat
  cap_memory :: nat

definition default_caps :: wasm_caps where
  "default_caps = \<lparr>cap_fuel = 100000000, cap_epoch = 10, cap_memory = 8388608\<rparr>"

text \<open>
  \<^verbatim>\<open>strtoull\<close> with base 0: white space, a sign, the base prefix, digits; the value and the rest, or
  \<^const>\<open>None\<close> where no digit was read. A value past 64 bits is the \<^verbatim>\<open>ERANGE\<close> error, a minus sign negates
  modulo $2^{64}$.
\<close>

definition digit_val :: "char \<Rightarrow> nat" where
  "digit_val c = (let n = of_char c :: nat in
     if 48 \<le> n \<and> n \<le> 57 then n - 48 else if 97 \<le> n \<and> n \<le> 102 then n - 87
     else if 65 \<le> n \<and> n \<le> 70 then n - 55 else 99)"

primrec digits_acc :: "nat \<Rightarrow> string \<Rightarrow> nat \<Rightarrow> nat \<times> string" where
  "digits_acc b [] acc = (acc, [])"
| "digits_acc b (c # cs) acc = (if digit_val c < b then digits_acc b cs (acc * b + digit_val c) else (acc, c # cs))"

definition is_space :: "char \<Rightarrow> bool" where
  "is_space c = (let n = of_char c :: nat in n = 32 \<or> (9 \<le> n \<and> n \<le> 13))"

definition strtoull_base0 :: "string \<Rightarrow> (nat \<times> string) option" where
  "strtoull_base0 str =
    (let s1 = dropWhile is_space str;
         neg = (take 1 s1 = ''-'');
         s2 = (if take 1 s1 = ''-'' \<or> take 1 s1 = ''+'' then drop 1 s1 else s1);
         hex = ((take 2 s2 = ''0x'' \<or> take 2 s2 = ''0X'') \<and> drop 2 s2 \<noteq> [] \<and> digit_val (hd (drop 2 s2)) < 16);
         base = (if hex then 16 else if take 1 s2 = ''0'' then 8 else 10);
         s3 = (if hex then drop 2 s2 else s2) in
     if s3 = [] \<or> \<not> digit_val (hd s3) < base then None
     else case digits_acc base s3 0 of (n, rest) \<Rightarrow>
       Some (if n < 2 ^ 64 then (if neg then (2 ^ 64 - n) mod 2 ^ 64 else n) else n, rest))"

definition env_u64 :: "string option \<Rightarrow> nat \<Rightarrow> nat" where
  "env_u64 v d =
    (case v of
       None \<Rightarrow> d
     | Some str \<Rightarrow>
         if str = [] then d
         else case strtoull_base0 str of
           None \<Rightarrow> d
         | Some (n, rest) \<Rightarrow> if n \<ge> 2 ^ 64 \<or> rest \<noteq> [] then d else n)"

definition nkvx_wasm_caps_load :: "wasm_env \<Rightarrow> nat \<Rightarrow> wasm_caps" where
  "nkvx_wasm_caps_load env caps_word =
    (let tier = caps_word mod 256 in
     if tier = 0 then
       \<lparr>cap_fuel = env_u64 (wv_fuel env) (cap_fuel default_caps),
        cap_epoch = env_u64 (wv_epoch env) (cap_epoch default_caps),
        cap_memory = env_u64 (wv_memory env) (cap_memory default_caps)\<rparr>
     else if tier = 1 then \<lparr>cap_fuel = 10000000, cap_epoch = 5, cap_memory = 1048576\<rparr>
     else if tier = 3 then \<lparr>cap_fuel = 1000000000, cap_epoch = 100, cap_memory = 67108864\<rparr>
     else default_caps)"

definition lower :: "char \<Rightarrow> nat" where
  "lower c = (let n = of_char c in if 65 \<le> n \<and> n \<le> 90 then n + 32 else n)"

text \<open>The case-insensitive substring search over the trap message.\<close>

fun has_sub :: "nat list \<Rightarrow> nat list \<Rightarrow> bool" where
  "has_sub needle [] = (needle = [])"
| "has_sub needle (c # cs) = (take (length needle) (c # cs) = needle \<or> has_sub needle cs)"

definition nkvx_wasm_trap_is_cap :: "string \<Rightarrow> bool" where
  "nkvx_wasm_trap_is_cap msg =
    (msg \<noteq> [] \<and> list_ex (\<lambda>needle. has_sub (map lower needle) (map lower msg)) [''fuel'', ''epoch'', ''interrupt''])"

section \<open>The module cache and its gate\<close>

record module_entry =
  me_sha256 :: bytes
  me_blob :: bytes

record mod_cache =
  mc_modules :: "module_entry list"
  mc_count :: nat
  mc_bytes :: nat
  mc_evictions :: nat

definition nkvx_modcache_init_once :: mod_cache where
  "nkvx_modcache_init_once = \<lparr>mc_modules = [], mc_count = 0, mc_bytes = 0, mc_evictions = 0\<rparr>"

definition nkvx_wasm_verify :: "('m, 'i) wasmtime \<Rightarrow> bytes \<Rightarrow> bytes \<Rightarrow> bool" where
  "nkvx_wasm_verify wt bs bound = (case wt_digest wt bs of None \<Rightarrow> False | Some d \<Rightarrow> length d = sha256_len \<and> d = bound)"

definition nkvx_modcache_lookup :: "mod_cache \<Rightarrow> bytes \<Rightarrow> module_entry option" where
  "nkvx_modcache_lookup mc sha = find (\<lambda>e. me_sha256 e = sha) (mc_modules mc)"

function nkvx_modcache_enforce_caps :: "nat \<Rightarrow> nat \<Rightarrow> mod_cache \<Rightarrow> mod_cache" where
  "nkvx_modcache_enforce_caps max_count max_bytes mc =
    (case mc_modules mc of
       [] \<Rightarrow> mc
     | e # es \<Rightarrow>
         if (max_count \<noteq> 0 \<and> mc_count mc > max_count) \<or> (max_bytes \<noteq> 0 \<and> mc_bytes mc > max_bytes)
         then nkvx_modcache_enforce_caps max_count max_bytes
           (mc\<lparr>mc_modules := es, mc_count := mc_count mc - 1, mc_bytes := mc_bytes mc - length (me_blob e),
              mc_evictions := mc_evictions mc + 1\<rparr>)
         else mc)"
  by pat_completeness auto
termination
  by (relation "measure (\<lambda>(_, _, mc). length (mc_modules mc))") auto

declare nkvx_modcache_enforce_caps.simps [simp del]

definition nkvx_wasm_module_cached :: "mod_cache \<Rightarrow> bytes \<Rightarrow> bool" where
  "nkvx_wasm_module_cached mc sha = (nkvx_modcache_lookup mc sha \<noteq> None)"

definition nkvx_wasm_module_verify :: "('m, 'i) wasmtime \<Rightarrow> wasm_env \<Rightarrow> bytes \<Rightarrow> bytes \<Rightarrow> io_status" where
  "nkvx_wasm_module_verify wt env sha bs =
    (if \<not> wv_api env then IO_NOT_SUPPORTED
     else if bs = [] then IO_INVALID
     else if \<not> nkvx_wasm_verify wt bs sha then IO_INVALID
     else IO_SUCCESS)"

definition nkvx_wasm_module_insert :: "('m, 'i) wasmtime \<Rightarrow> wasm_env \<Rightarrow> bytes \<Rightarrow> bytes \<Rightarrow> mod_cache \<Rightarrow> io_status \<times> mod_cache" where
  "nkvx_wasm_module_insert wt env sha bs mc =
    (if \<not> wv_api env then (IO_NOT_SUPPORTED, mc)
     else if bs = [] then (IO_INVALID, mc)
     else if \<not> nkvx_wasm_verify wt bs sha then (IO_INVALID, mc)
     else if nkvx_modcache_lookup mc sha \<noteq> None then (IO_SUCCESS, mc)
     else case wt_compile wt bs of
       None \<Rightarrow> (IO_FAILED, mc)
     | Some blob \<Rightarrow>
         if \<not> wv_alloc env then (IO_NOMEM, mc)
         else (IO_SUCCESS, nkvx_modcache_enforce_caps (wv_mod_count env) (wv_mod_bytes env)
           (mc\<lparr>mc_modules := mc_modules mc @ [\<lparr>me_sha256 = sha, me_blob = blob\<rparr>],
              mc_count := mc_count mc + 1, mc_bytes := mc_bytes mc + length blob\<rparr>)))"

definition nkvx_wasm_module_cache_reset :: "mod_cache \<Rightarrow> mod_cache" where
  "nkvx_wasm_module_cache_reset mc = mc\<lparr>mc_modules := [], mc_count := 0, mc_bytes := 0\<rparr>"

definition nkvx_wasm_module_cache_count :: "mod_cache \<Rightarrow> nat" where
  "nkvx_wasm_module_cache_count mc = mc_count mc"

record nkvx_module =
  md_sha256 :: bytes
  md_bytes :: "bytes option"
  md_caps :: nat
  md_read_only :: bool

definition modcache_touch :: "bytes \<Rightarrow> mod_cache \<Rightarrow> mod_cache" where
  "modcache_touch sha mc = mc\<lparr>mc_modules := remove1 (the (nkvx_modcache_lookup mc sha)) (mc_modules mc)
     @ [the (nkvx_modcache_lookup mc sha)]\<rparr>"

definition nkvx_module_obtain :: "('m, 'i) wasmtime \<Rightarrow> wasm_env \<Rightarrow> nkvx_module \<Rightarrow> mod_cache \<Rightarrow> (io_status + 'm) \<times> mod_cache" where
  "nkvx_module_obtain wt env m mc =
    (let load = (\<lambda>blob. case wt_load wt blob of None \<Rightarrow> Inl IO_FAILED | Some h \<Rightarrow> Inr h) in
     case nkvx_modcache_lookup mc (md_sha256 m) of
       Some e \<Rightarrow> if \<not> wv_alloc env then (Inl IO_NOMEM, mc)
                 else (load (me_blob e), modcache_touch (md_sha256 m) mc)
     | None \<Rightarrow>
         (case md_bytes m of
            None \<Rightarrow> (Inl IO_FAILED, mc)
          | Some bs \<Rightarrow>
              if bs = [] then (Inl IO_FAILED, mc)
              else (case nkvx_wasm_module_insert wt env (md_sha256 m) bs mc of (rc, mc1) \<Rightarrow>
                if rc \<noteq> IO_SUCCESS then (Inl rc, mc1)
                else case nkvx_modcache_lookup mc1 (md_sha256 m) of
                  None \<Rightarrow> (Inl IO_FAILED, mc1)
                | Some e \<Rightarrow> if wv_alloc env then (load (me_blob e), mc1) else (Inl IO_FAILED, mc1))))"

section \<open>Zero-copy linear memory\<close>

definition wasm_res_off :: nat where
  "wasm_res_off = 8"

text \<open>
  \<^verbatim>\<open>nkvx_zc_new_memory\<close>: alias the object's backing when it covers the declared minimum, and
  report only that minimum; otherwise a private zeroed buffer with a copy of the backing.
\<close>

definition nkvx_zc_new_memory :: "bool \<Rightarrow> obj_entry \<Rightarrow> nat \<Rightarrow> zc_mem option" where
  "nkvx_zc_new_memory alloc_ok e minimum =
    (if \<not> alloc_ok then None
     else if minimum \<le> mem_cap e then
       Some \<lparr>zm_base = oe_mem e, zm_size = minimum, zm_cap = mem_cap e, zm_owned = False\<rparr>
     else
       let need = nkvx_round_up minimum wasm_page in
       Some \<lparr>zm_base = take (oe_mem_size e) (oe_mem e) @ replicate (need - oe_mem_size e) 0,
             zm_size = minimum, zm_cap = need, zm_owned = True\<rparr>)"

definition nkvx_zc_grow :: "zc_mem \<Rightarrow> nat \<Rightarrow> zc_mem option" where
  "nkvx_zc_grow m new_size =
    (if new_size \<le> zm_size m then Some m
     else if new_size \<le> zm_cap m then Some (m\<lparr>zm_size := new_size\<rparr>)
     else None)"

definition nkvx_zc_get :: "zc_mem \<Rightarrow> bytes \<times> nat \<times> nat" where
  "nkvx_zc_get m = (zm_base m, zm_size m, zm_cap m)"

text \<open>A store into an aliased memory is a store into the cached object.\<close>

definition write_back :: "nat \<Rightarrow> zc_mem \<Rightarrow> 'm obj_cache \<Rightarrow> 'm obj_cache" where
  "write_back i m c = (if zm_owned m then c else upd_obj i (\<lambda>e. e\<lparr>oe_mem := zm_base m\<rparr>) c)"

section \<open>A module run\<close>

text \<open>
  \<^verbatim>\<open>nkvx_warm_build\<close>: with a verified module its compiled form comes from the module cache;
  without one (the unit-test path) the named file is compiled. Then the warm entry is linked.
\<close>

definition nkvx_warm_build :: "('m, 'i) wasmtime \<Rightarrow> wasm_env \<Rightarrow> string \<Rightarrow> nkvx_module option \<Rightarrow> obj_entry
    \<Rightarrow> mod_cache \<Rightarrow> 'm obj_cache \<Rightarrow> 'm option \<times> mod_cache \<times> 'm obj_cache" where
  "nkvx_warm_build wt env name modo e mc c =
    (let (r, mc1) = (case modo of
         Some m \<Rightarrow> nkvx_module_obtain wt env m mc
       | None \<Rightarrow> (case Option.bind (wv_file env name) (\<lambda>bs. Option.bind (wt_compile wt bs) (wt_load wt)) of
             None \<Rightarrow> Inl IO_FAILED | Some h \<Rightarrow> Inr h, mc)) in
     case r of
       Inl _ \<Rightarrow> (None, mc1, c)
     | Inr h \<Rightarrow> if \<not> wv_alloc env then (None, mc1, c)
                else (Some h, mc1, warm_insert (wv_warm_count env) name h e c))"

text \<open>The call and the extraction of its result from the linear memory.\<close>

definition extract_result :: "zc_mem \<Rightarrow> nat \<Rightarrow> nat \<Rightarrow> nat \<Rightarrow> io_status \<times> nat \<times> bytes" where
  "extract_result m mem_size produced out_len =
    (if wasm_res_off + produced > mem_size then (IO_FAILED, 0, [])
     else (if produced > out_len then IO_BUFFER_TOO_SMALL else IO_SUCCESS, produced,
           take (min produced out_len) (drop wasm_res_off (zm_base m))))"

definition run_instance :: "('m, 'i) wasmtime \<Rightarrow> wasm_env \<Rightarrow> string \<Rightarrow> nkvx_module option \<Rightarrow> 'm \<Rightarrow> obj_entry \<Rightarrow> nat
    \<Rightarrow> (io_status \<times> nat \<times> bytes) \<times> zc_mem option" where
  "run_instance wt env name modo h e out_len =
    (let caps = nkvx_wasm_caps_load env (case modo of None \<Rightarrow> 0 | Some m \<Rightarrow> md_caps m);
         failed = (IO_FAILED, 0, []) in
     case nkvx_zc_new_memory (wv_alloc env) e (wt_minimum wt h) of
       None \<Rightarrow> (failed, None)
     | Some m0 \<Rightarrow>
       case wt_start wt h (cap_memory caps) m0 of
         (None, m1) \<Rightarrow> (failed, Some m1)
       | (Some inst, m1) \<Rightarrow>
         if wt_export wt h ''memory'' \<noteq> Some Ext_memory then (failed, Some m1)
         else if wt_export wt h name \<noteq> Some Ext_func then (failed, Some m1)
         else if (case modo of None \<Rightarrow> False | Some m \<Rightarrow> md_read_only m) \<and> wt_export wt h ''kv_write'' = Some Ext_func
           then ((IO_READ_ONLY, 0, []), Some m1)
         else
           let fuel = (if cap_fuel caps > 0 then cap_fuel caps else 2 ^ 64 - 1);
               epoch = (if cap_epoch caps > 0 then cap_epoch caps else 2 ^ 64 - 1) in
           if \<not> wt_set_fuel wt fuel then (failed, Some m1)
           else case wt_call wt inst name fuel epoch m1 wasm_obj_off (u32 (oe_obj_len e)) of (r, m2) \<Rightarrow>
             (case r of
                Call_error \<Rightarrow> failed
              | Call_trap msg \<Rightarrow> (if nkvx_wasm_trap_is_cap msg then IO_ABORTED else IO_FAILED, 0, [])
              | Call_other \<Rightarrow> failed
              | Call_i32 n \<Rightarrow> extract_result m2 (zm_size m1) (u32 n) out_len, Some m2))"

text \<open>
  \<^verbatim>\<open>nkvx_run_on_object_locked\<close>. The entry is dereferenced at once; an identifier that is not
  allocated any more is undefined behaviour in C and reported as a failure here.
\<close>

definition nkvx_run_on_object_locked :: "('m, 'i) wasmtime \<Rightarrow> wasm_env \<Rightarrow> string \<Rightarrow> nkvx_module option \<Rightarrow> nat \<Rightarrow> nat
    \<Rightarrow> mod_cache \<Rightarrow> 'm obj_cache \<Rightarrow> (io_status \<times> nat \<times> bytes) \<times> mod_cache \<times> 'm obj_cache" where
  "nkvx_run_on_object_locked wt env name modo i out_len mc c =
    (case obj_by_id c i of
       None \<Rightarrow> ((IO_FAILED, 0, []), mc, c)
     | Some e \<Rightarrow>
       case (case nkvx_warm_lookup name i c of
               Some w \<Rightarrow> (Some (we_handle w), mc, nkvx_warm_touch (we_id w)
                 (c\<lparr>oc_stats := (oc_stats c)\<lparr>cs_warm_hits := cs_warm_hits (oc_stats c) + 1\<rparr>\<rparr>))
             | None \<Rightarrow> nkvx_warm_build wt env name modo e mc c) of
         (None, mc1, c1) \<Rightarrow> ((IO_FAILED, 0, []), mc1, c1)
       | (Some h, mc1, c1) \<Rightarrow>
           case run_instance wt env name modo h e out_len of (res, m) \<Rightarrow>
             (res, mc1, case m of None \<Rightarrow> c1 | Some m \<Rightarrow> write_back i m c1))"

definition nkvx_wasm_run_cached :: "('m, 'i) wasmtime \<Rightarrow> wasm_env \<Rightarrow> string \<Rightarrow> nkvx_module option \<Rightarrow> string \<Rightarrow> nat
    \<Rightarrow> (nat \<Rightarrow> bytes option) \<Rightarrow> nat \<Rightarrow> mod_cache \<Rightarrow> 'm obj_cache \<Rightarrow> (io_status \<times> nat \<times> bytes) \<times> mod_cache \<times> 'm obj_cache" where
  "nkvx_wasm_run_cached wt env name modo obj_key object_len fill out_len mc c =
    (if \<not> wv_api env then ((IO_NOT_SUPPORTED, 0, []), mc, c)
     else if obj_key = [] then ((IO_INVALID, 0, []), mc, c)
     else
       let miss = (case cold_fill (wv_obj_count env) (wv_obj_bytes env) (wv_alloc env) obj_key object_len fill c of
             (Inl st, c1) \<Rightarrow> ((st, 0, []), mc, c1)
           | (Inr i, c1) \<Rightarrow> nkvx_run_on_object_locked wt env name modo i out_len mc c1) in
       case nkvx_obj_lookup c obj_key of
         Some e \<Rightarrow> if oe_filled e
                   then nkvx_run_on_object_locked wt env name modo (oe_id e) out_len mc (nkvx_obj_touch (oe_id e) (bump_hits c))
                   else miss
       | None \<Rightarrow> miss)"

definition nkvx_wasm_run_pinned :: "('m, 'i) wasmtime \<Rightarrow> wasm_env \<Rightarrow> string \<Rightarrow> nkvx_module option \<Rightarrow> nat option \<Rightarrow> nat
    \<Rightarrow> mod_cache \<Rightarrow> 'm obj_cache \<Rightarrow> (io_status \<times> nat \<times> bytes) \<times> mod_cache \<times> 'm obj_cache" where
  "nkvx_wasm_run_pinned wt env name modo pin out_len mc c =
    (if \<not> wv_api env then ((IO_NOT_SUPPORTED, 0, []), mc, c)
     else case pin of
       None \<Rightarrow> ((IO_INVALID, 0, []), mc, c)
     | Some i \<Rightarrow> nkvx_run_on_object_locked wt env name modo i out_len mc (bump_hits c))"

section \<open>Lemmas: only verified modules\<close>

text \<open>
  Every cached blob is the compilation of bytes that hash to the entry's key; that is all a
  lookup can hand out.
\<close>

definition blessed :: "('m, 'i) wasmtime \<Rightarrow> bytes \<Rightarrow> bytes \<Rightarrow> bool" where
  "blessed wt sha blob = (\<exists>bs. wt_digest wt bs = Some sha \<and> wt_compile wt bs = Some blob)"

definition mod_cache_inv :: "('m, 'i) wasmtime \<Rightarrow> mod_cache \<Rightarrow> bool" where
  "mod_cache_inv wt mc = ((\<forall>e \<in> set (mc_modules mc). blessed wt (me_sha256 e) (me_blob e))
     \<and> distinct (map me_sha256 (mc_modules mc)) \<and> mc_count mc = length (mc_modules mc)
     \<and> mc_bytes mc = sum_list (map (\<lambda>e. length (me_blob e)) (mc_modules mc)))"

lemma modcache_enforce_inv: "mod_cache_inv wt mc \<Longrightarrow> mod_cache_inv wt (nkvx_modcache_enforce_caps k b mc)"
proof (induction k b mc rule: nkvx_modcache_enforce_caps.induct)
  case (1 k b mc)
  then show ?case
    by (subst nkvx_modcache_enforce_caps.simps) (auto simp: mod_cache_inv_def split: list.splits)
qed

lemma modcache_enforce_subset: "set (mc_modules (nkvx_modcache_enforce_caps k b mc)) \<subseteq> set (mc_modules mc)"
proof (induction k b mc rule: nkvx_modcache_enforce_caps.induct)
  case (1 k b mc)
  then show ?case by (subst nkvx_modcache_enforce_caps.simps) (auto split: list.splits)
qed

lemma module_insert_inv:
  assumes "mod_cache_inv wt mc"
  shows "mod_cache_inv wt (snd (nkvx_wasm_module_insert wt env sha bs mc))"
proof -
  have "mod_cache_inv wt (mc\<lparr>mc_modules := mc_modules mc @ [\<lparr>me_sha256 = sha, me_blob = blob\<rparr>],
      mc_count := mc_count mc + 1, mc_bytes := mc_bytes mc + length blob\<rparr>)"
    if "nkvx_wasm_verify wt bs sha" "wt_compile wt bs = Some blob" "nkvx_modcache_lookup mc sha = None" for blob
    using that assms
    by (auto simp: mod_cache_inv_def blessed_def nkvx_wasm_verify_def nkvx_modcache_lookup_def find_None_iff
        split: option.splits)
  then show ?thesis using assms
    by (auto simp: nkvx_wasm_module_insert_def modcache_enforce_inv split: option.splits)
qed

lemma modcache_lookup_mem:
  "nkvx_modcache_lookup mc sha = Some e \<Longrightarrow> e \<in> set (mc_modules mc) \<and> me_sha256 e = sha"
  by (auto simp: nkvx_modcache_lookup_def find_Some_iff)

lemma touch_mod_inv:
  assumes "mod_cache_inv wt mc" "nkvx_modcache_lookup mc sha = Some e"
  shows "mod_cache_inv wt (modcache_touch sha mc)"
proof -
  have e: "e \<in> set (mc_modules mc)" using modcache_lookup_mem [OF assms(2)] by simp
  then have m: "mset (remove1 e (mc_modules mc) @ [e]) = mset (mc_modules mc)" by simp
  have "set (remove1 e (mc_modules mc) @ [e]) = set (mc_modules mc)" "length (remove1 e (mc_modules mc) @ [e]) = length (mc_modules mc)"
    using m by (rule mset_eq_setD, rule mset_eq_length)
  moreover have "distinct (map me_sha256 (remove1 e (mc_modules mc) @ [e])) = distinct (map me_sha256 (mc_modules mc))"
    by (rule mset_eq_imp_distinct_iff) (simp only: mset_map m)
  moreover have "sum_mset (mset (map (\<lambda>e. length (me_blob e)) (remove1 e (mc_modules mc) @ [e])))
      = sum_mset (mset (map (\<lambda>e. length (me_blob e)) (mc_modules mc)))" by (simp only: mset_map m)
  then have "sum_list (map (\<lambda>e. length (me_blob e)) (remove1 e (mc_modules mc) @ [e]))
      = sum_list (map (\<lambda>e. length (me_blob e)) (mc_modules mc))" by (simp only: sum_mset_sum_list)
  ultimately show ?thesis
    using assms unfolding mod_cache_inv_def modcache_touch_def assms(2) option.sel
    by (simp only: mod_cache.simps mod_cache.select_convs) simp
qed

lemma obtain_blessed:
  assumes "mod_cache_inv wt mc" "nkvx_module_obtain wt env m mc = (r, mc')"
  shows "mod_cache_inv wt mc'" "r = Inr h \<Longrightarrow> \<exists>blob. blessed wt (md_sha256 m) blob \<and> wt_load wt blob = Some h"
proof -
  have *: "mod_cache_inv wt mc' \<and> (r = Inr h \<longrightarrow> (\<exists>blob. blessed wt (md_sha256 m) blob \<and> wt_load wt blob = Some h))"
  proof (cases "nkvx_modcache_lookup mc (md_sha256 m)")
    case (Some e)
    then have "blessed wt (md_sha256 m) (me_blob e)"
      using assms(1) modcache_lookup_mem [OF Some] by (auto simp: mod_cache_inv_def)
    then show ?thesis using assms Some touch_mod_inv [OF assms(1) Some]
      by (auto simp: nkvx_module_obtain_def Let_def split: if_splits option.splits)
  next
    case None
    show ?thesis
    proof (cases "md_bytes m = None \<or> md_bytes m = Some []")
      case True
      then show ?thesis using assms None by (auto simp: nkvx_module_obtain_def Let_def)
    next
      case False
      then obtain bs where bs: "md_bytes m = Some bs" "bs \<noteq> []" by auto
      obtain rc mc1 where ins: "nkvx_wasm_module_insert wt env (md_sha256 m) bs mc = (rc, mc1)"
        by (cases "nkvx_wasm_module_insert wt env (md_sha256 m) bs mc")
      have inv1: "mod_cache_inv wt mc1" using module_insert_inv [OF assms(1), of env "md_sha256 m" bs] ins by simp
      have "blessed wt (md_sha256 m) (me_blob e)" if "nkvx_modcache_lookup mc1 (md_sha256 m) = Some e" for e
        using inv1 modcache_lookup_mem [OF that] by (auto simp: mod_cache_inv_def)
      then show ?thesis using assms(2) None bs ins inv1
        by (auto simp: nkvx_module_obtain_def Let_def split: if_splits option.splits)
    qed
  qed
  then show "mod_cache_inv wt mc'" "r = Inr h \<Longrightarrow> \<exists>blob. blessed wt (md_sha256 m) blob \<and> wt_load wt blob = Some h"
    by simp_all
qed

text \<open>Any use of the module cache: inserts, obtains and resets.\<close>

datatype modcache_event = ME_insert wasm_env bytes bytes | ME_obtain wasm_env nkvx_module | ME_reset

inductive modcache_step :: "('m, 'i) wasmtime \<times> mod_cache \<Rightarrow> modcache_event \<Rightarrow> ('m, 'i) wasmtime \<times> mod_cache \<Rightarrow> bool" where
  "modcache_step (wt, mc) (ME_insert env sha bs) (wt, snd (nkvx_wasm_module_insert wt env sha bs mc))"
| "modcache_step (wt, mc) (ME_obtain env m) (wt, snd (nkvx_module_obtain wt env m mc))"
| "modcache_step (wt, mc) ME_reset (wt, nkvx_wasm_module_cache_reset mc)"

definition modcache_start :: "('m, 'i) wasmtime \<times> mod_cache \<Rightarrow> bool" where
  "modcache_start s = (snd s = nkvx_modcache_init_once)"

interpretation modcache_sys: invariant_system modcache_start modcache_step "\<lambda>s. mod_cache_inv (fst s) (snd s)"
proof
  fix s :: "('m, 'i) wasmtime \<times> mod_cache" assume "modcache_start s"
  then show "mod_cache_inv (fst s) (snd s)"
    by (simp add: modcache_start_def mod_cache_inv_def nkvx_modcache_init_once_def)
next
  fix s s' :: "('m, 'i) wasmtime \<times> mod_cache" and ev
  assume "mod_cache_inv (fst s) (snd s)" "modcache_step s ev s'"
  from this(2,1) show "mod_cache_inv (fst s') (snd s')"
  proof cases
    case (2 wt mc env m)
    then show ?thesis using \<open>mod_cache_inv (fst s) (snd s)\<close>
      by (cases "nkvx_module_obtain wt env m mc") (simp add: obtain_blessed(1))
  next
    case (3 wt mc)
    then show ?thesis by (simp add: nkvx_wasm_module_cache_reset_def mod_cache_inv_def)
  qed (simp_all add: module_insert_inv)
qed

section \<open>Lemmas: a run and the object cache\<close>

text \<open>wasmtime neither moves nor resizes the backing it was given: instantiation and calls keep its length.\<close>

definition wasmtime_ok :: "('m, 'i) wasmtime \<Rightarrow> bool" where
  "wasmtime_ok wt = ((\<forall>h lim m. length (zm_base (snd (wt_start wt h lim m))) = length (zm_base m)
        \<and> zm_owned (snd (wt_start wt h lim m)) = zm_owned m)
     \<and> (\<forall>h name fuel epoch m a b. length (zm_base (snd (wt_call wt h name fuel epoch m a b))) = length (zm_base m)
        \<and> zm_owned (snd (wt_call wt h name fuel epoch m a b)) = zm_owned m))"

lemma run_instance_mem:
  assumes "wasmtime_ok wt" "run_instance wt env name modo h e out_len = (res, Some m)"
  shows "zm_owned m \<or> length (zm_base m) = mem_cap e"
proof -
  obtain m0 where m0: "nkvx_zc_new_memory (wv_alloc env) e (wt_minimum wt h) = Some m0"
    using assms(2) by (auto simp: run_instance_def Let_def split: option.splits)
  have base: "zm_owned m0 \<or> length (zm_base m0) = mem_cap e"
    using m0 by (auto simp: nkvx_zc_new_memory_def mem_cap_def Let_def split: if_splits)
  let ?caps = "nkvx_wasm_caps_load env (case modo of None \<Rightarrow> 0 | Some m \<Rightarrow> md_caps m)"
  obtain st m1 where m1: "wt_start wt h (cap_memory ?caps) m0 = (st, m1)" by (cases "wt_start wt h (cap_memory ?caps) m0")
  have ok1: "length (zm_base m1) = length (zm_base m0)" "zm_owned m1 = zm_owned m0"
    using assms(1) m1 unfolding wasmtime_ok_def by (metis snd_conv)+
  have "m = m1 \<or> (\<exists>i fuel epoch a b. m = snd (wt_call wt i name fuel epoch m1 a b))"
    using assms(2) m0 m1
    by (auto simp: run_instance_def Let_def split: option.splits prod.splits if_splits) (metis snd_conv)+
  then have "length (zm_base m) = length (zm_base m1)" "zm_owned m = zm_owned m1"
    using assms(1) by (auto simp: wasmtime_ok_def)
  then show ?thesis using base ok1 by simp
qed

lemma inv_warm_stats [simp]: "obj_cache_inv p (nkvx_warm_touch w (c\<lparr>oc_stats := st\<rparr>)) = obj_cache_inv p (nkvx_warm_touch w c)"
  by (simp add: obj_cache_inv_def nkvx_warm_touch_def entry_ok_def warm_refs_def obj_ids_def)

lemma contents_warm_touch [simp]: "contents (nkvx_warm_touch w c) = contents c"
  by (simp add: contents_def nkvx_warm_touch_def)

lemma next_warm_touch [simp]: "oc_next (nkvx_warm_touch w c) = oc_next c"
  by (simp add: nkvx_warm_touch_def)

lemma write_back_inv:
  assumes "obj_cache_inv p c" "obj_cache_inv p c'" "kept i c c'" "obj_by_id c i = Some e"
    and "zm_owned m \<or> length (zm_base m) = mem_cap e"
  shows "obj_cache_inv p (write_back i m c')"
proof (cases "obj_by_id c' i")
  case None
  then have "upd_obj i f c' = c'" for f
    by (cases c') (auto simp: upd_obj_def obj_by_id_def find_None_iff intro!: map_idI)
  then show ?thesis using assms(2) by (simp add: write_back_def)
next
  case (Some e')
  have e: "e \<in> set (oc_objects c)" "oe_id e = i" "e' \<in> set (oc_objects c')" "oe_id e' = i"
    using obj_by_id_mem [OF assms(4)] obj_by_id_mem [OF Some] by auto
  then have "i < oc_next c" using assms(1) by (auto simp: obj_cache_inv_def entry_ok_def)
  moreover have "entry_data e' \<in> contents c'" using e by (simp add: contents_def)
  ultimately have "entry_data e' \<in> contents c" using assms(3) e by (simp add: kept_def entry_data_def)
  then obtain x where "x \<in> set (oc_objects c)" "entry_data x = entry_data e'" by (auto simp: contents_def)
  moreover from this have "x = e" using assms(1) e
    by (auto simp: obj_cache_inv_def distinct_map inj_on_def entry_data_def)
  ultimately have "mem_cap e' = mem_cap e" by (simp add: entry_data_def mem_cap_def)
  then show ?thesis using assms(2,5) Some by (auto simp: write_back_def intro: write_inv)
qed

lemma kept_write_back: "j \<noteq> i \<Longrightarrow> kept j c (write_back i m c)"
  by (auto simp: kept_def write_back_def contents_def upd_obj_def entry_data_def split: if_splits)

lemma warm_build_inv:
  assumes "obj_cache_inv p c" "e \<in> set (oc_objects c)" "nkvx_warm_build wt env name modo e mc c = (h, mc1, c1)"
  shows "obj_cache_inv p c1" "kept j c c1"
  using assms
  by (auto simp: nkvx_warm_build_def Let_def warm_insert_inv kept_warm_insert keptI
      split: prod.splits sum.splits if_splits)

text \<open>A run keeps the cache invariant and every entry but the one it runs on.\<close>

lemma run_on_object:
  assumes "obj_cache_inv p c" "wasmtime_ok wt" "nkvx_run_on_object_locked wt env name modo i out_len mc c = (res, mc', c')"
  shows "obj_cache_inv p c'" "j \<noteq> i \<Longrightarrow> kept j c c'"
proof -
  have "obj_cache_inv p c' \<and> (j \<noteq> i \<longrightarrow> kept j c c')"
  proof (cases "obj_by_id c i")
    case None
    then show ?thesis using assms by (auto simp: nkvx_run_on_object_locked_def intro: keptI)
  next
    case (Some e)
    let ?c0 = "\<lambda>w. nkvx_warm_touch (we_id w) (c\<lparr>oc_stats := (oc_stats c)\<lparr>cs_warm_hits := cs_warm_hits (oc_stats c) + 1\<rparr>\<rparr>)"
    obtain h mc1 c1 where b: "(case nkvx_warm_lookup name i c of Some w \<Rightarrow> (Some (we_handle w), mc, ?c0 w)
        | None \<Rightarrow> nkvx_warm_build wt env name modo e mc c) = (h, mc1, c1)"
      by (cases "case nkvx_warm_lookup name i c of Some w \<Rightarrow> (Some (we_handle w), mc, ?c0 w)
        | None \<Rightarrow> nkvx_warm_build wt env name modo e mc c") auto
    have k0: "kept k c (?c0 w)" for k w by (rule keptI) simp_all
    have c1: "obj_cache_inv p c1" "kept k c c1" for k
      using b assms(1) obj_by_id_mem [OF Some] warm_build_inv [of p c e wt env name modo mc h mc1 c1] k0
      by (auto simp: warm_touch_inv split: option.splits)
    have wb: "obj_cache_inv p (write_back i m c1) \<and> (j \<noteq> i \<longrightarrow> kept j c (write_back i m c1))"
      if "run_instance wt env name modo k e out_len = (r, Some m)" for k r m
      using write_back_inv [OF assms(1) c1 Some run_instance_mem [OF assms(2) that]]
        kept_trans [OF c1(2) kept_write_back] by blast
    show ?thesis
      using assms(3) Some b c1 wb
      by (cases res) (auto simp: nkvx_run_on_object_locked_def split: option.splits prod.splits)
  qed
  then show "obj_cache_inv p c'" "j \<noteq> i \<Longrightarrow> kept j c c'" by simp_all
qed

section \<open>Properties\<close>

text \<open>
  A small instance for the witnesses: the digest is the padded content, modules are their bytes,
  and every call returns the first object byte as the length of its result.
\<close>

definition wasmtime_ex :: "(unit, unit) wasmtime" where
  "wasmtime_ex = \<lparr>wt_digest = (\<lambda>bs. Some (take 32 (bs @ replicate 32 0))), wt_compile = Some, wt_load = (\<lambda>_. Some ()),
     wt_minimum = (\<lambda>_. 65536), wt_start = (\<lambda>_ _ m. (Some (), m)),
     wt_export = (\<lambda>_ name. Some (if name = ''memory'' then Ext_memory else Ext_func)), wt_set_fuel = (\<lambda>_. True),
     wt_call = (\<lambda>_ _ _ _ m a b. (Call_i32 2, if length (zm_base m) < 10 then m
        else m\<lparr>zm_base := memcpy_at 8 [7, 9] (zm_base m)\<rparr>))\<rparr>"

definition wasm_env_ex :: wasm_env where
  "wasm_env_ex = \<lparr>wv_api = True, wv_alloc = True, wv_fuel = None, wv_epoch = None, wv_memory = None, wv_obj_count = 0,
     wv_obj_bytes = 0, wv_warm_count = 0, wv_mod_count = 0, wv_mod_bytes = 0, wv_file = (\<lambda>_. None)\<rparr>"

definition module_ex :: nkvx_module where
  "module_ex = \<lparr>md_sha256 = 5 # replicate 31 0, md_bytes = Some [5], md_caps = 1, md_read_only = False\<rparr>"

lemma wasmtime_ex_ok: "wasmtime_ok wasmtime_ex"
  by (simp add: wasmtime_ok_def wasmtime_ex_def length_memcpy_at)

lemma module_ex_obtain: "nkvx_module_obtain wasmtime_ex wasm_env_ex module_ex nkvx_modcache_init_once
  = (Inr (), \<lparr>mc_modules = [\<lparr>me_sha256 = 5 # replicate 31 0, me_blob = [5]\<rparr>], mc_count = 1, mc_bytes = 1, mc_evictions = 0\<rparr>)"
  by (simp add: nkvx_module_obtain_def wasmtime_ex_def wasm_env_ex_def module_ex_def nkvx_modcache_lookup_def
      nkvx_modcache_init_once_def nkvx_wasm_module_insert_def nkvx_wasm_verify_def sha256_len_def
      nkvx_modcache_enforce_caps.simps)

text \<open>
  C6. The integrity gate. However the module cache was used before, a module handle given out for a
  binding is the compiled form of some bytes whose SHA-256 is the hash of that binding: bytes that
  do not match are never compiled and never run.
\<close>
theorem module_gate:
  assumes "reachable modcache_start modcache_step (wt, mc)"
    and "nkvx_module_obtain wt env m mc = (Inr h, mc')"
  shows "\<exists>bs blob. wt_digest wt bs = Some (md_sha256 m) \<and> wt_compile wt bs = Some blob \<and> wt_load wt blob = Some h"
proof -
  have "mod_cache_inv wt mc" using modcache_sys.reachable_inv [OF assms(1)] by simp
  from obtain_blessed(2) [OF this assms(2)] show ?thesis by (auto simp: blessed_def)
qed

theorem module_gate_witness:
  "\<exists>bs blob. wt_digest wasmtime_ex bs = Some (5 # replicate 31 0) \<and> wt_compile wasmtime_ex bs = Some blob
     \<and> wt_load wasmtime_ex blob = Some ()"
proof -
  have "reachable modcache_start modcache_step (wasmtime_ex, nkvx_modcache_init_once)"
    by (rule reach_init) (simp add: modcache_start_def)
  from module_gate [OF this module_ex_obtain] show ?thesis by (simp add: module_ex_def)
qed


text \<open>Two cached objects, the first one pinned.\<close>

definition cache_ex2 :: "unit obj_cache" where
  "cache_ex2 = snd (nkvx_wasm_cache_fill 0 0 True True ''70'' 3 (\<lambda>_. Some [4, 5, 6]) cache_ex_pinned)"

lemma cache_ex2_reachable: "reachable cache_init cache_step ((\<lambda>_. 0)(0 := Suc 0), cache_ex2)"
  unfolding cache_ex2_def by (rule reach_step [OF cache_ex_pinned_reachable step_fill])

lemma cache_ex2_bytes: "nkvx_wasm_pin_object (Some 0) cache_ex2 = Some [1, 2, 3]"
proof -
  have inv: "obj_cache_inv ((\<lambda>_. 0)(0 := Suc 0)) cache_ex_pinned" "obj_cache_inv ((\<lambda>_. 0)(0 := Suc 0)) cache_ex2"
    using cache_sys.reachable_inv [OF cache_ex_pinned_reachable] cache_sys.reachable_inv [OF cache_ex2_reachable] by simp_all
  have "kept 0 cache_ex_pinned cache_ex2" unfolding cache_ex2_def by (rule kept_fill)
  from pin_object_kept [OF inv this] show ?thesis by (simp add: cache_ex_pinned_bytes)
qed

lemma cache_ex2_eq: "cache_ex2 = \<lparr>oc_objects = [(new_entry 0 ''6f'' 65536 [1, 2, 3])\<lparr>oe_refcount := 1\<rparr>,
    new_entry 1 ''70'' 65536 [4, 5, 6]], oc_warm = [], oc_obj_count = 2, oc_obj_bytes = 131072,
    oc_warm_count = 0, oc_next = 2, oc_stats = stats_zero\<lparr>cs_cold_fills := 2\<rparr>\<rparr>"
proof -
  have "oe_key (new_entry 0 ''6f'' 65536 [1, 2, 3]) = ''6f''" "oe_id (new_entry 0 ''6f'' 65536 [1, 2, 3]) = 0"
    "oe_refcount (new_entry 0 ''6f'' 65536 [1, 2, 3]) = 0"
    by (simp_all add: new_entry_def obj_key_cap_def)
  then show ?thesis
    by (simp add: cache_ex2_def cache_ex_pinned_def cache_ex_eq upd_obj_def nkvx_wasm_cache_fill_def nkvx_obj_lookup_def
        cold_fill_def cache_need_3 enforce_disabled nkvx_obj_list_add_def bump_fills_def mem_cap_new wasm_obj_off_def)
qed


text \<open>
  Linear memory. The memory a module gets reports exactly its declared minimum, that minimum
  fits the backing, the object is readable at offset 256, and growing it never moves the bytes or
  passes the backing; the cached buffer is aliased exactly when it covers the minimum.
\<close>
theorem linear_memory_contract:
  assumes "nkvx_zc_new_memory True e minimum = Some m" "oe_mem_size e = mem_cap e" "wasm_obj_off + oe_obj_len e \<le> mem_cap e"
    and "minimum \<le> 2 ^ 32"
  shows "zm_size m = minimum \<and> minimum \<le> zm_cap m \<and> zm_cap m = length (zm_base m)
    \<and> take (oe_obj_len e) (drop wasm_obj_off (zm_base m)) = take (oe_obj_len e) (drop wasm_obj_off (oe_mem e))
    \<and> (\<not> zm_owned m \<longleftrightarrow> minimum \<le> mem_cap e)
    \<and> (nkvx_zc_grow m n = (if n \<le> zm_cap m then Some (m\<lparr>zm_size := max n (zm_size m)\<rparr>) else None))"
proof (cases "minimum \<le> mem_cap e")
  case True
  then show ?thesis using assms(1) by (auto simp: nkvx_zc_new_memory_def nkvx_zc_grow_def mem_cap_def max_def)
next
  case False
  define need where "need = nkvx_round_up minimum wasm_page"
  have "need = minimum + 65535 - (minimum + 65535) mod 65536"
    using nkvx_round_up_page [of minimum] assms(4) by (simp add: need_def minus_mod_eq_div_mult)
  moreover have "(minimum + 65535) mod 65536 < 65536" by simp
  ultimately have need: "minimum \<le> need" by linarith
  have m: "m = \<lparr>zm_base = oe_mem e @ replicate (need - mem_cap e) 0, zm_size = minimum, zm_cap = need, zm_owned = True\<rparr>"
    using False assms(1,2) by (simp add: nkvx_zc_new_memory_def Let_def need_def mem_cap_def)
  show ?thesis using need False assms(3) by (auto simp: m nkvx_zc_grow_def max_def mem_cap_def)
qed

theorem linear_memory_contract_witness:
  "nkvx_zc_grow \<lparr>zm_base = oe_mem (new_entry 1 ''70'' 65536 [4, 5, 6]), zm_size = 65536, zm_cap = 65536, zm_owned = False\<rparr> 65537 = None"
proof -
  let ?e = "new_entry 1 ''70'' 65536 [4, 5, 6]"
  have cap: "mem_cap ?e = 65536" by (simp add: mem_cap_new wasm_obj_off_def)
  then have "nkvx_zc_new_memory True ?e 65536 = Some \<lparr>zm_base = oe_mem ?e, zm_size = 65536, zm_cap = 65536, zm_owned = False\<rparr>"
    by (simp add: nkvx_zc_new_memory_def)
  from linear_memory_contract [OF this, of 65537] cap show ?thesis
    by (simp add: new_entry_def wasm_obj_off_def)
qed

text \<open>
  The documented limits of a 32-bit linear memory: at most 4 GiB are declared, and instantiation
  reports a size within the backing.
\<close>

definition wasm32_ok :: "('m, 'i) wasmtime \<Rightarrow> bool" where
  "wasm32_ok wt = ((\<forall>h. wt_minimum wt h \<le> 2 ^ 32)
     \<and> (\<forall>h lim m. zm_size m \<le> length (zm_base m) \<longrightarrow>
          zm_size (snd (wt_start wt h lim m)) \<le> length (zm_base (snd (wt_start wt h lim m)))))"

lemma round_up_ge: "n \<le> 2 ^ 32 \<Longrightarrow> n \<le> nkvx_round_up n wasm_page"
proof -
  assume "n \<le> 2 ^ 32"
  then have "nkvx_round_up n wasm_page = n + 65535 - (n + 65535) mod 65536"
    using nkvx_round_up_page [of n] by (simp add: minus_mod_eq_div_mult)
  moreover have "(n + 65535) mod 65536 < 65536" by simp
  ultimately show ?thesis by linarith
qed

lemma run_instance_cases:
  assumes "run_instance wt env name modo h e out_len = ((st, n, out), mo)"
  shows "(st \<in> {IO_FAILED, IO_ABORTED, IO_READ_ONLY} \<and> n = 0 \<and> out = []) \<or>
    (\<exists>m0 lim inst m1 fuel epoch a b k m2. nkvx_zc_new_memory (wv_alloc env) e (wt_minimum wt h) = Some m0
       \<and> wt_start wt h lim m0 = (Some inst, m1) \<and> wt_call wt inst name fuel epoch m1 a b = (Call_i32 k, m2)
       \<and> extract_result m2 (zm_size m1) (u32 k) out_len = (st, n, out))"
proof (cases "nkvx_zc_new_memory (wv_alloc env) e (wt_minimum wt h)")
  case None
  then show ?thesis using assms by (simp add: run_instance_def)
next
  case (Some m0)
  let ?caps = "nkvx_wasm_caps_load env (case modo of None \<Rightarrow> 0 | Some m \<Rightarrow> md_caps m)"
  obtain i m1 where st: "wt_start wt h (cap_memory ?caps) m0 = (i, m1)" by fastforce
  show ?thesis
  proof (cases i)
    case None
    then show ?thesis using assms Some st by (simp add: run_instance_def Let_def)
  next
    case inst: (Some inst)
    let ?fuel = "if cap_fuel ?caps > 0 then cap_fuel ?caps else 2 ^ 64 - 1"
    let ?epoch = "if cap_epoch ?caps > 0 then cap_epoch ?caps else 2 ^ 64 - 1"
    obtain r m2 where call: "wt_call wt inst name ?fuel ?epoch m1 wasm_obj_off (u32 (oe_obj_len e)) = (r, m2)" by fastforce
    show ?thesis
    proof (cases r)
      case (Call_i32 k)
      from assms Some st inst call this have "(st \<in> {IO_FAILED, IO_ABORTED, IO_READ_ONLY} \<and> n = 0 \<and> out = []) \<or>
          extract_result m2 (zm_size m1) (u32 k) out_len = (st, n, out)"
        by (simp add: run_instance_def Let_def split: if_splits)
      then show ?thesis using Some st inst call Call_i32 by blast
    qed (use assms Some st inst call in \<open>auto simp: run_instance_def Let_def split: if_splits\<close>)
  qed
qed

lemma run_instance_result:
  assumes "wasmtime_ok wt" "wasm32_ok wt" "oe_mem_size e = mem_cap e"
    and "run_instance wt env name modo h e out_len = ((st, n, out), m)"
  shows "(st = IO_SUCCESS \<longrightarrow> n \<le> out_len \<and> length out = n) \<and> (st = IO_BUFFER_TOO_SMALL \<longrightarrow> n > out_len \<and> length out = out_len)
    \<and> (st \<noteq> IO_SUCCESS \<and> st \<noteq> IO_BUFFER_TOO_SMALL \<longrightarrow> n = 0 \<and> out = [])"
proof -
  have new: "zm_size m0 \<le> length (zm_base m0)"
    if "nkvx_zc_new_memory (wv_alloc env) e (wt_minimum wt h) = Some m0" for m0
    using that assms(2,3) round_up_ge [of "wt_minimum wt h"]
    by (auto simp: nkvx_zc_new_memory_def mem_cap_def wasm32_ok_def Let_def split: if_splits)
  have start: "zm_size m1 \<le> length (zm_base m1)"
    if "nkvx_zc_new_memory (wv_alloc env) e (wt_minimum wt h) = Some m0" "wt_start wt h lim m0 = (i, m1)" for m0 m1 lim i
    using new [OF that(1)] assms(2) that(2) unfolding wasm32_ok_def by (metis snd_conv)
  have call: "length (zm_base m2) = length (zm_base m1)"
    if "wt_call wt i name fuel epoch m1 a b = (r, m2)" for i fuel epoch m1 a b r m2
    using assms(1) that unfolding wasmtime_ok_def by (metis snd_conv)
  from run_instance_cases [OF assms(4)] show ?thesis
  proof (elim disjE exE conjE)
    fix m0 lim inst m1 fuel epoch a b k m2
    assume s: "nkvx_zc_new_memory (wv_alloc env) e (wt_minimum wt h) = Some m0" "wt_start wt h lim m0 = (Some inst, m1)"
      and c: "wt_call wt inst name fuel epoch m1 a b = (Call_i32 k, m2)"
      and x: "extract_result m2 (zm_size m1) (u32 k) out_len = (st, n, out)"
    have "zm_size m1 \<le> length (zm_base m2)" using start [OF s] call [OF c] by simp
    with x show ?thesis by (auto simp: extract_result_def split: if_splits)
  qed auto
qed

text \<open>
  Result bounds. Whatever module runs on a pinned object, the caller gets at most its own buffer
  of bytes: on SUCCESS exactly the reported length, on BUFFER\_TOO\_SMALL a full buffer and a larger
  reported length, and on every other status no bytes and length 0.
\<close>
theorem run_result_bounds:
  assumes "wasmtime_ok wt" "wasm32_ok wt" "obj_by_id c i = Some e" "oe_mem_size e = mem_cap e"
    and "nkvx_wasm_run_pinned wt env name modo (Some i) out_len mc c = ((st, n, out), mc', c')"
  shows "(st = IO_SUCCESS \<longrightarrow> n \<le> out_len \<and> length out = n) \<and> (st = IO_BUFFER_TOO_SMALL \<longrightarrow> n > out_len \<and> length out = out_len)
    \<and> (st \<noteq> IO_SUCCESS \<and> st \<noteq> IO_BUFFER_TOO_SMALL \<longrightarrow> n = 0 \<and> out = [])"
proof (cases "wv_api env")
  case True
  have e: "obj_by_id (bump_hits c) i = Some e" using assms(3) by (simp add: obj_by_id_def bump_hits_def)
  have "nkvx_run_on_object_locked wt env name modo i out_len mc (bump_hits c) = ((st, n, out), mc', c')"
    using assms(5) True by (simp add: nkvx_wasm_run_pinned_def)
  then show ?thesis using e run_instance_result [OF assms(1,2,4)]
    by (fastforce simp: nkvx_run_on_object_locked_def split: option.splits prod.splits)
next
  case False
  then show ?thesis using assms(5) by (auto simp: nkvx_wasm_run_pinned_def)
qed

lemma wasm32_ok_ex: "wasm32_ok wasmtime_ex"
  by (simp add: wasm32_ok_def wasmtime_ex_def)

text \<open>The run of the example module: its two result bytes, and the object buffer it stored into.\<close>

definition entry_ex :: obj_entry where
  "entry_ex = new_entry 1 ''70'' 65536 [4, 5, 6]"

lemma entry_ex_simps: "mem_cap entry_ex = 65536" "length (oe_mem entry_ex) = 65536" "oe_mem_size entry_ex = 65536"
  "oe_id entry_ex = 1" "obj_by_id cache_ex2 1 = Some entry_ex" "oe_filled entry_ex" "oe_obj_len entry_ex = 3"
  using mem_cap_new [of "[4, 5, 6]" 65536 1 "''70''"]
  by (simp_all add: entry_ex_def mem_cap_def wasm_obj_off_def cache_ex2_eq obj_by_id_def, simp_all add: new_entry_def)

lemma run_instance_ex:
  "run_instance wasmtime_ex wasm_env_ex ''f'' (Some module_ex) () entry_ex 16 = ((IO_SUCCESS, 2, [7, 9]),
     Some \<lparr>zm_base = memcpy_at 8 [7, 9] (oe_mem entry_ex), zm_size = 65536, zm_cap = 65536, zm_owned = False\<rparr>)"
proof -
  have "take (length [7, 9 :: byte]) (drop 8 (memcpy_at 8 [7, 9] (oe_mem entry_ex))) = [7, 9]"
    by (rule memcpy_at_read) (simp add: entry_ex_simps)
  then have "take 2 (drop 8 (memcpy_at 8 [7, 9] (oe_mem entry_ex))) = [7, 9]" by (simp add: numeral_2_eq_2)
  then show ?thesis
    by (simp add: run_instance_def wasmtime_ex_def wasm_env_ex_def module_ex_def nkvx_zc_new_memory_def entry_ex_simps
        nkvx_wasm_caps_load_def extract_result_def wasm_res_off_def u32_def Let_def)
qed

theorem run_result_bounds_witness:
  "case nkvx_wasm_run_pinned wasmtime_ex wasm_env_ex ''f'' (Some module_ex) (Some 1) 16 nkvx_modcache_init_once cache_ex2 of
     ((st, n, out), _) \<Rightarrow> st = IO_SUCCESS \<and> length out = n \<and> out = [7, 9]"
proof -
  let ?c = "bump_hits cache_ex2"
  obtain st n out mc' c' where r: "nkvx_wasm_run_pinned wasmtime_ex wasm_env_ex ''f'' (Some module_ex) (Some 1) 16
     nkvx_modcache_init_once cache_ex2 = ((st, n, out), mc', c')" by (metis prod_cases3)
  have env: "wv_api wasm_env_ex" "wv_alloc wasm_env_ex" by (simp_all add: wasm_env_ex_def)
  have e: "obj_by_id ?c 1 = Some entry_ex" using entry_ex_simps(5) by (simp add: obj_by_id_def bump_hits_def)
  have w: "nkvx_warm_lookup ''f'' 1 ?c = None" by (simp add: nkvx_warm_lookup_def bump_hits_def cache_ex2_eq)
  have "fst (nkvx_wasm_run_pinned wasmtime_ex wasm_env_ex ''f'' (Some module_ex) (Some 1) 16
     nkvx_modcache_init_once cache_ex2) = (IO_SUCCESS, 2, [7, 9])"
    by (simp add: nkvx_wasm_run_pinned_def nkvx_run_on_object_locked_def nkvx_warm_build_def e w env module_ex_obtain
        run_instance_ex del: One_nat_def)
  with r have "st = IO_SUCCESS \<and> out = [7, 9]" by simp
  then show ?thesis
    using run_result_bounds [OF wasmtime_ex_ok wasm32_ok_ex entry_ex_simps(5) _ r]
    by (simp add: entry_ex_simps r del: One_nat_def)
qed

text \<open>
  Read-only namespaces. A module that exports the write-intent function is rejected with READ\_ONLY
  on a read-only namespace before its entry function runs: the outcome is the same whatever a call
  would have done.
\<close>
theorem read_only_rejected:
  assumes "nkvx_zc_new_memory (wv_alloc env) e (wt_minimum wt h) = Some m0"
    and "wt_start wt h (cap_memory (nkvx_wasm_caps_load env (md_caps m))) m0 = (Some inst, m1)"
    and "wt_export wt h ''memory'' = Some Ext_memory" "wt_export wt h name = Some Ext_func"
    and "md_read_only m" "wt_export wt h ''kv_write'' = Some Ext_func"
  shows "run_instance (wt\<lparr>wt_call := call\<rparr>) env name (Some m) h e out_len = ((IO_READ_ONLY, 0, []), Some m1)"
  using assms by (simp add: run_instance_def)

theorem read_only_rejected_witness:
  "fst (run_instance (wasmtime_ex\<lparr>wt_call := (\<lambda>_ _ _ _ m _ _. (Call_error, m))\<rparr>) wasm_env_ex ''f'' (Some (module_ex\<lparr>md_read_only := True\<rparr>))
     () entry_ex 16) = (IO_READ_ONLY, 0, [])"
proof -
  have "nkvx_zc_new_memory (wv_alloc wasm_env_ex) entry_ex (wt_minimum wasmtime_ex ())
      = Some \<lparr>zm_base = oe_mem entry_ex, zm_size = 65536, zm_cap = 65536, zm_owned = False\<rparr>"
    by (simp add: nkvx_zc_new_memory_def wasm_env_ex_def wasmtime_ex_def entry_ex_simps)
  then show ?thesis
    by (subst read_only_rejected) (simp_all add: wasmtime_ex_def module_ex_def)
qed

text \<open>
  Capability tiers. An explicit tier fixes all three limits: the environment cannot change them,
  every limit is positive, and none exceeds the LARGE tier's 1e9 units of fuel, 100 ticks and 64 MiB;
  the three named tiers are ordered.
\<close>
theorem caps_tiers:
  assumes "caps_word mod 256 \<noteq> 0"
  shows "nkvx_wasm_caps_load env caps_word = nkvx_wasm_caps_load env' caps_word
    \<and> 0 < cap_fuel (nkvx_wasm_caps_load env caps_word) \<and> 0 < cap_epoch (nkvx_wasm_caps_load env caps_word)
    \<and> (\<forall>lim \<in> {cap_fuel, cap_epoch, cap_memory}. lim (nkvx_wasm_caps_load env 1) \<le> lim (nkvx_wasm_caps_load env caps_word)
        \<and> lim (nkvx_wasm_caps_load env caps_word) \<le> lim (nkvx_wasm_caps_load env 3)
        \<and> lim (nkvx_wasm_caps_load env 1) \<le> lim (nkvx_wasm_caps_load env 2)
        \<and> lim (nkvx_wasm_caps_load env 2) \<le> lim (nkvx_wasm_caps_load env 3))"
  using assms by (simp add: nkvx_wasm_caps_load_def default_caps_def Let_def)

theorem caps_tiers_witness:
  "nkvx_wasm_caps_load wasm_env_ex 258 = nkvx_wasm_caps_load (wasm_env_ex\<lparr>wv_fuel := Some ''5''\<rparr>) 258
   \<and> nkvx_wasm_caps_load wasm_env_ex 0 \<noteq> nkvx_wasm_caps_load (wasm_env_ex\<lparr>wv_fuel := Some ''5''\<rparr>) 0"
  using caps_tiers [of 258 wasm_env_ex "wasm_env_ex\<lparr>wv_fuel := Some ''5''\<rparr>"]
  by (simp add: nkvx_wasm_caps_load_def wasm_env_ex_def env_u64_def strtoull_base0_def is_space_def digit_val_def
      default_caps_def)

text \<open>
  A warm hit is keyed by the module's name and the object only. Once an object has a warm entry
  for a name, a run that binds the same name to a different hash executes the old module: the
  outcome does not depend on the bound hash or the fetched bytes at all.
\<close>
theorem warm_hit_ignores_hash:
  assumes "obj_by_id c i = Some e" "nkvx_warm_lookup name i c = Some w"
  shows "fst (nkvx_run_on_object_locked wt env name (Some (m\<lparr>md_sha256 := sha, md_bytes := bs\<rparr>)) i out_len mc c)
    = fst (run_instance wt env name (Some m) (we_handle w) e out_len)"
proof -
  let ?m = "m\<lparr>md_sha256 := sha, md_bytes := bs\<rparr>"
  have m: "md_caps ?m = md_caps m" "md_read_only ?m = md_read_only m" by simp_all
  have "run_instance wt env name (Some (m\<lparr>md_sha256 := sha, md_bytes := bs\<rparr>)) h e out_len
      = run_instance wt env name (Some m) h e out_len" for h
    unfolding run_instance_def option.case m by (rule refl)
  then show ?thesis using assms by (simp add: nkvx_run_on_object_locked_def split: prod.splits)
qed

definition cache_ex_warm :: "unit obj_cache" where
  "cache_ex_warm = warm_insert 0 ''f'' () entry_ex cache_ex2"

lemma warm_enforce_0: "nkvx_warm_cache_enforce_caps 0 c = c"
  by (subst nkvx_warm_cache_enforce_caps.simps) (simp split: list.splits)

lemma cache_ex_warm_simps:
  "obj_by_id cache_ex_warm 1 = Some (entry_ex\<lparr>oe_refcount := 1\<rparr>)"
  "nkvx_warm_lookup ''f'' 1 cache_ex_warm = Some \<lparr>we_id = 2, we_module = ''f'', we_obj_key = oe_key entry_ex, we_handle = (), we_obj = 1\<rparr>"
  by (simp_all add: cache_ex_warm_def warm_insert_def warm_enforce_0 cache_ex2_eq upd_obj_def obj_by_id_def nkvx_warm_lookup_def
      entry_ex_simps(4), simp add: entry_ex_def new_entry_def)

lemma run_instance_refcount: "run_instance wt env name modo h (e\<lparr>oe_refcount := n\<rparr>) out_len = run_instance wt env name modo h e out_len"
proof -
  have new: "nkvx_zc_new_memory al (e\<lparr>oe_refcount := n\<rparr>) k = nkvx_zc_new_memory al e k" for al k
    by (simp add: nkvx_zc_new_memory_def mem_cap_def)
  have len: "oe_obj_len (e\<lparr>oe_refcount := n\<rparr>) = oe_obj_len e" by simp
  show ?thesis unfolding run_instance_def new len by (rule refl)
qed

theorem warm_hit_ignores_hash_witness:
  "fst (nkvx_run_on_object_locked wasmtime_ex wasm_env_ex ''f'' (Some (module_ex\<lparr>md_sha256 := replicate 32 1, md_bytes := None\<rparr>)) 1 16
     nkvx_modcache_init_once cache_ex_warm) = (IO_SUCCESS, 2, [7, 9])"
  by (subst warm_hit_ignores_hash [OF cache_ex_warm_simps]) (simp add: run_instance_refcount run_instance_ex)

text \<open>
  A run can change the cached object. Where the linear memory aliases the cache buffer, what a
  run leaves at the object's offset is what every later reader of that cached object sees: the
  cached bytes become the module's memory.
\<close>
theorem run_rewrites_object:
  assumes "obj_by_id c i = Some e" "oe_filled e" "nkvx_warm_lookup name i c = Some w"
    and "run_instance wt env name modo (we_handle w) e out_len = (res, Some m)" "\<not> zm_owned m"
    and "nkvx_run_on_object_locked wt env name modo i out_len mc c = (res', mc', c')"
  shows "nkvx_wasm_pin_object (Some i) c' = Some (take (oe_obj_len e) (drop wasm_obj_off (zm_base m)))"
proof -
  let ?c = "nkvx_warm_touch (we_id w) (c\<lparr>oc_stats := (oc_stats c)\<lparr>cs_warm_hits := cs_warm_hits (oc_stats c) + 1\<rparr>\<rparr>)"
  have "c' = upd_obj i (\<lambda>e. e\<lparr>oe_mem := zm_base m\<rparr>) ?c"
    using assms by (simp add: nkvx_run_on_object_locked_def write_back_def)
  moreover have "find (\<lambda>x. oe_id x = i) (map (\<lambda>x. if oe_id x = i then x\<lparr>oe_mem := b\<rparr> else x) xs)
      = map_option (\<lambda>x. x\<lparr>oe_mem := b\<rparr>) (find (\<lambda>x. oe_id x = i) xs)" for xs :: "obj_entry list" and b
    by (induction xs) auto
  ultimately have "obj_by_id c' i = Some (e\<lparr>oe_mem := zm_base m\<rparr>)"
    using assms(1) by (simp add: obj_by_id_def upd_obj_def nkvx_warm_touch_def)
  then show ?thesis using assms(2) by (simp add: nkvx_wasm_pin_object_def)
qed

text \<open>A module that returns 251 bytes: its result region ends at offset 258, inside the object.\<close>

definition wasmtime_long :: "(unit, unit) wasmtime" where
  "wasmtime_long = wasmtime_ex\<lparr>wt_call := (\<lambda>_ _ _ _ m _ _.
     (Call_i32 251, m\<lparr>zm_base := memcpy_at wasm_obj_off [7, 7, 7] (zm_base m)\<rparr>))\<rparr>"

theorem run_rewrites_object_witness:
  "nkvx_wasm_pin_object (Some 1) cache_ex2 = Some [4, 5, 6] \<and>
   nkvx_wasm_pin_object (Some 1) (snd (snd (nkvx_run_on_object_locked wasmtime_long wasm_env_ex ''f'' (Some module_ex) 1 512
     nkvx_modcache_init_once cache_ex_warm))) = Some [7, 7, 7]"
proof
  have "take (oe_obj_len entry_ex) (drop wasm_obj_off (oe_mem entry_ex)) = [4, 5, 6]"
    unfolding entry_ex_def by (rule new_entry_bytes) (simp add: wasm_obj_off_def)
  then show "nkvx_wasm_pin_object (Some 1) cache_ex2 = Some [4, 5, 6]"
    by (simp only: nkvx_wasm_pin_object_def entry_ex_simps option.case if_True)
next
  let ?run = "nkvx_run_on_object_locked wasmtime_long wasm_env_ex ''f'' (Some module_ex) 1 512 nkvx_modcache_init_once cache_ex_warm"
  let ?m = "\<lparr>zm_base = memcpy_at wasm_obj_off [7, 7, 7] (oe_mem entry_ex), zm_size = 65536, zm_cap = 65536, zm_owned = False\<rparr>"
  obtain res' mc' c' where r: "?run = (res', mc', c')" by (rule prod_cases3)
  obtain res where i: "run_instance wasmtime_long wasm_env_ex ''f'' (Some module_ex) () (entry_ex\<lparr>oe_refcount := 1\<rparr>) 512 = (res, Some ?m)"
    unfolding run_instance_refcount
    by (simp add: run_instance_def wasmtime_long_def wasmtime_ex_def wasm_env_ex_def module_ex_def nkvx_zc_new_memory_def
        entry_ex_simps nkvx_wasm_caps_load_def Let_def)
  have "take (length [7, 7, 7 :: byte]) (drop wasm_obj_off (memcpy_at wasm_obj_off [7, 7, 7] (oe_mem entry_ex))) = [7, 7, 7]"
    by (rule memcpy_at_read) (simp add: entry_ex_simps wasm_obj_off_def)
  moreover have "nkvx_wasm_pin_object (Some 1) c' = Some (take 3 (drop wasm_obj_off (zm_base ?m)))"
    using run_rewrites_object [OF cache_ex_warm_simps(1) _ cache_ex_warm_simps(2) _ _ r, of res ?m] i
    by (simp add: entry_ex_simps del: One_nat_def)
  ultimately show "nkvx_wasm_pin_object (Some 1) (snd (snd ?run)) = Some [7, 7, 7]"
    unfolding r by (simp add: numeral_3_eq_3)
qed

end
