(* ===== verification/ExecRun.thy ===== *)
theory ExecRun
  imports Executor Wasm
begin

text \<open>
  The Exec verb on the executor (\<^verbatim>\<open>rados-nkvx/nkvx_executor.c\<close>): opening the librados handle, the
  built-in modules, the cold fetch of a module object, the wasm route with its hash gate, and the
  dispatcher.

  The in-memory backend has no librados handle. Where the code passes that null handle to
  librados all the same, the model's outcome is \<^const>\<open>None\<close>.
\<close>

section \<open>Opening\<close>

text \<open>
  What librados answers while a handle is opened; the result is the errno or the executor,
  with the number of cluster handles left open.
\<close>

record 'r rados_open =
  ro_create :: "errno option"
  ro_conf_read :: "errno option"
  ro_connect :: "errno option"
  ro_ioctx :: "string \<Rightarrow> errno + 'r"
  ro_set_namespace :: "'r \<Rightarrow> string \<Rightarrow> 'r"

definition nkvx_executor_open :: "bool \<Rightarrow> 'r rados_open \<Rightarrow> string option \<Rightarrow> string option \<Rightarrow> string option \<Rightarrow> 'm obj_cache
    \<Rightarrow> (errno + ('r, 'm) executor) \<times> nat" where
  "nkvx_executor_open alloc_ok ro conf pool ns c =
    (if pool = None \<or> pool = Some [] then (Inl E_INVAL, 0)
     else if \<not> alloc_ok then (Inl E_NOMEM, 0)
     else case ro_create ro of
       Some err \<Rightarrow> (Inl err, 0)
     | None \<Rightarrow>
         if conf \<noteq> None \<and> ro_conf_read ro \<noteq> None then (Inl (the (ro_conf_read ro)), 0)
         else case ro_connect ro of
           Some err \<Rightarrow> (Inl err, 0)
         | None \<Rightarrow>
             (case ro_ioctx ro (the pool) of
                Inl err \<Rightarrow> (Inl err, 0)
              | Inr r \<Rightarrow>
                  (Inr \<lparr>ex_mem = False, ex_table = [],
                        ex_rados = (if ns \<noteq> None \<and> ns \<noteq> Some [] then ro_set_namespace ro r (the ns) else r),
                        ex_cache = c\<rparr>, 1)))"

section \<open>Built-in modules\<close>

definition exec_ioctx :: "('r, 'm) executor \<Rightarrow> 'r option" where
  "exec_ioctx ex = (if ex_mem ex then None else Some (ex_rados ex))"

definition nkvx_run_builtin :: "exec_env \<Rightarrow> 'r rados \<Rightarrow> ('r, 'm) executor \<Rightarrow> string \<Rightarrow> string \<Rightarrow> 'h exec_in
    \<Rightarrow> exec_result option" where
  "nkvx_run_builtin env rd ex module oid i =
    (let osize = ei_osize i in
     if module = ''inputlen'' then
       Some (nkvx_result_set (ee_alloc env) (size_status 8 osize) 8 (le_bytes 8 (ei_input_len i)) (min osize 8))
     else if module = ''inputecho'' then
       (let result_len = ei_input_len i; deliver = min osize result_len; st = size_status result_len osize in
        if deliver = 0 then Some (nkvx_result_set True st result_len [] 0)
        else (case ei_input_inline i of
          None \<Rightarrow> Some (plain_result IO_INVALID)
        | Some b \<Rightarrow>
            if \<not> ee_alloc env then Some (plain_result IO_NOMEM)
            else Some \<lparr>er_status = st, er_result_len = result_len, er_buf = Some (take deliver b)\<rparr>))
     else case exec_ioctx ex of
       None \<Rightarrow> None
     | Some r \<Rightarrow>
         (case rd_stat rd r oid of
            Inl err \<Rightarrow> Some (plain_result (if err = E_NOENT then IO_KEY_NOT_EXIST else IO_FAILED))
          | Inr sz \<Rightarrow>
              if module = ''bytecount'' then
                Some (nkvx_result_set (ee_alloc env) (size_status 8 osize) 8 (le_bytes 8 sz) (min osize 8))
              else if module = ''identity'' then
                (let result_len = clamp_u32 sz; deliver = min osize result_len; st = size_status sz osize in
                 if deliver = 0 then Some (nkvx_result_set True st result_len [] 0)
                 else if \<not> ee_alloc env then Some (plain_result IO_NOMEM)
                 else case rd_read rd r oid deliver of
                   Inl err \<Rightarrow> Some (plain_result (if err = E_NOENT then IO_KEY_NOT_EXIST else IO_FAILED))
                 | Inr bs \<Rightarrow> Some \<lparr>er_status = st, er_result_len = result_len, er_buf = Some bs\<rparr>)
              else Some (plain_result IO_NOT_SUPPORTED)))"

section \<open>Fetching a module\<close>

text \<open>
  The locator is \<^verbatim>\<open>pool\<close> or \<^verbatim>\<open>pool/namespace\<close>, the pool name at most 255 characters;
  \<open>rd_pool\<close> is a fresh ioctx on that pool and namespace.
\<close>

definition module_locator :: "string \<Rightarrow> (string \<times> string) option" where
  "module_locator module_ns =
    (let pool = takeWhile (\<lambda>c. c \<noteq> CHR ''/'') module_ns in
     if CHR ''/'' \<in> set module_ns then
       (if pool = [] \<or> length pool \<ge> 256 then None else Some (pool, drop (length pool + 1) module_ns))
     else if length module_ns \<ge> 256 then None else Some (module_ns, []))"

definition nkvx_fetch_module :: "bool \<Rightarrow> 'r rados \<Rightarrow> 'r \<Rightarrow> string \<Rightarrow> string \<Rightarrow> errno + bytes" where
  "nkvx_fetch_module alloc_ok rd r module_ns module_key =
    (case module_locator module_ns of
       None \<Rightarrow> Inl E_INVAL
     | Some (pool, ns) \<Rightarrow>
         (case rd_pool rd r pool ns of
            Inl err \<Rightarrow> Inl err
          | Inr mctx \<Rightarrow>
              (case rd_stat rd mctx module_key of
                 Inl err \<Rightarrow> Inl err
               | Inr sz \<Rightarrow> if \<not> alloc_ok then Inl E_NOMEM else rd_read rd mctx module_key sz)))"

section \<open>The wasm route\<close>

definition run_name :: "string \<Rightarrow> string" where
  "run_name module_key = (if take 5 module_key = ''wasm:'' then drop 5 module_key else module_key)"

record ('r, 'm) exec_state =
  xs_ex :: "('r, 'm) executor"
  xs_mods :: mod_cache

definition deliver_run :: "nat \<Rightarrow> io_status \<times> nat \<times> bytes \<Rightarrow> exec_result" where
  "deliver_run osize r = (case r of (st, rlen, out) \<Rightarrow>
     if min osize rlen = 0 then nkvx_result_set True st rlen [] 0
     else \<lparr>er_status = st, er_result_len = rlen, er_buf = Some (take (min osize rlen) out)\<rparr>)"

text \<open>The run itself: off the pinned object on a cache hit, stat and cold fill on a miss.\<close>

definition run_wasm_object :: "('m, 'i) wasmtime \<Rightarrow> wasm_env \<Rightarrow> 'r rados \<Rightarrow> ('r, 'm) exec_state \<Rightarrow> string \<Rightarrow> string
    \<Rightarrow> nkvx_module \<Rightarrow> nat \<Rightarrow> (exec_result \<times> ('r, 'm) exec_state) option" where
  "run_wasm_object wt env rd s oid name m osize =
    (let ex = xs_ex s in
     case nkvx_wasm_cache_pin oid (ex_cache ex) of
       (Some pin, c) \<Rightarrow>
         (case nkvx_wasm_run_pinned wt env name (Some m) (Some pin) osize (xs_mods s) c of (r, mc', c') \<Rightarrow>
            Some (deliver_run osize r,
              s\<lparr>xs_ex := ex\<lparr>ex_cache := nkvx_wasm_cache_unpin (Some pin) c'\<rparr>, xs_mods := mc'\<rparr>))
     | (None, c) \<Rightarrow>
         (case exec_ioctx ex of
            None \<Rightarrow> None
          | Some ioctx \<Rightarrow>
              (case rd_stat rd ioctx oid of
                 Inl err \<Rightarrow> Some (plain_result (if err = E_NOENT then IO_KEY_NOT_EXIST else IO_FAILED),
                   s\<lparr>xs_ex := ex\<lparr>ex_cache := c\<rparr>\<rparr>)
               | Inr sz \<Rightarrow>
                   (case nkvx_wasm_run_cached wt env name (Some m) oid sz (nkvx_obj_fill rd ioctx oid) osize (xs_mods s) c of
                      (r, mc', c') \<Rightarrow> Some (deliver_run osize r, s\<lparr>xs_ex := ex\<lparr>ex_cache := c'\<rparr>, xs_mods := mc'\<rparr>)))))"

definition nkvx_run_wasm :: "('m, 'i) wasmtime \<Rightarrow> wasm_env \<Rightarrow> 'r rados \<Rightarrow> ('r, 'm) exec_state \<Rightarrow> string \<Rightarrow> 'h exec_in
    \<Rightarrow> (exec_result \<times> ('r, 'm) exec_state) option" where
  "nkvx_run_wasm wt env rd s oid i =
    (case (ei_module_key i, ei_module_ns i) of
       (Some key, Some ns) \<Rightarrow>
         if ei_sha256_valid i = 0 \<or> key = [] \<or> ns = [] \<or> run_name key = [] then Some (plain_result IO_INVALID, s)
         else
           let m = \<lparr>md_sha256 = ei_sha256 i, md_bytes = None, md_caps = ei_caps i, md_read_only = (ei_read_only i \<noteq> 0)\<rparr>;
               osize = ei_osize i;
               run = (\<lambda>m. if osize > 0 \<and> \<not> wv_alloc env then Some (plain_result IO_NOMEM, s)
                          else run_wasm_object wt env rd s oid (run_name key) m osize) in
           if nkvx_wasm_module_cached (xs_mods s) (ei_sha256 i) then run m
           else
             (case exec_ioctx (xs_ex s) of
                None \<Rightarrow> None
              | Some r \<Rightarrow>
                  (case nkvx_fetch_module (wv_alloc env) rd r ns key of
                     Inl err \<Rightarrow> Some (plain_result (if err = E_NOENT then IO_INVALID else IO_FAILED), s)
                   | Inr bs \<Rightarrow>
                       let gate = nkvx_wasm_module_verify wt env (ei_sha256 i) bs in
                       if gate \<noteq> IO_SUCCESS then Some (plain_result gate, s)
                       else run (m\<lparr>md_bytes := Some bs\<rparr>)))
     | _ \<Rightarrow> Some (plain_result IO_INVALID, s))"

section \<open>The dispatcher\<close>

definition runtime_nkvx :: nat where
  "runtime_nkvx = 1"

definition nkvx_executor_run :: "('m, 'i) wasmtime \<Rightarrow> wasm_env \<Rightarrow> exec_env \<Rightarrow> 'r rados \<Rightarrow> ('r, 'm) exec_state \<Rightarrow> 'h exec_in
    \<Rightarrow> (exec_result \<times> ('r, 'm) exec_state) option" where
  "nkvx_executor_run wt wenv env rd s i =
    (let oid = nkvx_key_to_oid (ei_key i) (ei_key_len i) in
     if ei_key_len i = 0 then Some (plain_result IO_INVALID, s)
     else if ei_runtime i \<noteq> runtime_nkvx then Some (plain_result IO_INVALID, s)
     else case (ei_module_ns i, ei_module_key i) of
       (Some ns, Some key) \<Rightarrow>
         if ns = ''nkvx'' then map_option (\<lambda>r. (r, s)) (nkvx_run_builtin env rd (xs_ex s) key oid i)
         else nkvx_run_wasm wt wenv rd s oid i
     | _ \<Rightarrow> nkvx_run_wasm wt wenv rd s oid i)"

section \<open>Lemmas\<close>

lemma plain_result_simps [simp]: "er_status (plain_result st) = st" "er_buf (plain_result st) = None"
  by (simp_all add: plain_result_def nkvx_result_set_def)

lemma cached_blessed:
  assumes "mod_cache_inv wt mc" "nkvx_wasm_module_cached mc sha"
  shows "\<exists>bs. wt_digest wt bs = Some sha"
proof -
  obtain e where "nkvx_modcache_lookup mc sha = Some e" using assms(2) by (auto simp: nkvx_wasm_module_cached_def)
  then have "e \<in> set (mc_modules mc) \<and> me_sha256 e = sha" by (rule modcache_lookup_mem)
  then show ?thesis using assms(1) by (auto simp: mod_cache_inv_def blessed_def)
qed

lemma module_verify_ok: "nkvx_wasm_module_verify wt env sha bs = IO_SUCCESS \<Longrightarrow> wt_digest wt bs = Some sha"
  by (auto simp: nkvx_wasm_module_verify_def nkvx_wasm_verify_def split: if_splits option.splits)

lemma module_verify_status: "nkvx_wasm_module_verify wt env sha bs \<noteq> IO_BUFFER_TOO_SMALL"
  by (simp add: nkvx_wasm_module_verify_def)

section \<open>Properties\<close>

text \<open>
  The hash gate of the wasm route. Whenever an Exec of a module returns a result or changes any
  state of the executor, the bound hash is that of module bytes the executor has verified: earlier,
  when they entered the module cache, or now, as the bytes fetched from the binding's locator.
\<close>
theorem wasm_hash_gate:
  assumes "reachable modcache_start modcache_step (wt, xs_mods s)"
    and "nkvx_run_wasm wt env rd s oid i = Some (res, s')"
    and "s' \<noteq> s \<or> er_status res \<in> {IO_SUCCESS, IO_BUFFER_TOO_SMALL}"
  shows "\<exists>bs. wt_digest wt bs = Some (ei_sha256 i) \<and>
    (nkvx_wasm_module_cached (xs_mods s) (ei_sha256 i) \<or>
     (\<exists>r ns key. exec_ioctx (xs_ex s) = Some r \<and> ei_module_ns i = Some ns \<and> ei_module_key i = Some key
        \<and> nkvx_fetch_module (wv_alloc env) rd r ns key = Inr bs))"
proof (cases "nkvx_wasm_module_cached (xs_mods s) (ei_sha256 i)")
  case True
  have "mod_cache_inv wt (xs_mods s)" using modcache_sys.reachable_inv [OF assms(1)] by simp
  then show ?thesis using cached_blessed True by blast
next
  case False
  then obtain ns key r bs where "ei_module_ns i = Some ns" "ei_module_key i = Some key" "exec_ioctx (xs_ex s) = Some r"
      "nkvx_fetch_module (wv_alloc env) rd r ns key = Inr bs" "nkvx_wasm_module_verify wt env (ei_sha256 i) bs = IO_SUCCESS"
    using assms(2,3) by (auto simp: nkvx_run_wasm_def module_verify_status Let_def split: option.splits if_splits sum.splits)
  then show ?thesis using module_verify_ok by blast
qed

definition exec_call :: "string \<Rightarrow> string \<Rightarrow> bytes \<Rightarrow> nat \<Rightarrow> bytes option \<Rightarrow> unit exec_in" where
  "exec_call ns module key osize input = \<lparr>ei_op_id = 9, ei_client_call_id = 1, ei_read_only = 0, ei_runtime = 1, ei_caps = 1,
     ei_key_len = length key, ei_key = key, ei_sha256 = 5 # replicate 31 0, ei_sha256_valid = 1, ei_module_key = Some module,
     ei_module_ns = Some ns, ei_osize = osize, ei_input_len = (case input of None \<Rightarrow> 0 | Some b \<Rightarrow> length b),
     ei_input_inline = input, ei_input_bulk = None, ei_result_sink = None\<rparr>"

definition exec_state_ex :: "((string \<times> bytes) list, unit) exec_state" where
  "exec_state_ex = \<lparr>xs_ex = executor_ex\<lparr>ex_rados := [(''f'', [5])], ex_cache := cache_ex2\<rparr>, xs_mods = nkvx_modcache_init_once\<rparr>"

lemma exec_state_ex_run:
  "\<exists>s'. nkvx_run_wasm wasmtime_ex wasm_env_ex alist_rados exec_state_ex ''70'' (exec_call ''p'' ''f'' [112] 16 None)
     = Some (\<lparr>er_status = IO_SUCCESS, er_result_len = 2, er_buf = Some [7, 9]\<rparr>, s')"
proof -
  let ?c = "upd_obj 1 (\<lambda>e. e\<lparr>oe_refcount := oe_refcount e + 1\<rparr>) cache_ex2"
  have k: "oe_key (new_entry 0 ''6f'' 65536 [1, 2, 3]) = ''6f''" "oe_key entry_ex = ''70''" "oe_refcount entry_ex = 0"
    by (simp_all add: new_entry_def entry_ex_def obj_key_cap_def)
  have pin: "nkvx_wasm_cache_pin ''70'' cache_ex2 = (Some 1, ?c)"
    by (simp add: nkvx_wasm_cache_pin_def nkvx_obj_lookup_def cache_ex2_eq k obj_key_cap_def entry_ex_def [symmetric] entry_ex_simps)
  have e: "obj_by_id (bump_hits ?c) 1 = Some (entry_ex\<lparr>oe_refcount := 1\<rparr>)"
    by (simp add: obj_by_id_def bump_hits_def upd_obj_def cache_ex2_eq) (simp add: entry_ex_def new_entry_def)
  have w: "nkvx_warm_lookup ''f'' 1 (bump_hits ?c) = None"
    by (simp add: nkvx_warm_lookup_def bump_hits_def upd_obj_def cache_ex2_eq)
  have env: "wv_api wasm_env_ex" "wv_alloc wasm_env_ex" by (simp_all add: wasm_env_ex_def)
  have fst: "\<exists>mc' c'. nkvx_wasm_run_pinned wasmtime_ex wasm_env_ex ''f'' (Some module_ex) (Some 1) 16 nkvx_modcache_init_once ?c
      = ((IO_SUCCESS, 2, [7, 9]), mc', c')"
    by (simp add: nkvx_wasm_run_pinned_def nkvx_run_on_object_locked_def nkvx_warm_build_def e w env module_ex_obtain
        run_instance_refcount run_instance_ex del: One_nat_def)
  then obtain mc' c' where r: "nkvx_wasm_run_pinned wasmtime_ex wasm_env_ex ''f'' (Some module_ex) (Some 1) 16 nkvx_modcache_init_once ?c
      = ((IO_SUCCESS, 2, [7, 9]), mc', c')" by blast
  have mo: "\<lparr>md_sha256 = 5 # replicate 31 0, md_bytes = Some [5], md_caps = 1, md_read_only = False\<rparr> = module_ex"
    by (simp add: module_ex_def)
  have run: "run_wasm_object wasmtime_ex wasm_env_ex alist_rados exec_state_ex ''70'' ''f'' module_ex 16
      = Some (\<lparr>er_status = IO_SUCCESS, er_result_len = 2, er_buf = Some [7, 9]\<rparr>,
          exec_state_ex\<lparr>xs_ex := (xs_ex exec_state_ex)\<lparr>ex_cache := nkvx_wasm_cache_unpin (Some 1) c'\<rparr>, xs_mods := mc'\<rparr>)"
    using r by (simp add: run_wasm_object_def exec_state_ex_def pin deliver_run_def del: One_nat_def)
  have gate: "nkvx_wasm_module_verify wasmtime_ex wasm_env_ex (5 # replicate 31 0) [5] = IO_SUCCESS"
    by (simp add: nkvx_wasm_module_verify_def wasm_env_ex_def nkvx_wasm_verify_def wasmtime_ex_def sha256_len_def)
  have fetch: "nkvx_fetch_module True alist_rados [(''f'', [5])] ''p'' ''f'' = Inr [5]"
    by (simp add: nkvx_fetch_module_def module_locator_def alist_rados_def)
  have io: "exec_ioctx (xs_ex exec_state_ex) = Some [(''f'', [5])]" by (simp add: exec_ioctx_def exec_state_ex_def executor_ex_def)
  have nc: "\<not> nkvx_wasm_module_cached (xs_mods exec_state_ex) sha" for sha
    by (simp add: exec_state_ex_def nkvx_wasm_module_cached_def nkvx_modcache_lookup_def nkvx_modcache_init_once_def)
  show ?thesis
    unfolding nkvx_run_wasm_def by (simp add: exec_call_def run_name_def io nc env mo fetch gate run del: One_nat_def)
qed

theorem wasm_hash_gate_witness:
  "\<exists>bs. wt_digest wasmtime_ex bs = Some (5 # replicate 31 0)"
proof -
  obtain s' where r: "nkvx_run_wasm wasmtime_ex wasm_env_ex alist_rados exec_state_ex ''70'' (exec_call ''p'' ''f'' [112] 16 None)
     = Some (\<lparr>er_status = IO_SUCCESS, er_result_len = 2, er_buf = Some [7, 9]\<rparr>, s')"
    using exec_state_ex_run by blast
  have "reachable modcache_start modcache_step (wasmtime_ex, xs_mods exec_state_ex)"
    by (rule reach_init) (simp add: modcache_start_def exec_state_ex_def)
  from wasm_hash_gate [OF this r] show ?thesis by (auto simp: exec_call_def)
qed

text \<open>
  The built-ins on the stored object. On a healthy cluster an Exec of \<^verbatim>\<open>identity\<close> returns exactly
  what a Retrieve of the same key with the same buffer returns, through the cache or not, and
  \<^verbatim>\<open>bytecount\<close> returns the eight little-endian bytes of the object's length.
\<close>
theorem builtin_identity_is_retrieve:
  assumes "rados_ok rd view" "exec_inv view (xs_ex s)" "ee_alloc env" "kv_call_ok j" "kv_key_ok j"
    and "ki_verb j = verb_code VERB_RETRIEVE" "ki_key j = ei_key i" "ki_key_len j = ei_key_len i" "ki_osize j = ei_osize i"
    and "ei_key_len i \<noteq> 0" "ei_runtime i = runtime_nkvx" "ei_module_ns i = Some ''nkvx''"
  shows "nkvx_executor_run wt wenv env rd s (i\<lparr>ei_module_key := Some ''identity''\<rparr>)
      = Some (fst (nkvx_executor_kv env rd (xs_ex s) j), s) \<and>
    (\<forall>v. view (ex_rados (xs_ex s)) (nkvx_key_to_oid (ei_key i) (ei_key_len i)) = Some v \<and> ei_osize i \<ge> 8 \<longrightarrow>
      nkvx_executor_run wt wenv env rd s (i\<lparr>ei_module_key := Some ''bytecount''\<rparr>)
      = Some (\<lparr>er_status = IO_SUCCESS, er_result_len = 8, er_buf = Some (le_bytes 8 (length v))\<rparr>, s))"
proof -
  let ?oid = "nkvx_key_to_oid (ei_key i) (ei_key_len i)" and ?r = "ex_rados (xs_ex s)"
  have ex: "exec_ioctx (xs_ex s) = Some ?r" "sized (view ?r)" using assms(2) by (simp_all add: exec_inv_def exec_ioctx_def)
  obtain res ex' where kv: "nkvx_executor_kv env rd (xs_ex s) j = (res, ex')" by fastforce
  have "kv_spec j (view ?r) = (res, view (ex_rados ex'))" using kv_refines [OF assms(1,2,3,4,5) _ kv] assms(6) by simp
  then have res: "res = (case view ?r ?oid of None \<Rightarrow> plain_result IO_KEY_NOT_EXIST | Some v \<Rightarrow> serve_bytes True v (ei_osize i))"
    using assms(6-10) by (auto simp: kv_spec_def Let_def split: option.splits)
  have "nkvx_run_builtin env rd (xs_ex s) ''identity'' ?oid (i\<lparr>ei_module_key := Some ''identity''\<rparr>) = Some res"
  proof (cases "view ?r ?oid")
    case None
    then show ?thesis using assms(1) ex res by (simp add: nkvx_run_builtin_def rados_okD Let_def)
  next
    case (Some v)
    then have "length v < 2 ^ 32" using ex(2) unfolding sized_def by blast
    then have "clamp_u32 (length v) = length v" by (simp add: clamp_u32_def uint32_max_def)
    then show ?thesis using Some assms(1,3) ex res
      by (simp add: nkvx_run_builtin_def rados_okD serve_bytes_def nkvx_result_set_def Let_def)
  qed
  then have "nkvx_executor_run wt wenv env rd s (i\<lparr>ei_module_key := Some ''identity''\<rparr>) = Some (res, s)"
    using assms(10-12) by (simp add: nkvx_executor_run_def)
  moreover have "nkvx_executor_run wt wenv env rd s (i\<lparr>ei_module_key := Some ''bytecount''\<rparr>)
      = Some (\<lparr>er_status = IO_SUCCESS, er_result_len = 8, er_buf = Some (le_bytes 8 (length v))\<rparr>, s)"
    if "view ?r ?oid = Some v" "ei_osize i \<ge> 8" for v
    using assms(1,3,10-12) ex that
    by (simp add: nkvx_executor_run_def nkvx_run_builtin_def rados_okD nkvx_result_set_def size_status_def)
  ultimately show ?thesis using kv by simp
qed

theorem builtin_identity_is_retrieve_witness:
  "nkvx_executor_run wasmtime_ex wasm_env_ex exec_env_ex alist_rados \<lparr>xs_ex = executor_ex, xs_mods = nkvx_modcache_init_once\<rparr>
     ((exec_call ''nkvx'' ''x'' [107] 2 None)\<lparr>ei_module_key := Some ''identity''\<rparr>)
   = Some (fst (nkvx_executor_kv exec_env_ex alist_rados executor_ex (kv_call 2 0 [107] 2 0 None)),
       \<lparr>xs_ex = executor_ex, xs_mods = nkvx_modcache_init_once\<rparr>)"
proof -
  have "exec_inv map_of executor_ex" using exec_sys.reachable_inv [OF executor_ex_session] by (simp add: session_inv_def)
  then show ?thesis
    using builtin_identity_is_retrieve [of alist_rados map_of "\<lparr>xs_ex = executor_ex, xs_mods = nkvx_modcache_init_once\<rparr>" exec_env_ex
      "kv_call 2 0 [107] 2 0 None" "exec_call ''nkvx'' ''x'' [107] 2 None" wasmtime_ex wasm_env_ex]
    by (simp add: alist_rados_ok exec_env_ex_def kv_call_def kv_call_ok_def kv_key_ok_def has_flag_def exec_call_def runtime_nkvx_def)
qed

end
