(* ===== verification/Service.thy ===== *)
theory Service
  imports Executor
begin

text \<open>
  The executor service (\<^verbatim>\<open>rados-nkvx/nkvx_service.c\<close>): the Exec, cancel and KV request handlers as
  one state machine over Mercury's callbacks.

  Mercury is a parameter: the record \<open>hg\<close> says, per request handle, whether an allocation, a bulk
  registration, a bulk transfer or a bulk cancel succeeds; the outcome of a transfer comes with the
  callback. Handles and addresses are numbers. The executor backend is the parameter \<open>backend\<close>. What
  leaves the process goes to the log \<open>sv_log\<close>, oldest first: responses, submitted and freed bulk
  transfers, cancel acknowledgements. The service is single threaded: each handler is one step.
\<close>

section \<open>State\<close>

datatype bulk_op = Pull | Push

datatype hg_ret = HG_SUCCESS | HG_CANCELED | HG_ERROR

record hg =
  hg_alloc :: "nat \<Rightarrow> bool"
  hg_bulk_create :: "nat \<Rightarrow> bool"
  hg_bulk_transfer :: "nat \<Rightarrow> bool"
  hg_bulk_cancel :: "nat \<Rightarrow> bool"

record ('s, 'h) backend =
  bk_run :: "'s \<Rightarrow> 'h exec_in \<Rightarrow> exec_result \<times> 's"
  bk_kv :: "'s \<Rightarrow> 'h kv_in \<Rightarrow> exec_result \<times> 's"

record 'h nkvx_req =
  rq_handle :: nat
  rq_origin :: nat
  rq_in :: "'h exec_in"
  rq_res :: exec_result
  rq_out :: exec_out
  rq_input_buf :: bool
  rq_local_input :: bool
  rq_local_result :: bool
  rq_op_id :: nat
  rq_call_id :: nat
  rq_push_in_flight :: bool
  rq_push_op :: "bulk_op option"
  rq_do_not_push :: bool
  rq_had_push_canceled :: bool
  rq_cancel_handle :: "nat option"
  rq_stall_ticks :: nat
  rq_push_pending :: bool
  rq_pull_stall_ticks :: nat
  rq_pull_pending :: bool

record 'h kv_req =
  kq_handle :: nat
  kq_in :: "'h kv_in"
  kq_res :: exec_result
  kq_out :: kv_out
  kq_value_buf :: bool
  kq_local_value :: bool
  kq_local_result :: bool
  kq_bulk :: "bulk_op option"

text \<open>\<open>Ev_ack\<close> carries the origin and call id the cancel named; \<open>Ev_ack_dup\<close> answers a duplicate cancel.\<close>

datatype svc_event =
    Ev_accept nat nat nat
  | Ev_cancel nat
  | Ev_respond nat exec_out
  | Ev_transfer nat bulk_op
  | Ev_bulk_cancel nat
  | Ev_bulk_free nat bulk_op
  | Ev_ack nat nat nat cancel_ack
  | Ev_ack_dup nat
  | Ev_drop nat
  | Ev_kv_accept nat
  | Ev_kv_respond nat kv_out

record ('s, 'h) service =
  sv_inflight :: "'h nkvx_req list"
  sv_kv :: "'h kv_req list"
  sv_executor :: "'s option"
  sv_push_stall :: nat
  sv_pull_stall :: nat
  sv_log :: "svc_event list"

definition emit :: "svc_event list \<Rightarrow> ('s, 'h) service \<Rightarrow> ('s, 'h) service" where
  "emit evs s = s\<lparr>sv_log := sv_log s @ evs\<rparr>"

section \<open>The in-flight registry\<close>

definition nkvx_reg_insert :: "'h nkvx_req \<Rightarrow> ('s, 'h) service \<Rightarrow> ('s, 'h) service" where
  "nkvx_reg_insert r s = s\<lparr>sv_inflight := sv_inflight s @ [r]\<rparr>"

definition nkvx_reg_remove :: "'h nkvx_req \<Rightarrow> ('s, 'h) service \<Rightarrow> ('s, 'h) service" where
  "nkvx_reg_remove r s = s\<lparr>sv_inflight := filter (\<lambda>x. rq_handle x \<noteq> rq_handle r) (sv_inflight s)\<rparr>"

definition nkvx_reg_lookup :: "('s, 'h) service \<Rightarrow> nat \<Rightarrow> nat \<Rightarrow> 'h nkvx_req option" where
  "nkvx_reg_lookup s origin call_id = find (\<lambda>r. rq_call_id r = call_id \<and> rq_origin r = origin) (sv_inflight s)"

text \<open>A change of a registered request is a store into the object on the registry.\<close>

definition put_req :: "'h nkvx_req \<Rightarrow> ('s, 'h) service \<Rightarrow> ('s, 'h) service" where
  "put_req r s = s\<lparr>sv_inflight := map (\<lambda>x. if rq_handle x = rq_handle r then r else x) (sv_inflight s)\<rparr>"

section \<open>Finishing a request\<close>

definition req_ack :: "'h nkvx_req \<Rightarrow> svc_event list" where
  "req_ack r = (case rq_cancel_handle r of
     None \<Rightarrow> []
   | Some ch \<Rightarrow> [Ev_ack ch (rq_origin r) (rq_call_id r)
       (if rq_had_push_canceled r then CANCEL_PUSH_CANCELED else CANCEL_ABORTED)])"

definition nkvx_req_finish :: "'h nkvx_req \<Rightarrow> ('s, 'h) service \<Rightarrow> ('s, 'h) service" where
  "nkvx_req_finish r s =
    emit ([Ev_respond (rq_handle r) (rq_out r)]
      @ (if rq_local_result r then [Ev_bulk_free (rq_handle r) Push] else [])
      @ (if rq_local_input r then [Ev_bulk_free (rq_handle r) Pull] else [])
      @ req_ack r) (nkvx_reg_remove r s)"

definition fail_out :: "io_status \<Rightarrow> exec_out" where
  "fail_out st = \<lparr>eo_status = nkvx_status_to_wire (status_code st), eo_result_len = 0, eo_result_inline_len = 0, eo_result_inline = None\<rparr>"

definition nkvx_req_fail :: "io_status \<Rightarrow> 'h nkvx_req \<Rightarrow> ('s, 'h) service \<Rightarrow> ('s, 'h) service" where
  "nkvx_req_fail st r s = nkvx_req_finish (r\<lparr>rq_out := fail_out st\<rparr>) s"

section \<open>Delivering the result\<close>

definition sink_out :: "exec_result \<Rightarrow> exec_out" where
  "sink_out res = \<lparr>eo_status = nkvx_status_to_wire (status_code (er_status res)), eo_result_len = er_result_len res,
     eo_result_inline_len = 0, eo_result_inline = None\<rparr>"

definition buf_len :: "exec_result \<Rightarrow> nat" where
  "buf_len res = (case er_buf res of None \<Rightarrow> 0 | Some b \<Rightarrow> length b)"

definition inline_out :: "exec_result \<Rightarrow> exec_out" where
  "inline_out res = \<lparr>eo_status = nkvx_status_to_wire (status_code (er_status res)), eo_result_len = er_result_len res,
     eo_result_inline_len = buf_len res, eo_result_inline = er_buf res\<rparr>"

definition nkvx_result_pushed_cb :: "hg_ret \<Rightarrow> 'h nkvx_req \<Rightarrow> ('s, 'h) service \<Rightarrow> ('s, 'h) service" where
  "nkvx_result_pushed_cb ret r0 s =
    (let r = r0\<lparr>rq_push_in_flight := False\<rparr> in
     if ret = HG_CANCELED then nkvx_req_fail IO_ABORTED (r\<lparr>rq_had_push_canceled := True\<rparr>) s
     else if ret \<noteq> HG_SUCCESS then nkvx_req_fail IO_FAILED r s
     else nkvx_req_finish (r\<lparr>rq_out := sink_out (rq_res r)\<rparr>) s)"

definition nkvx_submit_result_push :: "hg \<Rightarrow> 'h nkvx_req \<Rightarrow> ('s, 'h) service \<Rightarrow> ('s, 'h) service" where
  "nkvx_submit_result_push hg r s =
    (let h = rq_handle r in
     if rq_do_not_push r then nkvx_req_fail IO_ABORTED r s
     else if \<not> hg_bulk_create hg h then nkvx_req_fail IO_FAILED r s
     else if \<not> hg_bulk_transfer hg h then nkvx_req_fail IO_FAILED (r\<lparr>rq_local_result := True\<rparr>) s
     else emit [Ev_transfer h Push]
       (put_req (r\<lparr>rq_local_result := True, rq_push_in_flight := True, rq_push_op := Some Push\<rparr>) s))"

definition nkvx_req_run_and_deliver :: "hg \<Rightarrow> ('s, 'h) backend \<Rightarrow> 'h nkvx_req \<Rightarrow> 's \<Rightarrow> ('s, 'h) service \<Rightarrow> ('s, 'h) service" where
  "nkvx_req_run_and_deliver hg bk r0 x s0 =
    (case bk_run bk x (rq_in r0) of (res, x') \<Rightarrow>
     let r = r0\<lparr>rq_res := res\<rparr>; s = s0\<lparr>sv_executor := Some x'\<rparr> in
     if ei_result_sink (rq_in r) \<noteq> None \<and> buf_len res > nkvx_inline_max then
       (if rq_do_not_push r then nkvx_req_fail IO_ABORTED r s
        else if rq_stall_ticks r > 0 then put_req (r\<lparr>rq_push_pending := True\<rparr>) s
        else nkvx_submit_result_push hg r s)
     else if buf_len res > nkvx_inline_max then nkvx_req_finish (r\<lparr>rq_out := fail_out IO_NOT_SUPPORTED\<rparr>) s
     else nkvx_req_finish (r\<lparr>rq_out := inline_out res\<rparr>) s)"

section \<open>Pulling the input\<close>

definition nkvx_input_pulled_cb :: "hg \<Rightarrow> ('s, 'h) backend \<Rightarrow> hg_ret \<Rightarrow> bytes \<Rightarrow> 'h nkvx_req \<Rightarrow> 's \<Rightarrow> ('s, 'h) service
    \<Rightarrow> ('s, 'h) service" where
  "nkvx_input_pulled_cb hg bk ret data r0 x s =
    (let r = r0\<lparr>rq_push_in_flight := False\<rparr> in
     if ret = HG_CANCELED then nkvx_req_fail IO_ABORTED (r\<lparr>rq_had_push_canceled := True\<rparr>) s
     else if ret \<noteq> HG_SUCCESS then nkvx_req_fail IO_FAILED r s
     else nkvx_req_run_and_deliver hg bk
       (r\<lparr>rq_in := (rq_in r)\<lparr>ei_input_inline := Some data\<rparr>\<rparr>) x s)"

definition nkvx_submit_input_pull :: "hg \<Rightarrow> 'h nkvx_req \<Rightarrow> ('s, 'h) service \<Rightarrow> ('s, 'h) service" where
  "nkvx_submit_input_pull hg r s =
    (let h = rq_handle r; r1 = r\<lparr>rq_input_buf := True\<rparr> in
     if rq_do_not_push r then nkvx_req_fail IO_ABORTED r s
     else if \<not> hg_alloc hg h then nkvx_req_fail IO_NOMEM r s
     else if \<not> hg_bulk_create hg h then nkvx_req_fail IO_FAILED r1 s
     else if \<not> hg_bulk_transfer hg h then nkvx_req_fail IO_FAILED (r1\<lparr>rq_local_input := True\<rparr>) s
     else emit [Ev_transfer h Pull]
       (put_req (r1\<lparr>rq_local_input := True, rq_push_in_flight := True, rq_push_op := Some Pull\<rparr>) s))"

section \<open>The Exec handler\<close>

definition empty_result :: exec_result where
  "empty_result = \<lparr>er_status = IO_SUCCESS, er_result_len = 0, er_buf = None\<rparr>"

definition new_req :: "nat \<Rightarrow> nat \<Rightarrow> 'h exec_in \<Rightarrow> ('s, 'h) service \<Rightarrow> 'h nkvx_req" where
  "new_req handle origin i s = \<lparr>rq_handle = handle, rq_origin = origin, rq_in = i, rq_res = empty_result,
     rq_out = fail_out IO_SUCCESS, rq_input_buf = False, rq_local_input = False, rq_local_result = False,
     rq_op_id = ei_op_id i, rq_call_id = ei_client_call_id i, rq_push_in_flight = False, rq_push_op = None,
     rq_do_not_push = False, rq_had_push_canceled = False, rq_cancel_handle = None,
     rq_stall_ticks = sv_push_stall s, rq_push_pending = False,
     rq_pull_stall_ticks = sv_pull_stall s, rq_pull_pending = False\<rparr>"

definition nkvx_exec_handler :: "hg \<Rightarrow> ('s, 'h) backend \<Rightarrow> nat \<Rightarrow> nat \<Rightarrow> 'h exec_in option \<Rightarrow> ('s, 'h) service \<Rightarrow> ('s, 'h) service" where
  "nkvx_exec_handler hg bk handle origin input s =
    (if \<not> hg_alloc hg handle then emit [Ev_drop handle] s
     else case input of
       None \<Rightarrow> emit [Ev_drop handle] s
     | Some i \<Rightarrow>
         let r = new_req handle origin i s;
             s1 = nkvx_reg_insert r (emit [Ev_accept handle origin (ei_client_call_id i)] s) in
         case sv_executor s of
           None \<Rightarrow> nkvx_req_fail IO_NOT_SUPPORTED r s1
         | Some x \<Rightarrow>
             if ei_input_bulk i \<noteq> None \<and> ei_input_len i > nkvx_inline_max then
               (if rq_pull_stall_ticks r > 0 then put_req (r\<lparr>rq_pull_pending := True\<rparr>) s1
                else nkvx_submit_input_pull hg r s1)
             else nkvx_req_run_and_deliver hg bk r x s1)"

section \<open>The cancel handler\<close>

definition nkvx_cancel_handler :: "hg \<Rightarrow> nat \<Rightarrow> nat \<Rightarrow> nat option \<Rightarrow> ('s, 'h) service \<Rightarrow> ('s, 'h) service" where
  "nkvx_cancel_handler hg handle origin input s =
    (case input of
       None \<Rightarrow> emit [Ev_drop handle] s
     | Some call_id \<Rightarrow>
         let s1 = emit [Ev_cancel handle] s in
         (case nkvx_reg_lookup s origin call_id of
            None \<Rightarrow> emit [Ev_ack handle origin call_id CANCEL_ALREADY_DONE] s1
          | Some r \<Rightarrow>
              if rq_cancel_handle r \<noteq> None then emit [Ev_ack_dup handle] s1
              else
                let r1 = r\<lparr>rq_cancel_handle := Some handle\<rparr> in
                if rq_push_in_flight r then
                  (if hg_bulk_cancel hg (rq_handle r) then emit [Ev_bulk_cancel (rq_handle r)] (put_req r1 s1)
                   else put_req (r1\<lparr>rq_do_not_push := True\<rparr>) s1)
                else put_req (r1\<lparr>rq_do_not_push := True\<rparr>) s1))"

section \<open>The stall countdown\<close>

definition tick_req :: "hg \<Rightarrow> 'h nkvx_req \<Rightarrow> ('s, 'h) service \<Rightarrow> ('s, 'h) service" where
  "tick_req hg r s =
    (if rq_pull_pending r then
       (if rq_do_not_push r then nkvx_req_fail IO_ABORTED (r\<lparr>rq_pull_pending := False\<rparr>) s
        else if rq_pull_stall_ticks r > 0 then put_req (r\<lparr>rq_pull_stall_ticks := rq_pull_stall_ticks r - 1\<rparr>) s
        else nkvx_submit_input_pull hg (r\<lparr>rq_pull_pending := False\<rparr>) s)
     else if rq_push_pending r then
       (if rq_do_not_push r \<and> rq_stall_ticks r = 0 then nkvx_req_fail IO_ABORTED (r\<lparr>rq_push_pending := False\<rparr>) s
        else if rq_stall_ticks r > 0 then put_req (r\<lparr>rq_stall_ticks := rq_stall_ticks r - 1\<rparr>) s
        else nkvx_submit_result_push hg (r\<lparr>rq_push_pending := False\<rparr>) s)
     else s)"

text \<open>
  The walk over the registry keeps the next request before it handles the current one; handling a
  request changes or removes that request only, so the walk sees each request as it was.
\<close>

definition nkvx_service_tick_stalls :: "hg \<Rightarrow> ('s, 'h) service \<Rightarrow> ('s, 'h) service" where
  "nkvx_service_tick_stalls hg s =
    (if sv_push_stall s = 0 \<and> sv_pull_stall s = 0 then s
     else fold (tick_req hg) (sv_inflight s) s)"

section \<open>The KV handler\<close>

definition put_kv :: "'h kv_req \<Rightarrow> ('s, 'h) service \<Rightarrow> ('s, 'h) service" where
  "put_kv r s = s\<lparr>sv_kv := filter (\<lambda>x. kq_handle x \<noteq> kq_handle r) (sv_kv s) @ [r]\<rparr>"

definition nkvx_kv_req_finish :: "'h kv_req \<Rightarrow> ('s, 'h) service \<Rightarrow> ('s, 'h) service" where
  "nkvx_kv_req_finish r s =
    emit ([Ev_kv_respond (kq_handle r) (kq_out r)]
      @ (if kq_local_result r then [Ev_bulk_free (kq_handle r) Push] else [])
      @ (if kq_local_value r then [Ev_bulk_free (kq_handle r) Pull] else []))
      (s\<lparr>sv_kv := filter (\<lambda>x. kq_handle x \<noteq> kq_handle r) (sv_kv s)\<rparr>)"

definition kv_fail_out :: "io_status \<Rightarrow> kv_out" where
  "kv_fail_out st = \<lparr>ko_status = nkvx_status_to_wire (status_code st), ko_result_len = 0, ko_result_inline_len = 0,
     ko_result_inline = None\<rparr>"

definition nkvx_kv_req_fail :: "io_status \<Rightarrow> 'h kv_req \<Rightarrow> ('s, 'h) service \<Rightarrow> ('s, 'h) service" where
  "nkvx_kv_req_fail st r s = nkvx_kv_req_finish (r\<lparr>kq_out := kv_fail_out st\<rparr>) s"

definition nkvx_kv_result_pushed_cb :: "hg_ret \<Rightarrow> 'h kv_req \<Rightarrow> ('s, 'h) service \<Rightarrow> ('s, 'h) service" where
  "nkvx_kv_result_pushed_cb ret r s =
    (if ret \<noteq> HG_SUCCESS then nkvx_kv_req_fail IO_FAILED r s
     else nkvx_kv_req_finish (r\<lparr>kq_out := \<lparr>ko_status = nkvx_status_to_wire (status_code (er_status (kq_res r))),
       ko_result_len = er_result_len (kq_res r), ko_result_inline_len = 0, ko_result_inline = None\<rparr>\<rparr>) s)"

definition nkvx_kv_run_and_deliver :: "hg \<Rightarrow> ('s, 'h) backend \<Rightarrow> 'h kv_req \<Rightarrow> 's \<Rightarrow> ('s, 'h) service \<Rightarrow> ('s, 'h) service" where
  "nkvx_kv_run_and_deliver hg bk r0 x s0 =
    (case bk_kv bk x (kq_in r0) of (res, x') \<Rightarrow>
     let r = r0\<lparr>kq_res := res\<rparr>; s = s0\<lparr>sv_executor := Some x'\<rparr>; h = kq_handle r0 in
     if ki_result_sink (kq_in r) \<noteq> None \<and> buf_len res > nkvx_inline_max then
       (if \<not> hg_bulk_create hg h then nkvx_kv_req_fail IO_FAILED r s
        else if \<not> hg_bulk_transfer hg h then nkvx_kv_req_fail IO_FAILED (r\<lparr>kq_local_result := True\<rparr>) s
        else emit [Ev_transfer h Push] (put_kv (r\<lparr>kq_local_result := True, kq_bulk := Some Push\<rparr>) s))
     else if buf_len res > nkvx_inline_max then nkvx_kv_req_fail IO_NOT_SUPPORTED r s
     else nkvx_kv_req_finish (r\<lparr>kq_out := \<lparr>ko_status = nkvx_status_to_wire (status_code (er_status res)),
       ko_result_len = er_result_len res, ko_result_inline_len = buf_len res, ko_result_inline = er_buf res\<rparr>\<rparr>) s)"

definition nkvx_kv_value_pulled_cb :: "hg \<Rightarrow> ('s, 'h) backend \<Rightarrow> hg_ret \<Rightarrow> bytes \<Rightarrow> 'h kv_req \<Rightarrow> 's \<Rightarrow> ('s, 'h) service
    \<Rightarrow> ('s, 'h) service" where
  "nkvx_kv_value_pulled_cb hg bk ret data r x s =
    (if ret \<noteq> HG_SUCCESS then nkvx_kv_req_fail IO_FAILED r s
     else nkvx_kv_run_and_deliver hg bk (r\<lparr>kq_in := (kq_in r)\<lparr>ki_value_inline := Some data\<rparr>\<rparr>) x s)"

definition nkvx_kv_submit_value_pull :: "hg \<Rightarrow> 'h kv_req \<Rightarrow> ('s, 'h) service \<Rightarrow> ('s, 'h) service" where
  "nkvx_kv_submit_value_pull hg r s =
    (let h = kq_handle r; r1 = r\<lparr>kq_value_buf := True\<rparr> in
     if \<not> hg_alloc hg h then nkvx_kv_req_fail IO_NOMEM r s
     else if \<not> hg_bulk_create hg h then nkvx_kv_req_fail IO_FAILED r1 s
     else if \<not> hg_bulk_transfer hg h then nkvx_kv_req_fail IO_FAILED (r1\<lparr>kq_local_value := True\<rparr>) s
     else emit [Ev_transfer h Pull] (put_kv (r1\<lparr>kq_local_value := True, kq_bulk := Some Pull\<rparr>) s))"

definition new_kv_req :: "nat \<Rightarrow> 'h kv_in \<Rightarrow> 'h kv_req" where
  "new_kv_req handle i = \<lparr>kq_handle = handle, kq_in = i, kq_res = empty_result, kq_out = kv_fail_out IO_SUCCESS,
     kq_value_buf = False, kq_local_value = False, kq_local_result = False, kq_bulk = None\<rparr>"

definition nkvx_kv_handler :: "hg \<Rightarrow> ('s, 'h) backend \<Rightarrow> nat \<Rightarrow> 'h kv_in option \<Rightarrow> ('s, 'h) service \<Rightarrow> ('s, 'h) service" where
  "nkvx_kv_handler hg bk handle input s =
    (if \<not> hg_alloc hg handle then emit [Ev_drop handle] s
     else case input of
       None \<Rightarrow> emit [Ev_drop handle] s
     | Some i \<Rightarrow>
         let r = new_kv_req handle i; s1 = emit [Ev_kv_accept handle] s in
         case sv_executor s of
           None \<Rightarrow> nkvx_kv_req_fail IO_NOT_SUPPORTED r s1
         | Some x \<Rightarrow>
             if ki_value_bulk i \<noteq> None \<and> ki_value_len i > nkvx_inline_max
             then nkvx_kv_submit_value_pull hg r s1
             else nkvx_kv_run_and_deliver hg bk r x s1)"

section \<open>Start-up with in-memory objects\<close>

text \<open>
  The \<^verbatim>\<open>--mem-object KEY=VALUE\<close> arguments: the table they seed, or \<^const>\<open>None\<close> where the service
  refuses to start.
\<close>

definition mem_object_arg :: "string \<Rightarrow> (bytes \<times> bytes) option" where
  "mem_object_arg arg =
    (let key = takeWhile (\<lambda>c. c \<noteq> CHR ''='') arg; enc = map (\<lambda>c. of_char c :: 8 word) in
     if CHR ''='' \<notin> set arg then None
     else if length key = 0 \<or> length key > exec_key_max_len then None
     else Some (enc key, enc (drop (length key + 1) arg)))"

primrec mem_object_seed :: "bool \<Rightarrow> string list \<Rightarrow> mem_obj list \<Rightarrow> mem_obj list option" where
  "mem_object_seed alloc_ok [] t = Some t"
| "mem_object_seed alloc_ok (arg # args) t =
    (case mem_object_arg arg of
       None \<Rightarrow> None
     | Some (key, val) \<Rightarrow>
         (case nkvx_executor_mem_put alloc_ok t (nkvx_key_to_oid key (length key)) val of
            (None, t') \<Rightarrow> mem_object_seed alloc_ok args t'
          | (Some err, t') \<Rightarrow> None))"

end
