(* ===== verification/ServiceSafety.thy ===== *)
theory ServiceSafety
  imports Service
begin

text \<open>
  What the service guarantees over any interleaving of requests, cancels, bulk completions and
  stall ticks: every accepted request is answered exactly once, every cancel is acknowledged exactly
  once, nothing is transferred for a request after a cancel of it is acknowledged, and every request
  in flight has an event pending that brings it closer to its answer.

  Mercury's contract is in the guards of the step relation: a new handle was never used before, and
  a bulk callback comes only for an outstanding transfer. The front's contract is one guard too: a
  call id is not reused while the call it names is in flight.
\<close>

section \<open>Steps\<close>

datatype 'h svc_input =
    In_exec hg nat nat "'h exec_in option"
  | In_cancel hg nat nat "nat option"
  | In_bulk hg nat hg_ret bytes
  | In_tick hg
  | In_kv hg nat "'h kv_in option"
  | In_kv_bulk hg nat hg_ret bytes

definition fresh_handle :: "nat \<Rightarrow> ('s, 'h) service \<Rightarrow> bool" where
  "fresh_handle h s = (Ev_cancel h \<notin> set (sv_log s) \<and> Ev_kv_accept h \<notin> set (sv_log s)
     \<and> (\<forall>og cid. Ev_accept h og cid \<notin> set (sv_log s)))"

inductive svc_step :: "('s, 'h) backend \<Rightarrow> ('s, 'h) service \<Rightarrow> 'h svc_input \<Rightarrow> ('s, 'h) service \<Rightarrow> bool" for bk where
  step_exec: "fresh_handle h s \<Longrightarrow> (\<forall>i. input = Some i \<longrightarrow> nkvx_reg_lookup s og (ei_client_call_id i) = None) \<Longrightarrow>
    svc_step bk s (In_exec hg h og input) (nkvx_exec_handler hg bk h og input s)"
| step_cancel: "fresh_handle h s \<Longrightarrow> svc_step bk s (In_cancel hg h og input) (nkvx_cancel_handler hg h og input s)"
| step_pulled: "r \<in> set (sv_inflight s) \<Longrightarrow> rq_handle r = h \<Longrightarrow> rq_push_in_flight r \<Longrightarrow> rq_push_op r = Some Pull \<Longrightarrow>
    sv_executor s = Some x \<Longrightarrow> svc_step bk s (In_bulk hg h ret data) (nkvx_input_pulled_cb hg bk ret data r x s)"
| step_pushed: "r \<in> set (sv_inflight s) \<Longrightarrow> rq_handle r = h \<Longrightarrow> rq_push_in_flight r \<Longrightarrow> rq_push_op r = Some Push \<Longrightarrow>
    svc_step bk s (In_bulk hg h ret data) (nkvx_result_pushed_cb ret r s)"
| step_tick: "svc_step bk s (In_tick hg) (nkvx_service_tick_stalls hg s)"
| step_kv: "fresh_handle h s \<Longrightarrow> svc_step bk s (In_kv hg h kin) (nkvx_kv_handler hg bk h kin s)"
| step_kv_pulled: "k \<in> set (sv_kv s) \<Longrightarrow> kq_handle k = h \<Longrightarrow> kq_bulk k = Some Pull \<Longrightarrow> sv_executor s = Some x \<Longrightarrow>
    svc_step bk s (In_kv_bulk hg h ret data) (nkvx_kv_value_pulled_cb hg bk ret data k x s)"
| step_kv_pushed: "k \<in> set (sv_kv s) \<Longrightarrow> kq_handle k = h \<Longrightarrow> kq_bulk k = Some Push \<Longrightarrow>
    svc_step bk s (In_kv_bulk hg h ret data) (nkvx_kv_result_pushed_cb ret k s)"

definition svc_init :: "('s, 'h) service \<Rightarrow> bool" where
  "svc_init s = (sv_inflight s = [] \<and> sv_kv s = [] \<and> sv_log s = [])"

section \<open>The invariant\<close>

definition live :: "('s, 'h) service \<Rightarrow> nat set" where
  "live s = rq_handle ` set (sv_inflight s)"

definition key_of :: "'h nkvx_req \<Rightarrow> nat \<times> nat" where
  "key_of r = (rq_origin r, rq_call_id r)"

text \<open>A request in flight waits for exactly one thing: its pull countdown, its push countdown, or a transfer.\<close>

definition phase_ok :: "'h nkvx_req \<Rightarrow> bool" where
  "phase_ok r = ((rq_pull_pending r \<and> \<not> rq_push_pending r \<and> \<not> rq_push_in_flight r)
     \<or> (\<not> rq_pull_pending r \<and> rq_push_pending r \<and> \<not> rq_push_in_flight r)
     \<or> (\<not> rq_pull_pending r \<and> \<not> rq_push_pending r \<and> rq_push_in_flight r \<and> rq_push_op r \<noteq> None))"

fun is_respond :: "nat \<Rightarrow> svc_event \<Rightarrow> bool" where
  "is_respond h (Ev_respond h' _) = (h' = h)"
| "is_respond h _ = False"

fun is_accept :: "nat \<Rightarrow> svc_event \<Rightarrow> bool" where
  "is_accept h (Ev_accept h' _ _) = (h' = h)"
| "is_accept h _ = False"

fun is_ack :: "nat \<Rightarrow> svc_event \<Rightarrow> bool" where
  "is_ack ch (Ev_ack ch' _ _ _) = (ch' = ch)"
| "is_ack ch (Ev_ack_dup ch') = (ch' = ch)"
| "is_ack ch _ = False"

definition stashed :: "('s, 'h) service \<Rightarrow> nat \<Rightarrow> nat" where
  "stashed s ch = length (filter (\<lambda>r. rq_cancel_handle r = Some ch) (sv_inflight s))"

definition quiet :: "nat set \<Rightarrow> svc_event list \<Rightarrow> bool" where
  "quiet L log = (\<forall>xs ch og cid a ys h. log = xs @ Ev_ack ch og cid a # ys \<longrightarrow> Ev_accept h og cid \<in> set xs \<longrightarrow>
     h \<notin> L \<and> (\<forall>op. Ev_transfer h op \<notin> set ys))"

definition svc_inv :: "('s, 'h) service \<Rightarrow> bool" where
  "svc_inv s =
    (distinct (map rq_handle (sv_inflight s)) \<and> distinct (map key_of (sv_inflight s))
     \<and> (\<forall>r \<in> set (sv_inflight s). phase_ok r
          \<and> (\<forall>og cid. Ev_accept (rq_handle r) og cid \<in> set (sv_log s) \<longleftrightarrow> (og, cid) = key_of r))
     \<and> (\<forall>h. occurs (is_accept h) (sv_log s) = occurs (is_respond h) (sv_log s) + (if h \<in> live s then 1 else 0))
     \<and> (\<forall>h. occurs (is_accept h) (sv_log s) \<le> 1)
     \<and> (\<forall>ch. occurs ((=) (Ev_cancel ch)) (sv_log s) = occurs (is_ack ch) (sv_log s) + stashed s ch)
     \<and> (\<forall>ch. occurs ((=) (Ev_cancel ch)) (sv_log s) \<le> 1)
     \<and> quiet (live s) (sv_log s))"

section \<open>How a handler leaves a request\<close>

text \<open>
  Every handler either finishes its request, or stores it back waiting for one thing, having
  submitted at most one transfer for it.
\<close>

definition same_req :: "'h nkvx_req \<Rightarrow> 'h nkvx_req \<Rightarrow> bool" where
  "same_req r r' = (rq_handle r' = rq_handle r \<and> key_of r' = key_of r \<and> rq_cancel_handle r' = rq_cancel_handle r
     \<and> (rq_pull_pending r' \<longrightarrow> rq_pull_pending r \<or> rq_pull_stall_ticks r > 0)
     \<and> (rq_push_pending r' \<longrightarrow> rq_push_pending r \<or> rq_stall_ticks r > 0)
     \<and> rq_stall_ticks r' \<le> rq_stall_ticks r \<and> rq_pull_stall_ticks r' \<le> rq_pull_stall_ticks r)"

inductive req_effect :: "'h nkvx_req \<Rightarrow> ('s, 'h) service \<Rightarrow> ('s, 'h) service \<Rightarrow> bool" for r s where
  finished: "same_req r r' \<Longrightarrow> req_effect r s (nkvx_req_finish r' (s\<lparr>sv_executor := x\<rparr>))"
| parked: "same_req r r' \<Longrightarrow> phase_ok r' \<Longrightarrow> req_effect r s (put_req r' (s\<lparr>sv_executor := x\<rparr>))"
| moved: "same_req r r' \<Longrightarrow> phase_ok r' \<Longrightarrow>
    req_effect r s (emit [Ev_transfer (rq_handle r) op] (put_req r' (s\<lparr>sv_executor := x\<rparr>)))"

lemma sv_executor_id: "s\<lparr>sv_executor := sv_executor s\<rparr> = s"
  by simp

lemmas finished_same = finished [where x = "sv_executor s" and s = s for s, unfolded sv_executor_id]
lemmas parked_same = parked [where x = "sv_executor s" and s = s for s, unfolded sv_executor_id]
lemmas moved_same = moved [where x = "sv_executor s" and s = s for s, unfolded sv_executor_id]

named_theorems service_defs
lemmas [service_defs] = nkvx_req_fail_def nkvx_submit_result_push_def nkvx_submit_input_pull_def Let_def

lemma submit_push_effect:
  assumes "same_req r r'" "\<not> rq_pull_pending r'" "\<not> rq_push_pending r'"
  shows "req_effect r s (nkvx_submit_result_push hg r' (s\<lparr>sv_executor := x\<rparr>))"
proof -
  have "rq_handle r' = rq_handle r" using assms(1) by (simp add: same_req_def)
  then show ?thesis using assms
    by (auto simp: service_defs same_req_def key_of_def phase_ok_def intro!: finished moved)
qed

lemma submit_pull_effect:
  assumes "same_req r r'" "\<not> rq_pull_pending r'" "\<not> rq_push_pending r'"
  shows "req_effect r s (nkvx_submit_input_pull hg r' s)"
proof -
  have "rq_handle r' = rq_handle r" using assms(1) by (simp add: same_req_def)
  then show ?thesis using assms
    by (auto simp: service_defs same_req_def key_of_def phase_ok_def intro!: finished_same moved_same)
qed

lemma run_and_deliver_effect:
  assumes "same_req r r'" "\<not> rq_pull_pending r'" "\<not> rq_push_pending r'" "\<not> rq_push_in_flight r'"
  shows "req_effect r s (nkvx_req_run_and_deliver hg bk r' x s)"
  using assms
  by (auto simp: nkvx_req_run_and_deliver_def nkvx_req_fail_def Let_def same_req_def key_of_def phase_ok_def
      intro!: finished parked submit_push_effect split: prod.splits)

lemma pulled_effect:
  assumes "phase_ok r" "rq_push_in_flight r"
  shows "req_effect r s (nkvx_input_pulled_cb hg bk ret data r x s)"
  using assms
  by (auto simp: nkvx_input_pulled_cb_def nkvx_req_fail_def Let_def same_req_def key_of_def phase_ok_def
      intro!: finished_same run_and_deliver_effect)

lemma pushed_effect: "req_effect r s (nkvx_result_pushed_cb ret r s)"
  by (auto simp: nkvx_result_pushed_cb_def nkvx_req_fail_def Let_def same_req_def key_of_def intro!: finished_same)

lemma tick_effect:
  assumes "phase_ok r"
  shows "req_effect r s (tick_req hg r s) \<or> tick_req hg r s = s"
  using assms
  by (auto simp: tick_req_def nkvx_req_fail_def same_req_def key_of_def phase_ok_def
      intro!: finished_same parked_same submit_pull_effect submit_push_effect [where x = "sv_executor s" and s = s, simplified])

section \<open>Preservation\<close>

lemma svc_invD:
  assumes "svc_inv s"
  shows "distinct (map rq_handle (sv_inflight s))" "distinct (map key_of (sv_inflight s))"
    "r \<in> set (sv_inflight s) \<Longrightarrow> phase_ok r"
    "r \<in> set (sv_inflight s) \<Longrightarrow> Ev_accept (rq_handle r) og cid \<in> set (sv_log s) \<longleftrightarrow> (og, cid) = key_of r"
    "occurs (is_accept h) (sv_log s) = occurs (is_respond h) (sv_log s) + (if h \<in> live s then 1 else 0)"
    "occurs (is_accept h) (sv_log s) \<le> 1"
    "occurs ((=) (Ev_cancel ch)) (sv_log s) = occurs (is_ack ch) (sv_log s) + stashed s ch"
    "occurs ((=) (Ev_cancel ch)) (sv_log s) \<le> 1"
    "quiet (live s) (sv_log s)"
  using assms unfolding svc_inv_def by blast+

lemma quiet_mono: "quiet L log \<Longrightarrow> L' \<subseteq> L \<Longrightarrow> quiet L' log"
  unfolding quiet_def by blast

lemma quiet_snoc:
  assumes "quiet L log" "\<And>h op. e = Ev_transfer h op \<Longrightarrow> h \<in> L \<or> (\<forall>og cid. Ev_accept h og cid \<notin> set log)"
    and "\<And>ch og cid a h. e = Ev_ack ch og cid a \<Longrightarrow> Ev_accept h og cid \<in> set log \<Longrightarrow> h \<notin> L"
  shows "quiet L (log @ [e])"
  unfolding quiet_def
proof (intro allI impI)
  fix xs ch og cid a ys h
  assume sp: "log @ [e] = xs @ Ev_ack ch og cid a # ys" and acc: "Ev_accept h og cid \<in> set xs"
  show "h \<notin> L \<and> (\<forall>op. Ev_transfer h op \<notin> set ys)"
  proof (cases ys rule: rev_cases)
    case Nil
    then have "log = xs" "e = Ev_ack ch og cid a" using sp by simp_all
    then show ?thesis using assms(3) acc Nil by auto
  next
    case (snoc ys' y)
    then have "log = xs @ Ev_ack ch og cid a # ys'" "y = e" using sp by simp_all
    then show ?thesis using assms(1,2) acc snoc unfolding quiet_def by auto
  qed
qed

definition neutral :: "svc_event \<Rightarrow> bool" where
  "neutral e = ((\<forall>h op. e \<noteq> Ev_transfer h op) \<and> (\<forall>ch og cid a. e \<noteq> Ev_ack ch og cid a))"

lemma quiet_neutral: "quiet L log \<Longrightarrow> list_all neutral es \<Longrightarrow> quiet L (log @ es)"
proof (induction es arbitrary: log)
  case (Cons e es)
  then have "quiet L (log @ [e])" by (intro quiet_snoc) (auto simp: neutral_def)
  from Cons.IH [OF this] Cons.prems show ?case by simp
qed simp

lemma finish_inv:
  assumes "svc_inv s" "r \<in> set (sv_inflight s)" "same_req r r'"
  shows "svc_inv (nkvx_req_finish r' s)"
proof -
  let ?h = "rq_handle r" and ?s = "nkvx_req_finish r' s"
  obtain xs ys where sp: "sv_inflight s = xs @ r # ys" "\<forall>x \<in> set xs \<union> set ys. rq_handle x \<noteq> ?h"
    using keyed_split [OF svc_invD(1) [OF assms(1)] assms(2)] by blast
  have h': "rq_handle r' = ?h" "key_of r' = key_of r" "rq_cancel_handle r' = rq_cancel_handle r"
    using assms(3) by (simp_all add: same_req_def)
  have inf: "sv_inflight ?s = xs @ ys"
    using sp by (simp add: nkvx_req_finish_def nkvx_reg_remove_def emit_def h' filter_other)
  have live: "live ?s = live s - {?h}" "?h \<in> live s" unfolding live_def inf sp(1) using sp(2) by auto
  define es where "es = Ev_respond ?h (rq_out r') # (if rq_local_result r' then [Ev_bulk_free ?h Push] else [])
      @ (if rq_local_input r' then [Ev_bulk_free ?h Pull] else [])"
  have log: "sv_log ?s = (sv_log s @ es) @ req_ack r'"
    by (simp add: nkvx_req_finish_def nkvx_reg_remove_def emit_def h' es_def)
  have es: "list_all neutral es" "occurs (is_respond h) es = (if h = ?h then 1 else 0)" "occurs (is_accept h) es = 0"
    "occurs (is_ack ch) es = 0" "occurs ((=) (Ev_cancel ch)) es = 0" "Ev_accept h og cid \<notin> set es" for h ch og cid
    by (simp_all add: es_def neutral_def)
  have ack: "occurs (is_respond h) (req_ack r') = 0" "occurs (is_accept h) (req_ack r') = 0"
    "occurs (is_ack ch) (req_ack r') = (if rq_cancel_handle r = Some ch then 1 else 0)"
    "occurs ((=) (Ev_cancel ch)) (req_ack r') = 0" "Ev_accept h og cid \<notin> set (req_ack r')" for h ch og cid
    by (simp_all add: req_ack_def h' split: option.splits)
  have st: "stashed s ch = stashed ?s ch + (if rq_cancel_handle r = Some ch then 1 else 0)" for ch
    unfolding stashed_def inf sp(1) by simp
  have others: "\<forall>x \<in> set xs \<union> set ys. key_of x \<noteq> key_of r"
    using assms(1) sp(1) by (auto simp: svc_inv_def image_iff)
  have "quiet (live ?s) (sv_log s @ es)"
    using assms(1) live(1) es(1) by (auto simp: svc_inv_def intro!: quiet_neutral elim: quiet_mono)
  moreover have "quiet (live ?s) (log' @ req_ack r')" if "quiet (live ?s) log'"
    "\<forall>h og cid. Ev_accept h og cid \<in> set log' \<longrightarrow> Ev_accept h og cid \<in> set (sv_log s)" for log'
  proof -
    have "h \<notin> live ?s" if a: "Ev_accept h (rq_origin r) (rq_call_id r) \<in> set (sv_log s)" for h
    proof
      assume "h \<in> live ?s"
      then obtain x where x: "x \<in> set xs \<union> set ys" "rq_handle x = h" unfolding live_def inf by auto
      then have "key_of x = (rq_origin r, rq_call_id r)" using assms(1) sp(1) a by (auto simp: svc_inv_def)
      then show False using others x(1) by (auto simp: key_of_def)
    qed
    then show ?thesis using that h'(2) by (auto simp: req_ack_def key_of_def intro!: quiet_snoc split: option.splits)
  qed
  ultimately have q: "quiet (live ?s) (sv_log ?s)" unfolding log using es(6) by (auto simp del: append_assoc)
  have "phase_ok x \<and> (\<forall>og cid. Ev_accept (rq_handle x) og cid \<in> set (sv_log ?s) \<longleftrightarrow> (og, cid) = key_of x)"
    if "x \<in> set (sv_inflight ?s)" for x
    using that assms(1) es(6) ack(5) unfolding log inf svc_inv_def sp(1) by auto
  moreover have "distinct (map rq_handle (sv_inflight ?s))" "distinct (map key_of (sv_inflight ?s))"
    using svc_invD(1,2) [OF assms(1)] unfolding inf sp(1) by simp_all
  moreover have "occurs (is_accept h) (sv_log ?s) = occurs (is_respond h) (sv_log ?s) + (if h \<in> live ?s then 1 else 0)"
    "occurs (is_accept h) (sv_log ?s) \<le> 1" for h
    using svc_invD(5,6) [OF assms(1), of h] live es(2,3) ack(1,2) by (simp_all add: log)
  moreover have "occurs ((=) (Ev_cancel ch)) (sv_log ?s) = occurs (is_ack ch) (sv_log ?s) + stashed ?s ch"
    "occurs ((=) (Ev_cancel ch)) (sv_log ?s) \<le> 1" for ch
    using svc_invD(7,8) [OF assms(1), of ch] st es(4,5) ack(3,4) by (simp_all add: log)
  ultimately show ?thesis using q unfolding svc_inv_def by blast
qed

text \<open>Storing a request back: its identity is kept, its stashed cancel may be new.\<close>

lemma put_req_inv:
  assumes "svc_inv s" "r \<in> set (sv_inflight s)" "rq_handle r' = rq_handle r" "key_of r' = key_of r" "phase_ok r'"
    and es: "es = [] \<or> es = [Ev_transfer (rq_handle r) op] \<or> es = [Ev_bulk_cancel (rq_handle r)]"
    and ch: "rq_cancel_handle r' = rq_cancel_handle r"
  shows "svc_inv (emit es (put_req r' s))"
proof -
  let ?h = "rq_handle r" and ?s = "emit es (put_req r' s)"
  obtain xs ys where sp: "sv_inflight s = xs @ r # ys" "\<forall>x \<in> set xs \<union> set ys. rq_handle x \<noteq> ?h"
    using keyed_split [OF svc_invD(1) [OF assms(1)] assms(2)] by blast
  have inf: "sv_inflight ?s = xs @ r' # ys"
    using sp assms(3) by (simp add: put_req_def emit_def map_other)
  have live: "live ?s = live s" "?h \<in> live s" unfolding live_def inf sp(1) using assms(3) by auto
  have log: "sv_log ?s = sv_log s @ es" by (simp add: put_req_def emit_def)
  have n: "occurs (is_respond h) es = 0" "occurs (is_accept h) es = 0" "occurs (is_ack c) es = 0"
    "occurs ((=) (Ev_cancel c)) es = 0" "Ev_accept h og cid \<notin> set es" for h c og cid
    using es by auto
  have "quiet (live ?s) (sv_log ?s)"
    using es svc_invD(9) [OF assms(1)] live unfolding log by (auto intro!: quiet_snoc)
  moreover have "phase_ok x \<and> (\<forall>og cid. Ev_accept (rq_handle x) og cid \<in> set (sv_log ?s) \<longleftrightarrow> (og, cid) = key_of x)"
    if "x \<in> set (sv_inflight ?s)" for x
    using that svc_invD(3,4) [OF assms(1)] assms(2-5) n(5) unfolding log inf sp(1) by auto
  moreover have "distinct (map rq_handle (sv_inflight ?s))" "distinct (map key_of (sv_inflight ?s))"
    using svc_invD(1,2) [OF assms(1)] assms(3,4) unfolding inf sp(1) by simp_all
  moreover have "occurs (is_accept h) (sv_log ?s) = occurs (is_respond h) (sv_log ?s) + (if h \<in> live ?s then 1 else 0)"
    "occurs (is_accept h) (sv_log ?s) \<le> 1" for h
    using svc_invD(5,6) [OF assms(1), of h] live n(1,2) by (simp_all add: log)
  moreover have "occurs ((=) (Ev_cancel c)) (sv_log ?s) = occurs (is_ack c) (sv_log ?s) + stashed ?s c"
    "occurs ((=) (Ev_cancel c)) (sv_log ?s) \<le> 1" for c
    using svc_invD(7,8) [OF assms(1), of c] n(3,4) ch by (simp_all add: log stashed_def inf sp(1))
  ultimately show ?thesis unfolding svc_inv_def by blast
qed

lemma inv_executor [simp]: "svc_inv (s\<lparr>sv_executor := x\<rparr>) = svc_inv s"
  by (simp add: svc_inv_def live_def stashed_def)

lemma effect_inv:
  assumes "req_effect r s s'" "svc_inv s" "r \<in> set (sv_inflight s)"
  shows "svc_inv s'"
  using assms
proof cases
  case (finished r' x)
  then show ?thesis using assms(2,3) by (auto intro!: finish_inv [where r = r])
next
  case (parked r' x)
  then show ?thesis using assms(2,3) put_req_inv [of "s\<lparr>sv_executor := x\<rparr>" r r' "[]"]
    by (simp add: same_req_def emit_def)
next
  case (moved r' op x)
  then show ?thesis using assms(2,3) by (auto simp: same_req_def intro!: put_req_inv [where r = r])
qed

lemma put_req_inv0:
  assumes "svc_inv s" "r \<in> set (sv_inflight s)" "rq_handle r' = rq_handle r" "key_of r' = key_of r" "phase_ok r'"
    and "rq_cancel_handle r' = rq_cancel_handle r"
  shows "svc_inv (put_req r' s)"
  using put_req_inv [OF assms(1-5), of "[]"] assms(6) by (simp add: emit_def)

lemma effect_others:
  assumes "req_effect r s s'" "x \<in> set (sv_inflight s)" "rq_handle x \<noteq> rq_handle r"
  shows "x \<in> set (sv_inflight s')"
  using assms by cases (auto simp: nkvx_req_finish_def nkvx_reg_remove_def put_req_def emit_def same_req_def)

lemma tick_fold_inv:
  assumes "svc_inv s" "distinct (map rq_handle rs)" "set rs \<subseteq> set (sv_inflight s)"
  shows "svc_inv (fold (tick_req hg) rs s)"
  using assms
proof (induction rs arbitrary: s)
  case (Cons r rs)
  then have r: "r \<in> set (sv_inflight s)" "phase_ok r" by (auto simp: svc_invD(3))
  have "svc_inv (tick_req hg r s) \<and> set rs \<subseteq> set (sv_inflight (tick_req hg r s))"
    using tick_effect [OF r(2), of s hg]
  proof
    assume e: "req_effect r s (tick_req hg r s)"
    have "\<forall>x \<in> set rs. rq_handle x \<noteq> rq_handle r" using Cons.prems(2) by (auto simp: image_iff)
    then show ?thesis using effect_inv [OF e Cons.prems(1) r(1)] effect_others [OF e] Cons.prems(3) by auto
  qed (use Cons.prems in simp)
  then show ?case using Cons.IH Cons.prems(2) by simp
qed simp

lemma tick_inv: "svc_inv s \<Longrightarrow> svc_inv (nkvx_service_tick_stalls hg s)"
  by (simp add: nkvx_service_tick_stalls_def tick_fold_inv svc_invD(1))

subsection \<open>Accepting a request\<close>

lemma not_accepted:
  assumes "\<forall>og cid. Ev_accept h og cid \<notin> set log"
  shows "occurs (is_accept h) log = 0"
proof -
  have "\<not> is_accept h e" if "e \<in> set log" for e using assms that by (cases e) auto
  then show ?thesis by (simp add: occurs_0_iff)
qed

lemma fresh_not_live:
  assumes "svc_inv s" "fresh_handle h s"
  shows "h \<notin> live s"
proof
  assume "h \<in> live s"
  then obtain x where x: "x \<in> set (sv_inflight s)" "rq_handle x = h" by (auto simp: live_def)
  then have "Ev_accept h (rq_origin x) (rq_call_id x) \<in> set (sv_log s)"
    using svc_invD(4) [OF assms(1) x(1)] by (simp add: key_of_def)
  then show False using assms(2) by (simp add: fresh_handle_def)
qed

text \<open>
  Between its registration and its first wait a new request is in no phase yet; what holds then is
  the invariant of the state with the request stored back in a waiting phase.
\<close>

lemma accept_inv:
  assumes "svc_inv s" "fresh_handle (rq_handle r) s" "nkvx_reg_lookup s (rq_origin r) (rq_call_id r) = None"
    and "rq_cancel_handle r = None" "phase_ok r"
  shows "svc_inv (nkvx_reg_insert r (emit [Ev_accept (rq_handle r) (rq_origin r) (rq_call_id r)] s))" (is "svc_inv ?s")
proof -
  let ?h = "rq_handle r"
  have fresh: "\<forall>og cid. Ev_accept ?h og cid \<notin> set (sv_log s)" using assms(2) by (simp add: fresh_handle_def)
  have inf: "sv_inflight ?s = sv_inflight s @ [r]" and log: "sv_log ?s = sv_log s @ [Ev_accept ?h (rq_origin r) (rq_call_id r)]"
    by (simp_all add: nkvx_reg_insert_def emit_def)
  have nl: "?h \<notin> live s" using assms(1,2) by (rule fresh_not_live)
  have nk: "key_of r \<notin> key_of ` set (sv_inflight s)"
    using assms(3) by (auto simp: nkvx_reg_lookup_def find_None_iff key_of_def)
  have live: "live ?s = insert ?h (live s)" by (auto simp: live_def inf)
  have "quiet (live ?s) (sv_log s)"
    using svc_invD(9) [OF assms(1)] fresh unfolding quiet_def live by auto
  then have "quiet (live ?s) (sv_log ?s)" unfolding log by (rule quiet_snoc) simp_all
  moreover have "distinct (map rq_handle (sv_inflight ?s))" "distinct (map key_of (sv_inflight ?s))"
    using svc_invD(1,2) [OF assms(1)] nl nk unfolding inf live_def by simp_all
  moreover have "phase_ok x \<and> (\<forall>og cid. Ev_accept (rq_handle x) og cid \<in> set (sv_log ?s) \<longleftrightarrow> (og, cid) = key_of x)"
    if "x \<in> set (sv_inflight ?s)" for x
    using that svc_invD(3,4) [OF assms(1)] assms(5) fresh nl unfolding log inf live_def by (auto simp: key_of_def image_iff)
  moreover have "occurs (is_accept h) (sv_log ?s) = occurs (is_respond h) (sv_log ?s) + (if h \<in> live ?s then 1 else 0)"
    "occurs (is_accept h) (sv_log ?s) \<le> 1" for h
    using svc_invD(5,6) [OF assms(1), of h] nl not_accepted [OF fresh] by (auto simp: log live)
  moreover have "occurs ((=) (Ev_cancel c)) (sv_log ?s) = occurs (is_ack c) (sv_log ?s) + stashed ?s c"
    "occurs ((=) (Ev_cancel c)) (sv_log ?s) \<le> 1" for c
    using svc_invD(7,8) [OF assms(1), of c] assms(4) by (simp_all add: log stashed_def inf)
  ultimately show ?thesis unfolding svc_inv_def by blast
qed

text \<open>The outcome of a handler does not depend on what the registry holds for its own request.\<close>

lemma effect_put:
  assumes "req_effect r (nkvx_reg_insert r s) s'" "r0 = r\<lparr>rq_pull_pending := True, rq_push_pending := False, rq_push_in_flight := False\<rparr>"
    and "\<not> rq_push_pending r"
  shows "req_effect r0 (nkvx_reg_insert r0 s) s'"
proof -
  have ids: "same_req r r' \<Longrightarrow> same_req r0 r'" "rq_handle r0 = rq_handle r" for r'
    using assms(3) by (auto simp: assms(2) same_req_def key_of_def)
  have fin: "nkvx_req_finish r' ((nkvx_reg_insert r s)\<lparr>sv_executor := x\<rparr>) = nkvx_req_finish r' ((nkvx_reg_insert r0 s)\<lparr>sv_executor := x\<rparr>)"
    "put_req r' ((nkvx_reg_insert r s)\<lparr>sv_executor := x\<rparr>) = put_req r' ((nkvx_reg_insert r0 s)\<lparr>sv_executor := x\<rparr>)"
    if "same_req r r'" for r' x
    using that ids(2) by (simp_all add: same_req_def nkvx_req_finish_def nkvx_reg_remove_def nkvx_reg_insert_def put_req_def emit_def)
  from assms(1) show ?thesis
  proof cases
    case (finished r' x)
    then show ?thesis using req_effect.finished [of r0 r' "nkvx_reg_insert r0 s" x] ids(1) fin by simp
  next
    case (parked r' x)
    then show ?thesis using req_effect.parked [of r0 r' "nkvx_reg_insert r0 s" x] ids(1) fin by simp
  next
    case (moved r' op x)
    then show ?thesis using req_effect.moved [of r0 r' "nkvx_reg_insert r0 s" op x] ids fin by simp
  qed
qed

lemma new_req_simps [simp]:
  "rq_handle (new_req h og i s) = h" "rq_origin (new_req h og i s) = og" "rq_call_id (new_req h og i s) = ei_client_call_id i"
  "rq_cancel_handle (new_req h og i s) = None" "\<not> rq_pull_pending (new_req h og i s)" "\<not> rq_push_pending (new_req h og i s)"
  "\<not> rq_push_in_flight (new_req h og i s)" "rq_in (new_req h og i s) = i"
  "rq_stall_ticks (new_req h og i s) = sv_push_stall s" "rq_pull_stall_ticks (new_req h og i s) = sv_pull_stall s"
  by (simp_all add: new_req_def)

lemma same_req_refl [simp]: "same_req r r"
  by (simp add: same_req_def)

lemma exec_effect:
  assumes "nkvx_exec_handler hg bk h og (Some i) s = s'" "hg_alloc hg h" "r = new_req h og i s"
  shows "req_effect r (nkvx_reg_insert r (emit [Ev_accept h og (ei_client_call_id i)] s)) s'"
  unfolding assms(1) [symmetric] nkvx_exec_handler_def Let_def assms(3) [symmetric]
  by (auto simp: assms(2,3) nkvx_req_fail_def same_req_def key_of_def phase_ok_def split: option.splits
      intro!: finished_same parked_same submit_pull_effect run_and_deliver_effect)

lemma exec_inv_step:
  assumes "svc_inv s" "fresh_handle h s" "\<forall>i. input = Some i \<longrightarrow> nkvx_reg_lookup s og (ei_client_call_id i) = None"
  shows "svc_inv (nkvx_exec_handler hg bk h og input s)"
proof (cases "hg_alloc hg h \<and> input \<noteq> None")
  case False
  have "svc_inv (emit [Ev_drop h] s)"
    using svc_invD [OF assms(1)] unfolding svc_inv_def
    by (auto simp: emit_def live_def stashed_def intro!: quiet_snoc)
  then show ?thesis using False by (auto simp: nkvx_exec_handler_def split: option.splits)
next
  case True
  then obtain i where i: "input = Some i" by auto
  let ?r = "new_req h og i s" and ?s = "emit [Ev_accept h og (ei_client_call_id i)] s"
  let ?q = "?r\<lparr>rq_pull_pending := True, rq_push_pending := False, rq_push_in_flight := False\<rparr>"
  have "svc_inv (nkvx_reg_insert ?q ?s)"
    using accept_inv [OF assms(1), of ?q] assms(2,3) i by (simp add: phase_ok_def)
  moreover have "req_effect ?r (nkvx_reg_insert ?r ?s) (nkvx_exec_handler hg bk h og input s)"
    unfolding i using True by (intro exec_effect [OF refl _ refl]) simp
  from effect_put [OF this refl]
  have "req_effect ?q (nkvx_reg_insert ?q ?s) (nkvx_exec_handler hg bk h og input s)" by simp
  moreover have "?q \<in> set (sv_inflight (nkvx_reg_insert ?q ?s))" by (simp add: nkvx_reg_insert_def)
  ultimately show ?thesis using effect_inv by blast
qed

subsection \<open>A cancel\<close>

lemma lookup_req: "nkvx_reg_lookup s og cid = Some r \<Longrightarrow> r \<in> set (sv_inflight s) \<and> key_of r = (og, cid)"
  by (auto simp: nkvx_reg_lookup_def key_of_def find_Some_iff)

lemma stash_inv:
  assumes "svc_inv s" "r \<in> set (sv_inflight s)" "rq_cancel_handle r = None" "fresh_handle ch s"
    and "r' = r\<lparr>rq_cancel_handle := Some ch, rq_do_not_push := d\<rparr>" "es = [] \<or> es = [Ev_bulk_cancel (rq_handle r)]"
  shows "svc_inv (emit es (put_req r' (emit [Ev_cancel ch] s)))" (is "svc_inv ?s")
proof -
  let ?h = "rq_handle r"
  obtain xs ys where sp: "sv_inflight s = xs @ r # ys" "\<forall>x \<in> set xs \<union> set ys. rq_handle x \<noteq> ?h"
    using keyed_split [OF svc_invD(1) [OF assms(1)] assms(2)] by blast
  have ids: "rq_handle r' = ?h" "key_of r' = key_of r" "phase_ok r' = phase_ok r"
    by (simp_all add: assms(5) key_of_def phase_ok_def)
  have inf: "sv_inflight ?s = xs @ r' # ys" using sp ids(1) by (simp add: put_req_def emit_def map_other)
  have live: "live ?s = live s" unfolding live_def inf sp(1) using ids(1) by auto
  have log: "sv_log ?s = sv_log s @ Ev_cancel ch # es" by (simp add: put_req_def emit_def)
  have nc: "occurs ((=) (Ev_cancel ch)) (sv_log s) = 0"
    using assms(4) by (auto simp: fresh_handle_def occurs_0_iff)
  have "quiet (live ?s) (sv_log ?s)"
    using svc_invD(9) [OF assms(1)] assms(6) unfolding log live by (auto simp: neutral_def intro!: quiet_neutral)
  moreover have "phase_ok x \<and> (\<forall>og cid. Ev_accept (rq_handle x) og cid \<in> set (sv_log ?s) \<longleftrightarrow> (og, cid) = key_of x)"
    if "x \<in> set (sv_inflight ?s)" for x
    using that svc_invD(3,4) [OF assms(1)] assms(2,6) ids unfolding log inf sp(1) by auto
  moreover have "distinct (map rq_handle (sv_inflight ?s))" "distinct (map key_of (sv_inflight ?s))"
    using svc_invD(1,2) [OF assms(1)] ids unfolding inf sp(1) by simp_all
  moreover have "occurs (is_accept h) (sv_log ?s) = occurs (is_respond h) (sv_log ?s) + (if h \<in> live ?s then 1 else 0)"
    "occurs (is_accept h) (sv_log ?s) \<le> 1" for h
    using svc_invD(5,6) [OF assms(1), of h] live assms(6) by (auto simp: log)
  moreover have "stashed ?s c = stashed s c + (if c = ch then 1 else 0)" for c
    unfolding stashed_def inf sp(1) using assms(3,5) by simp
  then have "occurs ((=) (Ev_cancel c)) (sv_log ?s) = occurs (is_ack c) (sv_log ?s) + stashed ?s c"
    "occurs ((=) (Ev_cancel c)) (sv_log ?s) \<le> 1" for c
    using svc_invD(7,8) [OF assms(1), of c] nc assms(6) by (auto simp: log)
  ultimately show ?thesis unfolding svc_inv_def by blast
qed

lemma log_inv:
  assumes "svc_inv s" "sv_inflight s' = sv_inflight s" "sv_log s' = sv_log s @ es"
    and "\<And>h. occurs (is_accept h) es = 0" "\<And>h. occurs (is_respond h) es = 0" "quiet (live s) (sv_log s @ es)"
    and "\<And>c. occurs ((=) (Ev_cancel c)) es = occurs (is_ack c) es" "\<And>c. occurs ((=) (Ev_cancel c)) (sv_log s @ es) \<le> 1"
  shows "svc_inv s'"
proof -
  have live: "live s' = live s" "stashed s' c = stashed s c" for c by (simp_all add: live_def stashed_def assms(2))
  have "Ev_accept h og cid \<notin> set es" for h og cid using assms(4) [of h] by (auto simp: occurs_0_iff)
  then have "phase_ok x \<and> (\<forall>og cid. Ev_accept (rq_handle x) og cid \<in> set (sv_log s') \<longleftrightarrow> (og, cid) = key_of x)"
    if "x \<in> set (sv_inflight s')" for x
    using that svc_invD(3,4) [OF assms(1)] unfolding assms(2,3) by auto
  moreover have "occurs (is_accept h) (sv_log s') = occurs (is_respond h) (sv_log s') + (if h \<in> live s' then 1 else 0)"
    "occurs (is_accept h) (sv_log s') \<le> 1" for h
    using svc_invD(5,6) [OF assms(1), of h] assms(4,5) live by (simp_all add: assms(3))
  moreover have "occurs ((=) (Ev_cancel c)) (sv_log s') = occurs (is_ack c) (sv_log s') + stashed s' c"
    "occurs ((=) (Ev_cancel c)) (sv_log s') \<le> 1" for c
    using svc_invD(7) [OF assms(1), of c] assms(7,8) [of c] live by (simp_all add: assms(3))
  ultimately show ?thesis using svc_invD(1,2) [OF assms(1)] assms(2,6) live(1)
    unfolding svc_inv_def by (auto simp: assms(3))
qed

lemma cancel_inv_step:
  assumes "svc_inv s" "fresh_handle ch s"
  shows "svc_inv (nkvx_cancel_handler hg ch og input s)"
proof -
  have nc: "occurs ((=) (Ev_cancel ch)) (sv_log s) = 0" using assms(2) by (auto simp: fresh_handle_def occurs_0_iff)
  have one: "occurs ((=) (Ev_cancel c)) (sv_log s) + (if c = ch then 1 else 0) \<le> 1" for c
    using nc svc_invD(8) [OF assms(1), of c] by simp
  have q1: "quiet (live s) (sv_log s @ [Ev_cancel ch])"
    using svc_invD(9) [OF assms(1)] by (intro quiet_snoc) auto
  show ?thesis
  proof (cases input)
    case None
    then show ?thesis using svc_invD(8,9) [OF assms(1)]
      by (auto simp: nkvx_cancel_handler_def emit_def intro!: log_inv [OF assms(1), where es = "[Ev_drop ch]"] quiet_snoc)
  next
    case (Some cid)
    show ?thesis
    proof (cases "nkvx_reg_lookup s og cid")
      case None
      have "h \<notin> live s" if "Ev_accept h og cid \<in> set (sv_log s)" for h
        using None that svc_invD(4) [OF assms(1)] by (auto simp: nkvx_reg_lookup_def find_None_iff live_def key_of_def)
      then have "quiet (live s) (sv_log s @ [Ev_cancel ch, Ev_ack ch og cid CANCEL_ALREADY_DONE])"
        using quiet_snoc [OF q1, of "Ev_ack ch og cid CANCEL_ALREADY_DONE"] by simp
      then show ?thesis using None Some one
        by (auto simp: nkvx_cancel_handler_def emit_def Let_def
            intro!: log_inv [OF assms(1), where es = "[Ev_cancel ch, Ev_ack ch og cid CANCEL_ALREADY_DONE]"])
    next
      case r: (Some r)
      show ?thesis
      proof (cases "rq_cancel_handle r")
        case None
        have up: "r\<lparr>rq_cancel_handle := Some ch\<rparr> = r\<lparr>rq_cancel_handle := Some ch, rq_do_not_push := rq_do_not_push r\<rparr>" by simp
        show ?thesis
          using stash_inv [OF assms(1) _ None assms(2) refl, of "[]" True] stash_inv [OF assms(1) _ None assms(2) up, of "[]"]
            stash_inv [OF assms(1) _ None assms(2) up, of "[Ev_bulk_cancel (rq_handle r)]"] lookup_req [OF r] Some r None
          by (simp add: nkvx_cancel_handler_def Let_def emit_def)
      next
        case dup: (Some x)
        have "quiet (live s) (sv_log s @ [Ev_cancel ch, Ev_ack_dup ch])"
          using quiet_snoc [OF q1, of "Ev_ack_dup ch"] by simp
        then show ?thesis using dup Some r one
          by (auto simp: nkvx_cancel_handler_def emit_def Let_def
              intro!: log_inv [OF assms(1), where es = "[Ev_cancel ch, Ev_ack_dup ch]"])
      qed
    qed
  qed
qed

subsection \<open>KV requests\<close>

fun is_kv_respond :: "nat \<Rightarrow> svc_event \<Rightarrow> bool" where
  "is_kv_respond h (Ev_kv_respond h' _) = (h' = h)"
| "is_kv_respond h _ = False"

definition kv_live :: "('s, 'h) service \<Rightarrow> nat set" where
  "kv_live s = kq_handle ` set (sv_kv s)"

definition kv_core :: "nat set \<Rightarrow> ('s, 'h) service \<Rightarrow> bool" where
  "kv_core L s =
    (distinct (map kq_handle (sv_kv s))
     \<and> (\<forall>k \<in> set (sv_kv s). kq_bulk k \<noteq> None)
     \<and> (\<forall>h og cid. Ev_kv_accept h \<in> set (sv_log s) \<longrightarrow> Ev_accept h og cid \<notin> set (sv_log s))
     \<and> (\<forall>h. occurs ((=) (Ev_kv_accept h)) (sv_log s) = occurs (is_kv_respond h) (sv_log s) + (if h \<in> L then 1 else 0))
     \<and> (\<forall>h. occurs ((=) (Ev_kv_accept h)) (sv_log s) \<le> 1))"

definition kv_inv :: "('s, 'h) service \<Rightarrow> bool" where
  "kv_inv s = kv_core (kv_live s) s"

lemma kv_coreD:
  assumes "kv_core L s"
  shows "distinct (map kq_handle (sv_kv s))" "k \<in> set (sv_kv s) \<Longrightarrow> kq_bulk k \<noteq> None"
    "Ev_kv_accept h \<in> set (sv_log s) \<Longrightarrow> Ev_accept h og cid \<notin> set (sv_log s)"
    "occurs ((=) (Ev_kv_accept h)) (sv_log s) = occurs (is_kv_respond h) (sv_log s) + (if h \<in> L then 1 else 0)"
    "occurs ((=) (Ev_kv_accept h)) (sv_log s) \<le> 1"
  using assms unfolding kv_core_def by blast+

inductive kv_effect :: "'h kv_req \<Rightarrow> ('s, 'h) service \<Rightarrow> ('s, 'h) service \<Rightarrow> bool" for k s where
  kv_finished: "kq_handle k' = kq_handle k \<Longrightarrow> kv_effect k s (nkvx_kv_req_finish k' (s\<lparr>sv_executor := x\<rparr>))"
| kv_moved: "kq_handle k' = kq_handle k \<Longrightarrow> kq_bulk k' \<noteq> None \<Longrightarrow>
    kv_effect k s (emit [Ev_transfer (kq_handle k) op] (put_kv k' (s\<lparr>sv_executor := x\<rparr>)))"

lemmas kv_finished_same = kv_finished [where x = "sv_executor s" and s = s for s, unfolded sv_executor_id]
lemmas kv_moved_same = kv_moved [where x = "sv_executor s" and s = s for s, unfolded sv_executor_id]

lemma kv_run_effect: "kq_handle k' = kq_handle k \<Longrightarrow> kv_effect k s (nkvx_kv_run_and_deliver hg bk k' x s)"
  by (auto simp: nkvx_kv_run_and_deliver_def nkvx_kv_req_fail_def Let_def intro!: kv_finished kv_moved split: prod.splits)

lemma kv_pulled_effect: "kv_effect k s (nkvx_kv_value_pulled_cb hg bk ret data k x s)"
  by (auto simp: nkvx_kv_value_pulled_cb_def nkvx_kv_req_fail_def intro!: kv_finished_same kv_run_effect)

lemma kv_pushed_effect: "kv_effect k s (nkvx_kv_result_pushed_cb ret k s)"
  by (auto simp: nkvx_kv_result_pushed_cb_def nkvx_kv_req_fail_def intro!: kv_finished_same)

lemma kv_moved_at: "kq_handle k = h \<Longrightarrow> kq_handle k' = h \<Longrightarrow> kq_bulk k' \<noteq> None \<Longrightarrow>
    kv_effect k s (emit [Ev_transfer h op] (put_kv k' s))"
  using kv_moved_same [of k' k] by auto

lemma kv_handler_effect:
  assumes "hg_alloc hg h"
  shows "kv_effect (new_kv_req h i) (emit [Ev_kv_accept h] s) (nkvx_kv_handler hg bk h (Some i) s)"
  using assms
  by (auto simp: nkvx_kv_handler_def nkvx_kv_submit_value_pull_def nkvx_kv_req_fail_def new_kv_req_def Let_def
      intro!: kv_finished_same kv_moved_at kv_run_effect split: option.splits)

lemma kv_inv_accept:
  assumes "kv_inv s" "fresh_handle h s"
  shows "kv_core (insert h (kv_live s)) (emit [Ev_kv_accept h] s)"
proof -
  let ?s = "emit [Ev_kv_accept h] s"
  have core: "kv_core (kv_live s) s" using assms(1) by (simp add: kv_inv_def)
  have no: "occurs ((=) (Ev_kv_accept h)) (sv_log s) = 0" using assms(2) by (auto simp: fresh_handle_def occurs_0_iff)
  then have "h \<notin> kv_live s" "occurs (is_kv_respond h) (sv_log s) = 0"
    using kv_coreD(4) [OF core, of h] by (simp_all split: if_splits)
  then have "occurs ((=) (Ev_kv_accept h')) (sv_log ?s) = occurs (is_kv_respond h') (sv_log ?s) + (if h' \<in> insert h (kv_live s) then 1 else 0)"
    "occurs ((=) (Ev_kv_accept h')) (sv_log ?s) \<le> 1" for h'
    using kv_coreD(4,5) [OF core, of h'] no by (auto simp: emit_def)
  moreover have "Ev_accept h' og cid \<notin> set (sv_log ?s)" if "Ev_kv_accept h' \<in> set (sv_log ?s)" for h' og cid
    using that kv_coreD(3) [OF core, of h' og cid] assms(2) by (auto simp: emit_def fresh_handle_def)
  ultimately show ?thesis using kv_coreD(1,2) [OF core] unfolding kv_core_def by (simp add: emit_def)
qed

lemma kv_effect_log:
  assumes "kv_effect k s s'"
  obtains es where "sv_log s' = sv_log s @ es" "sv_inflight s' = sv_inflight s"
    "\<forall>h. occurs (is_accept h) es = 0" "\<forall>h. occurs (is_respond h) es = 0" "\<forall>c. occurs ((=) (Ev_cancel c)) es = 0"
    "\<forall>c. occurs (is_ack c) es = 0" "\<forall>h. occurs ((=) (Ev_kv_accept h)) es = 0"
    "\<forall>e \<in> set es. neutral e \<or> (\<exists>op. e = Ev_transfer (kq_handle k) op)"
  using assms
proof cases
  case (kv_finished k' x)
  show ?thesis
    by (rule that [of "[Ev_kv_respond (kq_handle k') (kq_out k')]
      @ (if kq_local_result k' then [Ev_bulk_free (kq_handle k') Push] else [])
      @ (if kq_local_value k' then [Ev_bulk_free (kq_handle k') Pull] else [])"])
      (auto simp: kv_finished nkvx_kv_req_finish_def emit_def neutral_def split: if_splits)
next
  case (kv_moved k' op x)
  show ?thesis
    by (rule that [of "[Ev_transfer (kq_handle k) op]"]) (auto simp: kv_moved put_kv_def emit_def)
qed

lemma quiet_extend:
  assumes "quiet L log" "\<forall>og cid. Ev_accept h og cid \<notin> set log" "list_all (\<lambda>e. \<not> is_accept h e) es"
    and "\<forall>e \<in> set es. neutral e \<or> (\<exists>op. e = Ev_transfer h op)"
  shows "quiet L (log @ es)"
  using assms
proof (induction es arbitrary: log)
  case (Cons e es)
  have "quiet L (log @ [e])" using Cons.prems(1,2) Cons.prems(4) by (intro quiet_snoc) (auto simp: neutral_def)
  moreover have "\<forall>og cid. Ev_accept h og cid \<notin> set (log @ [e])" using Cons.prems(2,3) by auto
  ultimately show ?case using Cons.IH [of "log @ [e]"] Cons.prems(3,4) by simp
qed simp

lemma kv_effect_svc_inv:
  assumes "kv_effect k s s'" "svc_inv s" "Ev_kv_accept (kq_handle k) \<in> set (sv_log s)" "kv_core L s"
  shows "svc_inv s'"
proof -
  obtain es where es: "sv_log s' = sv_log s @ es" "sv_inflight s' = sv_inflight s"
    "\<forall>h. occurs (is_accept h) es = 0" "\<forall>h. occurs (is_respond h) es = 0" "\<forall>c. occurs ((=) (Ev_cancel c)) es = 0"
    "\<forall>c. occurs (is_ack c) es = 0" "\<forall>h. occurs ((=) (Ev_kv_accept h)) es = 0"
    "\<forall>e \<in> set es. neutral e \<or> (\<exists>op. e = Ev_transfer (kq_handle k) op)"
    using assms(1) by (rule kv_effect_log)
  have "quiet (live s) (sv_log s @ es)"
    using svc_invD(9) [OF assms(2)] _ _ es(8)
    by (rule quiet_extend) (use assms(3,4) es(3) in \<open>auto simp: kv_core_def occurs_0_iff list_all_iff\<close>)
  then show ?thesis using assms(2) es svc_invD(8) [OF assms(2)] by (intro log_inv [OF assms(2)]) auto
qed

lemma kv_effect_kv_inv:
  assumes "kv_effect k s s'" "kv_core (insert (kq_handle k) (kv_live s)) s"
  shows "kv_inv s'"
  using assms(1)
proof cases
  case (kv_finished k' x)
  have live: "kv_live s' = kv_live s - {kq_handle k}"
    by (auto simp: kv_finished nkvx_kv_req_finish_def emit_def kv_live_def)
  have log: "occurs ((=) (Ev_kv_accept h)) (sv_log s') = occurs ((=) (Ev_kv_accept h)) (sv_log s)"
    "occurs (is_kv_respond h) (sv_log s') = occurs (is_kv_respond h) (sv_log s) + (if h = kq_handle k then 1 else 0)"
    "Ev_accept h og cid \<in> set (sv_log s') \<longleftrightarrow> Ev_accept h og cid \<in> set (sv_log s)"
    "Ev_kv_accept h \<in> set (sv_log s') \<longleftrightarrow> Ev_kv_accept h \<in> set (sv_log s)" for h og cid
    by (auto simp: kv_finished nkvx_kv_req_finish_def emit_def)
  have "occurs ((=) (Ev_kv_accept h)) (sv_log s') = occurs (is_kv_respond h) (sv_log s') + (if h \<in> kv_live s' then 1 else 0)"
    "occurs ((=) (Ev_kv_accept h)) (sv_log s') \<le> 1" for h
    using kv_coreD(4,5) [OF assms(2), of h] unfolding log live by simp_all
  moreover have "distinct (map kq_handle (sv_kv s'))" "\<forall>k \<in> set (sv_kv s'). kq_bulk k \<noteq> None"
    using kv_coreD(1,2) [OF assms(2)] by (auto simp: kv_finished nkvx_kv_req_finish_def emit_def distinct_map_filter)
  ultimately show ?thesis using kv_coreD(3) [OF assms(2)] unfolding kv_inv_def kv_core_def log by blast
next
  case (kv_moved k' op x)
  have live: "kv_live s' = insert (kq_handle k) (kv_live s)"
    using kv_moved(2) by (auto simp: kv_moved(1) put_kv_def emit_def kv_live_def)
  have log: "occurs ((=) (Ev_kv_accept h)) (sv_log s') = occurs ((=) (Ev_kv_accept h)) (sv_log s)"
    "occurs (is_kv_respond h) (sv_log s') = occurs (is_kv_respond h) (sv_log s)"
    "Ev_accept h og cid \<in> set (sv_log s') \<longleftrightarrow> Ev_accept h og cid \<in> set (sv_log s)"
    "Ev_kv_accept h \<in> set (sv_log s') \<longleftrightarrow> Ev_kv_accept h \<in> set (sv_log s)" for h og cid
    by (simp_all add: kv_moved put_kv_def emit_def)
  have "distinct (map kq_handle (sv_kv s'))" "\<forall>k \<in> set (sv_kv s'). kq_bulk k \<noteq> None"
    using kv_coreD(1,2) [OF assms(2)] kv_moved(2,3) by (auto simp: kv_moved(1) put_kv_def emit_def distinct_map_filter)
  then show ?thesis using kv_coreD(3,4,5) [OF assms(2)] unfolding kv_inv_def kv_core_def log live by blast
qed

lemma kv_inv_log:
  assumes "kv_inv s" "sv_kv s' = sv_kv s" "sv_log s' = sv_log s @ es"
    and "\<forall>h. occurs ((=) (Ev_kv_accept h)) es = 0" "\<forall>h. occurs (is_kv_respond h) es = 0"
    and "\<forall>h og cid. Ev_accept h og cid \<in> set es \<longrightarrow> Ev_kv_accept h \<notin> set (sv_log s)"
  shows "kv_inv s'"
proof -
  have core: "kv_core (kv_live s) s" using assms(1) by (simp add: kv_inv_def)
  have live: "kv_live s' = kv_live s" by (simp add: kv_live_def assms(2))
  have "Ev_kv_accept h \<notin> set es" for h using assms(4) by (auto simp: occurs_0_iff)
  then have "Ev_accept h og cid \<notin> set (sv_log s')" if "Ev_kv_accept h \<in> set (sv_log s')" for h og cid
    using that kv_coreD(3) [OF core, of h og cid] assms(6) by (auto simp: assms(3))
  moreover have cnt: "occurs ((=) (Ev_kv_accept h)) (sv_log s') = occurs ((=) (Ev_kv_accept h)) (sv_log s)"
    "occurs (is_kv_respond h) (sv_log s') = occurs (is_kv_respond h) (sv_log s)" for h
    using assms(4,5) by (simp_all add: assms(3))
  ultimately show ?thesis using kv_coreD(1,2,4,5) [OF core] unfolding kv_inv_def kv_core_def live assms(2) cnt by blast
qed

lemma effect_kv_inv:
  assumes "req_effect r s s'" "kv_inv s"
  shows "kv_inv s'"
  using assms(1)
proof cases
  case (finished r' x)
  show ?thesis
    by (rule kv_inv_log [OF assms(2), where es = "Ev_respond (rq_handle r') (rq_out r')
        # (if rq_local_result r' then [Ev_bulk_free (rq_handle r') Push] else [])
        @ (if rq_local_input r' then [Ev_bulk_free (rq_handle r') Pull] else []) @ req_ack r'"])
      (auto simp: finished nkvx_req_finish_def nkvx_reg_remove_def emit_def req_ack_def split: option.splits if_splits)
next
  case (parked r' x)
  show ?thesis by (rule kv_inv_log [OF assms(2), where es = "[]"]) (auto simp: parked put_req_def)
next
  case (moved r' op x)
  show ?thesis by (rule kv_inv_log [OF assms(2), where es = "[Ev_transfer (rq_handle r) op]"]) (auto simp: moved put_req_def emit_def)
qed

lemma tick_kv_inv: "kv_inv s \<Longrightarrow> \<forall>r \<in> set rs. phase_ok r \<Longrightarrow> kv_inv (fold (tick_req hg) rs s)"
proof (induction rs arbitrary: s)
  case (Cons r rs)
  then have "kv_inv (tick_req hg r s)" using tick_effect [of r s hg] effect_kv_inv by fastforce
  then show ?case using Cons by simp
qed simp

lemma cancel_kv_inv: "kv_inv s \<Longrightarrow> kv_inv (nkvx_cancel_handler hg ch og input s)"
proof -
  assume kv: "kv_inv s"
  have "\<exists>es. sv_kv (nkvx_cancel_handler hg ch og input s) = sv_kv s \<and> sv_log (nkvx_cancel_handler hg ch og input s) = sv_log s @ es
      \<and> (\<forall>h. occurs ((=) (Ev_kv_accept h)) es = 0) \<and> (\<forall>h. occurs (is_kv_respond h) es = 0)
      \<and> (\<forall>h og cid. Ev_accept h og cid \<notin> set es)"
    by (auto simp: nkvx_cancel_handler_def emit_def put_req_def Let_def split: option.splits)
  then show ?thesis using kv_inv_log [OF kv] by blast
qed

lemma exec_kv_inv:
  assumes "kv_inv s" "fresh_handle h s"
  shows "kv_inv (nkvx_exec_handler hg bk h og input s)"
proof (cases "hg_alloc hg h \<and> input \<noteq> None")
  case True
  then obtain i where i: "input = Some i" by auto
  let ?r = "new_req h og i s"
  let ?s = "nkvx_reg_insert ?r (emit [Ev_accept h og (ei_client_call_id i)] s)"
  have "kv_inv ?s"
    by (rule kv_inv_log [OF assms(1), where es = "[Ev_accept h og (ei_client_call_id i)]"])
      (use assms(2) in \<open>auto simp: nkvx_reg_insert_def emit_def fresh_handle_def\<close>)
  moreover have "req_effect ?r ?s (nkvx_exec_handler hg bk h og input s)"
    unfolding i using True by (intro exec_effect [OF refl _ refl]) simp
  ultimately show ?thesis using effect_kv_inv by blast
next
  case False
  have "kv_inv (emit [Ev_drop h] s)" by (rule kv_inv_log [OF assms(1), where es = "[Ev_drop h]"]) (auto simp: emit_def)
  then show ?thesis using False by (auto simp: nkvx_exec_handler_def split: option.splits)
qed

lemma kv_handler_inv:
  assumes "svc_inv s" "kv_inv s" "fresh_handle h s"
  shows "svc_inv (nkvx_kv_handler hg bk h input s) \<and> kv_inv (nkvx_kv_handler hg bk h input s)"
proof (cases "hg_alloc hg h \<and> input \<noteq> None")
  case True
  then obtain i where i: "input = Some i" by auto
  let ?s = "emit [Ev_kv_accept h] s" and ?k = "new_kv_req h i"
  have e: "kv_effect ?k ?s (nkvx_kv_handler hg bk h input s)" unfolding i using True by (intro kv_handler_effect) simp
  have k: "kq_handle ?k = h" "kv_live ?s = kv_live s" by (simp_all add: new_kv_req_def kv_live_def emit_def)
  have core: "kv_core (insert h (kv_live s)) ?s" using assms(2,3) by (rule kv_inv_accept)
  have "svc_inv ?s"
    using svc_invD(8,9) [OF assms(1)]
    by (intro log_inv [OF assms(1), where es = "[Ev_kv_accept h]"]) (auto simp: emit_def intro!: quiet_snoc)
  then show ?thesis using kv_effect_svc_inv [OF e] kv_effect_kv_inv [OF e] core k by (simp add: emit_def)
next
  case False
  have "svc_inv (emit [Ev_drop h] s)"
    using svc_invD(8,9) [OF assms(1)]
    by (intro log_inv [OF assms(1), where es = "[Ev_drop h]"]) (auto simp: emit_def intro!: quiet_snoc)
  moreover have "kv_inv (emit [Ev_drop h] s)" by (rule kv_inv_log [OF assms(2), where es = "[Ev_drop h]"]) (auto simp: emit_def)
  ultimately show ?thesis using False by (auto simp: nkvx_kv_handler_def split: option.splits)
qed

lemma kv_live_inv:
  assumes "kv_effect k s s'" "svc_inv s" "kv_inv s" "k \<in> set (sv_kv s)"
  shows "svc_inv s' \<and> kv_inv s'"
proof -
  have live: "kq_handle k \<in> kv_live s" using assms(4) by (simp add: kv_live_def)
  have core: "kv_core (kv_live s) s" using assms(3) by (simp add: kv_inv_def)
  have "occurs ((=) (Ev_kv_accept (kq_handle k))) (sv_log s) > 0" using kv_coreD(4) [OF core, of "kq_handle k"] live by simp
  then have "\<not> (\<forall>e \<in> set (sv_log s). Ev_kv_accept (kq_handle k) \<noteq> e)"
    using occurs_0_iff [of "(=) (Ev_kv_accept (kq_handle k))" "sv_log s"] by linarith
  then have "Ev_kv_accept (kq_handle k) \<in> set (sv_log s)" by blast
  then show ?thesis using kv_effect_svc_inv [OF assms(1,2) _ core] kv_effect_kv_inv [OF assms(1)] core live
    by (simp add: insert_absorb)
qed

section \<open>Progress\<close>

text \<open>
  How far a request is from its answer: the countdowns left and the transfers still to come.
\<close>

definition rank :: "'h nkvx_req \<Rightarrow> nat" where
  "rank r = (if rq_pull_pending r then rq_pull_stall_ticks r + rq_stall_ticks r + 5
     else if rq_push_pending r then rq_stall_ticks r + 2
     else if rq_push_op r = Some Pull then rq_stall_ticks r + 4 else 1)"

definition below :: "nat \<Rightarrow> nat \<Rightarrow> ('s, 'h) service \<Rightarrow> bool" where
  "below h n s = (\<forall>r \<in> set (sv_inflight s). rq_handle r = h \<longrightarrow> rank r < n)"

lemma below_finish [simp]: "rq_handle r = h \<Longrightarrow> below h n (nkvx_req_finish r s)"
  by (auto simp: below_def nkvx_req_finish_def nkvx_reg_remove_def emit_def)

lemma below_put: "rq_handle r = h \<Longrightarrow> rank r < n \<Longrightarrow> below h n (put_req r s)"
  by (auto simp: below_def put_req_def)

lemma below_emit [simp]: "below h n (emit es s) = below h n s"
  by (simp add: below_def emit_def)

lemma submit_push_below:
  "\<not> rq_pull_pending r \<Longrightarrow> \<not> rq_push_pending r \<Longrightarrow> rq_handle r = h \<Longrightarrow> 1 < n \<Longrightarrow> below h n (nkvx_submit_result_push hg r s)"
  by (auto simp: service_defs rank_def intro!: below_put)

lemma submit_pull_below:
  "\<not> rq_pull_pending r \<Longrightarrow> \<not> rq_push_pending r \<Longrightarrow> rq_handle r = h \<Longrightarrow> rq_stall_ticks r + 4 < n \<Longrightarrow>
    below h n (nkvx_submit_input_pull hg r s)"
  by (auto simp: service_defs rank_def intro!: below_put)

lemma tick_below:
  assumes "phase_ok r" "rq_pull_pending r \<or> rq_push_pending r"
  shows "below (rq_handle r) (rank r) (tick_req hg r s)"
  using assms
  by (auto simp: tick_req_def nkvx_req_fail_def phase_ok_def rank_def intro!: below_put submit_push_below submit_pull_below)

lemma pulled_below:
  assumes "phase_ok r" "rq_push_in_flight r" "rq_push_op r = Some Pull"
  shows "below (rq_handle r) (rank r) (nkvx_input_pulled_cb hg bk ret data r x s)"
  using assms
  by (auto simp: nkvx_input_pulled_cb_def nkvx_req_run_and_deliver_def nkvx_req_fail_def phase_ok_def rank_def Let_def
      intro!: below_put submit_push_below split: prod.splits)

lemma pushed_below: "below (rq_handle r) (rank r) (nkvx_result_pushed_cb ret r s)"
  by (auto simp: nkvx_result_pushed_cb_def nkvx_req_fail_def Let_def)

lemma effect_only:
  assumes "req_effect r s s'" "x \<in> set (sv_inflight s')" "rq_handle x \<noteq> rq_handle r"
  shows "x \<in> set (sv_inflight s)"
  using assms
  by cases (auto simp: nkvx_req_finish_def nkvx_reg_remove_def put_req_def emit_def same_req_def split: if_splits)

lemma below_other: "req_effect r s s' \<Longrightarrow> h \<noteq> rq_handle r \<Longrightarrow> below h n s \<Longrightarrow> below h n s'"
  unfolding below_def using effect_only by blast

lemma tick_fold_other:
  assumes "\<forall>r \<in> set rs. phase_ok r \<and> rq_handle r \<noteq> h" "below h n s"
  shows "below h n (fold (tick_req hg) rs s)"
  using assms
proof (induction rs arbitrary: s)
  case (Cons r rs)
  then have "below h n (tick_req hg r s)" using tick_effect [of r s hg] below_other [of r s _ h n] by fastforce
  then show ?case using Cons by simp
qed simp

lemma tick_fold_below:
  assumes "r \<in> set rs" "distinct (map rq_handle rs)" "\<forall>r \<in> set rs. phase_ok r" "rq_pull_pending r \<or> rq_push_pending r"
  shows "below (rq_handle r) (rank r) (fold (tick_req hg) rs s)"
proof -
  obtain xs ys where rs: "rs = xs @ r # ys" using assms(1) by (meson split_list)
  then have ys: "\<forall>x \<in> set ys. phase_ok x \<and> rq_handle x \<noteq> rq_handle r" "phase_ok r" using assms(2,3) by (auto simp: image_iff)
  show ?thesis unfolding rs using tick_fold_other [OF ys(1) tick_below [OF ys(2) assms(4)]] by simp
qed

text \<open>A request waits in a countdown only when the service was started with that countdown.\<close>

definition stall_ok :: "nat \<Rightarrow> nat \<Rightarrow> 'h nkvx_req \<Rightarrow> bool" where
  "stall_ok push pull r = (rq_stall_ticks r \<le> push \<and> rq_pull_stall_ticks r \<le> pull
     \<and> (rq_pull_pending r \<longrightarrow> pull > 0) \<and> (rq_push_pending r \<longrightarrow> push > 0))"

definition stall_inv :: "('s, 'h) service \<Rightarrow> bool" where
  "stall_inv s = (\<forall>r \<in> set (sv_inflight s). stall_ok (sv_push_stall s) (sv_pull_stall s) r)"

lemma stall_same: "same_req r r' \<Longrightarrow> stall_ok a b r \<Longrightarrow> stall_ok a b r'"
  by (auto simp: same_req_def stall_ok_def)

lemma effect_stall:
  assumes "req_effect r s s'" "stall_inv s" "stall_ok (sv_push_stall s) (sv_pull_stall s) r"
  shows "stall_inv s' \<and> sv_push_stall s' = sv_push_stall s \<and> sv_pull_stall s' = sv_pull_stall s"
  using assms
  by cases (auto simp: stall_inv_def nkvx_req_finish_def nkvx_reg_remove_def put_req_def emit_def intro: stall_same)

lemma effect_live_stall: "req_effect r s s' \<Longrightarrow> stall_inv s \<Longrightarrow> r \<in> set (sv_inflight s) \<Longrightarrow> stall_inv s'"
  using effect_stall [of r s s'] unfolding stall_inv_def by blast

lemma tick_fold_stall:
  assumes "stall_inv s" "\<forall>r \<in> set rs. phase_ok r \<and> stall_ok (sv_push_stall s) (sv_pull_stall s) r"
  shows "stall_inv (fold (tick_req hg) rs s)"
  using assms
proof (induction rs arbitrary: s)
  case (Cons r rs)
  have "stall_inv (tick_req hg r s) \<and> sv_push_stall (tick_req hg r s) = sv_push_stall s
      \<and> sv_pull_stall (tick_req hg r s) = sv_pull_stall s"
    using tick_effect [of r s hg] effect_stall [of r s] Cons.prems by auto
  then show ?case using Cons by simp
qed simp

lemma exec_stall: "stall_inv s \<Longrightarrow> stall_inv (nkvx_exec_handler hg bk h og input s)"
proof (cases "hg_alloc hg h \<and> input \<noteq> None")
  case True
  assume inv: "stall_inv s"
  from True obtain i where i: "input = Some i" by auto
  let ?r = "new_req h og i s"
  let ?s = "nkvx_reg_insert ?r (emit [Ev_accept h og (ei_client_call_id i)] s)"
  have "req_effect ?r ?s (nkvx_exec_handler hg bk h og input s)"
    unfolding i using True by (intro exec_effect [OF refl _ refl]) simp
  moreover have "stall_ok (sv_push_stall s) (sv_pull_stall s) ?r" by (simp add: stall_ok_def new_req_def)
  moreover have "stall_inv ?s" "sv_push_stall ?s = sv_push_stall s" "sv_pull_stall ?s = sv_pull_stall s"
    using inv calculation(2) by (simp_all add: stall_inv_def nkvx_reg_insert_def emit_def)
  ultimately show ?thesis using effect_stall by metis
next
  case False
  assume "stall_inv s"
  then show ?thesis using False by (auto simp: nkvx_exec_handler_def stall_inv_def emit_def split: option.splits)
qed

lemma cancel_stall: "stall_inv s \<Longrightarrow> stall_inv (nkvx_cancel_handler hg h og input s)"
  by (auto simp: nkvx_cancel_handler_def stall_inv_def emit_def put_req_def nkvx_reg_lookup_def stall_ok_def Let_def
      dest!: find_mem split: option.splits)

lemma kv_effect_reqs:
  assumes "kv_effect k s s'"
  shows "sv_inflight s' = sv_inflight s \<and> sv_push_stall s' = sv_push_stall s \<and> sv_pull_stall s' = sv_pull_stall s"
  using assms by cases (auto simp: nkvx_kv_req_finish_def put_kv_def emit_def)

lemma kv_handler_reqs:
  "sv_inflight (nkvx_kv_handler hg bk h input s) = sv_inflight s
    \<and> sv_push_stall (nkvx_kv_handler hg bk h input s) = sv_push_stall s
    \<and> sv_pull_stall (nkvx_kv_handler hg bk h input s) = sv_pull_stall s"
proof (cases "hg_alloc hg h \<and> input \<noteq> None")
  case True
  then obtain i where i: "input = Some i" by auto
  have "kv_effect (new_kv_req h i) (emit [Ev_kv_accept h] s) (nkvx_kv_handler hg bk h input s)"
    unfolding i using True by (intro kv_handler_effect) simp
  then show ?thesis using kv_effect_reqs by (fastforce simp: emit_def)
next
  case False
  then show ?thesis by (auto simp: nkvx_kv_handler_def emit_def split: option.splits)
qed

section \<open>The service as an invariant system\<close>

lemma svc_step_inv:
  assumes "svc_step bk s e s'" "svc_inv s \<and> kv_inv s"
  shows "svc_inv s' \<and> kv_inv s'"
  using assms(1)
proof cases
  case (step_exec h input og hg)
  then show ?thesis using assms(2) exec_inv_step exec_kv_inv by blast
next
  case (step_cancel h hg og input)
  then show ?thesis using assms(2) cancel_inv_step cancel_kv_inv by blast
next
  case (step_pulled r h x hg ret data)
  then have "req_effect r s s'" using assms(2) by (auto intro: pulled_effect svc_invD(3))
  then show ?thesis using assms(2) step_pulled(3) effect_inv effect_kv_inv by blast
next
  case (step_pushed r h hg ret data)
  then have "req_effect r s s'" by (simp add: pushed_effect)
  then show ?thesis using assms(2) step_pushed(3) effect_inv effect_kv_inv by blast
next
  case (step_tick hg)
  then show ?thesis using assms(2) tick_inv [of s hg] tick_kv_inv [of s "sv_inflight s" hg]
    by (auto simp: nkvx_service_tick_stalls_def svc_invD(3))
next
  case (step_kv h hg kin)
  then show ?thesis using assms(2) kv_handler_inv by blast
next
  case (step_kv_pulled k h x hg ret data)
  have "kv_effect k s s'" unfolding step_kv_pulled by (rule kv_pulled_effect)
  then show ?thesis using assms(2) step_kv_pulled(3) kv_live_inv by blast
next
  case (step_kv_pushed k h hg ret data)
  have "kv_effect k s s'" unfolding step_kv_pushed by (rule kv_pushed_effect)
  then show ?thesis using assms(2) step_kv_pushed(3) kv_live_inv by blast
qed

lemma svc_step_stall:
  assumes "svc_step bk s e s'" "svc_inv s" "stall_inv s"
  shows "stall_inv s'"
  using assms(1)
proof cases
  case (step_pulled r h x hg ret data)
  then have "req_effect r s s'" using assms(2) by (auto intro: pulled_effect svc_invD(3))
  then show ?thesis using effect_live_stall [OF _ assms(3) step_pulled(3)] by blast
next
  case (step_pushed r h hg ret data)
  then have "req_effect r s s'" by (simp add: pushed_effect)
  then show ?thesis using effect_live_stall [OF _ assms(3) step_pushed(3)] by blast
next
  case (step_tick hg)
  have "\<forall>r \<in> set (sv_inflight s). phase_ok r \<and> stall_ok (sv_push_stall s) (sv_pull_stall s) r"
    using assms(2,3) svc_invD(3) by (auto simp: stall_inv_def)
  then show ?thesis using assms(3) tick_fold_stall [of s "sv_inflight s" hg] unfolding step_tick
    by (simp add: nkvx_service_tick_stalls_def)
next
  case (step_kv_pulled k h x hg ret data)
  have "kv_effect k s s'" unfolding step_kv_pulled by (rule kv_pulled_effect)
  then show ?thesis using assms(3) kv_effect_reqs [of k s s'] by (simp add: stall_inv_def)
next
  case (step_kv_pushed k h hg ret data)
  have "kv_effect k s s'" unfolding step_kv_pushed by (rule kv_pushed_effect)
  then show ?thesis using assms(3) kv_effect_reqs [of k s s'] by (simp add: stall_inv_def)
next
  case (step_kv h hg kin)
  then show ?thesis using assms(3) kv_handler_reqs [of hg bk h kin s] by (simp add: stall_inv_def)
qed (use assms(3) exec_stall cancel_stall in blast)+

interpretation svc_sys: invariant_system svc_init "svc_step bk" "\<lambda>s. svc_inv s \<and> kv_inv s \<and> stall_inv s" for bk
proof
  fix s :: "('a, 'b) service"
  assume "svc_init s"
  then show "svc_inv s \<and> kv_inv s \<and> stall_inv s"
    by (auto simp: svc_init_def svc_inv_def live_def stashed_def quiet_def kv_inv_def kv_core_def kv_live_def stall_inv_def)
next
  fix s s' :: "('a, 'b) service" and e
  assume "svc_inv s \<and> kv_inv s \<and> stall_inv s" "svc_step bk s e s'"
  then show "svc_inv s' \<and> kv_inv s' \<and> stall_inv s'" using svc_step_inv svc_step_stall by blast
qed

section \<open>Progress of one step\<close>

text \<open>The events a request waits for: a countdown tick, or the callback of its transfer.\<close>

fun wakes :: "'h nkvx_req \<Rightarrow> 'h svc_input \<Rightarrow> bool" where
  "wakes r (In_tick hg) = (rq_pull_pending r \<or> rq_push_pending r)"
| "wakes r (In_bulk hg h ret data) = (h = rq_handle r \<and> rq_push_in_flight r)"
| "wakes r _ = False"

lemma tick_step_below:
  assumes "svc_inv s" "stall_inv s" "r \<in> set (sv_inflight s)" "rq_pull_pending r \<or> rq_push_pending r"
  shows "below (rq_handle r) (rank r) (nkvx_service_tick_stalls hg s)"
proof -
  have "sv_push_stall s > 0 \<or> sv_pull_stall s > 0" using assms(2-4) by (auto simp: stall_inv_def stall_ok_def)
  moreover have "\<forall>x \<in> set (sv_inflight s). phase_ok x" using assms(1) svc_invD(3) by blast
  ultimately show ?thesis using tick_fold_below [OF assms(3) svc_invD(1) [OF assms(1)] _ assms(4)]
    by (auto simp: nkvx_service_tick_stalls_def)
qed

lemma bulk_step_below:
  assumes "svc_step bk s (In_bulk hg h ret data) s'" "svc_inv s" "r \<in> set (sv_inflight s)" "rq_handle r = h"
  shows "below h (rank r) s'"
proof -
  have same: "x = r" if "x \<in> set (sv_inflight s)" "rq_handle x = h" for x
    using that assms(3,4) svc_invD(1) [OF assms(2)] by (auto simp: distinct_map inj_on_def)
  from assms(1) show ?thesis
  proof cases
    case (step_pulled x y)
    then have "x = r" using same by blast
    then show ?thesis using step_pulled assms(4) pulled_below [of r hg bk ret data y s] svc_invD(3) [OF assms(2) assms(3)] by simp
  next
    case (step_pushed x)
    then have "x = r" using same by blast
    then show ?thesis using step_pushed assms(4) pushed_below [of r ret s] by simp
  qed
qed

lemma below_Suc: "below h n s \<Longrightarrow> below h (Suc n) s"
  by (auto simp: below_def)

lemma below_self:
  assumes "svc_inv s" "r \<in> set (sv_inflight s)" "sv_inflight s' = sv_inflight s"
  shows "below (rq_handle r) (Suc (rank r)) s'"
proof -
  have "x = r" if "x \<in> set (sv_inflight s)" "rq_handle x = rq_handle r" for x
    using that assms(2) svc_invD(1) [OF assms(1)] by (auto simp: distinct_map inj_on_def)
  then show ?thesis using assms(3) by (auto simp: below_def)
qed

lemma tick_idle_below:
  fixes s :: "('s, 'h) service"
  assumes "svc_inv s" "r \<in> set (sv_inflight s)" "\<not> (rq_pull_pending r \<or> rq_push_pending r)"
  shows "below (rq_handle r) (Suc (rank r)) (nkvx_service_tick_stalls hg s)"
proof -
  obtain xs ys where sp: "sv_inflight s = xs @ r # ys" "\<forall>x \<in> set xs \<union> set ys. rq_handle x \<noteq> rq_handle r"
    using keyed_split [OF svc_invD(1) [OF assms(1)] assms(2)] by blast
  have ok: "\<forall>x \<in> set xs. phase_ok x \<and> rq_handle x \<noteq> rq_handle r" "\<forall>x \<in> set ys. phase_ok x \<and> rq_handle x \<noteq> rq_handle r"
    using sp svc_invD(3) [OF assms(1)] by auto
  have "tick_req hg r t = t" for t :: "('s, 'h) service" using assms(3) by (simp add: tick_req_def)
  then show ?thesis using tick_fold_other [OF ok(2) tick_fold_other [OF ok(1) below_self [OF assms(1,2) refl]]]
      below_self [OF assms(1,2) refl] sp(1)
    by (simp add: nkvx_service_tick_stalls_def)
qed

lemma below_effect:
  assumes "svc_inv s" "r \<in> set (sv_inflight s)" "req_effect q t s'" "sv_inflight t = sv_inflight s @ qs"
    "rq_handle q \<noteq> rq_handle r" "\<forall>x \<in> set qs. rq_handle x \<noteq> rq_handle r"
  shows "below (rq_handle r) (Suc (rank r)) s'"
proof (rule below_other [OF assms(3)])
  show "below (rq_handle r) (Suc (rank r)) t"
    using below_self [OF assms(1,2), of "s"] assms(4,6) by (auto simp: below_def)
qed (use assms(5) in simp)

lemma exec_below:
  assumes "svc_inv s" "r \<in> set (sv_inflight s)" "fresh_handle h s"
  shows "below (rq_handle r) (Suc (rank r)) (nkvx_exec_handler hg bk h og input s)"
proof (cases "hg_alloc hg h \<and> input \<noteq> None")
  case True
  then obtain i where i: "input = Some i" by auto
  let ?q = "new_req h og i s"
  have "rq_handle r \<noteq> h" using svc_invD(4) [OF assms(1,2)] assms(3) by (auto simp: fresh_handle_def key_of_def)
  moreover have "req_effect ?q (nkvx_reg_insert ?q (emit [Ev_accept h og (ei_client_call_id i)] s)) (nkvx_exec_handler hg bk h og input s)"
    unfolding i using True by (intro exec_effect [OF refl _ refl]) simp
  ultimately show ?thesis
    by (intro below_effect [OF assms(1,2), where qs = "[?q]"]) (auto simp: nkvx_reg_insert_def emit_def new_req_def)
next
  case False
  then have "sv_inflight (nkvx_exec_handler hg bk h og input s) = sv_inflight s"
    by (auto simp: nkvx_exec_handler_def emit_def split: option.splits)
  then show ?thesis by (rule below_self [OF assms(1,2)])
qed

lemma below_put_same:
  assumes "below h n s" "q \<in> set (sv_inflight s)" "rq_handle q' = rq_handle q" "rank q' = rank q"
  shows "below h n (put_req q' s)"
  using assms by (auto simp: below_def put_req_def)

lemma cancel_below:
  assumes "svc_inv s" "r \<in> set (sv_inflight s)"
  shows "below (rq_handle r) (Suc (rank r)) (nkvx_cancel_handler hg h og input s)"
proof -
  let ?s = "emit [Ev_cancel h] s"
  have b: "below (rq_handle r) (Suc (rank r)) ?s" by (rule below_self [OF assms]) (simp add: emit_def)
  have put: "below (rq_handle r) (Suc (rank r)) (put_req q' ?s)"
    if "nkvx_reg_lookup s og c = Some q" "rq_handle q' = rq_handle q" "rank q' = rank q" for q q' c
  proof (rule below_put_same [OF b _ that(2,3)])
    show "q \<in> set (sv_inflight ?s)" using find_mem that(1) unfolding nkvx_reg_lookup_def emit_def by fastforce
  qed
  show ?thesis
    using b by (auto simp: nkvx_cancel_handler_def Let_def rank_def [of "_\<lparr>rq_cancel_handle := _\<rparr>"]
        rank_def [of "_\<lparr>rq_do_not_push := _\<rparr>"] intro!: put split: option.splits) (simp_all add: rank_def)
qed

lemma step_below:
  assumes "svc_step bk s e s'" "svc_inv s" "stall_inv s" "r \<in> set (sv_inflight s)"
  shows "below (rq_handle r) (Suc (rank r)) s'"
  using assms(1)
proof cases
  case (step_exec h input og hg)
  then show ?thesis using exec_below assms by blast
next
  case (step_cancel h hg og input)
  then show ?thesis using cancel_below assms by blast
next
  case (step_pulled q h x hg ret data)
  show ?thesis
  proof (cases "h = rq_handle r")
    case True
    then show ?thesis using bulk_step_below [OF assms(1) [unfolded step_pulled(1)] assms(2,4)] below_Suc by blast
  next
    case False
    moreover have "req_effect q s s'" using step_pulled assms(2) by (auto intro: pulled_effect svc_invD(3))
    ultimately show ?thesis using below_effect [OF assms(2,4), of q s s' "[]"] step_pulled(4) by simp
  qed
next
  case (step_pushed q h hg ret data)
  show ?thesis
  proof (cases "h = rq_handle r")
    case True
    then show ?thesis using bulk_step_below [OF assms(1) [unfolded step_pushed(1)] assms(2,4)] below_Suc by blast
  next
    case False
    moreover have "req_effect q s s'" using step_pushed by (auto intro: pushed_effect)
    ultimately show ?thesis using below_effect [OF assms(2,4), of q s s' "[]"] step_pushed(4) by simp
  qed
next
  case (step_tick hg)
  show ?thesis
  proof (cases "rq_pull_pending r \<or> rq_push_pending r")
    case True
    then show ?thesis using tick_step_below [OF assms(2-4)] below_Suc step_tick by blast
  next
    case False
    then show ?thesis using tick_idle_below [OF assms(2,4)] step_tick by blast
  qed
next
  case (step_kv h hg kin)
  then show ?thesis using below_self [OF assms(2,4)] kv_handler_reqs by blast
next
  case (step_kv_pulled k h x hg ret data)
  have "kv_effect k s s'" unfolding step_kv_pulled by (rule kv_pulled_effect)
  then show ?thesis using below_self [OF assms(2,4)] kv_effect_reqs by blast
next
  case (step_kv_pushed k h hg ret data)
  have "kv_effect k s s'" unfolding step_kv_pushed by (rule kv_pushed_effect)
  then show ?thesis using below_self [OF assms(2,4)] kv_effect_reqs by blast
qed

inductive_cases tick_stepE: "svc_step bk s (In_tick hg) s'"

lemma wakes_below:
  assumes "svc_step bk s e s'" "wakes r e" "svc_inv s" "stall_inv s" "r \<in> set (sv_inflight s)"
  shows "below (rq_handle r) (rank r) s'"
proof (cases e)
  case (In_bulk hg h ret data)
  then show ?thesis using bulk_step_below [OF _ assms(3,5)] assms(1,2) by simp
next
  case (In_tick hg)
  then show ?thesis using tick_step_below [OF assms(3-5)] assms(1,2) by (auto elim: tick_stepE)
qed (use assms(2) in simp_all)

lemma wakes_enabled:
  assumes "wakes r e" "phase_ok r" "r \<in> set (sv_inflight s)" "sv_executor s \<noteq> None"
  shows "\<exists>s'. svc_step bk s e s'"
proof (cases e)
  case (In_bulk hg h ret data)
  then have r: "rq_handle r = h" "rq_push_in_flight r" using assms(1) by auto
  obtain x where x: "sv_executor s = Some x" using assms(4) by blast
  have "rq_push_op r = Some Pull \<or> rq_push_op r = Some Push"
    using assms(2) r(2) by (auto simp: phase_ok_def) (metis bulk_op.exhaust)
  then show ?thesis unfolding In_bulk using step_pulled [OF assms(3) r _ x] step_pushed [OF assms(3) r] by blast
next
  case (In_tick hg)
  then show ?thesis using step_tick by blast
qed (use assms(1) in simp_all)

section \<open>A run of the service\<close>

text \<open>A request with a large input waits in the pull countdown; a cancel reaches it there; the next tick ends it.\<close>

definition request_ex :: "unit exec_in" where
  "request_ex = \<lparr>ei_op_id = 1, ei_client_call_id = 7, ei_read_only = 1, ei_runtime = 1, ei_caps = 3, ei_key_len = 1,
     ei_key = [97], ei_sha256 = [], ei_sha256_valid = 0, ei_module_key = None, ei_module_ns = None, ei_osize = 16,
     ei_input_len = 5000, ei_input_inline = None, ei_input_bulk = Some (), ei_result_sink = None\<rparr>"

definition hg_ex :: hg where
  "hg_ex = \<lparr>hg_alloc = \<lambda>_. True, hg_bulk_create = \<lambda>_. True, hg_bulk_transfer = \<lambda>_. True, hg_bulk_cancel = \<lambda>_. True\<rparr>"

definition backend_ex :: "(unit, unit) backend" where
  "backend_ex = \<lparr>bk_run = \<lambda>s _. (empty_result, s), bk_kv = \<lambda>s _. (empty_result, s)\<rparr>"

definition service_ex :: "(unit, unit) service" where
  "service_ex = \<lparr>sv_inflight = [], sv_kv = [], sv_executor = Some (), sv_push_stall = 0, sv_pull_stall = 1, sv_log = []\<rparr>"

definition service_waiting :: "(unit, unit) service" where
  "service_waiting = nkvx_exec_handler hg_ex backend_ex 1 2 (Some request_ex) service_ex"

definition service_cancelled :: "(unit, unit) service" where
  "service_cancelled = nkvx_service_tick_stalls hg_ex (nkvx_cancel_handler hg_ex 3 2 (Some 7) service_waiting)"

lemmas service_ex_defs = service_ex_def service_waiting_def service_cancelled_def request_ex_def hg_ex_def new_req_def
  nkvx_exec_handler_def nkvx_cancel_handler_def nkvx_service_tick_stalls_def tick_req_def nkvx_req_fail_def
  nkvx_req_finish_def nkvx_reg_insert_def nkvx_reg_remove_def nkvx_reg_lookup_def put_req_def emit_def req_ack_def
  nkvx_inline_max_def Let_def

lemma service_waiting_reachable: "reachable svc_init (svc_step backend_ex) service_waiting"
  unfolding service_waiting_def
  by (rule reach_step [where s = service_ex], rule reach_init, simp add: svc_init_def service_ex_def, rule step_exec)
    (simp_all add: service_ex_def fresh_handle_def nkvx_reg_lookup_def)

lemma service_waiting_eval [simp]:
  "map rq_handle (sv_inflight service_waiting) = [1]" "sv_log service_waiting = [Ev_accept 1 2 7]"
  "sv_executor service_waiting = Some ()"
  "map (\<lambda>r. (rq_pull_pending r, rq_pull_stall_ticks r, rq_stall_ticks r)) (sv_inflight service_waiting) = [(True, 1, 0)]"
  by (simp_all add: service_ex_defs)

lemma service_cancelled_reachable: "reachable svc_init (svc_step backend_ex) service_cancelled"
  unfolding service_cancelled_def
  by (rule reach_step [OF reach_step [OF service_waiting_reachable step_cancel] step_tick])
    (simp add: fresh_handle_def)

lemma service_cancelled_eval [simp]:
  "sv_inflight service_cancelled = []"
  "sv_log service_cancelled = [Ev_accept 1 2 7, Ev_cancel 3, Ev_respond 1 (fail_out IO_ABORTED), Ev_ack 3 2 7 CANCEL_ABORTED]"
  by (simp_all add: service_ex_defs)

section \<open>The service's guarantees\<close>

text \<open>
  C9. Exactly one answer. In every state the service can reach, over any interleaving of requests,
  cancels, bulk callbacks and ticks, whatever Mercury and the executor return: an accepted Exec has
  been answered exactly once if it has left the registry and not at all while it is in flight; an
  accepted KV request likewise; and a received cancel has been acknowledged exactly once, or is
  still stashed in exactly one request in flight.
\<close>

theorem answered_exactly_once:
  assumes "reachable svc_init (svc_step bk) s"
  shows "(Ev_accept h og cid \<in> set (sv_log s) \<longrightarrow>
            occurs (is_respond h) (sv_log s) = (if h \<in> rq_handle ` set (sv_inflight s) then 0 else 1))
    \<and> (Ev_kv_accept k \<in> set (sv_log s) \<longrightarrow>
            occurs (is_kv_respond k) (sv_log s) = (if k \<in> kq_handle ` set (sv_kv s) then 0 else 1))
    \<and> (Ev_cancel ch \<in> set (sv_log s) \<longrightarrow>
            occurs (is_ack ch) (sv_log s) + length (filter (\<lambda>r. rq_cancel_handle r = Some ch) (sv_inflight s)) = 1)"
proof -
  have inv: "svc_inv s" "kv_core (kv_live s) s" using svc_sys.reachable_inv [OF assms] by (simp_all add: kv_inv_def)
  have pos: "e \<in> set xs \<Longrightarrow> P e \<Longrightarrow> 0 < occurs P xs" for e :: svc_event and P xs
    using occurs_0_iff [of P xs] by (metis gr0I)
  have "occurs (is_respond h) (sv_log s) = (if h \<in> live s then 0 else 1)" if "Ev_accept h og cid \<in> set (sv_log s)"
    using svc_invD(5,6) [OF inv(1), of h] pos [OF that, of "is_accept h"] by (simp split: if_splits)
  moreover have "occurs (is_kv_respond k) (sv_log s) = (if k \<in> kv_live s then 0 else 1)" if "Ev_kv_accept k \<in> set (sv_log s)"
    using kv_coreD(4,5) [OF inv(2), of k] pos [OF that, of "(=) (Ev_kv_accept k)"] by (simp split: if_splits)
  moreover have "occurs (is_ack ch) (sv_log s) + stashed s ch = 1" if "Ev_cancel ch \<in> set (sv_log s)"
    using svc_invD(7,8) [OF inv(1), of ch] pos [OF that, of "(=) (Ev_cancel ch)", OF refl] by linarith
  ultimately show ?thesis unfolding live_def kv_live_def stashed_def by blast
qed

theorem answered_exactly_once_witness:
  "occurs (is_respond 1) (sv_log service_cancelled) = 1 \<and> occurs (is_ack 3) (sv_log service_cancelled) = 1
    \<and> occurs (is_respond 1) (sv_log service_waiting) = 0"
  using answered_exactly_once [OF service_cancelled_reachable, of 1 2 7 0 3]
    answered_exactly_once [OF service_waiting_reachable, of 1 2 7 0 3] by simp



text \<open>
  C10. Every request gets its answer. With an executor open, each request in flight waits for some
  event; whatever Mercury reports with it, that event is handled, and afterwards the request is
  answered or its distance from the answer is smaller; no other event ever makes that distance
  larger. The distance is at most the two configured countdowns plus five.
\<close>

theorem request_progress:
  assumes "reachable svc_init (svc_step bk) s" "r \<in> set (sv_inflight s)" "sv_executor s \<noteq> None"
  shows "(\<exists>e. wakes r e) \<and> (\<forall>e. wakes r e \<longrightarrow> (\<exists>s'. svc_step bk s e s'))
    \<and> (\<forall>e s'. svc_step bk s e s' \<longrightarrow> (\<forall>r' \<in> set (sv_inflight s'). rq_handle r' = rq_handle r \<longrightarrow>
         (if wakes r e then rank r' < rank r else rank r' \<le> rank r)))
    \<and> rank r \<le> sv_push_stall s + sv_pull_stall s + 5"
proof -
  have inv: "svc_inv s" "stall_inv s" using svc_sys.reachable_inv [OF assms(1)] by simp_all
  have ph: "phase_ok r" using svc_invD(3) [OF inv(1) assms(2)] .
  have "\<exists>e. wakes r e"
    using ph wakes.simps(1) [of r] wakes.simps(2) [of r _ "rq_handle r"] unfolding phase_ok_def by metis
  moreover have "\<exists>s'. svc_step bk s e s'" if "wakes r e" for e
    using wakes_enabled [OF that ph assms(2,3)] .
  moreover have "below (rq_handle r) (rank r) s'" if "svc_step bk s e s'" "wakes r e" for e s'
    using wakes_below [OF that inv assms(2)] .
  moreover have "below (rq_handle r) (Suc (rank r)) s'" if "svc_step bk s e s'" for e s'
    using step_below [OF that inv assms(2)] .
  moreover have "rank r \<le> sv_push_stall s + sv_pull_stall s + 5"
    using inv(2) assms(2) by (auto simp: stall_inv_def stall_ok_def rank_def)
  ultimately show ?thesis by (auto simp: below_def less_Suc_eq_le)
qed

theorem request_progress_witness:
  "\<exists>r \<in> set (sv_inflight service_waiting). rank r \<le> 6 \<and> (\<exists>e. wakes r e)"
proof -
  obtain r where "r \<in> set (sv_inflight service_waiting)"
    using service_waiting_eval(1) by (cases "sv_inflight service_waiting") auto
  then show ?thesis using request_progress [OF service_waiting_reachable, of r]
    by (intro bexI [of _ r]) (auto simp: service_ex_defs)
qed

end
