(* ===== verification/FrontClient.thy ===== *)
theory FrontClient
  imports Service
begin

text \<open>
  The front's Mercury client (\<^verbatim>\<open>target/nkvx_front_client.c\<close>): the cache of registered bulk handles,
  the Exec forward with its two-phase cancel, the KV forward, and the teardown.

  Mercury is the parameter \<open>front_env\<close>: which allocations, registrations and submissions succeed.
  Bulk handles are numbers that are never reused; \<open>fr_bulks\<close> holds the registered ones. A call context
  is named by its call id (a counter of 64 bits, taken as unbounded); \<open>fr_calls\<close> holds the contexts
  that are allocated, \<open>fr_inflight\<close> the in-flight list. Buffer addresses are numbers, \<^const>\<open>None\<close> is
  NULL. The log \<open>fr_log\<close> records what the tenant and the executor see, oldest first.
\<close>

section \<open>State\<close>

datatype bulk_mode = HG_BULK_READ_ONLY | HG_BULK_WRITE_ONLY

definition bulk_cache_slots :: nat where
  "bulk_cache_slots = 64"

record bulk_entry =
  be_addr :: nat
  be_len :: nat
  be_flags :: bulk_mode
  be_handle :: "nat option"
  be_refs :: nat
  be_used_seq :: nat

record call =
  fc_arg :: nat
  fc_handle :: bool
  fc_input_bulk :: "nat option"
  fc_result_sink :: "nat option"
  fc_tenant_done :: bool
  fc_cancelling :: bool
  fc_forward_done :: bool
  fc_cancel_acked :: bool
  fc_detached :: bool
  fc_cancel_handle :: bool
  fc_op_id :: nat
  fc_call_id :: nat
  fc_join_status :: io_status

record kv_call =
  vc_id :: nat
  vc_arg :: nat
  vc_value_bulk :: "nat option"
  vc_result_sink :: "nat option"

text \<open>
  \<open>Fe_sent c i\<close> is the Exec request put on the wire for call \<open>c\<close>, \<open>Fe_tenant\<close> the call of the tenant's
  callback, \<open>Fe_release c\<close> the point where the front gives up the bulk handles of \<open>c\<close>.
\<close>

datatype front_event =
    Fe_sent nat "nat exec_in"
  | Fe_tenant nat io_status nat "bytes option"
  | Fe_cancel_sent nat
  | Fe_hg_cancel nat
  | Fe_ack nat
  | Fe_resolved nat
  | Fe_release nat
  | Fe_bulk_free nat
  | Fe_teardown
  | Fe_kv_sent nat "nat kv_in"
  | Fe_kv_tenant nat io_status nat "bytes option"

record front =
  fr_calls :: "call list"
  fr_inflight :: "nat list"
  fr_n_inflight :: nat
  fr_next_call_id :: nat
  fr_kv :: "kv_call list"
  fr_next_kv :: nat
  fr_bulk_cache :: "bulk_entry list"
  fr_bulk_seq :: nat
  fr_bulk_hits :: nat
  fr_bulk_misses :: nat
  fr_bulk_evicts :: nat
  fr_bulks :: "nat list"
  fr_next_bulk :: nat
  fr_log :: "front_event list"

record front_env =
  fv_calloc :: bool
  fv_bulk_create :: "bulk_mode \<Rightarrow> bool"
  fv_create :: bool
  fv_forward :: bool
  fv_cancel_create :: "nat \<Rightarrow> bool"
  fv_cancel_forward :: "nat \<Rightarrow> bool"

definition log_front :: "front_event list \<Rightarrow> front \<Rightarrow> front" where
  "log_front es fr = fr\<lparr>fr_log := fr_log fr @ es\<rparr>"

definition e_io :: errno where
  "e_io = E_OTHER 5"

definition e_notconn :: errno where
  "e_notconn = E_OTHER 107"

section \<open>The bulk handle cache\<close>

definition bulk_register :: "front \<Rightarrow> nat \<times> front" where
  "bulk_register fr = (fr_next_bulk fr, fr\<lparr>fr_bulks := fr_bulks fr @ [fr_next_bulk fr], fr_next_bulk := fr_next_bulk fr + 1\<rparr>)"

definition bulk_unregister :: "nat \<Rightarrow> front \<Rightarrow> front" where
  "bulk_unregister h fr = log_front [Fe_bulk_free h] (fr\<lparr>fr_bulks := filter (\<lambda>x. x \<noteq> h) (fr_bulks fr)\<rparr>)"

text \<open>The scan: the first matching entry, else the first empty slot, else the least recently used unreferenced one.\<close>

datatype scan = Scan_hit nat | Scan_slot "nat option"

primrec bulk_scan :: "bulk_entry list \<Rightarrow> nat \<Rightarrow> nat \<times> nat \<times> bulk_mode \<Rightarrow> nat option \<Rightarrow> (nat \<times> nat) option \<Rightarrow> scan" where
  "bulk_scan [] i key free_slot victim = Scan_slot (if free_slot \<noteq> None then free_slot else map_option fst victim)"
| "bulk_scan (e # es) i key free_slot victim =
    (if be_handle e \<noteq> None \<and> (be_addr e, be_len e, be_flags e) = key then Scan_hit i
     else if be_handle e = None then bulk_scan es (Suc i) key (if free_slot = None then Some i else free_slot) victim
     else if be_refs e = 0 \<and> (case victim of None \<Rightarrow> True | Some (j, seq) \<Rightarrow> be_used_seq e < seq)
     then bulk_scan es (Suc i) key free_slot (Some (i, be_used_seq e))
     else bulk_scan es (Suc i) key free_slot victim)"

definition nkvx_bulk_acquire :: "front_env \<Rightarrow> nat \<Rightarrow> nat \<Rightarrow> bulk_mode \<Rightarrow> front \<Rightarrow> (errno + nat) \<times> front" where
  "nkvx_bulk_acquire env addr len flags fr =
    (case bulk_scan (fr_bulk_cache fr) 0 (addr, len, flags) None None of
       Scan_hit i \<Rightarrow>
         let e = fr_bulk_cache fr ! i; seq = fr_bulk_seq fr + 1 in
         (Inr (the (be_handle e)), fr\<lparr>fr_bulk_cache := (fr_bulk_cache fr)[i := e\<lparr>be_refs := be_refs e + 1, be_used_seq := seq\<rparr>],
            fr_bulk_seq := seq, fr_bulk_hits := fr_bulk_hits fr + 1\<rparr>)
     | Scan_slot slot \<Rightarrow>
         let fr1 = fr\<lparr>fr_bulk_misses := fr_bulk_misses fr + 1\<rparr> in
         if \<not> fv_bulk_create env flags then (Inl e_io, fr1)
         else case bulk_register fr1 of (h, fr2) \<Rightarrow>
           (case slot of
              None \<Rightarrow> (Inr h, fr2)
            | Some i \<Rightarrow>
                let fr3 = (case be_handle (fr_bulk_cache fr2 ! i) of
                             None \<Rightarrow> fr2
                           | Some old \<Rightarrow> (bulk_unregister old fr2)\<lparr>fr_bulk_evicts := fr_bulk_evicts fr2 + 1\<rparr>);
                    seq = fr_bulk_seq fr3 + 1 in
                (Inr h, fr3\<lparr>fr_bulk_cache := (fr_bulk_cache fr3)[i := \<lparr>be_addr = addr, be_len = len, be_flags = flags,
                   be_handle = Some h, be_refs = 1, be_used_seq = seq\<rparr>], fr_bulk_seq := seq\<rparr>)))"

primrec drop_ref :: "nat \<Rightarrow> bulk_entry list \<Rightarrow> bulk_entry list option" where
  "drop_ref h [] = None"
| "drop_ref h (e # es) =
    (if be_handle e = Some h then Some ((if be_refs e > 0 then e\<lparr>be_refs := be_refs e - 1\<rparr> else e) # es)
     else map_option (Cons e) (drop_ref h es))"

definition nkvx_bulk_release :: "nat option \<Rightarrow> front \<Rightarrow> front" where
  "nkvx_bulk_release h fr =
    (case h of
       None \<Rightarrow> fr
     | Some h \<Rightarrow>
         (case drop_ref h (fr_bulk_cache fr) of
            Some es \<Rightarrow> fr\<lparr>fr_bulk_cache := es\<rparr>
          | None \<Rightarrow> bulk_unregister h fr))"

definition nkvx_bulk_acquire_dmabuf :: "front_env \<Rightarrow> nat option \<Rightarrow> front \<Rightarrow> (errno + nat) \<times> front" where
  "nkvx_bulk_acquire_dmabuf env base fr =
    (if base = None then (Inl E_INVAL, fr)
     else let fr1 = fr\<lparr>fr_bulk_misses := fr_bulk_misses fr + 1\<rparr> in
       if \<not> fv_bulk_create env HG_BULK_WRITE_ONLY then (Inl e_io, fr1)
       else case bulk_register fr1 of (h, fr2) \<Rightarrow> (Inr h, fr2))"

section \<open>Call contexts\<close>

definition get_call :: "front \<Rightarrow> nat \<Rightarrow> call option" where
  "get_call fr c = find (\<lambda>x. fc_call_id x = c) (fr_calls fr)"

definition put_call :: "call \<Rightarrow> front \<Rightarrow> front" where
  "put_call x fr = fr\<lparr>fr_calls := map (\<lambda>y. if fc_call_id y = fc_call_id x then x else y) (fr_calls fr)\<rparr>"

definition free_call :: "nat \<Rightarrow> front \<Rightarrow> front" where
  "free_call c fr = fr\<lparr>fr_calls := filter (\<lambda>y. fc_call_id y \<noteq> c) (fr_calls fr)\<rparr>"

definition detach :: "nat \<Rightarrow> front \<Rightarrow> front" where
  "detach c fr = fr\<lparr>fr_inflight := filter (\<lambda>y. y \<noteq> c) (fr_inflight fr), fr_n_inflight := fr_n_inflight fr - 1\<rparr>"

text \<open>The two releases every path makes together.\<close>

definition release_call :: "call \<Rightarrow> front \<Rightarrow> front" where
  "release_call x fr = nkvx_bulk_release (fc_result_sink x)
     (nkvx_bulk_release (fc_input_bulk x) (log_front [Fe_release (fc_call_id x)] fr))"

definition nkvx_call_try_complete :: "call \<Rightarrow> front \<Rightarrow> front" where
  "nkvx_call_try_complete x fr =
    (if \<not> (fc_cancelling x \<and> fc_forward_done x \<and> fc_cancel_acked x) then put_call x fr
     else
       let fr1 = (if fc_tenant_done x then fr else log_front [Fe_tenant (fc_call_id x) (fc_join_status x) 0 None] fr);
           fr2 = release_call x fr1;
           fr3 = (if fc_detached x then fr2 else detach (fc_call_id x) fr2) in
       free_call (fc_call_id x) fr3)"

definition nkvx_call_begin_cancel :: "front_env \<Rightarrow> nat \<Rightarrow> front \<Rightarrow> front" where
  "nkvx_call_begin_cancel env c fr =
    (case get_call fr c of
       None \<Rightarrow> fr
     | Some x \<Rightarrow>
         if fc_cancelling x then fr
         else
           let x1 = x\<lparr>fc_cancelling := True, fc_join_status := IO_ABORTED\<rparr> in
           if fc_result_sink x = None \<and> fc_input_bulk x = None then
             log_front [Fe_hg_cancel c] (put_call (x1\<lparr>fc_cancel_acked := True\<rparr>) fr)
           else if \<not> fv_cancel_create env c \<or> \<not> fv_cancel_forward env c then put_call (x1\<lparr>fc_cancel_acked := True\<rparr>) fr
           else log_front [Fe_cancel_sent c, Fe_hg_cancel c] (put_call (x1\<lparr>fc_cancel_handle := True\<rparr>) fr))"

definition nkvx_cancel_ack_cb :: "call \<Rightarrow> front \<Rightarrow> front" where
  "nkvx_cancel_ack_cb x fr =
    nkvx_call_try_complete (x\<lparr>fc_cancel_handle := False, fc_cancel_acked := True\<rparr>) (log_front [Fe_ack (fc_call_id x)] fr)"

text \<open>The outcome of a forward: Mercury's return code, and the decoded response (\<^const>\<open>None\<close>: it did not decode).\<close>

definition forward_result :: "hg_ret \<Rightarrow> exec_out option \<Rightarrow> io_status \<times> nat \<times> bytes option" where
  "forward_result ret out =
    (if ret \<noteq> HG_SUCCESS then (if ret = HG_CANCELED then IO_ABORTED else IO_FAILED, 0, None)
     else case out of
       None \<Rightarrow> (IO_FAILED, 0, None)
     | Some r \<Rightarrow> (nkvx_status_from_wire (eo_status r), eo_result_len r,
         map_option (take (eo_result_inline_len r)) (eo_result_inline r)))"

definition nkvx_front_forward_cb :: "hg_ret \<Rightarrow> exec_out option \<Rightarrow> call \<Rightarrow> front \<Rightarrow> front" where
  "nkvx_front_forward_cb ret out x fr0 =
    (let c = fc_call_id x; fr = log_front [Fe_resolved c] fr0 in
     if fc_cancelling x then nkvx_call_try_complete (x\<lparr>fc_forward_done := True, fc_handle := False\<rparr>) fr
     else if fc_tenant_done x then free_call c (release_call x fr)
     else case forward_result ret out of (st, len, inl) \<Rightarrow>
       free_call c (release_call x (detach c (log_front [Fe_tenant c st len inl] fr))))"

section \<open>The Exec forward\<close>

definition front_reject :: "nat exec_in \<Rightarrow> nat \<Rightarrow> bool \<Rightarrow> bool" where
  "front_reject i sink_len dmabuf =
    ((ei_input_len i > nkvx_inline_max \<and> ei_input_inline i = None) \<or> (dmabuf \<and> sink_len \<le> nkvx_inline_max))"

definition acquire_input :: "front_env \<Rightarrow> nat exec_in \<Rightarrow> nat \<Rightarrow> front \<Rightarrow> (errno + nat option) \<times> front" where
  "acquire_input env i in_addr fr =
    (if ei_input_len i > nkvx_inline_max \<and> ei_input_inline i \<noteq> None then
       (case nkvx_bulk_acquire env in_addr (ei_input_len i) HG_BULK_READ_ONLY fr of (r, fr') \<Rightarrow> (map_sum id Some r, fr'))
     else (Inr None, fr))"

definition acquire_sink :: "front_env \<Rightarrow> nat option \<Rightarrow> nat \<Rightarrow> bool \<Rightarrow> front \<Rightarrow> (errno + nat option) \<times> front" where
  "acquire_sink env sink sink_len dmabuf fr =
    (if (dmabuf \<or> sink \<noteq> None) \<and> sink_len > nkvx_inline_max then
       (case (if dmabuf then nkvx_bulk_acquire_dmabuf env sink fr
              else nkvx_bulk_acquire env (the sink) sink_len HG_BULK_WRITE_ONLY fr) of
          (r, fr') \<Rightarrow> (map_sum id Some r, fr'))
     else (Inr None, fr))"

definition new_call :: "nat \<Rightarrow> nat exec_in \<Rightarrow> nat \<Rightarrow> nat option \<Rightarrow> nat option \<Rightarrow> call" where
  "new_call arg i c ib sk = \<lparr>fc_arg = arg, fc_handle = True, fc_input_bulk = ib, fc_result_sink = sk, fc_tenant_done = False,
     fc_cancelling = False, fc_forward_done = False, fc_cancel_acked = False, fc_detached = False,
     fc_cancel_handle = False, fc_op_id = ei_op_id i, fc_call_id = c, fc_join_status = IO_SUCCESS\<rparr>"

text \<open>Returns the error or the cancel token.\<close>

definition nkvx_front_forward_full :: "front_env \<Rightarrow> nat exec_in \<Rightarrow> nat \<Rightarrow> nat option \<Rightarrow> nat \<Rightarrow> bool \<Rightarrow> nat \<Rightarrow> front
    \<Rightarrow> (errno + nat) \<times> front" where
  "nkvx_front_forward_full env i in_addr sink sink_len dmabuf arg fr =
    (if front_reject i sink_len dmabuf then (Inl E_INVAL, fr)
     else if \<not> fv_calloc env then (Inl E_NOMEM, fr)
     else
       let c = fr_next_call_id fr + 1; fr0 = fr\<lparr>fr_next_call_id := c\<rparr> in
       case acquire_input env i in_addr fr0 of
         (Inl err, fr1) \<Rightarrow> (Inl err, fr1)
       | (Inr ib, fr1) \<Rightarrow>
           (case acquire_sink env sink sink_len dmabuf fr1 of
              (Inl err, fr2) \<Rightarrow> (Inl err, nkvx_bulk_release ib fr2)
            | (Inr sk, fr2) \<Rightarrow>
                if \<not> fv_create env \<or> \<not> fv_forward env then (Inl e_io, nkvx_bulk_release sk (nkvx_bulk_release ib fr2))
                else (Inr c, log_front [Fe_sent c (i\<lparr>ei_client_call_id := c, ei_input_bulk := ib, ei_result_sink := sk\<rparr>)]
                  (fr2\<lparr>fr_calls := fr_calls fr2 @ [new_call arg i c ib sk],
                     fr_inflight := fr_inflight fr2 @ [c], fr_n_inflight := fr_n_inflight fr2 + 1\<rparr>))))"

definition nkvx_front_forward_tok :: "front_env \<Rightarrow> nat exec_in \<Rightarrow> nat \<Rightarrow> nat option \<Rightarrow> nat \<Rightarrow> nat \<Rightarrow> front \<Rightarrow> (errno + nat) \<times> front" where
  "nkvx_front_forward_tok env i in_addr sink sink_len arg fr = nkvx_front_forward_full env i in_addr sink sink_len False arg fr"

definition nkvx_front_forward_dmabuf :: "front_env \<Rightarrow> nat exec_in \<Rightarrow> nat \<Rightarrow> nat option \<Rightarrow> nat \<Rightarrow> int \<Rightarrow> nat \<Rightarrow> front
    \<Rightarrow> (errno + nat) \<times> front" where
  "nkvx_front_forward_dmabuf env i in_addr sink sink_len fd arg fr =
    nkvx_front_forward_full env i in_addr sink sink_len (fd \<ge> 0) arg fr"

definition nkvx_front_forward :: "front_env \<Rightarrow> nat exec_in \<Rightarrow> nat \<Rightarrow> nat option \<Rightarrow> nat \<Rightarrow> nat \<Rightarrow> front \<Rightarrow> errno option \<times> front" where
  "nkvx_front_forward env i in_addr sink sink_len arg fr =
    (case nkvx_front_forward_tok env i in_addr sink sink_len arg fr of
       (Inl err, fr') \<Rightarrow> (Some err, fr')
     | (Inr _, fr') \<Rightarrow> (None, fr'))"

section \<open>The KV forward\<close>

definition kv_result :: "hg_ret \<Rightarrow> kv_out option \<Rightarrow> io_status \<times> nat \<times> bytes option" where
  "kv_result ret out =
    (if ret \<noteq> HG_SUCCESS then (IO_FAILED, 0, None)
     else case out of
       None \<Rightarrow> (IO_FAILED, 0, None)
     | Some r \<Rightarrow> (nkvx_status_from_wire (ko_status r), ko_result_len r,
         map_option (take (ko_result_inline_len r)) (ko_result_inline r)))"

definition nkvx_kv_forward_cb :: "hg_ret \<Rightarrow> kv_out option \<Rightarrow> kv_call \<Rightarrow> front \<Rightarrow> front" where
  "nkvx_kv_forward_cb ret out x fr =
    (case kv_result ret out of (st, len, inl) \<Rightarrow>
     let fr1 = nkvx_bulk_release (vc_result_sink x) (nkvx_bulk_release (vc_value_bulk x)
               (log_front [Fe_kv_tenant (vc_id x) st len inl] fr)) in
     fr1\<lparr>fr_kv := filter (\<lambda>y. vc_id y \<noteq> vc_id x) (fr_kv fr1)\<rparr>)"

definition fresh_bulk :: "front_env \<Rightarrow> bulk_mode \<Rightarrow> bool \<Rightarrow> front \<Rightarrow> (errno + nat option) \<times> front" where
  "fresh_bulk env mode wanted fr =
    (if \<not> wanted then (Inr None, fr)
     else let fr1 = fr\<lparr>fr_bulk_misses := fr_bulk_misses fr + 1\<rparr> in
       if \<not> fv_bulk_create env mode then (Inl e_io, fr1)
       else case bulk_register fr1 of (h, fr2) \<Rightarrow> (Inr (Some h), fr2))"

definition nkvx_front_kv_forward :: "front_env \<Rightarrow> nat kv_in \<Rightarrow> nat option \<Rightarrow> nat \<Rightarrow> nat \<Rightarrow> front \<Rightarrow> errno option \<times> front" where
  "nkvx_front_kv_forward env i sink sink_len arg fr =
    (if ki_value_len i > nkvx_inline_max \<and> ki_value_inline i = None then (Some E_INVAL, fr)
     else if \<not> fv_calloc env then (Some E_NOMEM, fr)
     else case fresh_bulk env HG_BULK_READ_ONLY (ki_value_len i > nkvx_inline_max \<and> ki_value_inline i \<noteq> None) fr of
       (Inl err, fr1) \<Rightarrow> (Some err, fr1)
     | (Inr vb, fr1) \<Rightarrow>
         (case fresh_bulk env HG_BULK_WRITE_ONLY (sink \<noteq> None \<and> sink_len > nkvx_inline_max) fr1 of
            (Inl err, fr2) \<Rightarrow> (Some err, nkvx_bulk_release vb fr2)
          | (Inr sk, fr2) \<Rightarrow>
              if \<not> fv_create env \<or> \<not> fv_forward env then (Some e_io, nkvx_bulk_release sk (nkvx_bulk_release vb fr2))
              else let c = fr_next_kv fr2 in
                (None, log_front [Fe_kv_sent c (i\<lparr>ki_value_bulk := vb, ki_result_sink := sk\<rparr>)]
                  (fr2\<lparr>fr_kv := fr_kv fr2 @ [\<lparr>vc_id = c, vc_arg = arg, vc_value_bulk = vb, vc_result_sink = sk\<rparr>],
                     fr_next_kv := c + 1\<rparr>))))"

section \<open>Cancel and teardown\<close>

definition nkvx_front_cancel :: "front_env \<Rightarrow> nat \<Rightarrow> front \<Rightarrow> bool \<times> front" where
  "nkvx_front_cancel env token fr =
    (if token = 0 \<or> token \<notin> set (fr_inflight fr) then (False, fr) else (True, nkvx_call_begin_cancel env token fr))"

definition nkvx_front_cancel_all :: "front_env \<Rightarrow> front \<Rightarrow> front" where
  "nkvx_front_cancel_all env fr = fold (nkvx_call_begin_cancel env) (fr_inflight fr) fr"

definition fail_pending :: "io_status \<Rightarrow> nat \<Rightarrow> front \<Rightarrow> front" where
  "fail_pending st c fr =
    (case get_call fr c of
       None \<Rightarrow> fr
     | Some x \<Rightarrow>
         detach c (put_call (x\<lparr>fc_tenant_done := True, fc_input_bulk := None, fc_result_sink := None, fc_detached := True\<rparr>)
           (release_call x (log_front [Fe_tenant c st 0 None] fr))))"

definition nkvx_front_fail_all_pending :: "io_status \<Rightarrow> front \<Rightarrow> front" where
  "nkvx_front_fail_all_pending st fr = fold (fail_pending st) (fr_inflight fr) (log_front [Fe_teardown] fr)"

definition nkvx_front_outstanding :: "front \<Rightarrow> nat" where
  "nkvx_front_outstanding fr = fr_n_inflight fr"

definition nkvx_front_get_bulk_stats :: "front \<Rightarrow> nat \<times> nat \<times> nat" where
  "nkvx_front_get_bulk_stats fr = (fr_bulk_hits fr, fr_bulk_misses fr, fr_bulk_evicts fr)"

definition empty_slot :: bulk_entry where
  "empty_slot = \<lparr>be_addr = 0, be_len = 0, be_flags = HG_BULK_READ_ONLY, be_handle = None, be_refs = 0, be_used_seq = 0\<rparr>"

definition front_zero :: front where
  "front_zero = \<lparr>fr_calls = [], fr_inflight = [], fr_n_inflight = 0, fr_next_call_id = 0, fr_kv = [], fr_next_kv = 0,
     fr_bulk_cache = replicate bulk_cache_slots empty_slot, fr_bulk_seq = 0, fr_bulk_hits = 0, fr_bulk_misses = 0,
     fr_bulk_evicts = 0, fr_bulks = [], fr_next_bulk = 0, fr_log = []\<rparr>"

text \<open>What Mercury reports while a front is set up.\<close>

record hg_boot =
  hb_calloc :: bool
  hb_init :: "string \<Rightarrow> bool"
  hb_context :: bool
  hb_register :: "string \<Rightarrow> bool"
  hb_lookup :: "string \<Rightarrow> bool"

definition nkvx_front_init :: "hg_boot \<Rightarrow> string option \<Rightarrow> string option \<Rightarrow> errno + front" where
  "nkvx_front_init hb na_init target_addr =
    (case (na_init, target_addr) of
       (Some na, Some addr) \<Rightarrow>
         if \<not> hb_calloc hb then Inl E_NOMEM
         else if \<not> hb_init hb na then Inl e_notconn
         else if \<not> hb_context hb then Inl E_NOMEM
         else if \<not> hb_register hb ''nkvx_exec'' \<or> \<not> hb_register hb ''nkvx_cancel'' \<or> \<not> hb_register hb ''nkvx_kv'' then Inl e_notconn
         else if \<not> hb_lookup hb addr then Inl e_notconn
         else Inr front_zero
     | _ \<Rightarrow> Inl E_INVAL)"

definition free_cached :: "bulk_entry \<Rightarrow> front \<Rightarrow> front" where
  "free_cached e fr = (case be_handle e of None \<Rightarrow> fr | Some h \<Rightarrow> bulk_unregister h fr)"

definition nkvx_front_fini :: "front \<Rightarrow> front" where
  "nkvx_front_fini fr = fold free_cached (fr_bulk_cache fr) fr"

text \<open>
  One progress call: Mercury's network progress, then every completion that became ready, in the
  order Mercury triggers them; each completion is one of the callbacks above. The result is the
  number of callbacks run, or an error of Mercury.
\<close>

datatype completion =
    Done_forward nat hg_ret "exec_out option"
  | Done_cancel nat
  | Done_kv nat hg_ret "kv_out option"

definition run_completion :: "completion \<Rightarrow> front \<Rightarrow> front" where
  "run_completion d fr =
    (case d of
       Done_forward c ret out \<Rightarrow> (case get_call fr c of None \<Rightarrow> fr | Some x \<Rightarrow> nkvx_front_forward_cb ret out x fr)
     | Done_cancel c \<Rightarrow> (case get_call fr c of None \<Rightarrow> fr | Some x \<Rightarrow> nkvx_cancel_ack_cb x fr)
     | Done_kv c ret out \<Rightarrow> (case find (\<lambda>x. vc_id x = c) (fr_kv fr) of None \<Rightarrow> fr | Some x \<Rightarrow> nkvx_kv_forward_cb ret out x fr))"

definition nkvx_front_progress :: "bool \<Rightarrow> completion list \<Rightarrow> bool \<Rightarrow> front \<Rightarrow> (errno + nat) \<times> front" where
  "nkvx_front_progress progress_ok ds drained fr =
    (if \<not> progress_ok then (Inl e_io, fr)
     else let fr' = fold run_completion ds fr in
       (if drained then Inr (length ds) else Inl e_io, fr'))"

end
