(* ===== verification/FrontSafety.thy ===== *)
theory FrontSafety
  imports FrontClient "HOL-Library.Multiset"
begin

text \<open>
  What the front client guarantees over any interleaving of forwards, cancels, completions and the
  teardown: a bulk handle stays registered while a call holds it and is freed at most once, the
  tenant's callback runs exactly once per call, a context lives exactly as long as a completion is
  outstanding, and a cancelled call gives up its handles only after the executor's acknowledgement.
\<close>

section \<open>The handle cache against the handles in use\<close>

definition cached :: "bulk_entry list \<Rightarrow> nat list" where
  "cached es = concat (map (\<lambda>e. case be_handle e of None \<Rightarrow> [] | Some h \<Rightarrow> [h]) es)"

lemma cached_simps [simp]: "cached [] = []"
  "cached (e # es) = (case be_handle e of None \<Rightarrow> [] | Some h \<Rightarrow> [h]) @ cached es" "cached (xs @ ys) = cached xs @ cached ys"
  by (simp_all add: cached_def)

lemma in_cached: "h \<in> set (cached es) \<longleftrightarrow> (\<exists>e \<in> set es. be_handle e = Some h)"
  by (auto simp: cached_def split: option.splits) force

text \<open>
  The handle state when the handles in \<open>H\<close> are in use: the reference counts are exact, what is
  registered is what is cached or in use, and each handle is freed once, when it is neither.
\<close>

definition bulk_ok :: "nat multiset \<Rightarrow> front \<Rightarrow> bool" where
  "bulk_ok H fr =
    (length (fr_bulk_cache fr) = bulk_cache_slots \<and> distinct (cached (fr_bulk_cache fr))
     \<and> (\<forall>e \<in> set (fr_bulk_cache fr). \<forall>h. be_handle e = Some h \<longrightarrow> be_refs e = count H h)
     \<and> set (fr_bulks fr) = set (cached (fr_bulk_cache fr)) \<union> set_mset H
     \<and> (\<forall>h \<in># H. h \<notin> set (cached (fr_bulk_cache fr)) \<longrightarrow> count H h = 1)
     \<and> (\<forall>h \<in> set (fr_bulks fr). h < fr_next_bulk fr)
     \<and> (\<forall>h. count_list (fr_log fr) (Fe_bulk_free h) = (if h < fr_next_bulk fr \<and> h \<notin> set (fr_bulks fr) then 1 else 0)))"

lemma bulk_okD:
  assumes "bulk_ok H fr"
  shows "length (fr_bulk_cache fr) = bulk_cache_slots" "distinct (cached (fr_bulk_cache fr))"
    "e \<in> set (fr_bulk_cache fr) \<Longrightarrow> be_handle e = Some h \<Longrightarrow> be_refs e = count H h"
    "set (fr_bulks fr) = set (cached (fr_bulk_cache fr)) \<union> set_mset H"
    "h \<in># H \<Longrightarrow> h \<notin> set (cached (fr_bulk_cache fr)) \<Longrightarrow> count H h = 1"
    "h \<in> set (fr_bulks fr) \<Longrightarrow> h < fr_next_bulk fr"
    "count_list (fr_log fr) (Fe_bulk_free h) = (if h < fr_next_bulk fr \<and> h \<notin> set (fr_bulks fr) then 1 else 0)"
  using assms unfolding bulk_ok_def by blast+

lemma bulk_ok_same:
  assumes "bulk_ok H fr" "fr_bulk_cache fr' = fr_bulk_cache fr" "fr_bulks fr' = fr_bulks fr" "fr_next_bulk fr' = fr_next_bulk fr"
    and "fr_log fr' = fr_log fr @ es" "\<forall>e \<in> set es. \<forall>h. e \<noteq> Fe_bulk_free h"
  shows "bulk_ok H fr'"
proof -
  have "count_list es (Fe_bulk_free h) = 0" for h using assms(6) by (auto simp: count_list_0_iff)
  then show ?thesis using assms(1-5) unfolding bulk_ok_def by simp
qed

lemma create_ok:
  assumes "bulk_ok H fr"
  shows "bulk_ok (add_mset (fst (bulk_register fr)) H) (snd (bulk_register fr))"
proof -
  let ?n = "fr_next_bulk fr"
  have n: "?n \<notin> set (fr_bulks fr)" using bulk_okD(6) [OF assms, of ?n] by auto
  then have "?n \<notin> set (cached (fr_bulk_cache fr))" "?n \<notin># H" using bulk_okD(4) [OF assms] by auto
  then show ?thesis using assms n unfolding bulk_ok_def bulk_register_def
    by (auto simp: in_cached less_Suc_eq not_in_iff)
qed

lemma scan_hit:
  "bulk_scan es i key sl v = Scan_hit j \<Longrightarrow> i \<le> j \<and> j < i + length es \<and> be_handle (es ! (j - i)) \<noteq> None"
proof (induction es arbitrary: i sl v)
  case (Cons e es)
  show ?case
  proof (cases "be_handle e \<noteq> None \<and> (be_addr e, be_len e, be_flags e) = key")
    case False
    then obtain sl' v' where "bulk_scan es (Suc i) key sl' v' = Scan_hit j" using Cons.prems by (auto split: if_splits)
    from Cons.IH [OF this] show ?thesis by (auto simp: nth_Cons')
  qed (use Cons.prems in auto)
qed simp

lemma scan_slot:
  "bulk_scan es i key sl v = Scan_slot (Some j) \<Longrightarrow>
    sl = Some j \<or> map_option fst v = Some j
    \<or> (i \<le> j \<and> j < i + length es \<and> (be_handle (es ! (j - i)) = None \<or> be_refs (es ! (j - i)) = 0))"
proof (induction es arbitrary: i sl v)
  case (Cons e es)
  obtain sl' v' where r: "bulk_scan es (Suc i) key sl' v' = Scan_slot (Some j)"
    and sl: "sl' = sl \<or> (sl' = Some i \<and> be_handle e = None)" and v: "v' = v \<or> (map_option fst v' = Some i \<and> be_refs e = 0)"
    using Cons.prems by (auto split: if_splits)
  from Cons.IH [OF r] show ?case
  proof (elim disjE)
    assume "Suc i \<le> j \<and> j < Suc i + length es \<and> (be_handle (es ! (j - Suc i)) = None \<or> be_refs (es ! (j - Suc i)) = 0)"
    then show ?thesis by (auto simp: nth_Cons')
  qed (use sl v in auto)
qed (auto split: if_splits)

text \<open>Replacing one cache entry by another.\<close>

lemma split_at: "i < length es \<Longrightarrow> es = take i es @ es ! i # drop (Suc i) es"
  by (simp add: id_take_nth_drop)

lemma entry_split:
  assumes "bulk_ok H fr" "i < length (fr_bulk_cache fr)"
  obtains xs ys where "fr_bulk_cache fr = xs @ fr_bulk_cache fr ! i # ys" "\<And>e'. (fr_bulk_cache fr)[i := e'] = xs @ e' # ys"
proof -
  let ?xs = "take i (fr_bulk_cache fr)" and ?ys = "drop (Suc i) (fr_bulk_cache fr)"
  have sp: "fr_bulk_cache fr = ?xs @ fr_bulk_cache fr ! i # ?ys" using split_at [OF assms(2)] .
  have "(fr_bulk_cache fr)[i := e'] = ?xs @ e' # ?ys" for e' using assms(2) by (simp add: upd_conv_take_nth_drop)
  then show ?thesis using that sp by blast
qed

lemma replace_ok:
  assumes "bulk_ok H fr" "fr_bulk_cache fr = xs @ e # ys" "fr_bulk_cache fr' = xs @ e' # ys"
    and e': "be_handle e' = Some h" "be_refs e' = count H' h" "h \<notin> set (cached (xs @ ys))"
    and H': "\<forall>k \<in> set (cached (xs @ ys)). count H' k = count H k"
    and bulks: "set (fr_bulks fr') = insert h (set (cached (xs @ ys)) \<union> set_mset H')"
    and unc: "\<forall>k \<in># H'. k \<noteq> h \<longrightarrow> k \<notin> set (cached (xs @ ys)) \<longrightarrow> count H' k = 1"
    and log: "\<forall>k \<in> set (fr_bulks fr'). k < fr_next_bulk fr'"
      "\<forall>k. count_list (fr_log fr') (Fe_bulk_free k) = (if k < fr_next_bulk fr' \<and> k \<notin> set (fr_bulks fr') then 1 else 0)"
  shows "bulk_ok H' fr'"
proof -
  have d: "distinct (cached (xs @ e # ys))" "length (xs @ e # ys) = bulk_cache_slots"
    using bulk_okD(1,2) [OF assms(1)] assms(2) by simp_all
  have "be_refs x = count H' k" if "x \<in> set xs \<union> set ys" "be_handle x = Some k" for x k
  proof -
    have "k \<in> set (cached (xs @ ys))" using that by (auto simp: in_cached)
    then show ?thesis using H' bulk_okD(3) [OF assms(1), of x k] that assms(2) by auto
  qed
  then show ?thesis
    unfolding bulk_ok_def assms(3) using d e' bulks unc log by (auto split: option.splits)
qed

text \<open>A cached handle is not the handle of another entry.\<close>

lemma entry_unique:
  assumes "bulk_ok H fr" "fr_bulk_cache fr = xs @ e # ys" "be_handle e = Some h"
  shows "h \<notin> set (cached (xs @ ys))" "be_refs e = count H h" "h \<in> set (fr_bulks fr)"
    "set (fr_bulks fr) = insert h (set (cached (xs @ ys)) \<union> set_mset H)"
    "\<forall>k \<in># H. k \<noteq> h \<longrightarrow> k \<notin> set (cached (xs @ ys)) \<longrightarrow> count H k = 1"
  using bulk_okD(2,4) [OF assms(1)] bulk_okD(3) [OF assms(1), of e h] bulk_okD(5) [OF assms(1)] assms(2,3) by auto

lemma hit_ok:
  assumes "bulk_ok H fr" "i < length (fr_bulk_cache fr)" "be_handle (fr_bulk_cache fr ! i) = Some h"
    and "fr_bulk_cache fr' = (fr_bulk_cache fr)[i := (fr_bulk_cache fr ! i)\<lparr>be_refs := be_refs (fr_bulk_cache fr ! i) + 1, be_used_seq := q\<rparr>]"
    and "fr_bulks fr' = fr_bulks fr" "fr_next_bulk fr' = fr_next_bulk fr" "fr_log fr' = fr_log fr"
  shows "bulk_ok (add_mset h H) fr'"
proof -
  let ?e = "fr_bulk_cache fr ! i"
  obtain xs ys where sp: "fr_bulk_cache fr = xs @ ?e # ys" "\<And>e'. (fr_bulk_cache fr)[i := e'] = xs @ e' # ys"
    using entry_split [OF assms(1,2)] by metis
  note u = entry_unique [OF assms(1) sp(1) assms(3)]
  show ?thesis
    by (rule replace_ok [OF assms(1) sp(1) assms(4) [unfolded sp(2)]])
      (use assms(3,5-7) u bulk_okD(6,7) [OF assms(1)] in auto)
qed

lemma unregister_count:
  "count_list (fr_log (bulk_unregister h fr)) (Fe_bulk_free k) = count_list (fr_log fr) (Fe_bulk_free k) + (if k = h then 1 else 0)"
  by (simp add: bulk_unregister_def log_front_def)

lemma fill_ok:
  assumes "bulk_ok (add_mset h H) fr" "i < length (fr_bulk_cache fr)" "h \<notin># H" "h \<notin> set (cached (fr_bulk_cache fr))"
    and old: "be_handle (fr_bulk_cache fr ! i) = None \<or> be_refs (fr_bulk_cache fr ! i) = 0"
    and fr3: "fr3 = (case be_handle (fr_bulk_cache fr ! i) of None \<Rightarrow> fr | Some old \<Rightarrow> (bulk_unregister old fr)\<lparr>fr_bulk_evicts := ev\<rparr>)"
    and fr': "fr_bulk_cache fr' = (fr_bulk_cache fr3)[i := e']" "be_handle e' = Some h" "be_refs e' = 1"
      "fr_bulks fr' = fr_bulks fr3" "fr_next_bulk fr' = fr_next_bulk fr3" "fr_log fr' = fr_log fr3"
  shows "bulk_ok (add_mset h H) fr'"
proof -
  let ?e = "fr_bulk_cache fr ! i"
  obtain xs ys where sp: "fr_bulk_cache fr = xs @ ?e # ys" "\<And>e'. (fr_bulk_cache fr)[i := e'] = xs @ e' # ys"
    using entry_split [OF assms(1,2)] by metis
  have c3: "fr_bulk_cache fr3 = fr_bulk_cache fr" "fr_next_bulk fr3 = fr_next_bulk fr"
    unfolding fr3 by (simp_all add: bulk_unregister_def log_front_def split: option.splits)
  have new: "h \<notin> set (cached (xs @ ys))" using assms(4) by (subst (asm) sp(1)) auto
  have cached: "set (cached (fr_bulk_cache fr)) = set (cached (xs @ ys)) \<union> set_option (be_handle ?e)"
    by (subst sp(1)) (auto split: option.splits)
  have bulks: "set (fr_bulks fr') = insert h (set (cached (xs @ ys)) \<union> set_mset H)
      \<and> (\<forall>k. count_list (fr_log fr') (Fe_bulk_free k) = (if k < fr_next_bulk fr' \<and> k \<notin> set (fr_bulks fr') then 1 else 0))
      \<and> (\<forall>k \<in># H. k \<notin> set (cached (xs @ ys)) \<longrightarrow> k \<notin> set (cached (fr_bulk_cache fr)))"
  proof (cases "be_handle ?e")
    case None
    then show ?thesis using fr3 fr'(4-6) bulk_okD(4,7) [OF assms(1)] cached by auto
  next
    case (Some k)
    note u = entry_unique [OF assms(1) sp(1) Some]
    have k: "k \<noteq> h" "k \<notin># H" using u old assms(4) Some cached by (auto simp: not_in_iff split: if_splits)
    have b: "fr_bulks fr' = filter (\<lambda>x. x \<noteq> k) (fr_bulks fr)" "fr_log fr' = fr_log (bulk_unregister k fr)"
      unfolding fr'(4,6) fr3 by (simp_all add: Some bulk_unregister_def log_front_def)
    have "set (fr_bulks fr') = insert h (set (cached (xs @ ys)) \<union> set_mset H)" using u(1,4) k b(1) by auto
    moreover have "count_list (fr_log fr') (Fe_bulk_free x) = (if x < fr_next_bulk fr' \<and> x \<notin> set (fr_bulks fr') then 1 else 0)" for x
      using bulk_okD(6,7) [OF assms(1), of x] u(3) unfolding b(2) unregister_count b(1) fr'(5) c3 by auto
    ultimately show ?thesis using k(2) Some cached by auto
  qed
  have sub: "set (fr_bulks fr') \<subseteq> set (fr_bulks fr)"
    unfolding fr'(4) fr3 by (auto simp: bulk_unregister_def log_front_def split: option.splits)
  have unc: "count H k = 1" if "k \<in># H" "k \<noteq> h" "k \<notin> set (cached (xs @ ys))" for k
    using bulks bulk_okD(5) [OF assms(1), of k] that by auto
  show ?thesis
    by (rule replace_ok [OF assms(1) sp(1) fr'(1) [unfolded c3 sp(2)] fr'(2)])
      (use new fr'(3,5) assms(3) bulks unc bulk_okD(6) [OF assms(1)] sub c3 in \<open>auto simp: not_in_iff\<close>)
qed

lemma acquire_ok:
  assumes "bulk_ok H fr" "nkvx_bulk_acquire env addr len flags fr = (r, fr')"
  shows "case r of Inl err \<Rightarrow> bulk_ok H fr' | Inr h \<Rightarrow> bulk_ok (add_mset h H) fr'"
proof (cases "bulk_scan (fr_bulk_cache fr) 0 (addr, len, flags) None None")
  case (Scan_hit i)
  from scan_hit [OF this] obtain h where i: "i < length (fr_bulk_cache fr)" "be_handle (fr_bulk_cache fr ! i) = Some h" by auto
  show ?thesis
    using assms(2) hit_ok [OF assms(1) i] by (auto simp: nkvx_bulk_acquire_def Scan_hit i(2) Let_def)
next
  case (Scan_slot slot)
  let ?fr1 = "fr\<lparr>fr_bulk_misses := fr_bulk_misses fr + 1\<rparr>"
  obtain h fr2 where reg: "bulk_register ?fr1 = (h, fr2)" by fastforce
  have ok1: "bulk_ok H ?fr1" by (rule bulk_ok_same [OF assms(1), where es = "[]"]) simp_all
  have ok2: "bulk_ok (add_mset h H) fr2" using create_ok [OF ok1] reg by simp
  have c2: "h = fr_next_bulk fr" "fr_bulk_cache fr2 = fr_bulk_cache fr" using reg by (auto simp: bulk_register_def)
  then have new: "h \<notin># H" "h \<notin> set (cached (fr_bulk_cache fr2))"
    using bulk_okD(4) [OF assms(1)] bulk_okD(6) [OF assms(1), of h] by auto
  show ?thesis
  proof (cases "fv_bulk_create env flags")
    case False
    then show ?thesis using assms(2) ok1 by (auto simp: nkvx_bulk_acquire_def Scan_slot Let_def)
  next
    case create: True
    show ?thesis
    proof (cases slot)
      case None
      then show ?thesis using assms(2) create ok2 reg by (auto simp: nkvx_bulk_acquire_def Scan_slot)
    next
      case (Some i)
      have i: "i < length (fr_bulk_cache fr2)" "be_handle (fr_bulk_cache fr2 ! i) = None \<or> be_refs (fr_bulk_cache fr2 ! i) = 0"
        using scan_slot [OF Scan_slot [unfolded Some]] unfolding c2 by auto
      define fr3 where "fr3 = (case be_handle (fr_bulk_cache fr2 ! i) of None \<Rightarrow> fr2
        | Some old \<Rightarrow> (bulk_unregister old fr2)\<lparr>fr_bulk_evicts := fr_bulk_evicts fr2 + 1\<rparr>)"
      have r: "r = Inr h" "fr' = fr3\<lparr>fr_bulk_cache := (fr_bulk_cache fr3)[i := \<lparr>be_addr = addr, be_len = len, be_flags = flags,
          be_handle = Some h, be_refs = 1, be_used_seq = fr_bulk_seq fr3 + 1\<rparr>], fr_bulk_seq := fr_bulk_seq fr3 + 1\<rparr>"
        using assms(2) create reg unfolding nkvx_bulk_acquire_def Scan_slot Some Let_def fr3_def by simp_all
      have "bulk_ok (add_mset h H) fr'"
        by (rule fill_ok [OF ok2 i(1) new i(2) fr3_def, where e' = "\<lparr>be_addr = addr, be_len = len, be_flags = flags,
          be_handle = Some h, be_refs = 1, be_used_seq = fr_bulk_seq fr3 + 1\<rparr>"]) (simp_all add: r(2))
      then show ?thesis using r(1) by simp
    qed
  qed
qed

lemma drop_ref_None: "drop_ref h es = None \<longleftrightarrow> h \<notin> set (cached es)"
  by (induction es) (auto split: option.splits)

lemma drop_ref_Some:
  assumes "drop_ref h es = Some es'"
  obtains xs e ys where "es = xs @ e # ys" "be_handle e = Some h" "es' = xs @ e\<lparr>be_refs := be_refs e - 1\<rparr> # ys"
proof -
  have "\<exists>xs e ys. es = xs @ e # ys \<and> be_handle e = Some h \<and> es' = xs @ e\<lparr>be_refs := be_refs e - 1\<rparr> # ys"
    using assms
  proof (induction es arbitrary: es')
    case (Cons e es)
    show ?case
    proof (cases "be_handle e = Some h")
      case True
      then show ?thesis using Cons.prems by (intro exI [of _ "[]"]) auto
    next
      case False
      then obtain es1 where "drop_ref h es = Some es1" "es' = e # es1" using Cons.prems by auto
      then show ?thesis using Cons.IH by (metis append_Cons)
    qed
  qed simp
  then show ?thesis using that by blast
qed

lemma release_ok:
  assumes "bulk_ok (add_mset h H) fr"
  shows "bulk_ok H (nkvx_bulk_release (Some h) fr)"
proof (cases "drop_ref h (fr_bulk_cache fr)")
  case (Some es')
  then obtain xs e ys where sp: "fr_bulk_cache fr = xs @ e # ys" "be_handle e = Some h" "es' = xs @ e\<lparr>be_refs := be_refs e - 1\<rparr> # ys"
    using drop_ref_Some by metis
  note u = entry_unique [OF assms sp(1,2)]
  have c': "fr_bulk_cache (nkvx_bulk_release (Some h) fr) = xs @ e\<lparr>be_refs := be_refs e - 1\<rparr> # ys"
    by (simp add: nkvx_bulk_release_def Some sp(3))
  show ?thesis
    by (rule replace_ok [OF assms sp(1) c'])
      (use sp(2) u bulk_okD(6,7) [OF assms] in \<open>auto simp: nkvx_bulk_release_def Some not_in_iff\<close>)
next
  case None
  then have h: "h \<notin> set (cached (fr_bulk_cache fr))" using drop_ref_None by blast
  then have "count (add_mset h H) h = 1" using bulk_okD(5) [OF assms, of h] by simp
  then have "h \<notin># H" by (simp add: not_in_iff)
  have e: "nkvx_bulk_release (Some h) fr = bulk_unregister h fr" by (simp add: nkvx_bulk_release_def None)
  have f: "fr_bulk_cache (bulk_unregister h fr) = fr_bulk_cache fr" "fr_next_bulk (bulk_unregister h fr) = fr_next_bulk fr"
    "fr_bulks (bulk_unregister h fr) = filter (\<lambda>x. x \<noteq> h) (fr_bulks fr)"
    by (simp_all add: bulk_unregister_def log_front_def)
  have "be_refs x = count H k" if "x \<in> set (fr_bulk_cache fr)" "be_handle x = Some k" for x k
    using bulk_okD(3) [OF assms that] h that by (auto simp: in_cached)
  moreover have "count H k = 1" if "k \<in># H" "k \<notin> set (cached (fr_bulk_cache fr))" for k
    using bulk_okD(5) [OF assms, of k] that \<open>h \<notin># H\<close> by (auto split: if_splits)
  moreover have "set (filter (\<lambda>x. x \<noteq> h) (fr_bulks fr)) = set (cached (fr_bulk_cache fr)) \<union> set_mset H"
    using bulk_okD(4) [OF assms] h \<open>h \<notin># H\<close> by auto
  moreover have "count_list (fr_log fr) (Fe_bulk_free k) + (if k = h then 1 else 0)
      = (if k < fr_next_bulk fr \<and> k \<notin> set (filter (\<lambda>x. x \<noteq> h) (fr_bulks fr)) then 1 else 0)" for k
  proof -
    have "h \<in> set (fr_bulks fr)" using bulk_okD(4) [OF assms] by simp
    then show ?thesis using bulk_okD(6,7) [OF assms, of k] by (cases "k = h") simp_all
  qed
  moreover have "\<forall>k \<in> set (filter (\<lambda>x. x \<noteq> h) (fr_bulks fr)). k < fr_next_bulk fr" using bulk_okD(6) [OF assms] by simp
  ultimately show ?thesis
    using bulk_okD(1,2) [OF assms] unfolding e bulk_ok_def f unregister_count by blast
qed

lemma acquire_dmabuf_ok:
  assumes "bulk_ok H fr" "nkvx_bulk_acquire_dmabuf env base fr = (r, fr')"
  shows "case r of Inl err \<Rightarrow> bulk_ok H fr' | Inr h \<Rightarrow> bulk_ok (add_mset h H) fr'"
proof -
  let ?fr1 = "fr\<lparr>fr_bulk_misses := fr_bulk_misses fr + 1\<rparr>"
  have ok1: "bulk_ok H ?fr1" by (rule bulk_ok_same [OF assms(1), where es = "[]"]) simp_all
  show ?thesis using assms ok1 create_ok [OF ok1]
    by (auto simp: nkvx_bulk_acquire_dmabuf_def Let_def split: if_splits prod.splits)
qed

definition held_by :: "nat option \<Rightarrow> nat multiset" where
  "held_by b = (case b of None \<Rightarrow> {#} | Some h \<Rightarrow> {#h#})"

lemma held_by_simps [simp]: "held_by None = {#}" "held_by (Some h) = {#h#}"
  by (simp_all add: held_by_def)

lemma release_opt_ok: "bulk_ok (held_by b + H) fr \<Longrightarrow> bulk_ok H (nkvx_bulk_release b fr)"
  using release_ok by (cases b) (simp_all add: nkvx_bulk_release_def)

lemma fresh_bulk_ok:
  assumes "bulk_ok H fr" "fresh_bulk env mode wanted fr = (r, fr')"
  shows "case r of Inl err \<Rightarrow> bulk_ok H fr' | Inr b \<Rightarrow> bulk_ok (held_by b + H) fr'"
proof -
  let ?fr1 = "fr\<lparr>fr_bulk_misses := fr_bulk_misses fr + 1\<rparr>"
  have ok1: "bulk_ok H ?fr1" by (rule bulk_ok_same [OF assms(1), where es = "[]"]) simp_all
  show ?thesis using assms ok1 create_ok [OF ok1]
    by (auto simp: fresh_bulk_def Let_def split: if_splits prod.splits)
qed

lemma acquire_input_ok:
  assumes "bulk_ok H fr" "acquire_input env i addr fr = (r, fr')"
  shows "case r of Inl err \<Rightarrow> bulk_ok H fr' | Inr b \<Rightarrow> bulk_ok (held_by b + H) fr'"
proof (cases "nkvx_bulk_acquire env addr (ei_input_len i) HG_BULK_READ_ONLY fr")
  case (Pair q fr1)
  then show ?thesis using acquire_ok [OF assms(1) Pair] assms by (cases q) (auto simp: acquire_input_def split: if_splits)
qed

lemma acquire_sink_ok:
  assumes "bulk_ok H fr" "acquire_sink env sink len dmabuf fr = (r, fr')"
  shows "case r of Inl err \<Rightarrow> bulk_ok H fr' | Inr b \<Rightarrow> bulk_ok (held_by b + H) fr'"
proof -
  define q where "q = (if dmabuf then nkvx_bulk_acquire_dmabuf env sink fr else nkvx_bulk_acquire env (the sink) len HG_BULK_WRITE_ONLY fr)"
  obtain a fr1 where a: "q = (a, fr1)" by fastforce
  have "case a of Inl err \<Rightarrow> bulk_ok H fr1 | Inr h \<Rightarrow> bulk_ok (add_mset h H) fr1"
    using acquire_ok [OF assms(1)] acquire_dmabuf_ok [OF assms(1)] a unfolding q_def by (auto split: if_splits)
  then show ?thesis using assms a unfolding acquire_sink_def q_def [symmetric] by (cases a) (auto split: if_splits)
qed

section \<open>Handle operations leave the calls alone\<close>

text \<open>A handle operation changes the handle state only, and logs nothing but freed handles.\<close>

definition frame :: "front \<Rightarrow> front \<Rightarrow> bool" where
  "frame fr fr' = (fr_calls fr' = fr_calls fr \<and> fr_inflight fr' = fr_inflight fr \<and> fr_n_inflight fr' = fr_n_inflight fr
     \<and> fr_next_call_id fr' = fr_next_call_id fr \<and> fr_kv fr' = fr_kv fr \<and> fr_next_kv fr' = fr_next_kv fr
     \<and> (\<exists>hs. fr_log fr' = fr_log fr @ map Fe_bulk_free hs))"

lemma frame_refl [simp]: "frame fr fr"
  unfolding frame_def by (auto intro: exI [of _ "[]"])

lemma frame_trans: "frame a b \<Longrightarrow> frame b c \<Longrightarrow> frame a c"
  unfolding frame_def by (auto simp flip: map_append)

lemma frame_unregister: "frame fr (bulk_unregister h fr)"
  unfolding frame_def bulk_unregister_def log_front_def by (auto intro: exI [of _ "[h]"])

lemma frame_release: "frame fr (nkvx_bulk_release b fr)"
  using frame_unregister by (auto simp: nkvx_bulk_release_def frame_def split: option.splits intro: exI [of _ "[]"])

lemma frame_simple:
  "frame fr fr' \<Longrightarrow> frame fr (fr'\<lparr>fr_bulk_cache := es\<rparr>)" "frame fr fr' \<Longrightarrow> frame fr (fr'\<lparr>fr_bulk_seq := q\<rparr>)"
  "frame fr fr' \<Longrightarrow> frame fr (fr'\<lparr>fr_bulk_misses := q\<rparr>)" "frame fr fr' \<Longrightarrow> frame fr (fr'\<lparr>fr_bulk_hits := q\<rparr>)"
  "frame fr fr' \<Longrightarrow> frame fr (fr'\<lparr>fr_bulk_evicts := q\<rparr>)" "frame fr fr' \<Longrightarrow> frame fr (fr'\<lparr>fr_bulks := bs\<rparr>)"
  "frame fr fr' \<Longrightarrow> frame fr (fr'\<lparr>fr_next_bulk := q\<rparr>)"
  unfolding frame_def by auto

lemma frame_unregister_trans: "frame fr fr' \<Longrightarrow> frame fr (bulk_unregister h fr')"
  using frame_trans frame_unregister by blast

lemmas frame_intros = frame_simple frame_unregister_trans frame_refl

lemma frame_acquire: "frame fr (snd (nkvx_bulk_acquire env addr len flags fr))"
  by (auto simp: nkvx_bulk_acquire_def bulk_register_def Let_def intro!: frame_intros split: scan.splits option.splits)

lemma frame_acquire_input: "frame fr (snd (acquire_input env i addr fr))"
  using frame_acquire by (auto simp: acquire_input_def split: prod.splits) (metis snd_conv)

lemma frame_acquire_sink: "frame fr (snd (acquire_sink env sink len dmabuf fr))"
proof -
  have "frame fr (snd (nkvx_bulk_acquire_dmabuf env sink fr))"
    by (auto simp: nkvx_bulk_acquire_dmabuf_def bulk_register_def Let_def intro!: frame_intros)
  then show ?thesis
    using frame_acquire by (auto simp: acquire_sink_def split: prod.splits) (metis snd_conv)+
qed

lemma frame_fresh: "frame fr (snd (fresh_bulk env mode wanted fr))"
  by (auto simp: fresh_bulk_def bulk_register_def Let_def intro!: frame_intros)

section \<open>Steps\<close>

text \<open>
  Mercury's contract is the guard of a completion: it comes for an outstanding forward, once. All
  other calls are the tenant's and may come at any time.
\<close>

datatype front_input =
    Fi_forward front_env "nat exec_in" nat "nat option" nat bool nat
  | Fi_cancel front_env nat
  | Fi_cancel_all front_env
  | Fi_fail_all io_status
  | Fi_kv front_env "nat kv_in" "nat option" nat nat
  | Fi_done completion

fun outstanding :: "front \<Rightarrow> completion \<Rightarrow> bool" where
  "outstanding fr (Done_forward c ret out) = (\<exists>x \<in> set (fr_calls fr). fc_call_id x = c \<and> fc_handle x)"
| "outstanding fr (Done_cancel c) = (\<exists>x \<in> set (fr_calls fr). fc_call_id x = c \<and> fc_cancel_handle x)"
| "outstanding fr (Done_kv c ret out) = (\<exists>x \<in> set (fr_kv fr). vc_id x = c)"

inductive front_step :: "front \<Rightarrow> front_input \<Rightarrow> front \<Rightarrow> bool" where
  fs_forward: "front_step fr (Fi_forward env i addr sink len dmabuf arg) (snd (nkvx_front_forward_full env i addr sink len dmabuf arg fr))"
| fs_cancel: "front_step fr (Fi_cancel env token) (snd (nkvx_front_cancel env token fr))"
| fs_cancel_all: "front_step fr (Fi_cancel_all env) (nkvx_front_cancel_all env fr)"
| fs_fail_all: "front_step fr (Fi_fail_all st) (nkvx_front_fail_all_pending st fr)"
| fs_kv: "front_step fr (Fi_kv env ki sink len arg) (snd (nkvx_front_kv_forward env ki sink len arg fr))"
| fs_done: "outstanding fr d \<Longrightarrow> front_step fr (Fi_done d) (run_completion d fr)"

definition front_start :: "front \<Rightarrow> bool" where
  "front_start fr = (\<exists>hb na addr. nkvx_front_init hb na addr = Inr fr)"

lemma front_start_zero: "front_start fr \<longleftrightarrow> fr = front_zero"
proof -
  let ?hb = "\<lparr>hb_calloc = True, hb_init = \<lambda>_. True, hb_context = True, hb_register = \<lambda>_. True, hb_lookup = \<lambda>_. True\<rparr>"
  have "nkvx_front_init ?hb (Some []) (Some []) = Inr front_zero" by (simp add: nkvx_front_init_def)
  then have "front_start front_zero" unfolding front_start_def by blast
  moreover have "nkvx_front_init hb na addr = Inr fr \<Longrightarrow> fr = front_zero" for hb na addr
    by (simp add: nkvx_front_init_def split: option.splits if_splits)
  ultimately show ?thesis unfolding front_start_def by blast
qed

section \<open>The protocol invariant\<close>

fun is_sent :: "nat \<Rightarrow> front_event \<Rightarrow> bool" where
  "is_sent c (Fe_sent c' _) = (c' = c)"
| "is_sent c _ = False"

fun is_tenant :: "nat \<Rightarrow> front_event \<Rightarrow> bool" where
  "is_tenant c (Fe_tenant c' _ _ _) = (c' = c)"
| "is_tenant c _ = False"

definition call_ok :: "call \<Rightarrow> bool" where
  "call_ok x = (fc_detached x = fc_tenant_done x \<and> fc_forward_done x = (\<not> fc_handle x) \<and> (fc_handle x \<or> fc_cancel_handle x)
     \<and> (if fc_cancelling x then fc_cancel_acked x = (\<not> fc_cancel_handle x)
        else fc_handle x \<and> \<not> fc_cancel_acked x \<and> \<not> fc_cancel_handle x)
     \<and> (fc_tenant_done x \<longrightarrow> fc_input_bulk x = None \<and> fc_result_sink x = None))"

definition call_log :: "front_event set \<Rightarrow> call \<Rightarrow> bool" where
  "call_log E x = ((Fe_cancel_sent (fc_call_id x) \<in> E \<longrightarrow> fc_cancelling x \<and> (fc_cancel_acked x \<longrightarrow> Fe_ack (fc_call_id x) \<in> E))
     \<and> (fc_forward_done x \<longrightarrow> Fe_resolved (fc_call_id x) \<in> E) \<and> (fc_tenant_done x \<longrightarrow> Fe_teardown \<in> E))"

definition rel_ok :: "front_event list \<Rightarrow> bool" where
  "rel_ok log = (\<forall>xs c ys. log = xs @ Fe_release c # ys \<longrightarrow> Fe_cancel_sent c \<in> set xs \<longrightarrow>
     (Fe_ack c \<in> set xs \<and> Fe_resolved c \<in> set xs) \<or> Fe_teardown \<in> set xs)"

definition proto_inv :: "front \<Rightarrow> bool" where
  "proto_inv fr =
    (distinct (map fc_call_id (fr_calls fr))
     \<and> fr_inflight fr = map fc_call_id (filter (\<lambda>x. \<not> fc_detached x) (fr_calls fr))
     \<and> fr_n_inflight fr = length (fr_inflight fr)
     \<and> (\<forall>x \<in> set (fr_calls fr). call_ok x \<and> call_log (set (fr_log fr)) x \<and> fc_call_id x \<le> fr_next_call_id fr
          \<and> occurs (is_sent (fc_call_id x)) (fr_log fr) = 1)
     \<and> (\<forall>c. occurs (is_sent c) (fr_log fr) = occurs (is_tenant c) (fr_log fr) + (if c \<in> set (fr_inflight fr) then 1 else 0)
          \<and> occurs (is_sent c) (fr_log fr) \<le> (if c \<le> fr_next_call_id fr then 1 else 0)
          \<and> (Fe_cancel_sent c \<in> set (fr_log fr) \<longrightarrow> c \<le> fr_next_call_id fr))
     \<and> rel_ok (fr_log fr))"

lemma proto_invD:
  assumes "proto_inv fr"
  shows "distinct (map fc_call_id (fr_calls fr))"
    "fr_inflight fr = map fc_call_id (filter (\<lambda>x. \<not> fc_detached x) (fr_calls fr))"
    "fr_n_inflight fr = length (fr_inflight fr)"
    "x \<in> set (fr_calls fr) \<Longrightarrow> call_ok x" "x \<in> set (fr_calls fr) \<Longrightarrow> call_log (set (fr_log fr)) x"
    "x \<in> set (fr_calls fr) \<Longrightarrow> fc_call_id x \<le> fr_next_call_id fr"
    "x \<in> set (fr_calls fr) \<Longrightarrow> occurs (is_sent (fc_call_id x)) (fr_log fr) = 1"
    "occurs (is_sent c) (fr_log fr) = occurs (is_tenant c) (fr_log fr) + (if c \<in> set (fr_inflight fr) then 1 else 0)"
    "occurs (is_sent c) (fr_log fr) \<le> (if c \<le> fr_next_call_id fr then 1 else 0)"
    "Fe_cancel_sent c \<in> set (fr_log fr) \<Longrightarrow> c \<le> fr_next_call_id fr"
    "rel_ok (fr_log fr)"
  using assms unfolding proto_inv_def by blast+

lemma rel_ok_snoc:
  assumes "rel_ok log" "\<forall>c. e = Fe_release c \<longrightarrow> Fe_cancel_sent c \<in> set log \<longrightarrow>
    (Fe_ack c \<in> set log \<and> Fe_resolved c \<in> set log) \<or> Fe_teardown \<in> set log"
  shows "rel_ok (log @ [e])"
  unfolding rel_ok_def
proof (intro allI impI)
  fix xs c ys
  assume sp: "log @ [e] = xs @ Fe_release c # ys" and s: "Fe_cancel_sent c \<in> set xs"
  show "(Fe_ack c \<in> set xs \<and> Fe_resolved c \<in> set xs) \<or> Fe_teardown \<in> set xs"
  proof (cases ys rule: rev_cases)
    case Nil
    then show ?thesis using sp s assms(2) by auto
  next
    case (snoc ys' y)
    then have "log = xs @ Fe_release c # ys'" using sp by simp
    then show ?thesis using assms(1) s unfolding rel_ok_def by blast
  qed
qed

lemma rel_ok_append:
  assumes "rel_ok log" "\<forall>e \<in> set es. \<forall>c. e \<noteq> Fe_release c"
  shows "rel_ok (log @ es)"
  using assms(2)
proof (induction es rule: rev_induct)
  case (snoc e es)
  then show ?case using rel_ok_snoc [of "log @ es" e] by simp
qed (simp add: assms(1))

lemma free_events [simp]: "occurs (is_sent c) (map Fe_bulk_free hs) = 0" "occurs (is_tenant c) (map Fe_bulk_free hs) = 0"
  by (simp_all add: occurs_0_iff)

lemma call_log_mono:
  assumes "call_log (set log) x" "\<forall>e \<in> set es. e \<noteq> Fe_cancel_sent (fc_call_id x)"
  shows "call_log (set (log @ es)) x"
  using assms unfolding call_log_def by auto

text \<open>An event that says nothing about an Exec call.\<close>

fun idle_event :: "front_event \<Rightarrow> bool" where
  "idle_event (Fe_sent _ _) = False"
| "idle_event (Fe_tenant _ _ _ _) = False"
| "idle_event (Fe_cancel_sent _) = False"
| "idle_event (Fe_release _) = False"
| "idle_event _ = True"

lemma proto_log:
  assumes "proto_inv fr" and f: "fr_calls fr' = fr_calls fr" "fr_inflight fr' = fr_inflight fr" "fr_n_inflight fr' = fr_n_inflight fr"
    "fr_next_call_id fr' = fr_next_call_id fr" "fr_log fr' = fr_log fr @ es" and es: "\<forall>e \<in> set es. idle_event e"
  shows "proto_inv fr'"
proof -
  have "call_log (set (fr_log fr @ es)) x" if "x \<in> set (fr_calls fr)" for x
    by (rule call_log_mono [OF proto_invD(5) [OF assms(1) that]]) (use es in auto)
  moreover have "rel_ok (fr_log fr @ es)" using es by (intro rel_ok_append [OF proto_invD(11) [OF assms(1)]]) auto
  moreover have "occurs (is_sent c) es = 0" "occurs (is_tenant c) es = 0" "Fe_cancel_sent c \<notin> set es" for c
    using es by (auto simp: occurs_0_iff elim!: is_sent.elims is_tenant.elims)
  then have "occurs (is_sent c) (fr_log fr @ es) = occurs (is_sent c) (fr_log fr)"
    "occurs (is_tenant c) (fr_log fr @ es) = occurs (is_tenant c) (fr_log fr)"
    "Fe_cancel_sent c \<in> set (fr_log fr @ es) \<longleftrightarrow> Fe_cancel_sent c \<in> set (fr_log fr)" for c
    by auto
  ultimately show ?thesis using proto_invD [OF assms(1)] unfolding proto_inv_def f by metis
qed

lemma frame_proto:
  assumes "frame fr fr'" "proto_inv fr"
  shows "proto_inv fr'"
proof -
  obtain hs where "fr_log fr' = fr_log fr @ map Fe_bulk_free hs" using assms(1) unfolding frame_def by blast
  then show ?thesis using assms(1) by (intro proto_log [OF assms(2), where es = "map Fe_bulk_free hs"]) (auto simp: frame_def)
qed

text \<open>
  A transition of one call \<open>c\<close>: its context is replaced, detached or freed, and the events \<open>es\<close> are logged.
\<close>

lemma proto_trans:
  assumes inv: "proto_inv fr" and c: "c \<in> fc_call_id ` set (fr_calls fr)"
    and d: "distinct (map fc_call_id (fr_calls fr'))" "fc_call_id ` set (fr_calls fr') \<subseteq> fc_call_id ` set (fr_calls fr)"
    and inf: "fr_inflight fr' = map fc_call_id (filter (\<lambda>x. \<not> fc_detached x) (fr_calls fr'))"
      "fr_n_inflight fr' = length (fr_inflight fr')" "fr_next_call_id fr' = fr_next_call_id fr"
    and log: "fr_log fr' = fr_log fr @ es" "\<forall>k. occurs (is_sent k) es = 0" "rel_ok (fr_log fr @ es)"
      "\<forall>k. occurs (is_tenant k) es + (if k \<in> set (fr_inflight fr') then 1 else 0) = (if k \<in> set (fr_inflight fr) then 1 else 0)"
      "\<forall>k. Fe_cancel_sent k \<in> set es \<longrightarrow> k = c"
    and calls: "\<forall>y \<in> set (fr_calls fr'). call_ok y \<and> (if fc_call_id y = c then call_log (set (fr_log fr @ es)) y else y \<in> set (fr_calls fr))"
  shows "proto_inv fr'"
proof -
  have ids: "\<exists>z \<in> set (fr_calls fr). fc_call_id z = fc_call_id y" if "y \<in> set (fr_calls fr')" for y
    using d(2) that by force
  have "call_ok y \<and> call_log (set (fr_log fr')) y \<and> fc_call_id y \<le> fr_next_call_id fr'
      \<and> occurs (is_sent (fc_call_id y)) (fr_log fr') = 1" if y: "y \<in> set (fr_calls fr')" for y
  proof -
    have "call_log (set (fr_log fr')) y"
    proof (cases "fc_call_id y = c")
      case False
      then have "y \<in> set (fr_calls fr)" "\<forall>e \<in> set es. e \<noteq> Fe_cancel_sent (fc_call_id y)" using calls y log(5) by auto
      then show ?thesis unfolding log(1) using call_log_mono proto_invD(5) [OF inv] by blast
    qed (use calls y log(1) in auto)
    then show ?thesis using calls y ids [OF y] proto_invD(6,7) [OF inv] log(1,2) inf(3) by force
  qed
  moreover have "occurs (is_sent k) (fr_log fr') = occurs (is_tenant k) (fr_log fr') + (if k \<in> set (fr_inflight fr') then 1 else 0)
      \<and> occurs (is_sent k) (fr_log fr') \<le> (if k \<le> fr_next_call_id fr' then 1 else 0)
      \<and> (Fe_cancel_sent k \<in> set (fr_log fr') \<longrightarrow> k \<le> fr_next_call_id fr')" for k
  proof -
    have "Fe_cancel_sent k \<in> set (fr_log fr') \<Longrightarrow> k \<le> fr_next_call_id fr'"
      using log(1,5) proto_invD(10) [OF inv, of k] c proto_invD(6) [OF inv] inf(3) by auto
    moreover have "occurs (is_tenant k) (fr_log fr) + (occurs (is_tenant k) es + (if k \<in> set (fr_inflight fr') then 1 else 0))
        = occurs (is_sent k) (fr_log fr)" using log(4) proto_invD(8) [OF inv, of k] by simp
    ultimately show ?thesis using proto_invD(9) [OF inv, of k] log(1,2) inf(3) by simp
  qed
  moreover have "rel_ok (fr_log fr')" using log(1,3) by simp
  ultimately show ?thesis using d(1) inf(1,2) unfolding proto_inv_def by blast
qed

text \<open>The context is replaced, still attached or still detached.\<close>

lemma put_proto:
  assumes inv: "proto_inv fr" "x \<in> set (fr_calls fr)" and x': "fc_call_id x' = fc_call_id x" "fc_detached x' = fc_detached x" "call_ok x'"
    and es: "\<forall>e \<in> set es. e \<in> {Fe_cancel_sent (fc_call_id x), Fe_hg_cancel (fc_call_id x), Fe_ack (fc_call_id x), Fe_resolved (fc_call_id x)}"
    and log: "call_log (set (fr_log fr @ es)) x'"
  shows "proto_inv (log_front es (put_call x' fr))"
proof -
  let ?fr' = "log_front es (put_call x' fr)"
  obtain us vs where sp: "fr_calls fr = us @ x # vs" "\<forall>y \<in> set us \<union> set vs. fc_call_id y \<noteq> fc_call_id x"
    using keyed_split [OF proto_invD(1) [OF inv(1)] inv(2)] by blast
  have f: "fr_calls ?fr' = us @ x' # vs" "fr_inflight ?fr' = fr_inflight fr" "fr_n_inflight ?fr' = fr_n_inflight fr"
    "fr_next_call_id ?fr' = fr_next_call_id fr" "fr_log ?fr' = fr_log fr @ es"
    using sp x'(1) by (simp_all add: log_front_def put_call_def map_other)
  have ev: "occurs (is_sent k) es = 0" "occurs (is_tenant k) es = 0" for k using es by (auto simp: occurs_0_iff)
  have rel: "rel_ok (fr_log fr @ es)" using es by (intro rel_ok_append [OF proto_invD(11) [OF inv(1)]]) auto
  have d: "distinct (map fc_call_id (us @ x' # vs))" using proto_invD(1) [OF inv(1)] sp(1) x'(1) by simp
  have inf: "fr_inflight fr = map fc_call_id (filter (\<lambda>x. \<not> fc_detached x) (us @ x' # vs))"
    using proto_invD(2) [OF inv(1)] sp(1) x'(1,2) by simp
  have calls: "\<forall>y \<in> set (us @ x' # vs). call_ok y \<and> (if fc_call_id y = fc_call_id x then call_log (set (fr_log fr @ es)) y else y \<in> set (fr_calls fr))"
    using sp x' log proto_invD(4) [OF inv(1)] by auto
  have "fc_call_id x \<in> fc_call_id ` set (fr_calls fr)" "fc_call_id ` set (us @ x' # vs) \<subseteq> fc_call_id ` set (fr_calls fr)"
    "\<forall>k. occurs (is_tenant k) es + (if k \<in> set (fr_inflight fr) then 1 else 0) = (if k \<in> set (fr_inflight fr) then 1 else 0)"
    "\<forall>k. Fe_cancel_sent k \<in> set es \<longrightarrow> k = fc_call_id x" "\<forall>k. occurs (is_sent k) es = 0"
    using inv(2) sp(1) x'(1) ev es by auto
  then show ?thesis
    using proto_trans [where fr' = ?fr' and c = "fc_call_id x" and es = es, unfolded f, OF inv(1) _ d _ inf proto_invD(3) [OF inv(1)] refl refl _ rel _ _ calls]
    by blast
qed

lemma filter_absent: "c \<notin> set xs \<Longrightarrow> filter (\<lambda>y. y \<noteq> c) xs = xs"
  by (rule filter_True) auto

lemma length_filter_other: "distinct xs \<Longrightarrow> c \<in> set xs \<Longrightarrow> length (filter (\<lambda>y. y \<noteq> c) xs) = length xs - 1"
  using length_pos_if_in_set [of c] by (induction xs) (auto simp: Suc_leI filter_absent)

lemma distinct_inflight: "proto_inv fr \<Longrightarrow> distinct (fr_inflight fr)"
  using proto_invD(1,2) [of fr] by (simp add: distinct_map_filter)

lemma in_inflight:
  assumes "proto_inv fr" "x \<in> set (fr_calls fr)"
  shows "fc_call_id x \<in> set (fr_inflight fr) \<longleftrightarrow> \<not> fc_detached x"
proof -
  have "y = x" if "y \<in> set (fr_calls fr)" "fc_call_id y = fc_call_id x" for y
    using that proto_invD(1) [OF assms(1)] assms(2) by (auto simp: distinct_map inj_on_def)
  then show ?thesis using assms(2) unfolding proto_invD(2) [OF assms(1)] by (auto simp: image_iff)
qed

lemma filter_map_other:
  "filter (\<lambda>y. y \<noteq> c) (map k xs) = map k (filter (\<lambda>x. k x \<noteq> c) xs)"
  by (simp add: filter_map comp_def)

text \<open>The context is freed, detached first if it was attached.\<close>

lemma free_proto:
  assumes inv: "proto_inv fr" "x \<in> set (fr_calls fr)" "c = fc_call_id x"
    and fr': "fr_calls fr' = filter (\<lambda>y. fc_call_id y \<noteq> c) (fr_calls fr)" "fr_inflight fr' = filter (\<lambda>y. y \<noteq> c) (fr_inflight fr)"
      "fr_n_inflight fr' = (if fc_detached x then fr_n_inflight fr else fr_n_inflight fr - 1)"
      "fr_next_call_id fr' = fr_next_call_id fr" "fr_log fr' = fr_log fr @ es"
    and es: "\<forall>k. occurs (is_sent k) es = 0" "\<forall>k. occurs (is_tenant k) es = (if k = c \<and> \<not> fc_detached x then 1 else 0)"
      "\<forall>k. Fe_cancel_sent k \<notin> set es" "rel_ok (fr_log fr @ es)"
  shows "proto_inv fr'"
proof -
  have c: "c \<in> set (fr_inflight fr) \<longleftrightarrow> \<not> fc_detached x" using in_inflight [OF inv(1,2)] inv(3) by simp
  have inf: "fr_inflight fr' = map fc_call_id (filter (\<lambda>x. \<not> fc_detached x) (fr_calls fr'))"
    unfolding fr'(1,2) proto_invD(2) [OF inv(1)] filter_map_other by (simp add: conj_commute)
  have n: "fr_n_inflight fr' = length (fr_inflight fr')"
  proof (cases "fc_detached x")
    case True
    then have "filter (\<lambda>y. y \<noteq> c) (fr_inflight fr) = fr_inflight fr" using c by (intro filter_True) auto
    then show ?thesis using True fr'(2,3) proto_invD(3) [OF inv(1)] by simp
  next
    case False
    then show ?thesis using c fr'(2,3) proto_invD(3) [OF inv(1)] length_filter_other [OF distinct_inflight [OF inv(1)]] by simp
  qed
  have d: "distinct (map fc_call_id (fr_calls fr'))" unfolding fr'(1) using proto_invD(1) [OF inv(1)] by (simp add: distinct_map_filter)
  have calls: "\<forall>y \<in> set (fr_calls fr'). call_ok y \<and> (if fc_call_id y = c then call_log (set (fr_log fr @ es)) y else y \<in> set (fr_calls fr))"
    unfolding fr'(1) using proto_invD(4) [OF inv(1)] by auto
  have ids: "c \<in> fc_call_id ` set (fr_calls fr)" "fc_call_id ` set (fr_calls fr') \<subseteq> fc_call_id ` set (fr_calls fr)"
    unfolding fr'(1) using inv(2,3) by auto
  have ten: "\<forall>k. occurs (is_tenant k) es + (if k \<in> set (fr_inflight fr') then 1 else 0) = (if k \<in> set (fr_inflight fr) then 1 else 0)"
    using es(2) c unfolding fr'(2) by auto
  show ?thesis
    using proto_trans [OF inv(1) ids(1) d ids(2) inf n fr'(4,5) es(1,4) ten _ calls] es(3) by blast
qed

text \<open>The context stays, detached by the teardown.\<close>

lemma fail_proto:
  assumes inv: "proto_inv fr" "x \<in> set (fr_calls fr)" "c = fc_call_id x" "\<not> fc_detached x"
    and x': "x' = x\<lparr>fc_tenant_done := True, fc_input_bulk := None, fc_result_sink := None, fc_detached := True\<rparr>"
    and fr': "fr_calls fr' = map (\<lambda>y. if fc_call_id y = c then x' else y) (fr_calls fr)" "fr_inflight fr' = filter (\<lambda>y. y \<noteq> c) (fr_inflight fr)"
      "fr_n_inflight fr' = fr_n_inflight fr - 1" "fr_next_call_id fr' = fr_next_call_id fr" "fr_log fr' = fr_log fr @ es"
    and es: "\<forall>k. occurs (is_sent k) es = 0" "\<forall>k. occurs (is_tenant k) es = (if k = c then 1 else 0)"
      "\<forall>k. Fe_cancel_sent k \<notin> set es" "rel_ok (fr_log fr @ es)" "Fe_teardown \<in> set (fr_log fr)"
  shows "proto_inv fr'"
proof -
  obtain us vs where sp: "fr_calls fr = us @ x # vs" "\<forall>y \<in> set us \<union> set vs. fc_call_id y \<noteq> c"
    using keyed_split [OF proto_invD(1) [OF inv(1)] inv(2)] inv(3) by blast
  have f: "fr_calls fr' = us @ x' # vs" "fc_call_id x' = c" "fc_detached x'" using sp inv(3) x' fr'(1) by (simp_all add: map_other)
  have inf: "fr_inflight fr' = map fc_call_id (filter (\<lambda>x. \<not> fc_detached x) (fr_calls fr'))"
  proof -
    have "filter (\<lambda>y. fc_call_id y \<noteq> c) (filter (\<lambda>x. \<not> fc_detached x) us) = filter (\<lambda>x. \<not> fc_detached x) us"
      "filter (\<lambda>y. fc_call_id y \<noteq> c) (filter (\<lambda>x. \<not> fc_detached x) vs) = filter (\<lambda>x. \<not> fc_detached x) vs"
      using sp(2) by (auto intro!: filter_True simp del: filter_filter)
    then show ?thesis unfolding fr'(2) proto_invD(2) [OF inv(1)] filter_map_other f(1) sp(1)
      using f(3) inv(3) by (simp del: filter_filter)
  qed
  have c: "c \<in> set (fr_inflight fr)" using in_inflight [OF inv(1,2)] inv(3,4) by simp
  have n: "fr_n_inflight fr' = length (fr_inflight fr')"
    using c fr'(2,3) proto_invD(3) [OF inv(1)] length_filter_other [OF distinct_inflight [OF inv(1)]] by simp
  have d: "distinct (map fc_call_id (fr_calls fr'))" using proto_invD(1) [OF inv(1)] sp(1) f(1,2) inv(3) by simp
  have x: "call_ok x" "call_log (set (fr_log fr @ es)) x"
    using proto_invD(4,5) [OF inv(1,2)] call_log_mono es(3) by blast+
  then have ok: "call_ok x'" "call_log (set (fr_log fr @ es)) x'"
    using es(5) by (auto simp: x' call_ok_def call_log_def)
  have calls: "\<forall>y \<in> set (fr_calls fr'). call_ok y \<and> (if fc_call_id y = c then call_log (set (fr_log fr @ es)) y else y \<in> set (fr_calls fr))"
    unfolding f(1) using ok f(2) sp proto_invD(4) [OF inv(1)] by auto
  have ids: "c \<in> fc_call_id ` set (fr_calls fr)" "fc_call_id ` set (fr_calls fr') \<subseteq> fc_call_id ` set (fr_calls fr)"
    unfolding f(1) sp(1) using f(2) inv(3) by auto
  have ten: "\<forall>k. occurs (is_tenant k) es + (if k \<in> set (fr_inflight fr') then 1 else 0) = (if k \<in> set (fr_inflight fr) then 1 else 0)"
    using es(2) c unfolding fr'(2) by auto
  show ?thesis
    using proto_trans [OF inv(1) ids(1) d ids(2) inf n fr'(4,5) es(1,4) ten _ calls] es(3) by blast
qed

text \<open>A new call.\<close>

lemma accept_proto:
  assumes inv: "proto_inv fr" "fr_next_call_id fr < c"
    and x: "fc_call_id x = c" "call_ok x" "\<not> fc_detached x" "\<not> fc_cancelling x" "\<not> fc_forward_done x" "\<not> fc_tenant_done x"
    and fr': "fr_calls fr' = fr_calls fr @ [x]" "fr_inflight fr' = fr_inflight fr @ [c]" "fr_n_inflight fr' = fr_n_inflight fr + 1"
      "fr_next_call_id fr' = c" "fr_log fr' = fr_log fr @ [Fe_sent c i]"
  shows "proto_inv fr'"
proof -
  have old: "fc_call_id y < c" if "y \<in> set (fr_calls fr)" for y using proto_invD(6) [OF inv(1) that] inv(2) by simp
  have c: "c \<notin> set (fr_inflight fr)" "Fe_cancel_sent c \<notin> set (fr_log fr)" "occurs (is_sent c) (fr_log fr) = 0"
    using old proto_invD(2) [OF inv(1)] proto_invD(10) [OF inv(1), of c] proto_invD(9) [OF inv(1), of c] inv(2) by auto
  have "call_ok y \<and> call_log (set (fr_log fr')) y \<and> fc_call_id y \<le> fr_next_call_id fr' \<and> occurs (is_sent (fc_call_id y)) (fr_log fr') = 1"
    if "y \<in> set (fr_calls fr')" for y
  proof (cases "y \<in> set (fr_calls fr)")
    case True
    then have "call_log (set (fr_log fr')) y" unfolding fr'(5) by (intro call_log_mono proto_invD(5) [OF inv(1)]) auto
    then show ?thesis using True old [OF True] proto_invD(4,7) [OF inv(1) True] fr'(4,5) by auto
  next
    case False
    then have "y = x" using that fr'(1) by auto
    then show ?thesis using x c fr'(4,5) by (simp add: call_log_def)
  qed
  moreover have "occurs (is_sent k) (fr_log fr') = occurs (is_tenant k) (fr_log fr') + (if k \<in> set (fr_inflight fr') then 1 else 0)
      \<and> occurs (is_sent k) (fr_log fr') \<le> (if k \<le> fr_next_call_id fr' then 1 else 0)
      \<and> (Fe_cancel_sent k \<in> set (fr_log fr') \<longrightarrow> k \<le> fr_next_call_id fr')" for k
    using proto_invD(8,9) [OF inv(1), of k] proto_invD(10) [OF inv(1), of k] c inv(2) unfolding fr'(2,4,5)
    by (cases "k = c") (auto split: if_splits)
  moreover have "rel_ok (fr_log fr')" unfolding fr'(5) using rel_ok_append [OF proto_invD(11) [OF inv(1)], of "[Fe_sent c i]"] by simp
  moreover have "distinct (map fc_call_id (fr_calls fr'))" using proto_invD(1) [OF inv(1)] old fr'(1) x(1) by force
  moreover have "fr_inflight fr' = map fc_call_id (filter (\<lambda>x. \<not> fc_detached x) (fr_calls fr'))" "fr_n_inflight fr' = length (fr_inflight fr')"
    using proto_invD(2,3) [OF inv(1)] fr'(1-3) x(1,3) by simp_all
  ultimately show ?thesis unfolding proto_inv_def by blast
qed

section \<open>Handles in use, and the KV calls\<close>

definition call_bulks :: "call \<Rightarrow> nat multiset" where
  "call_bulks x = held_by (fc_input_bulk x) + held_by (fc_result_sink x)"

definition kv_bulks :: "kv_call \<Rightarrow> nat multiset" where
  "kv_bulks k = held_by (vc_value_bulk k) + held_by (vc_result_sink k)"

definition held :: "front \<Rightarrow> nat multiset" where
  "held fr = sum_list (map call_bulks (fr_calls fr)) + sum_list (map kv_bulks (fr_kv fr))"

fun is_kv_sent :: "nat \<Rightarrow> front_event \<Rightarrow> bool" where
  "is_kv_sent c (Fe_kv_sent c' _) = (c' = c)"
| "is_kv_sent c _ = False"

fun is_kv_tenant :: "nat \<Rightarrow> front_event \<Rightarrow> bool" where
  "is_kv_tenant c (Fe_kv_tenant c' _ _ _) = (c' = c)"
| "is_kv_tenant c _ = False"

definition kv_front :: "front \<Rightarrow> bool" where
  "kv_front fr = (distinct (map vc_id (fr_kv fr)) \<and> (\<forall>k \<in> set (fr_kv fr). vc_id k < fr_next_kv fr)
     \<and> (\<forall>c. occurs (is_kv_sent c) (fr_log fr) = occurs (is_kv_tenant c) (fr_log fr) + (if c \<in> vc_id ` set (fr_kv fr) then 1 else 0)
          \<and> occurs (is_kv_sent c) (fr_log fr) \<le> (if c < fr_next_kv fr then 1 else 0)))"

definition front_inv :: "front \<Rightarrow> bool" where
  "front_inv fr = (proto_inv fr \<and> bulk_ok (held fr) fr \<and> kv_front fr)"

definition no_kv :: "front_event list \<Rightarrow> bool" where
  "no_kv es = (\<forall>e \<in> set es. \<forall>c. \<not> is_kv_sent c e \<and> \<not> is_kv_tenant c e)"

lemma kv_frontD:
  assumes "kv_front fr"
  shows "distinct (map vc_id (fr_kv fr))" "k \<in> set (fr_kv fr) \<Longrightarrow> vc_id k < fr_next_kv fr"
    "occurs (is_kv_sent c) (fr_log fr) = occurs (is_kv_tenant c) (fr_log fr) + (if c \<in> vc_id ` set (fr_kv fr) then 1 else 0)"
    "occurs (is_kv_sent c) (fr_log fr) \<le> (if c < fr_next_kv fr then 1 else 0)"
  using assms unfolding kv_front_def by blast+

lemma kv_keep:
  assumes "kv_front fr" "fr_kv fr' = fr_kv fr" "fr_next_kv fr' = fr_next_kv fr" "fr_log fr' = fr_log fr @ es" "no_kv es"
  shows "kv_front fr'"
proof -
  have "occurs (is_kv_sent c) es = 0" "occurs (is_kv_tenant c) es = 0" for c using assms(5) by (auto simp: occurs_0_iff no_kv_def)
  then have e: "occurs (is_kv_sent c) (fr_log fr') = occurs (is_kv_sent c) (fr_log fr)"
    "occurs (is_kv_tenant c) (fr_log fr') = occurs (is_kv_tenant c) (fr_log fr)" for c unfolding assms(4) by simp_all
  show ?thesis using assms(1) unfolding kv_front_def assms(2,3) e .
qed

lemma no_kv_frees [simp]: "no_kv (map Fe_bulk_free hs)" "no_kv []" "no_kv (xs @ ys) = (no_kv xs \<and> no_kv ys)"
  "no_kv (e # es) = ((\<forall>c. \<not> is_kv_sent c e \<and> \<not> is_kv_tenant c e) \<and> no_kv es)"
  by (auto simp: no_kv_def)

lemma frame_kv:
  assumes "frame fr fr'" "kv_front fr"
  shows "kv_front fr'"
proof -
  obtain hs where "fr_log fr' = fr_log fr @ map Fe_bulk_free hs" using assms(1) unfolding frame_def by blast
  then show ?thesis using assms by (intro kv_keep [OF assms(2)]) (auto simp: frame_def)
qed

lemma held_split:
  assumes "fr_calls fr = us @ x # vs"
  shows "held fr = call_bulks x + (sum_list (map call_bulks (us @ vs)) + sum_list (map kv_bulks (fr_kv fr)))"
  by (simp add: held_def assms)

lemma release_call_ok: "bulk_ok (call_bulks x + H) fr \<Longrightarrow> bulk_ok H (release_call x fr)"
  unfolding release_call_def call_bulks_def
proof (intro release_opt_ok)
  assume "bulk_ok (held_by (fc_input_bulk x) + held_by (fc_result_sink x) + H) fr"
  from bulk_ok_same [OF this, of "log_front [Fe_release (fc_call_id x)] fr" "[Fe_release (fc_call_id x)]"]
  show "bulk_ok (held_by (fc_input_bulk x) + (held_by (fc_result_sink x) + H)) (log_front [Fe_release (fc_call_id x)] fr)"
    by (simp add: log_front_def ac_simps)
qed

lemma release_call_frame: "frame (log_front [Fe_release (fc_call_id x)] fr) (release_call x fr)"
  unfolding release_call_def using frame_release frame_trans by blast

lemma release_call_fields:
  obtains hs where "fr_calls (release_call x fr) = fr_calls fr" "fr_inflight (release_call x fr) = fr_inflight fr"
    "fr_n_inflight (release_call x fr) = fr_n_inflight fr" "fr_next_call_id (release_call x fr) = fr_next_call_id fr"
    "fr_kv (release_call x fr) = fr_kv fr" "fr_next_kv (release_call x fr) = fr_next_kv fr"
    "fr_log (release_call x fr) = fr_log fr @ Fe_release (fc_call_id x) # map Fe_bulk_free hs"
  using release_call_frame [of x fr] unfolding frame_def log_front_def by auto

section \<open>The operations keep the invariant\<close>

lemma front_invD:
  assumes "front_inv fr"
  shows "proto_inv fr" "bulk_ok (held fr) fr" "kv_front fr"
  using assms by (simp_all add: front_inv_def)

text \<open>The context of a call is replaced by one that holds the same handles.\<close>

lemma put_inv:
  assumes inv: "front_inv fr" "x \<in> set (fr_calls fr)"
    and x': "fc_call_id x' = fc_call_id x" "fc_detached x' = fc_detached x" "call_ok x'"
      "fc_input_bulk x' = fc_input_bulk x" "fc_result_sink x' = fc_result_sink x"
    and es: "\<forall>e \<in> set es. e \<in> {Fe_cancel_sent (fc_call_id x), Fe_hg_cancel (fc_call_id x), Fe_ack (fc_call_id x), Fe_resolved (fc_call_id x)}"
    and log: "call_log (set (fr_log fr @ es)) x'"
  shows "front_inv (log_front es (put_call x' fr))"
proof -
  let ?fr' = "log_front es (put_call x' fr)"
  obtain us vs where sp: "fr_calls fr = us @ x # vs" "\<forall>y \<in> set us \<union> set vs. fc_call_id y \<noteq> fc_call_id x"
    using keyed_split [OF proto_invD(1) [OF front_invD(1) [OF inv(1)]] inv(2)] by blast
  then have "fr_calls ?fr' = us @ x' # vs" "fr_kv ?fr' = fr_kv fr" using x'(1) by (simp_all add: log_front_def put_call_def map_other)
  then have "held ?fr' = held fr" using x'(4,5) sp(1) by (simp add: held_def call_bulks_def)
  moreover have "bulk_ok (held fr) ?fr'"
    using es by (intro bulk_ok_same [OF front_invD(2) [OF inv(1)], where es = es]) (auto simp: log_front_def put_call_def)
  moreover have "kv_front ?fr'"
    using es by (intro kv_keep [OF front_invD(3) [OF inv(1)], where es = es]) (auto simp: log_front_def put_call_def no_kv_def)
  ultimately show ?thesis using put_proto [OF front_invD(1) [OF inv(1)] inv(2) x'(1-3) es log] by (simp add: front_inv_def)
qed

text \<open>
  The context of a call is freed after its handles are released: on the state \<open>fr1\<close> that differs from
  \<open>fr\<close> in the log, and, when the context was attached, in the in-flight list.
\<close>

lemma reap_inv:
  assumes inv: "front_inv fr" "x \<in> set (fr_calls fr)" "fc_call_id x' = fc_call_id x" "call_bulks x' = call_bulks x"
    and mid: "fr_calls mid = fr_calls fr" "fr_kv mid = fr_kv fr" "fr_next_kv mid = fr_next_kv fr" "fr_next_call_id mid = fr_next_call_id fr"
      "bulk_ok (held fr) mid" "fr_log mid = fr_log fr @ es"
    and es: "\<forall>k. occurs (is_sent k) es = 0" "\<forall>k. occurs (is_tenant k) es = (if k = fc_call_id x \<and> \<not> fc_detached x then 1 else 0)"
      "\<forall>e \<in> set es. \<forall>k. e \<noteq> Fe_cancel_sent k \<and> e \<noteq> Fe_release k" "no_kv es"
    and rel: "Fe_cancel_sent (fc_call_id x) \<in> set (fr_log fr) \<longrightarrow>
      (Fe_ack (fc_call_id x) \<in> set (fr_log mid) \<and> Fe_resolved (fc_call_id x) \<in> set (fr_log mid)) \<or> Fe_teardown \<in> set (fr_log mid)"
    and fr': "fr_calls fr' = filter (\<lambda>y. fc_call_id y \<noteq> fc_call_id x) (fr_calls fr)"
      "fr_inflight fr' = filter (\<lambda>y. y \<noteq> fc_call_id x) (fr_inflight fr)"
      "fr_n_inflight fr' = (if fc_detached x then fr_n_inflight fr else fr_n_inflight fr - 1)"
      "fr_kv fr' = fr_kv fr" "fr_next_kv fr' = fr_next_kv fr" "fr_next_call_id fr' = fr_next_call_id fr"
      "fr_log fr' = fr_log (release_call x' mid)" "fr_bulk_cache fr' = fr_bulk_cache (release_call x' mid)"
      "fr_bulks fr' = fr_bulks (release_call x' mid)" "fr_next_bulk fr' = fr_next_bulk (release_call x' mid)"
  shows "front_inv fr'"
proof -
  let ?c = "fc_call_id x"
  obtain hs where "fr_log (release_call x' mid) = fr_log mid @ Fe_release (fc_call_id x') # map Fe_bulk_free hs"
    using release_call_fields by blast
  then have log: "fr_log fr' = fr_log fr @ es @ Fe_release ?c # map Fe_bulk_free hs" using fr'(7) mid(6) inv(3) by simp
  have "rel_ok (fr_log mid)" unfolding mid(6) using rel_ok_append [OF proto_invD(11) [OF front_invD(1) [OF inv(1)]]] es(3) by blast
  then have "rel_ok (fr_log mid @ [Fe_release ?c])"
    using rel es(3) by (intro rel_ok_snoc) (auto simp: mid(6))
  then have "rel_ok ((fr_log mid @ [Fe_release ?c]) @ map Fe_bulk_free hs)" by (rule rel_ok_append) auto
  then have "proto_inv fr'"
    using es log mid(6) fr'(1-3,6)
    by (intro free_proto [OF front_invD(1) [OF inv(1)] inv(2) refl, where es = "es @ Fe_release ?c # map Fe_bulk_free hs"]) auto
  moreover have "kv_front fr'"
    using es(4) by (intro kv_keep [OF front_invD(3) [OF inv(1)] fr'(4,5) log]) auto
  moreover have "bulk_ok (held fr') fr'"
  proof -
    obtain us vs where sp: "fr_calls fr = us @ x # vs" "\<forall>y \<in> set us \<union> set vs. fc_call_id y \<noteq> ?c"
      using keyed_split [OF proto_invD(1) [OF front_invD(1) [OF inv(1)]] inv(2)] by blast
    have "fr_calls fr' = us @ vs" using sp fr'(1) by (simp add: filter_other)
    then have "held fr = call_bulks x' + held fr'" using sp(1) fr'(4) inv(4) by (simp add: held_def)
    then have "bulk_ok (held fr') (release_call x' mid)" using release_call_ok mid(5) by metis
    from bulk_ok_same [OF this fr'(8-10), where es = "[]"] show ?thesis using fr'(7) by simp
  qed
  ultimately show ?thesis by (simp add: front_inv_def)
qed

lemma log_simps [simp]: "fr_calls (log_front es fr) = fr_calls fr" "fr_inflight (log_front es fr) = fr_inflight fr"
  "fr_n_inflight (log_front es fr) = fr_n_inflight fr" "fr_next_call_id (log_front es fr) = fr_next_call_id fr"
  "fr_kv (log_front es fr) = fr_kv fr" "fr_next_kv (log_front es fr) = fr_next_kv fr" "fr_log (log_front es fr) = fr_log fr @ es"
  "log_front es (log_front es' fr) = log_front (es' @ es) fr" "put_call x (log_front es fr) = log_front es (put_call x fr)"
  by (simp_all add: log_front_def put_call_def)

lemma release_simps [simp]: "fr_calls (release_call x fr) = fr_calls fr" "fr_inflight (release_call x fr) = fr_inflight fr"
  "fr_n_inflight (release_call x fr) = fr_n_inflight fr" "fr_next_call_id (release_call x fr) = fr_next_call_id fr"
  "fr_kv (release_call x fr) = fr_kv fr" "fr_next_kv (release_call x fr) = fr_next_kv fr"
  using release_call_fields [of x fr] by metis+

lemma bulk_ok_log:
  assumes "bulk_ok H fr" "\<forall>e \<in> set es. \<forall>h. e \<noteq> Fe_bulk_free h"
  shows "bulk_ok H (log_front es fr)"
  by (rule bulk_ok_same [OF assms(1), where es = es]) (use assms(2) in \<open>simp_all add: log_front_def\<close>)

lemma detached_filter:
  assumes "front_inv fr" "x \<in> set (fr_calls fr)" "fc_detached x"
  shows "filter (\<lambda>y. y \<noteq> fc_call_id x) (fr_inflight fr) = fr_inflight fr"
  using in_inflight [OF front_invD(1) [OF assms(1)] assms(2)] assms(3) by (intro filter_absent) simp

lemma try_complete_inv:
  assumes inv: "front_inv fr" "x \<in> set (fr_calls fr)"
    and x': "fc_call_id x' = fc_call_id x" "fc_detached x' = fc_detached x" "fc_tenant_done x' = fc_tenant_done x"
      "fc_input_bulk x' = fc_input_bulk x" "fc_result_sink x' = fc_result_sink x" "fc_cancelling x'"
      "fc_handle x' \<or> fc_cancel_handle x' \<Longrightarrow> call_ok x'" "fc_forward_done x' = (\<not> fc_handle x')" "fc_cancel_acked x' = (\<not> fc_cancel_handle x')"
    and es: "\<forall>e \<in> set es. e \<in> {Fe_ack (fc_call_id x), Fe_resolved (fc_call_id x)}"
    and log: "call_log (set (fr_log fr @ es)) x'"
  shows "front_inv (nkvx_call_try_complete x' (log_front es fr))"
proof (cases "fc_forward_done x' \<and> fc_cancel_acked x'")
  case False
  then have "nkvx_call_try_complete x' (log_front es fr) = log_front es (put_call x' fr)" by (simp add: nkvx_call_try_complete_def)
  then show ?thesis using put_inv [OF inv x'(1,2) _ x'(4,5) _ log] es x'(7-9) False by auto
next
  case True
  let ?c = "fc_call_id x"
  define ts where "ts = (if fc_tenant_done x then [] else [Fe_tenant ?c (fc_join_status x') 0 None])"
  let ?fr1 = "log_front (es @ ts) fr"
  have ok: "fc_detached x = fc_tenant_done x" using proto_invD(4) [OF front_invD(1) [OF inv(1)] inv(2)] by (simp add: call_ok_def)
  have e: "nkvx_call_try_complete x' (log_front es fr)
      = free_call ?c (if fc_detached x then release_call x' ?fr1 else detach ?c (release_call x' ?fr1))"
    using True x' by (simp add: nkvx_call_try_complete_def ts_def Let_def)
  have z: "occurs (is_sent k) es = 0" "occurs (is_tenant k) es = 0" for k using es by (auto simp: occurs_0_iff)
  have "bulk_ok (held fr) ?fr1" using es by (intro bulk_ok_log front_invD(2) [OF inv(1)]) (auto simp: ts_def)
  moreover have "Fe_cancel_sent ?c \<in> set (fr_log fr) \<longrightarrow> (Fe_ack ?c \<in> set (fr_log ?fr1) \<and> Fe_resolved ?c \<in> set (fr_log ?fr1)) \<or> Fe_teardown \<in> set (fr_log ?fr1)"
    using log True x'(1) by (auto simp: call_log_def)
  moreover have "call_bulks x' = call_bulks x" using x'(4,5) by (simp add: call_bulks_def)
  moreover have "\<forall>e \<in> set (es @ ts). \<forall>k. e \<noteq> Fe_cancel_sent k \<and> e \<noteq> Fe_release k" "no_kv (es @ ts)"
    using es by (auto simp: ts_def no_kv_def)
  ultimately show ?thesis unfolding e using detached_filter [OF inv] ok z
    by (intro reap_inv [OF inv x'(1), where mid = ?fr1 and es = "es @ ts"]) (auto simp: free_call_def detach_def ts_def)
qed

lemma ack_cb_inv:
  assumes "front_inv fr" "x \<in> set (fr_calls fr)" "fc_cancel_handle x"
  shows "front_inv (nkvx_cancel_ack_cb x fr)"
proof -
  have x: "call_ok x" "call_log (set (fr_log fr)) x" using proto_invD(4,5) [OF front_invD(1) [OF assms(1)] assms(2)] by blast+
  show ?thesis unfolding nkvx_cancel_ack_cb_def
    by (rule try_complete_inv [OF assms(1,2)]) (use x assms(3) in \<open>auto simp: call_ok_def call_log_def split: if_splits\<close>)
qed

lemma forward_cb_inv:
  assumes inv: "front_inv fr" "x \<in> set (fr_calls fr)" "fc_handle x"
  shows "front_inv (nkvx_front_forward_cb ret out x fr)"
proof -
  have x: "call_ok x" "call_log (set (fr_log fr)) x" using proto_invD(4,5) [OF front_invD(1) [OF inv(1)] inv(2)] by blast+
  let ?c = "fc_call_id x"
  obtain st len inl where r: "forward_result ret out = (st, len, inl)" by (cases "forward_result ret out") auto
  consider "fc_cancelling x" | "\<not> fc_cancelling x" "fc_tenant_done x" | "\<not> fc_cancelling x" "\<not> fc_tenant_done x" by blast
  then show ?thesis
  proof cases
    case 1
    then have e: "nkvx_front_forward_cb ret out x fr = nkvx_call_try_complete (x\<lparr>fc_forward_done := True, fc_handle := False\<rparr>) (log_front [Fe_resolved ?c] fr)"
      by (simp add: nkvx_front_forward_cb_def)
    show ?thesis unfolding e
      by (rule try_complete_inv [OF inv(1,2)]) (use x 1 in \<open>auto simp: call_ok_def call_log_def split: if_splits\<close>)
  next
    case 2
    then have e: "nkvx_front_forward_cb ret out x fr = free_call ?c (release_call x (log_front [Fe_resolved ?c] fr))"
      by (simp add: nkvx_front_forward_cb_def Let_def)
    show ?thesis unfolding e using 2 x detached_filter [OF inv(1,2)]
      by (intro reap_inv [OF inv(1,2), where mid = "log_front [Fe_resolved ?c] fr" and es = "[Fe_resolved ?c]"] bulk_ok_log front_invD(2) [OF inv(1)])
        (auto simp: free_call_def call_ok_def call_log_def)
  next
    case 3
    let ?fr1 = "detach ?c (log_front [Fe_resolved ?c, Fe_tenant ?c st len inl] fr)"
    have e: "nkvx_front_forward_cb ret out x fr = free_call ?c (release_call x ?fr1)"
      using 3 r by (simp add: nkvx_front_forward_cb_def Let_def)
    have "bulk_ok (held fr) (log_front [Fe_resolved ?c, Fe_tenant ?c st len inl] fr)" by (intro bulk_ok_log front_invD(2) [OF inv(1)]) simp
    from bulk_ok_same [OF this, of ?fr1 "[]"] have "bulk_ok (held fr) ?fr1" by (simp add: detach_def)
    then show ?thesis unfolding e using 3 x
      by (intro reap_inv [OF inv(1,2), where mid = ?fr1 and es = "[Fe_resolved ?c, Fe_tenant ?c st len inl]"])
        (auto simp: free_call_def detach_def call_ok_def call_log_def)
  qed
qed

subsection \<open>Cancel and teardown\<close>

lemma get_callD: "get_call fr c = Some x \<Longrightarrow> x \<in> set (fr_calls fr) \<and> fc_call_id x = c"
  unfolding get_call_def by (rule find_mem)

lemma begin_cancel_inv:
  assumes "front_inv fr"
  shows "front_inv (nkvx_call_begin_cancel env c fr)"
proof (cases "get_call fr c")
  case (Some x)
  then have m: "x \<in> set (fr_calls fr)" "fc_call_id x = c" using get_callD by auto
  have x: "call_ok x" "call_log (set (fr_log fr)) x" using proto_invD(4,5) [OF front_invD(1) [OF assms] m(1)] by blast+
  have put: "front_inv (log_front es (put_call x' fr))"
    if "\<not> fc_cancelling x" "x' = x\<lparr>fc_cancelling := True, fc_join_status := IO_ABORTED, fc_cancel_acked := a, fc_cancel_handle := \<not> a\<rparr>"
      "\<forall>e \<in> set es. e \<in> {Fe_cancel_sent c, Fe_hg_cancel c}" "a \<longrightarrow> Fe_cancel_sent c \<notin> set es" for x' es a
    by (rule put_inv [OF assms m(1)]) (use that x m(2) in \<open>auto simp: call_ok_def call_log_def\<close>)
  have h: "x\<lparr>fc_cancelling := True, fc_join_status := IO_ABORTED, fc_cancel_acked := True\<rparr>
      = x\<lparr>fc_cancelling := True, fc_join_status := IO_ABORTED, fc_cancel_acked := True, fc_cancel_handle := \<not> True\<rparr>"
    "x\<lparr>fc_cancelling := True, fc_join_status := IO_ABORTED, fc_cancel_handle := True\<rparr>
      = x\<lparr>fc_cancelling := True, fc_join_status := IO_ABORTED, fc_cancel_acked := False, fc_cancel_handle := \<not> False\<rparr>"
    if "\<not> fc_cancelling x" using x(1) that by (auto simp: call_ok_def)
  have "log_front [] q = q" for q by (simp add: log_front_def)
  then show ?thesis
    using assms put [OF _ h(1), of "[Fe_hg_cancel c]"] put [OF _ h(1), of "[]"] put [OF _ h(2), of "[Fe_cancel_sent c, Fe_hg_cancel c]"]
    by (auto simp: nkvx_call_begin_cancel_def Some Let_def)
qed (simp add: nkvx_call_begin_cancel_def assms)

lemma cancel_all_inv: "front_inv fr \<Longrightarrow> front_inv (fold (nkvx_call_begin_cancel env) cs fr)"
  by (induction cs arbitrary: fr) (simp_all add: begin_cancel_inv)

lemma fail_pending_inv:
  assumes inv: "front_inv fr" "c \<in> set (fr_inflight fr)" "Fe_teardown \<in> set (fr_log fr)"
  shows "front_inv (fail_pending st c fr)" "fr_inflight (fail_pending st c fr) = filter (\<lambda>y. y \<noteq> c) (fr_inflight fr)"
    "Fe_teardown \<in> set (fr_log (fail_pending st c fr))"
proof -
  obtain x where x: "x \<in> set (fr_calls fr)" "fc_call_id x = c" "\<not> fc_detached x"
    using inv(2) unfolding proto_invD(2) [OF front_invD(1) [OF inv(1)]] by auto
  obtain us vs where sp: "fr_calls fr = us @ x # vs" "\<forall>y \<in> set us \<union> set vs. fc_call_id y \<noteq> fc_call_id x"
    using keyed_split [OF proto_invD(1) [OF front_invD(1) [OF inv(1)]] x(1)] by blast
  have "find (\<lambda>y. fc_call_id y = c) us = None" using sp(2) x(2) by (auto simp: find_None_iff)
  then have g: "get_call fr c = Some x" using sp(1) x(2) by (simp add: get_call_def find_append)
  define x' where "x' = x\<lparr>fc_tenant_done := True, fc_input_bulk := None, fc_result_sink := None, fc_detached := True\<rparr>"
  let ?mid = "log_front [Fe_tenant c st 0 None] fr" and ?fr' = "fail_pending st c fr"
  have e: "?fr' = detach c (put_call x' (release_call x ?mid))" by (simp add: fail_pending_def g x'_def)
  obtain hs where "fr_log (release_call x ?mid) = fr_log ?mid @ Fe_release c # map Fe_bulk_free hs"
    using release_call_fields x(2) by blast
  then have log: "fr_log ?fr' = fr_log fr @ Fe_tenant c st 0 None # Fe_release c # map Fe_bulk_free hs"
    by (simp add: e detach_def put_call_def)
  have f: "fr_calls ?fr' = map (\<lambda>y. if fc_call_id y = c then x' else y) (fr_calls fr)" "fr_inflight ?fr' = filter (\<lambda>y. y \<noteq> c) (fr_inflight fr)"
    "fr_n_inflight ?fr' = fr_n_inflight fr - 1" "fr_next_call_id ?fr' = fr_next_call_id fr" "fr_kv ?fr' = fr_kv fr" "fr_next_kv ?fr' = fr_next_kv fr"
    by (simp_all add: e detach_def put_call_def x'_def x(2))
  have "rel_ok ((fr_log fr @ [Fe_tenant c st 0 None]) @ [Fe_release c])"
    using inv(3) by (intro rel_ok_snoc rel_ok_append proto_invD(11) [OF front_invD(1) [OF inv(1)]]) auto
  then have "rel_ok (((fr_log fr @ [Fe_tenant c st 0 None]) @ [Fe_release c]) @ map Fe_bulk_free hs)" by (rule rel_ok_append) auto
  then have "proto_inv ?fr'"
    by (intro fail_proto [OF front_invD(1) [OF inv(1)] x(1) x(2) [symmetric] x(3) x'_def f(1-4) log]) (use inv(3) in auto)
  moreover have "kv_front ?fr'" by (rule kv_keep [OF front_invD(3) [OF inv(1)] f(5,6) log]) simp
  moreover have "bulk_ok (held ?fr') ?fr'"
  proof -
    have "fr_calls ?fr' = us @ x' # vs" using sp x(2) by (simp add: f(1) map_other x'_def)
    then have "held fr = call_bulks x + held ?fr'" using sp(1) f(5) by (simp add: held_def call_bulks_def x'_def)
    moreover have "bulk_ok (held fr) ?mid" by (intro bulk_ok_log front_invD(2) [OF inv(1)]) simp
    ultimately have "bulk_ok (held ?fr') (release_call x ?mid)" using release_call_ok by metis
    from bulk_ok_same [OF this, of ?fr' "[]"] show ?thesis by (simp add: e detach_def put_call_def)
  qed
  ultimately show "front_inv ?fr'" by (simp add: front_inv_def)
  show "fr_inflight ?fr' = filter (\<lambda>y. y \<noteq> c) (fr_inflight fr)" by (rule f(2))
  show "Fe_teardown \<in> set (fr_log ?fr')" using log inv(3) by simp
qed

lemma fail_all_inv:
  assumes "front_inv fr"
  shows "front_inv (nkvx_front_fail_all_pending st fr)" "fr_inflight (nkvx_front_fail_all_pending st fr) = []"
proof -
  have "front_inv (fold (fail_pending st) cs q) \<and> fr_inflight (fold (fail_pending st) cs q) = filter (\<lambda>y. y \<notin> set cs) (fr_inflight q)"
    if "front_inv q" "Fe_teardown \<in> set (fr_log q)" "set cs \<subseteq> set (fr_inflight q)" "distinct cs" for cs q
    using that
  proof (induction cs arbitrary: q)
    case (Cons c cs)
    have c: "c \<in> set (fr_inflight q)" using Cons.prems(3) by simp
    note p = fail_pending_inv [OF Cons.prems(1) c Cons.prems(2), of st]
    have "set cs \<subseteq> set (fr_inflight (fail_pending st c q))" using Cons.prems(3,4) unfolding p(2) by auto
    from Cons.IH [OF p(1,3) this] Cons.prems(4) show ?case by (simp add: p(2) conj_commute)
  qed simp
  note all = this
  let ?q = "log_front [Fe_teardown] fr"
  have q: "front_inv ?q"
  proof -
    have "proto_inv ?q" by (rule proto_log [OF front_invD(1) [OF assms], where es = "[Fe_teardown]"]) simp_all
    moreover have "held ?q = held fr" by (simp add: held_def)
    ultimately show ?thesis using bulk_ok_log [OF front_invD(2) [OF assms], of "[Fe_teardown]"]
        kv_keep [OF front_invD(3) [OF assms], of ?q "[Fe_teardown]"] by (simp add: front_inv_def)
  qed
  have "distinct (fr_inflight fr)" using distinct_inflight [OF front_invD(1) [OF assms]] .
  then show "front_inv (nkvx_front_fail_all_pending st fr)" "fr_inflight (nkvx_front_fail_all_pending st fr) = []"
    using all [OF q, of "fr_inflight fr"] by (simp_all add: nkvx_front_fail_all_pending_def)
qed

subsection \<open>New calls\<close>

text \<open>A state between the acquisition of handles and the call that will hold them.\<close>

definition acquiring :: "nat multiset \<Rightarrow> front \<Rightarrow> bool" where
  "acquiring H fr = (proto_inv fr \<and> bulk_ok (H + held fr) fr \<and> kv_front fr)"

lemma acquiring_frame:
  assumes "acquiring H fr" "frame fr fr'" "bulk_ok (H' + held fr) fr'"
  shows "acquiring H' fr'"
proof -
  have "held fr' = held fr" using assms(2) by (simp add: held_def frame_def)
  then show ?thesis using assms frame_proto frame_kv unfolding acquiring_def by metis
qed

lemma acquiring_release:
  assumes "acquiring (held_by b + H) fr"
  shows "acquiring H (nkvx_bulk_release b fr)"
proof (rule acquiring_frame [OF assms frame_release])
  show "bulk_ok (H + held fr) (nkvx_bulk_release b fr)"
    using assms release_opt_ok unfolding acquiring_def by (simp add: add.assoc)
qed

lemma acquiring_input:
  assumes "acquiring H fr" "acquire_input env i addr fr = (r, fr')"
  shows "case r of Inl err \<Rightarrow> acquiring H fr' | Inr b \<Rightarrow> acquiring (held_by b + H) fr'"
proof -
  have f: "frame fr fr'" using frame_acquire_input [of fr env i addr] assms(2) by simp
  have "case r of Inl err \<Rightarrow> bulk_ok (H + held fr) fr' | Inr b \<Rightarrow> bulk_ok (held_by b + (H + held fr)) fr'"
    using assms(1) acquire_input_ok [OF _ assms(2)] by (simp add: acquiring_def)
  then show ?thesis using acquiring_frame [OF assms(1) f] by (auto split: sum.splits simp: add.assoc)
qed

lemma acquiring_sink:
  assumes "acquiring H fr" "acquire_sink env sink len dmabuf fr = (r, fr')"
  shows "case r of Inl err \<Rightarrow> acquiring H fr' | Inr b \<Rightarrow> acquiring (held_by b + H) fr'"
proof -
  have f: "frame fr fr'" using frame_acquire_sink [of fr env sink len dmabuf] assms(2) by simp
  have "case r of Inl err \<Rightarrow> bulk_ok (H + held fr) fr' | Inr b \<Rightarrow> bulk_ok (held_by b + (H + held fr)) fr'"
    using assms(1) acquire_sink_ok [OF _ assms(2)] by (simp add: acquiring_def)
  then show ?thesis using acquiring_frame [OF assms(1) f] by (auto split: sum.splits simp: add.assoc)
qed

lemma acquiring_fresh:
  assumes "acquiring H fr" "fresh_bulk env mode wanted fr = (r, fr')"
  shows "case r of Inl err \<Rightarrow> acquiring H fr' | Inr b \<Rightarrow> acquiring (held_by b + H) fr'"
proof -
  have f: "frame fr fr'" using frame_fresh [of fr env mode wanted] assms(2) by simp
  have "case r of Inl err \<Rightarrow> bulk_ok (H + held fr) fr' | Inr b \<Rightarrow> bulk_ok (held_by b + (H + held fr)) fr'"
    using assms(1) fresh_bulk_ok [OF _ assms(2)] by (simp add: acquiring_def)
  then show ?thesis using acquiring_frame [OF assms(1) f] by (auto split: sum.splits simp: add.assoc)
qed

lemma acquiring_none: "acquiring {#} fr = front_inv fr"
  by (simp add: acquiring_def front_inv_def)

text \<open>The call id is taken before the handles are.\<close>

lemma next_id_inv:
  assumes "front_inv fr"
  shows "front_inv (fr\<lparr>fr_next_call_id := fr_next_call_id fr + 1\<rparr>)"
proof -
  let ?fr = "fr\<lparr>fr_next_call_id := fr_next_call_id fr + 1\<rparr>"
  have p: "proto_inv fr" using front_invD(1) [OF assms] .
  have "fc_call_id x \<le> fr_next_call_id fr + 1" if "x \<in> set (fr_calls fr)" for x using proto_invD(6) [OF p that] by simp
  moreover have "occurs (is_sent c) (fr_log fr) \<le> (if c \<le> fr_next_call_id fr + 1 then 1 else 0)"
    "Fe_cancel_sent c \<in> set (fr_log fr) \<longrightarrow> c \<le> fr_next_call_id fr + 1" for c
    using proto_invD(9) [OF p, of c] proto_invD(10) [OF p, of c] by (auto split: if_splits)
  ultimately have "proto_inv ?fr"
    using proto_invD(1-5,7,8,11) [OF p] unfolding proto_inv_def by simp
  moreover have "held ?fr = held fr" by (simp add: held_def)
  ultimately show ?thesis
    using bulk_ok_same [OF front_invD(2) [OF assms], of ?fr "[]"] kv_keep [OF front_invD(3) [OF assms], of ?fr "[]"]
    by (simp add: front_inv_def)
qed

lemma next_id_frame: "frame fr fr' \<Longrightarrow> fr_next_call_id fr' = fr_next_call_id fr"
  by (simp add: frame_def)

lemma call_accept_inv:
  assumes fr2: "acquiring (held_by sk + (held_by ib + {#})) fr2" "fr_next_call_id fr2 = c" "0 < c"
    and old: "proto_inv fr" "fr_next_call_id fr = c - 1" "frame fr' fr2" "fr' = fr\<lparr>fr_next_call_id := c\<rparr>"
  shows "front_inv (log_front [Fe_sent c i']
    (fr2\<lparr>fr_calls := fr_calls fr2 @ [new_call arg i c ib sk], fr_inflight := fr_inflight fr2 @ [c], fr_n_inflight := fr_n_inflight fr2 + 1\<rparr>))"
    (is "front_inv ?fr3")
proof -
  obtain hs where f: "fr_calls fr2 = fr_calls fr" "fr_inflight fr2 = fr_inflight fr" "fr_n_inflight fr2 = fr_n_inflight fr"
    "fr_log fr2 = fr_log fr @ map Fe_bulk_free hs" using old(3,4) unfolding frame_def by auto
  have "frame fr (fr2\<lparr>fr_next_call_id := c - 1\<rparr>)" using old(2-4) unfolding frame_def by auto
  then have "proto_inv (fr2\<lparr>fr_next_call_id := c - 1\<rparr>)" using frame_proto old(1) by blast
  then have "proto_inv ?fr3"
    by (rule accept_proto [where x = "new_call arg i c ib sk" and c = c and i = i'])
      (use fr2(2,3) in \<open>auto simp: new_call_def call_ok_def log_front_def\<close>)
  moreover have "held ?fr3 = held_by sk + (held_by ib + {#}) + held fr2"
    by (simp add: held_def call_bulks_def new_call_def ac_simps)
  moreover have "bulk_ok (held_by sk + (held_by ib + {#}) + held fr2) ?fr3"
    by (rule bulk_ok_same [where fr = fr2 and es = "[Fe_sent c i']"]) (use fr2(1) in \<open>auto simp: log_front_def acquiring_def\<close>)
  moreover have "kv_front ?fr3"
    by (rule kv_keep [where fr = fr2 and es = "[Fe_sent c i']"]) (use fr2(1) in \<open>auto simp: log_front_def acquiring_def\<close>)
  ultimately show ?thesis by (simp add: front_inv_def)
qed

lemma forward_full_inv:
  assumes "front_inv fr"
  shows "front_inv (snd (nkvx_front_forward_full env i addr sink len dmabuf arg fr))"
proof (cases "front_reject i len dmabuf \<or> \<not> fv_calloc env")
  case True
  then show ?thesis using assms by (auto simp: nkvx_front_forward_full_def)
next
  case False
  let ?c = "fr_next_call_id fr + 1" and ?fr' = "fr\<lparr>fr_next_call_id := fr_next_call_id fr + 1\<rparr>"
  obtain a fr1 where a: "acquire_input env i addr ?fr' = (a, fr1)" by fastforce
  have 1: "case a of Inl err \<Rightarrow> acquiring {#} fr1 | Inr b \<Rightarrow> acquiring (held_by b + {#}) fr1"
    using acquiring_input [OF _ a, of "{#}"] next_id_inv [OF assms] by (simp add: acquiring_none)
  show ?thesis
  proof (cases a)
    case (Inl err)
    then show ?thesis using 1 False a by (simp add: nkvx_front_forward_full_def Let_def acquiring_none)
  next
    case (Inr ib)
    obtain b fr2 where b: "acquire_sink env sink len dmabuf fr1 = (b, fr2)" by fastforce
    have 2: "case b of Inl err \<Rightarrow> acquiring (held_by ib + {#}) fr2 | Inr sk \<Rightarrow> acquiring (held_by sk + (held_by ib + {#})) fr2"
      using 1 Inr acquiring_sink [OF _ b] by simp
    have f: "frame ?fr' fr2"
      using frame_acquire_input [of ?fr' env i addr] frame_acquire_sink [of fr1 env sink len dmabuf] a b frame_trans by simp
    show ?thesis
    proof (cases b)
      case (Inl err)
      then show ?thesis using 2 False a Inr b acquiring_release [of ib "{#}" fr2]
        by (simp add: nkvx_front_forward_full_def Let_def acquiring_none)
    next
      case sk: (Inr sk)
      show ?thesis
      proof (cases "fv_create env \<and> fv_forward env")
        case True
        have "fr_next_call_id fr2 = ?c" using next_id_frame [OF f] by simp
        from call_accept_inv [OF 2 [unfolded sk sum.case] this _ front_invD(1) [OF assms] _ f refl]
        show ?thesis using False a Inr b sk True by (simp add: nkvx_front_forward_full_def Let_def)
      next
        case err: False
        have "acquiring (held_by ib + (held_by sk + {#})) fr2" using 2 sk by (simp add: ac_simps)
        then have "front_inv (nkvx_bulk_release sk (nkvx_bulk_release ib fr2))"
          using acquiring_release acquiring_none by blast
        then show ?thesis using False a Inr b sk err by (auto simp: nkvx_front_forward_full_def Let_def)
      qed
    qed
  qed
qed

lemma release_acquired:
  assumes "acquiring (held_by b + (held_by a + {#})) fr"
  shows "front_inv (nkvx_bulk_release b (nkvx_bulk_release a fr))"
proof -
  have "acquiring (held_by a + (held_by b + {#})) fr" using assms by (simp add: ac_simps)
  then show ?thesis using acquiring_release acquiring_none by blast
qed

lemma kv_accept_inv:
  assumes "acquiring (held_by sk + (held_by vb + {#})) fr" "c = fr_next_kv fr"
  shows "front_inv (log_front [Fe_kv_sent c i]
    (fr\<lparr>fr_kv := fr_kv fr @ [\<lparr>vc_id = c, vc_arg = arg, vc_value_bulk = vb, vc_result_sink = sk\<rparr>], fr_next_kv := c + 1\<rparr>))"
    (is "front_inv ?fr'")
proof -
  have p: "proto_inv fr" "kv_front fr" "bulk_ok (held_by sk + (held_by vb + {#}) + held fr) fr"
    using assms(1) unfolding acquiring_def by blast+
  have "proto_inv ?fr'" by (rule proto_log [OF p(1), where es = "[Fe_kv_sent c i]"]) simp_all
  moreover have "held ?fr' = held_by sk + (held_by vb + {#}) + held fr" by (simp add: held_def kv_bulks_def ac_simps)
  moreover have "bulk_ok (held_by sk + (held_by vb + {#}) + held fr) ?fr'"
    by (rule bulk_ok_same [OF p(3), where es = "[Fe_kv_sent c i]"]) (simp_all add: log_front_def)
  moreover have "kv_front ?fr'"
  proof -
    have new: "c \<notin> vc_id ` set (fr_kv fr)" using kv_frontD(2) [OF p(2)] assms(2) by force
    have "occurs (is_kv_sent k) (fr_log ?fr') = occurs (is_kv_tenant k) (fr_log ?fr') + (if k \<in> vc_id ` set (fr_kv ?fr') then 1 else 0)
        \<and> occurs (is_kv_sent k) (fr_log ?fr') \<le> (if k < fr_next_kv ?fr' then 1 else 0)" for k
      using kv_frontD(3,4) [OF p(2), of k] new assms(2) by (cases "k = c") (auto split: if_splits)
    moreover have "distinct (map vc_id (fr_kv ?fr'))" using kv_frontD(1) [OF p(2)] new by simp
    moreover have "\<forall>k \<in> set (fr_kv ?fr'). vc_id k < fr_next_kv ?fr'" using kv_frontD(2) [OF p(2)] assms(2) by (auto simp: less_Suc_eq)
    ultimately show ?thesis unfolding kv_front_def by blast
  qed
  ultimately show ?thesis by (simp add: front_inv_def)
qed

lemma kv_forward_inv:
  assumes "front_inv fr"
  shows "front_inv (snd (nkvx_front_kv_forward env i sink len arg fr))"
proof (cases "(ki_value_len i > nkvx_inline_max \<and> ki_value_inline i = None) \<or> \<not> fv_calloc env")
  case True
  then show ?thesis using assms by (auto simp: nkvx_front_kv_forward_def)
next
  case False
  obtain a fr1 where a: "fresh_bulk env HG_BULK_READ_ONLY (ki_value_len i > nkvx_inline_max \<and> ki_value_inline i \<noteq> None) fr = (a, fr1)" by fastforce
  have 1: "case a of Inl err \<Rightarrow> acquiring {#} fr1 | Inr b \<Rightarrow> acquiring (held_by b + {#}) fr1"
    using acquiring_fresh [OF _ a, of "{#}"] assms by (simp add: acquiring_none)
  note unf = nkvx_front_kv_forward_def if_not_P [OF False [unfolded de_Morgan_disj, THEN conjunct1]]
  show ?thesis
  proof (cases a)
    case (Inl err)
    then show ?thesis using 1 False a unfolding unf by (simp add: acquiring_none)
  next
    case (Inr vb)
    obtain b fr2 where b: "fresh_bulk env HG_BULK_WRITE_ONLY (sink \<noteq> None \<and> len > nkvx_inline_max) fr1 = (b, fr2)" by fastforce
    have 2: "case b of Inl err \<Rightarrow> acquiring (held_by vb + {#}) fr2 | Inr sk \<Rightarrow> acquiring (held_by sk + (held_by vb + {#})) fr2"
      using 1 Inr acquiring_fresh [OF _ b] by simp
    show ?thesis
    proof (cases b)
      case (Inl err)
      then show ?thesis using 2 False a Inr b acquiring_release [of vb "{#}" fr2] unfolding unf by (simp add: acquiring_none)
    next
      case sk: (Inr sk)
      then show ?thesis using False a Inr b release_acquired [OF 2 [unfolded sk sum.case]] kv_accept_inv [OF 2 [unfolded sk sum.case] refl]
        unfolding unf by (simp add: Let_def)
    qed
  qed
qed

lemma kv_cb_inv:
  assumes inv: "front_inv fr" "k \<in> set (fr_kv fr)"
  shows "front_inv (nkvx_kv_forward_cb ret out k fr)"
proof -
  obtain st len inl where r: "kv_result ret out = (st, len, inl)" by (cases "kv_result ret out") auto
  let ?e = "Fe_kv_tenant (vc_id k) st len inl"
  define mid where "mid = nkvx_bulk_release (vc_result_sink k) (nkvx_bulk_release (vc_value_bulk k) (log_front [?e] fr))"
  have e: "nkvx_kv_forward_cb ret out k fr = mid\<lparr>fr_kv := filter (\<lambda>y. vc_id y \<noteq> vc_id k) (fr_kv mid)\<rparr>" (is "_ = ?fr'")
    by (simp add: nkvx_kv_forward_cb_def r mid_def Let_def)
  have "frame (log_front [?e] fr) mid" unfolding mid_def using frame_release frame_trans by blast
  then obtain hs where f: "fr_calls mid = fr_calls fr" "fr_inflight mid = fr_inflight fr" "fr_n_inflight mid = fr_n_inflight fr"
    "fr_next_call_id mid = fr_next_call_id fr" "fr_kv mid = fr_kv fr" "fr_next_kv mid = fr_next_kv fr" "fr_log mid = fr_log fr @ ?e # map Fe_bulk_free hs"
    unfolding frame_def by auto
  have p: "proto_inv fr" "kv_front fr" using front_invD [OF inv(1)] by blast+
  obtain us vs where sp: "fr_kv fr = us @ k # vs" "\<forall>y \<in> set us \<union> set vs. vc_id y \<noteq> vc_id k"
    using keyed_split [of vc_id "fr_kv fr" k] p(2) inv(2) unfolding kv_front_def by blast
  have kv: "fr_kv ?fr' = us @ vs" using f(5) sp by (simp add: filter_other)
  have "proto_inv ?fr'" by (rule proto_log [OF p(1), where es = "?e # map Fe_bulk_free hs"]) (use f in auto)
  moreover have "kv_front ?fr'"
  proof -
    have "occurs (is_kv_sent c) (fr_log ?fr') = occurs (is_kv_tenant c) (fr_log ?fr') + (if c \<in> vc_id ` set (fr_kv ?fr') then 1 else 0)
        \<and> occurs (is_kv_sent c) (fr_log ?fr') \<le> (if c < fr_next_kv ?fr' then 1 else 0)" for c
    proof -
      have o: "occurs (is_kv_sent c) (map Fe_bulk_free hs) = 0" "occurs (is_kv_tenant c) (map Fe_bulk_free hs) = 0" by (simp_all add: occurs_0_iff)
      have "occurs (is_kv_sent c) (fr_log fr) = occurs (is_kv_tenant c) (fr_log fr) + (if c \<in> vc_id ` set (fr_kv fr) then 1 else 0)"
        "occurs (is_kv_sent c) (fr_log fr) \<le> (if c < fr_next_kv fr then 1 else 0)" using p(2) unfolding kv_front_def by blast+
      moreover have "c \<in> vc_id ` set (us @ vs) \<longleftrightarrow> c \<in> vc_id ` set (fr_kv fr) \<and> c \<noteq> vc_id k" using sp by auto
      moreover have "vc_id k \<in> vc_id ` set (fr_kv fr)" using inv(2) by blast
      ultimately show ?thesis using f(6,7) o unfolding kv by (cases "c = vc_id k") auto
    qed
    moreover have "distinct (map vc_id (fr_kv ?fr'))" "\<forall>k \<in> set (fr_kv ?fr'). vc_id k < fr_next_kv ?fr'"
      unfolding kv using p(2) sp(1) f(6) by (auto simp: kv_front_def)
    ultimately show ?thesis unfolding kv_front_def by blast
  qed
  moreover have "bulk_ok (held ?fr') ?fr'"
  proof -
    have h: "held fr = held_by (vc_value_bulk k) + (held_by (vc_result_sink k) + held ?fr')"
      using sp(1) f(1) unfolding held_def kv by (simp add: kv_bulks_def ac_simps)
    have "bulk_ok (held fr) (log_front [?e] fr)" by (intro bulk_ok_log front_invD(2) [OF inv(1)]) simp
    then have "bulk_ok (held ?fr') mid" unfolding mid_def h by (intro release_opt_ok)
    from bulk_ok_same [OF this, of ?fr' "[]"] show ?thesis by simp
  qed
  ultimately show ?thesis unfolding e by (simp add: front_inv_def)
qed

section \<open>The front as an invariant system\<close>

lemma get_call_mem:
  assumes "front_inv fr" "x \<in> set (fr_calls fr)"
  shows "get_call fr (fc_call_id x) = Some x"
proof -
  obtain us vs where sp: "fr_calls fr = us @ x # vs" "\<forall>y \<in> set us \<union> set vs. fc_call_id y \<noteq> fc_call_id x"
    using keyed_split [OF proto_invD(1) [OF front_invD(1) [OF assms(1)]] assms(2)] by blast
  then have "find (\<lambda>y. fc_call_id y = fc_call_id x) us = None" by (auto simp: find_None_iff)
  then show ?thesis using sp(1) by (simp add: get_call_def find_append)
qed

lemma completion_inv:
  assumes "front_inv fr" "outstanding fr d"
  shows "front_inv (run_completion d fr)"
proof (cases d)
  case (Done_forward c ret out)
  then obtain x where "x \<in> set (fr_calls fr)" "fc_call_id x = c" "fc_handle x" using assms(2) by auto
  then show ?thesis using get_call_mem [OF assms(1)] forward_cb_inv [OF assms(1)] by (auto simp: run_completion_def Done_forward)
next
  case (Done_cancel c)
  then obtain x where "x \<in> set (fr_calls fr)" "fc_call_id x = c" "fc_cancel_handle x" using assms(2) by auto
  then show ?thesis using get_call_mem [OF assms(1)] ack_cb_inv [OF assms(1)] by (auto simp: run_completion_def Done_cancel)
next
  case (Done_kv c ret out)
  show ?thesis
  proof (cases "find (\<lambda>x. vc_id x = c) (fr_kv fr)")
    case (Some k)
    then show ?thesis using kv_cb_inv [OF assms(1)] find_mem [OF Some] by (simp add: run_completion_def Done_kv)
  qed (use assms(1) in \<open>simp add: run_completion_def Done_kv\<close>)
qed

lemma init_inv: "front_inv front_zero"
proof -
  have "cached (replicate n empty_slot) = []" for n by (induction n) (simp_all add: empty_slot_def)
  then show ?thesis
    by (auto simp: front_zero_def front_inv_def proto_inv_def bulk_ok_def kv_front_def held_def rel_ok_def empty_slot_def)
qed

interpretation front_sys: invariant_system front_start front_step front_inv
proof
  fix fr assume "front_start fr"
  then show "front_inv fr" using init_inv by (simp add: front_start_zero)
next
  fix fr e fr'
  assume inv: "front_inv fr" and "front_step fr e fr'"
  from this(2) show "front_inv fr'"
  proof cases
    case (fs_cancel env token)
    then show ?thesis using inv begin_cancel_inv by (simp add: nkvx_front_cancel_def)
  next
    case (fs_cancel_all env)
    then show ?thesis using inv cancel_all_inv by (simp add: nkvx_front_cancel_all_def)
  qed (use inv forward_full_inv fail_all_inv(1) kv_forward_inv completion_inv in simp_all)
qed

section \<open>A run of the front\<close>

text \<open>An Exec with a large sink is sent and cancelled; its forward resolves, then the executor acknowledges.\<close>

definition front_env_ex :: front_env where
  "front_env_ex = \<lparr>fv_calloc = True, fv_bulk_create = \<lambda>_. True, fv_create = True, fv_forward = True,
     fv_cancel_create = \<lambda>_. True, fv_cancel_forward = \<lambda>_. True\<rparr>"

definition exec_ex :: "nat exec_in" where
  "exec_ex = \<lparr>ei_op_id = 1, ei_client_call_id = 0, ei_read_only = 1, ei_runtime = 1, ei_caps = 3, ei_key_len = 1,
     ei_key = [97], ei_sha256 = [], ei_sha256_valid = 0, ei_module_key = None, ei_module_ns = None, ei_osize = 8192,
     ei_input_len = 0, ei_input_inline = None, ei_input_bulk = None, ei_result_sink = None\<rparr>"

definition front_sent :: front where
  "front_sent = snd (nkvx_front_forward_full front_env_ex exec_ex 0 (Some 4096) 8192 False 5 front_zero)"

definition front_cancelled :: front where
  "front_cancelled = run_completion (Done_forward 1 HG_CANCELED None) (snd (nkvx_front_cancel front_env_ex 1 front_sent))"

definition front_joined :: front where
  "front_joined = run_completion (Done_cancel 1) front_cancelled"

lemma scan_empty: "bulk_scan (replicate n empty_slot) i key (Some j) v = Scan_slot (Some j)"
  by (induction n arbitrary: i) (simp_all add: empty_slot_def)

lemma slots_cons: "replicate bulk_cache_slots empty_slot = empty_slot # replicate 63 empty_slot"
  by (simp add: bulk_cache_slots_def flip: replicate_Suc)

lemma empty_slot_handle [simp]: "be_handle empty_slot = None"
  by (simp add: empty_slot_def)

lemma scan_init: "bulk_scan (empty_slot # replicate 63 empty_slot) 0 key None None = Scan_slot (Some 0)"
  by (simp add: scan_empty)

lemma front_sent_reachable: "reachable front_start front_step front_sent"
  unfolding front_sent_def
  by (rule reach_step [where s = front_zero], rule reach_init, simp add: front_start_zero, rule fs_forward)

lemma front_sent_eval:
  "fr_calls front_sent = [new_call 5 exec_ex 1 None (Some 0)]" "fr_inflight front_sent = [1]" "fr_n_inflight front_sent = 1"
  "fr_log front_sent = [Fe_sent 1 (exec_ex\<lparr>ei_client_call_id := 1, ei_input_bulk := None, ei_result_sink := Some 0\<rparr>)]"
  "fr_bulks front_sent = [0]" "\<exists>e es. fr_bulk_cache front_sent = e # es \<and> be_handle e = Some 0"
  by (simp_all add: front_sent_def nkvx_front_forward_full_def front_reject_def front_env_ex_def acquire_input_def
    acquire_sink_def nkvx_inline_max_def nkvx_bulk_acquire_def front_zero_def bulk_register_def log_front_def
    Let_def slots_cons scan_init del: replicate.simps bulk_scan.simps)
    (simp_all add: exec_ex_def)

definition call_ex :: call where
  "call_ex = (new_call 5 exec_ex 1 None (Some 0))\<lparr>fc_cancelling := True, fc_join_status := IO_ABORTED, fc_cancel_handle := True\<rparr>"

lemma front_cancel_eval:
  "snd (nkvx_front_cancel front_env_ex 1 front_sent) = log_front [Fe_cancel_sent 1, Fe_hg_cancel 1] (front_sent\<lparr>fr_calls := [call_ex]\<rparr>)"
  by (simp add: nkvx_front_cancel_def nkvx_call_begin_cancel_def get_call_def put_call_def front_sent_eval front_env_ex_def
      new_call_def call_ex_def Let_def)

lemma front_cancelled_eval:
  "front_cancelled = log_front [Fe_cancel_sent 1, Fe_hg_cancel 1, Fe_resolved 1]
     (front_sent\<lparr>fr_calls := [call_ex\<lparr>fc_forward_done := True, fc_handle := False\<rparr>]\<rparr>)"
  unfolding front_cancelled_def front_cancel_eval
  by (simp add: run_completion_def get_call_def nkvx_front_forward_cb_def nkvx_call_try_complete_def Let_def call_ex_def new_call_def)
    (simp add: put_call_def log_front_def)

lemma front_joined_log:
  "fr_log front_joined = fr_log front_sent @ [Fe_cancel_sent 1, Fe_hg_cancel 1, Fe_resolved 1, Fe_ack 1, Fe_tenant 1 IO_ABORTED 0 None, Fe_release 1]"
  "fr_inflight front_joined = []" "fr_calls front_joined = []"
proof -
  obtain e es where e: "fr_bulk_cache front_sent = e # es" "be_handle e = Some 0" using front_sent_eval(6) by blast
  show "fr_log front_joined = fr_log front_sent @ [Fe_cancel_sent 1, Fe_hg_cancel 1, Fe_resolved 1, Fe_ack 1, Fe_tenant 1 IO_ABORTED 0 None, Fe_release 1]"
    "fr_inflight front_joined = []" "fr_calls front_joined = []"
    unfolding front_joined_def front_cancelled_eval using e
    by (simp_all add: run_completion_def get_call_def nkvx_cancel_ack_cb_def nkvx_call_try_complete_def call_ex_def new_call_def
        release_call_def nkvx_bulk_release_def detach_def free_call_def log_front_def front_sent_eval Let_def)
qed

lemma front_cancelled_reachable: "reachable front_start front_step front_cancelled"
proof -
  have "reachable front_start front_step (snd (nkvx_front_cancel front_env_ex 1 front_sent))"
    by (rule reach_step [OF front_sent_reachable fs_cancel])
  then show ?thesis unfolding front_cancelled_def
    by (rule reach_step) (rule fs_done, simp add: front_cancel_eval call_ex_def new_call_def del: One_nat_def)
qed

lemma front_joined_reachable: "reachable front_start front_step front_joined"
  unfolding front_joined_def
  by (rule reach_step [OF front_cancelled_reachable], rule fs_done) (simp add: front_cancelled_eval call_ex_def new_call_def)

section \<open>The front's guarantees\<close>

text \<open>
  C11. Registered memory. In every state the front can reach: each bulk handle a call in flight or a
  context awaiting a late completion holds is registered and has not been freed, no handle is ever
  freed twice, and what stays registered is cached or in use, so nothing leaks.
\<close>

theorem bulk_handles_safe:
  assumes "reachable front_start front_step fr"
  shows "(\<forall>x \<in> set (fr_calls fr). \<forall>h. fc_input_bulk x = Some h \<or> fc_result_sink x = Some h \<longrightarrow>
            h \<in> set (fr_bulks fr) \<and> Fe_bulk_free h \<notin> set (fr_log fr))
    \<and> (\<forall>h. count_list (fr_log fr) (Fe_bulk_free h) \<le> 1)
    \<and> set (fr_bulks fr) = set (cached (fr_bulk_cache fr)) \<union> set_mset (held fr)
    \<and> (\<forall>e \<in> set (fr_bulk_cache fr). \<forall>h. be_handle e = Some h \<longrightarrow> be_refs e = count (held fr) h)"
proof -
  have ok: "bulk_ok (held fr) fr" using front_sys.reachable_inv [OF assms] by (simp add: front_inv_def)
  have "h \<in> set (fr_bulks fr) \<and> Fe_bulk_free h \<notin> set (fr_log fr)"
    if m: "x \<in> set (fr_calls fr)" "fc_input_bulk x = Some h \<or> fc_result_sink x = Some h" for x h
  proof -
    obtain us vs where "fr_calls fr = us @ x # vs" using m(1) by (meson split_list)
    then have "h \<in># held fr" using m(2) by (auto simp: held_split call_bulks_def)
    then have "h \<in> set (fr_bulks fr)" using bulk_okD(4) [OF ok] by blast
    then show ?thesis using bulk_okD(7) [OF ok, of h] by (auto simp: count_list_0_iff)
  qed
  moreover have "count_list (fr_log fr) (Fe_bulk_free h) \<le> 1" for h using bulk_okD(7) [OF ok, of h] by simp
  ultimately show ?thesis using bulk_okD(3,4) [OF ok] by blast
qed

theorem bulk_handles_safe_witness: "0 \<in> set (fr_bulks front_cancelled) \<and> Fe_bulk_free 0 \<notin> set (fr_log front_cancelled)"
proof -
  have "call_ex\<lparr>fc_forward_done := True, fc_handle := False\<rparr> \<in> set (fr_calls front_cancelled)" by (simp add: front_cancelled_eval)
  moreover have "fc_result_sink (call_ex\<lparr>fc_forward_done := True, fc_handle := False\<rparr>) = Some 0" by (simp add: call_ex_def new_call_def)
  ultimately show ?thesis using bulk_handles_safe [OF front_cancelled_reachable] by blast
qed

text \<open>
  C12. The tenant is answered exactly once. In every reachable state a forwarded Exec has had its
  callback run once if it has left the in-flight list and not at all before; a forwarded KV request
  likewise; every call context still allocated waits for an outstanding completion of Mercury; and the
  count of outstanding calls is the length of the in-flight list, zero after a forced teardown.
\<close>

theorem tenant_answered_once:
  assumes "reachable front_start front_step fr"
  shows "(Fe_sent c i \<in> set (fr_log fr) \<longrightarrow> occurs (is_tenant c) (fr_log fr) = (if c \<in> set (fr_inflight fr) then 0 else 1))
    \<and> (Fe_kv_sent k j \<in> set (fr_log fr) \<longrightarrow> occurs (is_kv_tenant k) (fr_log fr) = (if k \<in> vc_id ` set (fr_kv fr) then 0 else 1))
    \<and> (\<forall>x \<in> set (fr_calls fr). outstanding fr (Done_forward (fc_call_id x) ret out) \<or> outstanding fr (Done_cancel (fc_call_id x)))
    \<and> nkvx_front_outstanding fr = length (fr_inflight fr)
    \<and> nkvx_front_outstanding (nkvx_front_fail_all_pending st fr) = 0"
proof -
  have inv: "front_inv fr" using front_sys.reachable_inv [OF assms] .
  note p = front_invD(1) [OF inv] and kv = front_invD(3) [OF inv]
  have pos: "e \<in> set xs \<Longrightarrow> P e \<Longrightarrow> 0 < occurs P xs" for e :: front_event and P xs
    using occurs_0_iff [of P xs] by (metis gr0I)
  have "occurs (is_tenant c) (fr_log fr) = (if c \<in> set (fr_inflight fr) then 0 else 1)" if "Fe_sent c i \<in> set (fr_log fr)"
    using proto_invD(8,9) [OF p, of c] pos [OF that, of "is_sent c"] by (simp split: if_splits)
  moreover have "occurs (is_kv_tenant k) (fr_log fr) = (if k \<in> vc_id ` set (fr_kv fr) then 0 else 1)" if "Fe_kv_sent k j \<in> set (fr_log fr)"
    using kv_frontD(3,4) [OF kv, of k] pos [OF that, of "is_kv_sent k"] by (simp split: if_splits)
  moreover have "outstanding fr (Done_forward (fc_call_id x) ret out) \<or> outstanding fr (Done_cancel (fc_call_id x))"
    if "x \<in> set (fr_calls fr)" for x
    using proto_invD(4) [OF p that] that by (auto simp: call_ok_def)
  moreover have "nkvx_front_outstanding fr = length (fr_inflight fr)" using proto_invD(3) [OF p] by (simp add: nkvx_front_outstanding_def)
  moreover have "nkvx_front_outstanding (nkvx_front_fail_all_pending st fr) = 0"
    using proto_invD(3) [OF front_invD(1) [OF fail_all_inv(1) [OF inv, of st]]] fail_all_inv(2) [OF inv, of st]
    by (simp add: nkvx_front_outstanding_def)
  ultimately show ?thesis by blast
qed

theorem tenant_answered_once_witness:
  "occurs (is_tenant 1) (fr_log front_joined) = 1 \<and> occurs (is_tenant 1) (fr_log front_cancelled) = 0
    \<and> nkvx_front_outstanding front_cancelled = 1"
  using tenant_answered_once [OF front_joined_reachable, of 1 "exec_ex\<lparr>ei_client_call_id := 1, ei_input_bulk := None, ei_result_sink := Some 0\<rparr>" 0]
    tenant_answered_once [OF front_cancelled_reachable, of 1 "exec_ex\<lparr>ei_client_call_id := 1, ei_input_bulk := None, ei_result_sink := Some 0\<rparr>" 0]
  by (simp add: front_joined_log front_cancelled_eval front_sent_eval)



end
