(* ===== verification/FrontBridge.thy ===== *)
theory FrontBridge
  imports Bdev FrontClient
begin

text \<open>
  The bridge between the forwarder bdev and the front client (\<^verbatim>\<open>target/kvdev_rados_nkvx_front.c\<close>):
  the request structures it fills for each verb, the forwards, and the completion that copies an
  inline result into the tenant's buffer.

  \<open>sink\<close> is the tenant's output buffer as the bdev hands it over; its address is passed on as \<open>va\<close>
  (\<^const>\<open>None\<close> is NULL). The Exec input buffer lies at \<open>in_addr\<close>.
\<close>

record fwd_ctx =
  fx_cb_arg :: nat
  fx_host_out :: bool
  fx_host_out_len :: nat

text \<open>The status and length the bdev's completion gets, and the bytes written at the tenant's buffer.\<close>

definition kvdev_rados_nkvx_front_done :: "fwd_ctx \<Rightarrow> io_status \<Rightarrow> nat \<Rightarrow> bytes option \<Rightarrow> io_status \<times> nat \<times> bytes" where
  "kvdev_rados_nkvx_front_done ctx st result_len result_inline =
    (st, result_len,
     case result_inline of
       None \<Rightarrow> []
     | Some b \<Rightarrow> if length b > 0 \<and> fx_host_out ctx \<and> fx_host_out_len ctx > 0 then take (min (length b) (fx_host_out_len ctx)) b else [])"

text \<open>The Mercury initialisation string: the address up to and including \<^verbatim>\<open>://\<close>.\<close>

primrec provider_prefix :: "string \<Rightarrow> string option" where
  "provider_prefix [] = None"
| "provider_prefix (c # cs) =
    (if take 3 (c # cs) = ''://'' then Some ''://'' else map_option (Cons c) (provider_prefix cs))"

definition kvdev_rados_nkvx_front_create :: "hg_boot \<Rightarrow> string option \<Rightarrow> errno + front" where
  "kvdev_rados_nkvx_front_create hb target_addr =
    (case target_addr of
       None \<Rightarrow> Inl E_INVAL
     | Some a \<Rightarrow>
         (case provider_prefix a of
            None \<Rightarrow> Inl E_INVAL
          | Some p \<Rightarrow> if length p + 1 > 64 then Inl E_INVAL else nkvx_front_init hb (Some p) (Some a)))"

text \<open>A key copied into the zeroed key array of a request.\<close>

definition pad_key :: "bytes \<Rightarrow> bytes" where
  "pad_key key = memcpy_at 0 key (replicate exec_key_max_len 0)"

section \<open>Exec\<close>

primrec runtime_code :: "exec_runtime \<Rightarrow> nat" where
  "runtime_code RUNTIME_NONE = 0"
| "runtime_code RUNTIME_NKVX = 1"
| "runtime_code RUNTIME_CLS = 2"

definition exec_request_in :: "exec_request \<Rightarrow> nat \<Rightarrow> nat exec_in" where
  "exec_request_in xr osize =
    \<lparr>ei_op_id = xr_op_id xr, ei_client_call_id = 0, ei_read_only = (if xr_read_only xr then 1 else 0),
     ei_runtime = runtime_code (xr_runtime xr), ei_caps = xr_caps xr, ei_key_len = length (xr_key xr), ei_key = pad_key (xr_key xr),
     ei_sha256 = (case xr_sha256 xr of None \<Rightarrow> replicate sha256_len 0 | Some h \<Rightarrow> h),
     ei_sha256_valid = (if xr_sha256 xr = None then 0 else 1),
     ei_module_key = xr_module_key xr, ei_module_ns = xr_module_ns xr, ei_osize = osize,
     ei_input_len = xr_input_len xr, ei_input_inline = xr_input xr, ei_input_bulk = None, ei_result_sink = None\<rparr>"

definition kvdev_rados_nkvx_front_forward :: "front_env \<Rightarrow> exec_request \<Rightarrow> nat \<Rightarrow> nat option \<Rightarrow> nat \<Rightarrow> front \<Rightarrow> (errno + nat) \<times> front" where
  "kvdev_rados_nkvx_front_forward env xr in_addr va arg fr =
    (if xr_key xr = [] then (Inl E_INVAL, fr)
     else if \<not> fv_calloc env then (Inl E_NOMEM, fr)
     else nkvx_front_forward_tok env (exec_request_in xr (sk_len (xr_sink xr))) in_addr va (sk_len (xr_sink xr)) arg fr)"

definition kvdev_rados_nkvx_front_forward_dmabuf :: "front_env \<Rightarrow> exec_request \<Rightarrow> nat \<Rightarrow> nat option \<Rightarrow> nat \<Rightarrow> int \<Rightarrow> nat \<Rightarrow> front
    \<Rightarrow> (errno + nat) \<times> front" where
  "kvdev_rados_nkvx_front_forward_dmabuf env xr in_addr va sink_len sink_fd arg fr =
    (if xr_key xr = [] \<or> sink_fd < 0 then (Inl E_INVAL, fr)
     else if \<not> fv_calloc env then (Inl E_NOMEM, fr)
     else nkvx_front_forward_dmabuf env (exec_request_in xr sink_len) in_addr va sink_len sink_fd arg fr)"

section \<open>The KV verbs\<close>

definition kv_request_in :: "nat \<Rightarrow> bool \<Rightarrow> bytes \<Rightarrow> nat \<Rightarrow> nat \<Rightarrow> bytes option \<Rightarrow> nat \<Rightarrow> nat kv_in" where
  "kv_request_in verb read_only key osize flags value value_len =
    \<lparr>ki_verb = verb, ki_read_only = (if read_only then 1 else 0), ki_client_call_id = 0, ki_key_len = length key,
     ki_key = pad_key key, ki_osize = osize, ki_store_flags = flags, ki_value_len = value_len,
     ki_value_inline = value, ki_value_bulk = None, ki_result_sink = None\<rparr>"

definition kvdev_rados_nkvx_front_retrieve :: "front_env \<Rightarrow> bytes \<Rightarrow> bool \<Rightarrow> nat option \<Rightarrow> nat \<Rightarrow> nat \<Rightarrow> front \<Rightarrow> errno option \<times> front" where
  "kvdev_rados_nkvx_front_retrieve env key read_only va len arg fr =
    (if key = [] then (Some E_INVAL, fr)
     else if \<not> fv_calloc env then (Some E_NOMEM, fr)
     else nkvx_front_kv_forward env (kv_request_in (verb_code VERB_RETRIEVE) read_only key len 0 None 0) va len arg fr)"

definition kvdev_rados_nkvx_front_store :: "front_env \<Rightarrow> bytes \<Rightarrow> bool \<Rightarrow> nat \<Rightarrow> bytes option \<Rightarrow> nat \<Rightarrow> nat \<Rightarrow> front \<Rightarrow> errno option \<times> front" where
  "kvdev_rados_nkvx_front_store env key read_only flags value value_len arg fr =
    (if key = [] then (Some E_INVAL, fr)
     else if \<not> fv_calloc env then (Some E_NOMEM, fr)
     else nkvx_front_kv_forward env
       (kv_request_in (verb_code VERB_STORE) read_only key 0 flags (if value_len > 0 then value else None) value_len) None 0 arg fr)"

definition kvdev_rados_nkvx_front_status_only :: "front_env \<Rightarrow> nat \<Rightarrow> bytes \<Rightarrow> bool \<Rightarrow> nat \<Rightarrow> front \<Rightarrow> errno option \<times> front" where
  "kvdev_rados_nkvx_front_status_only env verb key read_only arg fr =
    (if key = [] then (Some E_INVAL, fr)
     else if \<not> fv_calloc env then (Some E_NOMEM, fr)
     else nkvx_front_kv_forward env (kv_request_in verb read_only key 0 0 None 0) None 0 arg fr)"

definition kvdev_rados_nkvx_front_delete :: "front_env \<Rightarrow> bytes \<Rightarrow> bool \<Rightarrow> nat \<Rightarrow> front \<Rightarrow> errno option \<times> front" where
  "kvdev_rados_nkvx_front_delete env key read_only arg fr =
    kvdev_rados_nkvx_front_status_only env (verb_code VERB_DELETE) key read_only arg fr"

definition kvdev_rados_nkvx_front_exist :: "front_env \<Rightarrow> bytes \<Rightarrow> bool \<Rightarrow> nat \<Rightarrow> front \<Rightarrow> errno option \<times> front" where
  "kvdev_rados_nkvx_front_exist env key read_only arg fr =
    kvdev_rados_nkvx_front_status_only env (verb_code VERB_EXIST) key read_only arg fr"

definition kvdev_rados_nkvx_front_list :: "front_env \<Rightarrow> bytes \<Rightarrow> bool \<Rightarrow> nat option \<Rightarrow> nat \<Rightarrow> nat \<Rightarrow> front \<Rightarrow> errno option \<times> front" where
  "kvdev_rados_nkvx_front_list env start_key read_only va len arg fr =
    (if \<not> fv_calloc env then (Some E_NOMEM, fr)
     else nkvx_front_kv_forward env (kv_request_in (verb_code VERB_LIST) read_only start_key len 0 None 0) va len arg fr)"

section \<open>The channel's calls\<close>

definition kvdev_rados_nkvx_front_destroy :: "front \<Rightarrow> front" where
  "kvdev_rados_nkvx_front_destroy fr = nkvx_front_fini fr"

text \<open>
  The datapath polls with timeout 0 and the drain blocks for its timeout: the two differ in what
  Mercury finds ready, the arguments of \<^const>\<open>nkvx_front_progress\<close>.
\<close>

definition kvdev_rados_nkvx_front_progress :: "bool \<Rightarrow> completion list \<Rightarrow> bool \<Rightarrow> front \<Rightarrow> (errno + nat) \<times> front" where
  "kvdev_rados_nkvx_front_progress progress_ok ready drained fr = nkvx_front_progress progress_ok ready drained fr"

definition kvdev_rados_nkvx_front_drain_progress :: "bool \<Rightarrow> completion list \<Rightarrow> bool \<Rightarrow> front \<Rightarrow> (errno + nat) \<times> front" where
  "kvdev_rados_nkvx_front_drain_progress progress_ok ready drained fr = nkvx_front_progress progress_ok ready drained fr"

definition kvdev_rados_nkvx_front_cancel :: "front_env \<Rightarrow> nat \<Rightarrow> front \<Rightarrow> bool \<times> front" where
  "kvdev_rados_nkvx_front_cancel env token fr = nkvx_front_cancel env token fr"

definition kvdev_rados_nkvx_front_cancel_all :: "front_env \<Rightarrow> front \<Rightarrow> front" where
  "kvdev_rados_nkvx_front_cancel_all env fr = nkvx_front_cancel_all env fr"

definition kvdev_rados_nkvx_front_outstanding :: "front \<Rightarrow> nat" where
  "kvdev_rados_nkvx_front_outstanding fr = nkvx_front_outstanding fr"

definition kvdev_rados_nkvx_front_fail_all_pending :: "io_status \<Rightarrow> front \<Rightarrow> front" where
  "kvdev_rados_nkvx_front_fail_all_pending st fr = nkvx_front_fail_all_pending st fr"

section \<open>Requests of the bdev\<close>

text \<open>
  What the bridge does with a request the bdev forwards, and the context the completion gets: only
  Retrieve, List and Exec have an output buffer.
\<close>

definition bridge_kv :: "front_env \<Rightarrow> kv_request \<Rightarrow> nat option \<Rightarrow> nat \<Rightarrow> front \<Rightarrow> errno option \<times> front" where
  "bridge_kv env req va arg fr =
    (case req of
       Req_Retrieve key ro sk \<Rightarrow> kvdev_rados_nkvx_front_retrieve env key ro va (sk_len sk) arg fr
     | Req_Store key ro flags value len \<Rightarrow> kvdev_rados_nkvx_front_store env key ro flags value len arg fr
     | Req_Delete key ro \<Rightarrow> kvdev_rados_nkvx_front_delete env key ro arg fr
     | Req_Exist key ro \<Rightarrow> kvdev_rados_nkvx_front_exist env key ro arg fr
     | Req_List key ro sk \<Rightarrow> kvdev_rados_nkvx_front_list env key ro va (sk_len sk) arg fr
     | Req_Exec xr \<Rightarrow> (case kvdev_rados_nkvx_front_forward env xr 0 va arg fr of
         (Inl err, fr') \<Rightarrow> (Some err, fr') | (Inr tok, fr') \<Rightarrow> (None, fr')))"

definition bridge_ctx :: "kv_request \<Rightarrow> nat \<Rightarrow> fwd_ctx" where
  "bridge_ctx req arg =
    (case req of
       Req_Retrieve key ro sk \<Rightarrow> \<lparr>fx_cb_arg = arg, fx_host_out = (sk_addr sk \<noteq> None), fx_host_out_len = sk_len sk\<rparr>
     | Req_List key ro sk \<Rightarrow> \<lparr>fx_cb_arg = arg, fx_host_out = (sk_addr sk \<noteq> None), fx_host_out_len = sk_len sk\<rparr>
     | Req_Exec xr \<Rightarrow> \<lparr>fx_cb_arg = arg, fx_host_out = (sk_addr (xr_sink xr) \<noteq> None), fx_host_out_len = sk_len (xr_sink xr)\<rparr>
     | _ \<Rightarrow> \<lparr>fx_cb_arg = arg, fx_host_out = False, fx_host_out_len = 0\<rparr>)"

lemma length_pad_key [simp]: "length k \<le> exec_key_max_len \<Longrightarrow> length (pad_key k) = exec_key_max_len"
  by (simp add: pad_key_def memcpy_at_def)

lemma take_pad_key: "take (length k) (pad_key k) = k"
  by (simp add: pad_key_def memcpy_at_def)

end
