(* ===== verification/Channel.thy ===== *)
theory Channel
  imports FrontSafety FrontBridge
begin

text \<open>
  The I/O channel of the forwarder bdev (\<^verbatim>\<open>target/bdev_kvrados.c\<close>): its creation, its poller, and its
  teardown, which cancels every Exec in flight, drives Mercury until none is outstanding, and fails
  what is left when Mercury gives up.

  The drain has no bound of its own, so it runs over a list of turns, one for each progress call:
  whether Mercury made progress, the completions it triggered, and whether it drained its queue.
  \<^const>\<open>None\<close> means the turns are used up and the loop still waits.
\<close>

type_synonym turn = "bool \<times> completion list \<times> bool"

definition kvrados_create_channel_cb :: "hg_boot \<Rightarrow> bool \<Rightarrow> string option \<Rightarrow> errno option \<times> front option" where
  "kvrados_create_channel_cb hb poller_ok executor_endpoint =
    (if executor_endpoint = None then (None, None)
     else case kvdev_rados_nkvx_front_create hb executor_endpoint of
       Inl err \<Rightarrow> (Some err, None)
     | Inr fr \<Rightarrow> if poller_ok then (None, Some fr) else (Some E_NOMEM, None))"

definition kvrados_front_poll :: "turn \<Rightarrow> front \<Rightarrow> bool \<times> front" where
  "kvrados_front_poll t fr =
    (case t of (progress_ok, ready, drained) \<Rightarrow>
      (case kvdev_rados_nkvx_front_progress progress_ok ready drained fr of
         (Inl _, fr') \<Rightarrow> (False, fr')
       | (Inr n, fr') \<Rightarrow> (n > 0, fr')))"

primrec drain_loop :: "turn list \<Rightarrow> front \<Rightarrow> front option" where
  "drain_loop [] fr = (if kvdev_rados_nkvx_front_outstanding fr > 0 then None else Some fr)"
| "drain_loop (t # ts) fr =
    (if kvdev_rados_nkvx_front_outstanding fr > 0 then
       (case t of (progress_ok, ready, drained) \<Rightarrow>
         (case kvdev_rados_nkvx_front_drain_progress progress_ok ready drained fr of
            (Inl _, fr') \<Rightarrow> Some fr'
          | (Inr _, fr') \<Rightarrow> drain_loop ts fr'))
     else Some fr)"

definition kvrados_destroy_channel_cb :: "front_env \<Rightarrow> turn list \<Rightarrow> front \<Rightarrow> front option" where
  "kvrados_destroy_channel_cb env ts fr =
    (case drain_loop ts (kvdev_rados_nkvx_front_cancel_all env fr) of
       None \<Rightarrow> None
     | Some fr1 \<Rightarrow>
         let fr2 = (if kvdev_rados_nkvx_front_outstanding fr1 > 0 then kvdev_rados_nkvx_front_fail_all_pending IO_FAILED fr1 else fr1) in
         Some (kvdev_rados_nkvx_front_destroy fr2))"

lemmas bridge_simps [simp] = kvdev_rados_nkvx_front_outstanding_def kvdev_rados_nkvx_front_drain_progress_def
  kvdev_rados_nkvx_front_progress_def kvdev_rados_nkvx_front_cancel_all_def kvdev_rados_nkvx_front_fail_all_pending_def
  kvdev_rados_nkvx_front_destroy_def

text \<open>Mercury's contract for the turns: a completion it triggers is outstanding at that moment.\<close>

primrec deliverable :: "completion list \<Rightarrow> front \<Rightarrow> bool" where
  "deliverable [] fr = True"
| "deliverable (d # ds) fr = (outstanding fr d \<and> deliverable ds (run_completion d fr))"

primrec legit :: "turn list \<Rightarrow> front \<Rightarrow> bool" where
  "legit [] fr = True"
| "legit (t # ts) fr =
    (case t of (ok, ds, _) \<Rightarrow> if ok then deliverable ds fr \<and> legit ts (fold run_completion ds fr) else legit ts fr)"

section \<open>What Mercury owes\<close>

definition due :: "call \<Rightarrow> nat" where
  "due x = (if fc_handle x then 1 else 0) + (if fc_cancel_handle x then 1 else 0)"

definition owed :: "front \<Rightarrow> nat" where
  "owed fr = sum_list (map due (fr_calls fr)) + length (fr_kv fr)"

lemma frame_owed: "frame fr fr' \<Longrightarrow> fr_calls fr' = fr_calls fr \<and> fr_kv fr' = fr_kv fr"
  by (simp add: frame_def)

lemma release_call_tables [simp]: "fr_calls (release_call x fr) = fr_calls fr" "fr_kv (release_call x fr) = fr_kv fr"
  using frame_owed [OF release_call_frame [of x fr]] by (simp_all add: log_front_def)

lemma try_complete_tables:
  "fr_kv (nkvx_call_try_complete y fr) = fr_kv fr"
  "fr_calls (nkvx_call_try_complete y fr) =
    (if fc_cancelling y \<and> fc_forward_done y \<and> fc_cancel_acked y then filter (\<lambda>z. fc_call_id z \<noteq> fc_call_id y) (fr_calls fr)
     else map (\<lambda>z. if fc_call_id z = fc_call_id y then y else z) (fr_calls fr))"
  by (auto simp: nkvx_call_try_complete_def put_call_def free_call_def detach_def log_front_def Let_def)

text \<open>A call whose context is replaced by one due less, or freed.\<close>

lemma owed_less:
  assumes "fr_calls fr = us @ x # vs" "\<forall>y \<in> set us \<union> set vs. fc_call_id y \<noteq> fc_call_id x" "fr_kv fr' = fr_kv fr" "0 < due x"
    and "fr_calls fr' = filter (\<lambda>z. fc_call_id z \<noteq> fc_call_id x) (fr_calls fr)
      \<or> fr_calls fr' = map (\<lambda>z. if fc_call_id z = fc_call_id x then y else z) (fr_calls fr) \<and> due y < due x"
  shows "owed fr' < owed fr"
proof -
  have "fr_calls fr' = us @ vs \<or> fr_calls fr' = us @ y # vs \<and> due y < due x"
    using assms(1,2,5) by (auto simp: filter_other map_other)
  then show ?thesis using assms(1,3,4) by (auto simp: owed_def)
qed

lemma completion_owed:
  assumes inv: "front_inv fr" and o: "outstanding fr d"
  shows "owed (run_completion d fr) < owed fr"
proof -
  have forward: "owed (nkvx_front_forward_cb ret out x fr) < owed fr" if m: "x \<in> set (fr_calls fr)" "fc_handle x" for x ret out
  proof -
    obtain us vs where sp: "fr_calls fr = us @ x # vs" "\<forall>y \<in> set us \<union> set vs. fc_call_id y \<noteq> fc_call_id x"
      using keyed_split [OF proto_invD(1) [OF front_invD(1) [OF inv]] m(1)] by blast
    show ?thesis
      by (rule owed_less [OF sp, where y = "x\<lparr>fc_forward_done := True, fc_handle := False\<rparr>"])
        (use m(2) in \<open>auto simp: nkvx_front_forward_cb_def try_complete_tables due_def free_call_def detach_def log_front_def Let_def
          split: prod.splits\<close>)
  qed
  have ack: "owed (nkvx_cancel_ack_cb x fr) < owed fr" if m: "x \<in> set (fr_calls fr)" "fc_cancel_handle x" for x
  proof -
    obtain us vs where sp: "fr_calls fr = us @ x # vs" "\<forall>y \<in> set us \<union> set vs. fc_call_id y \<noteq> fc_call_id x"
      using keyed_split [OF proto_invD(1) [OF front_invD(1) [OF inv]] m(1)] by blast
    show ?thesis
      by (rule owed_less [OF sp, where y = "x\<lparr>fc_cancel_handle := False, fc_cancel_acked := True\<rparr>"])
        (use m(2) in \<open>auto simp: nkvx_cancel_ack_cb_def try_complete_tables due_def log_front_def\<close>)
  qed
  show ?thesis
  proof (cases d)
    case (Done_kv c ret out)
    then obtain k where k: "find (\<lambda>x. vc_id x = c) (fr_kv fr) = Some k"
      using o by (cases "find (\<lambda>x. vc_id x = c) (fr_kv fr)") (auto simp: find_None_iff)
    obtain st len inl where r: "kv_result ret out = (st, len, inl)" by (cases "kv_result ret out") auto
    let ?mid = "nkvx_bulk_release (vc_result_sink k) (nkvx_bulk_release (vc_value_bulk k) (log_front [Fe_kv_tenant (vc_id k) st len inl] fr))"
    have "frame (log_front [Fe_kv_tenant (vc_id k) st len inl] fr) ?mid" using frame_release frame_trans by blast
    then have "fr_calls ?mid = fr_calls fr" "fr_kv ?mid = fr_kv fr" by (simp_all add: frame_def log_front_def)
    moreover have "length (filter (\<lambda>y. vc_id y \<noteq> vc_id k) (fr_kv fr)) < length (fr_kv fr)"
      using find_mem [OF k] by (intro length_filter_less) auto
    ultimately show ?thesis using k by (simp add: run_completion_def Done_kv nkvx_kv_forward_cb_def r owed_def Let_def)
  qed (use o get_call_mem [OF inv] forward ack in \<open>auto simp: run_completion_def\<close>)
qed

lemma in_flight_owed:
  assumes "front_inv fr" "nkvx_front_outstanding fr > 0"
  shows "owed fr > 0"
proof -
  note p = front_invD(1) [OF assms(1)]
  have "fr_calls fr \<noteq> []" using assms(2) proto_invD(2,3) [OF p] by (auto simp: nkvx_front_outstanding_def)
  then obtain x where x: "x \<in> set (fr_calls fr)" by (meson list.set_sel(1))
  then have "due x > 0" using proto_invD(4) [OF p x] by (auto simp: call_ok_def due_def)
  then show ?thesis using x by (auto simp: owed_def sum_list_eq_0_iff)
qed

lemma deliver_inv:
  "front_inv fr \<Longrightarrow> deliverable ds fr \<Longrightarrow> front_inv (fold run_completion ds fr) \<and> owed (fold run_completion ds fr) + length ds \<le> owed fr"
proof (induction ds arbitrary: fr)
  case (Cons d ds)
  then show ?case using Cons.IH [OF completion_inv [OF Cons.prems(1)]] completion_owed [OF Cons.prems(1), of d] by force
qed simp

section \<open>The drain\<close>

lemma drain_inv: "front_inv fr \<Longrightarrow> legit ts fr \<Longrightarrow> drain_loop ts fr = Some fr' \<Longrightarrow> front_inv fr'"
proof (induction ts arbitrary: fr)
  case (Cons t ts)
  obtain ok ds dr where t: "t = (ok, ds, dr)" by (cases t) auto
  show ?case using Cons deliver_inv [OF Cons.prems(1), of ds]
    by (auto simp: t nkvx_front_progress_def Let_def split: if_splits)
qed (simp split: if_splits)

lemma drain_ends:
  assumes "front_inv fr" "legit ts fr" "\<forall>(ok, ds, dr) \<in> set ts. ok \<and> dr" "owed fr \<le> length (filter (\<lambda>(ok, ds, dr). ds \<noteq> []) ts)"
  shows "\<exists>fr'. drain_loop ts fr = Some fr' \<and> nkvx_front_outstanding fr' = 0"
  using assms
proof (induction ts arbitrary: fr)
  case Nil
  then show ?case using in_flight_owed [OF Nil(1)] by auto
next
  case (Cons t ts)
  obtain ds where t: "t = (True, ds, True)" using Cons.prems(3) by (cases t) auto
  have d: "front_inv (fold run_completion ds fr)" "owed (fold run_completion ds fr) + length ds \<le> owed fr"
    using deliver_inv [OF Cons.prems(1), of ds] Cons.prems(2) by (auto simp: t)
  then have "owed (fold run_completion ds fr) \<le> length (filter (\<lambda>(ok, ds, dr). ds \<noteq> []) ts)"
    using Cons.prems(4) by (cases ds) (auto simp: t)
  then show ?case using Cons.IH [OF d(1)] Cons.prems(2,3) by (auto simp: t nkvx_front_progress_def)
qed

section \<open>Teardown\<close>

lemma fini_effect:
  "fr_bulks (nkvx_front_fini fr) = filter (\<lambda>h. h \<notin> set (cached (fr_bulk_cache fr))) (fr_bulks fr)"
  "fr_log (nkvx_front_fini fr) = fr_log fr @ map Fe_bulk_free (cached (fr_bulk_cache fr))"
  "fr_inflight (nkvx_front_fini fr) = fr_inflight fr" "fr_kv (nkvx_front_fini fr) = fr_kv fr"
proof -
  have "fr_bulks (fold free_cached es q) = filter (\<lambda>h. h \<notin> set (cached es)) (fr_bulks q)
      \<and> fr_log (fold free_cached es q) = fr_log q @ map Fe_bulk_free (cached es)
      \<and> fr_inflight (fold free_cached es q) = fr_inflight q \<and> fr_kv (fold free_cached es q) = fr_kv q" for es q
    by (induction es arbitrary: q)
      (auto simp: free_cached_def bulk_unregister_def log_front_def conj_commute split: option.splits)
  then show "fr_bulks (nkvx_front_fini fr) = filter (\<lambda>h. h \<notin> set (cached (fr_bulk_cache fr))) (fr_bulks fr)"
    "fr_log (nkvx_front_fini fr) = fr_log fr @ map Fe_bulk_free (cached (fr_bulk_cache fr))"
    "fr_inflight (nkvx_front_fini fr) = fr_inflight fr" "fr_kv (nkvx_front_fini fr) = fr_kv fr"
    by (simp_all add: nkvx_front_fini_def)
qed

lemma idle_held:
  assumes "front_inv fr" "fr_inflight fr = []" "fr_kv fr = []"
  shows "held fr = {#}"
proof -
  have "call_bulks x = {#}" if x: "x \<in> set (fr_calls fr)" for x
  proof -
    have "fc_detached x" using proto_invD(2) [OF front_invD(1) [OF assms(1)]] assms(2) x by (auto simp: filter_empty_conv)
    then show ?thesis using proto_invD(4) [OF front_invD(1) [OF assms(1)] x] by (auto simp: call_ok_def call_bulks_def)
  qed
  moreover have "(\<And>x. x \<in> set xs \<Longrightarrow> call_bulks x = {#}) \<Longrightarrow> sum_list (map call_bulks xs) = {#}" for xs
    by (induction xs) simp_all
  ultimately show ?thesis using assms(3) by (simp add: held_def)
qed

lemma teardown_split:
  assumes "front_inv fr" "legit ts (nkvx_front_cancel_all env fr)" "kvrados_destroy_channel_cb env ts fr = Some fr'"
  obtains q where "front_inv q" "fr_inflight q = []" "fr' = nkvx_front_fini q"
proof -
  obtain fr1 where d: "drain_loop ts (nkvx_front_cancel_all env fr) = Some fr1"
    "fr' = nkvx_front_fini (if nkvx_front_outstanding fr1 > 0 then nkvx_front_fail_all_pending IO_FAILED fr1 else fr1)"
    using assms(3) by (auto simp: kvrados_destroy_channel_cb_def Let_def split: option.splits)
  have inv: "front_inv fr1"
    using drain_inv [OF _ assms(2) d(1)] cancel_all_inv [OF assms(1)] by (simp add: nkvx_front_cancel_all_def)
  show thesis
  proof (cases "nkvx_front_outstanding fr1 > 0")
    case True
    then show ?thesis using that [OF fail_all_inv [OF inv, of IO_FAILED]] d(2) by simp
  next
    case False
    then have "fr_inflight fr1 = []" using proto_invD(3) [OF front_invD(1) [OF inv]] by (simp add: nkvx_front_outstanding_def)
    then show ?thesis using that [OF inv] d(2) False by simp
  qed
qed

section \<open>The channel's guarantees\<close>



text \<open>
  The drain is not bounded. With an Exec in flight after the cancels, any number of progress calls
  that time out without a completion leaves the teardown waiting: a silent executor is waited for as
  long as Mercury itself reports no error.
\<close>

theorem drain_unbounded:
  assumes "nkvx_front_outstanding (nkvx_front_cancel_all env fr) > 0"
  shows "kvrados_destroy_channel_cb env (replicate n (True, [], True)) fr = None"
proof -
  have "drain_loop (replicate n (True, [], True)) q = None" if "nkvx_front_outstanding q > 0" for q
    using that by (induction n) (simp_all add: nkvx_front_progress_def)
  then show ?thesis using assms by (simp add: kvrados_destroy_channel_cb_def)
qed

section \<open>A teardown\<close>

definition teardown_turns :: "turn list" where
  "teardown_turns = [(True, [], True), (True, [Done_forward 1 HG_CANCELED None], True), (True, [Done_cancel 1], True)]"

lemma cancel_all_sent: "nkvx_front_cancel_all front_env_ex front_sent = snd (nkvx_front_cancel front_env_ex 1 front_sent)"
  by (simp add: nkvx_front_cancel_all_def nkvx_front_cancel_def front_sent_eval)

lemma teardown_legit: "legit teardown_turns (nkvx_front_cancel_all front_env_ex front_sent)"
proof -
  have "outstanding (snd (nkvx_front_cancel front_env_ex 1 front_sent)) (Done_forward 1 HG_CANCELED None)"
    by (simp add: front_cancel_eval call_ex_def new_call_def log_front_def del: One_nat_def)
  moreover have "outstanding front_cancelled (Done_cancel 1)"
    by (simp add: front_cancelled_eval call_ex_def new_call_def log_front_def)
  ultimately show ?thesis
    by (simp add: teardown_turns_def cancel_all_sent front_cancelled_def [symmetric] del: outstanding.simps One_nat_def)
qed



theorem drain_unbounded_witness:
  "kvrados_destroy_channel_cb front_env_ex (replicate 1000000 (True, [], True)) front_sent = None"
  by (rule drain_unbounded) (simp add: cancel_all_sent front_cancel_eval nkvx_front_outstanding_def log_front_def front_sent_eval del: One_nat_def)

end
