(* ===== verification/EndToEnd.thy ===== *)
theory EndToEnd
  imports FrontBridge ExecRun
begin

text \<open>
  The KV path as one composition: a request the bdev forwards goes through the bridge and the front
  client, over the wire, through the service into the executor, and the answer comes back the same
  way to the tenant's completion. Every hop is the component's own definition; what is composed here
  is one request alone in the system, with no transfer but the wire.
\<close>

section \<open>The wire\<close>

text \<open>The structure a decoder fills is zeroed by the service and by the front.\<close>

definition zero_kv_in :: "nat kv_in" where
  "zero_kv_in = \<lparr>ki_verb = 0, ki_read_only = 0, ki_client_call_id = 0, ki_key_len = 0, ki_key = replicate exec_key_max_len 0,
     ki_osize = 0, ki_store_flags = 0, ki_value_len = 0, ki_value_inline = None, ki_value_bulk = None, ki_result_sink = None\<rparr>"

definition zero_kv_out :: kv_out where
  "zero_kv_out = \<lparr>ko_status = 0, ko_result_len = 0, ko_result_inline_len = 0, ko_result_inline = None\<rparr>"

definition wire_kv_in :: "nat hg_prims \<Rightarrow> nat kv_in \<Rightarrow> nat kv_in option" where
  "wire_kv_in P i =
    (case hg_proc_nkvx_kv_in_t P HG_ENCODE i [] of
       Inl _ \<Rightarrow> None
     | Inr (_, bs) \<Rightarrow> (case hg_proc_nkvx_kv_in_t P HG_DECODE zero_kv_in bs of Inl _ \<Rightarrow> None | Inr (i', _) \<Rightarrow> Some i'))"

definition wire_kv_out :: "nat hg_prims \<Rightarrow> kv_out \<Rightarrow> kv_out option" where
  "wire_kv_out P out =
    (case hg_proc_nkvx_kv_out_t P HG_ENCODE out [] of
       Inl _ \<Rightarrow> None
     | Inr (_, bs) \<Rightarrow> (case hg_proc_nkvx_kv_out_t P HG_DECODE zero_kv_out bs of Inl _ \<Rightarrow> None | Inr (o', _) \<Rightarrow> Some o'))"

section \<open>The composition\<close>

definition idle_service :: "'s \<Rightarrow> ('s, nat) service" where
  "idle_service ex = \<lparr>sv_inflight = [], sv_kv = [], sv_executor = Some ex, sv_push_stall = 0, sv_pull_stall = 0, sv_log = []\<rparr>"

fun sent_kv :: "front_event list \<Rightarrow> nat kv_in option" where
  "sent_kv [] = None"
| "sent_kv (Fe_kv_sent c i # es) = Some i"
| "sent_kv (e # es) = sent_kv es"

fun answered_kv :: "svc_event list \<Rightarrow> kv_out option" where
  "answered_kv [] = None"
| "answered_kv (Ev_kv_respond h out # es) = Some out"
| "answered_kv (e # es) = answered_kv es"

fun tenant_kv :: "front_event list \<Rightarrow> (io_status \<times> nat \<times> bytes option) option" where
  "tenant_kv [] = None"
| "tenant_kv (Fe_kv_tenant c st len inl # es) = Some (st, len, inl)"
| "tenant_kv (e # es) = tenant_kv es"

definition kv_path :: "nat hg_prims \<Rightarrow> front_env \<Rightarrow> hg \<Rightarrow> ('s, nat) backend \<Rightarrow> kv_request \<Rightarrow> 's \<Rightarrow> ((io_status \<times> nat \<times> bytes) \<times> 's) option" where
  "kv_path P fenv hg bk req ex =
    (let va = (case req of Req_Retrieve _ _ sk \<Rightarrow> map_option (\<lambda>_. 0) (sk_addr sk) | _ \<Rightarrow> None);
         fr = snd (bridge_kv fenv req va 0 front_zero) in
     Option.bind (sent_kv (fr_log fr)) (\<lambda>i.
     Option.bind (wire_kv_in P i) (\<lambda>i'.
       let s = nkvx_kv_handler hg bk 0 (Some i') (idle_service ex) in
       Option.bind (answered_kv (sv_log s)) (\<lambda>out.
       Option.bind (wire_kv_out P out) (\<lambda>out'.
         let fr' = run_completion (Done_kv 0 HG_SUCCESS (Some out')) fr in
         Option.bind (tenant_kv (fr_log fr')) (\<lambda>(st, len, inl).
         Option.bind (sv_executor s) (\<lambda>ex'. Some (kvdev_rados_nkvx_front_done (bridge_ctx req 0) st len inl, ex'))))))))"

text \<open>The request structure of a forwarded request, and what the tenant is owed for it.\<close>

definition request_in :: "kv_request \<Rightarrow> nat kv_in" where
  "request_in req =
    (case req of
       Req_Retrieve key ro sk \<Rightarrow> kv_request_in (verb_code VERB_RETRIEVE) ro key (sk_len sk) 0 None 0
     | Req_Store key ro flags value len \<Rightarrow> kv_request_in (verb_code VERB_STORE) ro key 0 flags (if len > 0 then value else None) len
     | Req_Delete key ro \<Rightarrow> kv_request_in (verb_code VERB_DELETE) ro key 0 0 None 0
     | Req_Exist key ro \<Rightarrow> kv_request_in (verb_code VERB_EXIST) ro key 0 0 None 0
     | _ \<Rightarrow> kv_request_in (verb_code VERB_LIST) True [] 0 0 None 0)"

definition request_ok :: "kv_request \<Rightarrow> bool" where
  "request_ok req =
    (case req of
       Req_Retrieve key ro sk \<Rightarrow> key_ok key \<and> sk_len sk < 2 ^ 32 \<and> (sk_addr sk = None \<longrightarrow> sk_len sk = 0)
     | Req_Store key ro flags value len \<Rightarrow> key_ok key \<and> flags < 2 ^ 8 \<and> len \<le> nkvx_inline_max
         \<and> (case value of None \<Rightarrow> len = 0 | Some v \<Rightarrow> len = length v)
         \<and> \<not> (has_flag flags store_flag_sinke \<and> has_flag flags store_flag_sike)
     | Req_Delete key ro \<Rightarrow> key_ok key
     | Req_Exist key ro \<Rightarrow> key_ok key
     | _ \<Rightarrow> False)"

definition front_env_ok :: "front_env \<Rightarrow> bool" where
  "front_env_ok env = (fv_calloc env \<and> (\<forall>m. fv_bulk_create env m) \<and> fv_create env \<and> fv_forward env)"

section \<open>Each hop\<close>

lemma wire_in_id:
  assumes "hg_prims_ok P" "kv_in_wf i" "ki_key i = pad_key k" "ki_key_len i = length k"
  shows "wire_kv_in P i = Some i"
proof -
  obtain bs where "\<forall>s. hg_proc_nkvx_kv_in_t P HG_ENCODE i s = Inr (i, s @ bs)"
    "\<forall>z r. hg_proc_nkvx_kv_in_t P HG_DECODE z (bs @ r) = Inr (i\<lparr>ki_key := memcpy_at 0 (take (ki_key_len i) (ki_key i)) (ki_key z)\<rparr>, r)"
    using kv_in_encoder [OF assms(1,2)] by blast
  note e = this(1) [rule_format, of "[]"] and d = this(2) [rule_format, of zero_kv_in "[]"]
  have "memcpy_at 0 (take (ki_key_len i) (ki_key i)) (ki_key zero_kv_in) = ki_key i"
    unfolding assms(3,4) take_pad_key by (simp add: zero_kv_in_def pad_key_def)
  then show ?thesis using e d by (simp add: wire_kv_in_def)
qed

lemma wire_out_id:
  assumes "hg_prims_ok P" "kv_out_wf out"
  shows "wire_kv_out P out = Some out"
proof -
  obtain enc where enc: "hg_encodes (hg_proc_nkvx_kv_out_t P) kv_out_wf enc"
    by (rule hg_field_okE [OF kv_out_encoder [OF assms(1)]])
  show ?thesis using hg_encodesD(1) [OF enc assms(2), of "[]"] hg_encodesD(2) [OF enc assms(2), of zero_kv_out "[]"] by (simp add: wire_kv_out_def)
qed

lemma fresh_bulk_log:
  assumes "front_env_ok env"
  obtains b fr' where "fresh_bulk env mode wanted fr = (Inr b, fr')" "fr_log fr' = fr_log fr" "fr_kv fr' = fr_kv fr" "fr_next_kv fr' = fr_next_kv fr"
    "\<not> wanted \<longrightarrow> b = None"
  using assms by (cases wanted) (auto simp: fresh_bulk_def front_env_ok_def bulk_register_def)

lemma kv_forward_sends:
  assumes "front_env_ok env" "ki_value_len i \<le> nkvx_inline_max" "ki_value_bulk i = None" "fr = front_zero"
  obtains sk fr' where "nkvx_front_kv_forward env i sink len arg fr = (None, fr')" "fr_log fr' = [Fe_kv_sent 0 (i\<lparr>ki_result_sink := sk\<rparr>)]"
    "fr_kv fr' = [\<lparr>vc_id = 0, vc_arg = arg, vc_value_bulk = None, vc_result_sink = sk\<rparr>]"
proof -
  obtain sk fr2 where f: "fresh_bulk env HG_BULK_WRITE_ONLY (sink \<noteq> None \<and> len > nkvx_inline_max) front_zero = (Inr sk, fr2)"
    "fr_log fr2 = fr_log front_zero" "fr_kv fr2 = fr_kv front_zero" "fr_next_kv fr2 = fr_next_kv front_zero"
    using fresh_bulk_log [OF assms(1)] by metis
  have g: "fresh_bulk env HG_BULK_READ_ONLY False front_zero = (Inr None, front_zero)" by (simp add: fresh_bulk_def)
  have i: "i\<lparr>ki_value_bulk := None, ki_result_sink := sk\<rparr> = i\<lparr>ki_result_sink := sk\<rparr>" using assms(3) by simp
  have n: "\<not> ki_value_len i > nkvx_inline_max" using assms(2) by simp
  show ?thesis
    by (rule that [of "log_front [Fe_kv_sent 0 (i\<lparr>ki_result_sink := sk\<rparr>)]
        (fr2\<lparr>fr_kv := [\<lparr>vc_id = 0, vc_arg = arg, vc_value_bulk = None, vc_result_sink = sk\<rparr>], fr_next_kv := 1\<rparr>)" sk])
      (use assms(1,4) n f g i in \<open>simp_all add: nkvx_front_kv_forward_def front_env_ok_def log_front_def front_zero_def Let_def\<close>)
qed

lemma request_sends:
  assumes "front_env_ok env" "request_ok req"
  obtains sk fr where "snd (bridge_kv env req va arg front_zero) = fr"
    "fr_log fr = [Fe_kv_sent 0 ((request_in req)\<lparr>ki_result_sink := sk\<rparr>)]"
    "fr_kv fr = [\<lparr>vc_id = 0, vc_arg = arg, vc_value_bulk = None, vc_result_sink = sk\<rparr>]"
proof -
  have k: "\<exists>sink len. bridge_kv env req va arg front_zero = nkvx_front_kv_forward env (request_in req) sink len arg front_zero"
    using assms
    by (cases req) (auto simp: request_ok_def bridge_kv_def request_in_def front_env_ok_def key_ok_def kvdev_rados_nkvx_front_retrieve_def
        kvdev_rados_nkvx_front_store_def kvdev_rados_nkvx_front_delete_def kvdev_rados_nkvx_front_exist_def kvdev_rados_nkvx_front_status_only_def)
  have "ki_value_len (request_in req) \<le> nkvx_inline_max" "ki_value_bulk (request_in req) = None"
    using assms(2) by (cases req; auto simp: request_ok_def request_in_def kv_request_in_def)+
  then show ?thesis using k kv_forward_sends [OF assms(1) _ _ refl, of "request_in req"] that by (metis snd_conv)
qed

text \<open>The answer of the service, when the result fits the response.\<close>

definition kv_answer :: "exec_result \<Rightarrow> kv_out" where
  "kv_answer res = \<lparr>ko_status = nkvx_status_to_wire (status_code (er_status res)), ko_result_len = er_result_len res,
     ko_result_inline_len = buf_len res, ko_result_inline = er_buf res\<rparr>"

lemma service_answers:
  assumes "hg_alloc hg 0" "ki_value_bulk i = None" "bk_kv bk ex i = (res, ex')" "buf_len res \<le> nkvx_inline_max"
  shows "answered_kv (sv_log (nkvx_kv_handler hg bk 0 (Some i) (idle_service ex))) = Some (kv_answer res)"
    "sv_executor (nkvx_kv_handler hg bk 0 (Some i) (idle_service ex)) = Some ex'"
  using assms by (simp_all add: nkvx_kv_handler_def idle_service_def new_kv_req_def nkvx_kv_run_and_deliver_def
      nkvx_kv_req_finish_def emit_def kv_answer_def Let_def)

lemma completion_reaches_tenant:
  assumes "fr_log fr = [Fe_kv_sent 0 i]" "fr_kv fr = [k]" "vc_id k = 0" "kv_result HG_SUCCESS (Some out) = (st, len, inl)"
  shows "tenant_kv (fr_log (run_completion (Done_kv 0 HG_SUCCESS (Some out)) fr)) = Some (st, len, inl)"
proof -
  let ?fr1 = "log_front [Fe_kv_tenant 0 st len inl] fr"
  have rel: "\<exists>es. fr_log (nkvx_bulk_release b q) = fr_log q @ es" for b q
    by (auto simp: nkvx_bulk_release_def bulk_unregister_def log_front_def split: option.splits)
  obtain es where "fr_log (nkvx_bulk_release (vc_result_sink k) (nkvx_bulk_release (vc_value_bulk k) ?fr1)) = fr_log ?fr1 @ es"
    using rel [of "vc_value_bulk k" ?fr1] rel [of "vc_result_sink k" "nkvx_bulk_release (vc_value_bulk k) ?fr1"] by auto
  then show ?thesis using assms by (simp add: run_completion_def nkvx_kv_forward_cb_def log_front_def Let_def)
qed

section \<open>What the abstract executor returns\<close>

lemma result_set_wf:
  assumes "len < 2 ^ 32" "deliver \<le> length src" "length src < 2 ^ 32 \<or> deliver < 2 ^ 32"
  shows "er_result_len (nkvx_result_set True st len src deliver) < 2 ^ 32
    \<and> inline_wf (er_buf (nkvx_result_set True st len src deliver)) (buf_len (nkvx_result_set True st len src deliver))"
  using assms by (auto simp: nkvx_result_set_def buf_len_def inline_wf_def)

lemma kv_spec_wf:
  assumes "kv_spec i m = (res, m')"
  shows "er_result_len res < 2 ^ 32 \<and> inline_wf (er_buf res) (buf_len res)"
proof -
  have p: "er_result_len (plain_result st) < 2 ^ 32 \<and> inline_wf (er_buf (plain_result st)) (buf_len (plain_result st))" for st
    using result_set_wf [of 0 0 "[]" st] by (simp add: plain_result_def)
  have c: "clamp_u32 n < 2 ^ 32" "clamp_u32 n \<le> n" for n by (simp_all add: clamp_u32_def uint32_max_def)
  have s: "er_result_len (serve_bytes True v n) < 2 ^ 32 \<and> inline_wf (er_buf (serve_bytes True v n)) (buf_len (serve_bytes True v n))" for v n
    unfolding serve_bytes_def Let_def using c [of "length v"] by (intro result_set_wf) auto
  have x: "er_result_len (nkvx_result_set True st (clamp_u32 n) [] 0) < 2 ^ 32
      \<and> inline_wf (er_buf (nkvx_result_set True st (clamp_u32 n) [] 0)) (buf_len (nkvx_result_set True st (clamp_u32 n) [] 0))" for st n
    using c by (intro result_set_wf) auto
  show ?thesis
    using assms p s x by (auto simp: kv_spec_def Let_def apfst_def map_prod_def split: if_splits option.splits prod.splits)
qed

lemma kv_spec_sink: "kv_spec (i\<lparr>ki_result_sink := sk\<rparr>) m = kv_spec i m"
proof -
  let ?i = "i\<lparr>ki_result_sink := sk\<rparr>"
  have f: "ki_key ?i = ki_key i" "ki_key_len ?i = ki_key_len i" "ki_verb ?i = ki_verb i" "ki_osize ?i = ki_osize i"
    "ki_read_only ?i = ki_read_only i" "ki_value_inline ?i = ki_value_inline i" "ki_value_len ?i = ki_value_len i"
    "ki_store_flags ?i = ki_store_flags i" by simp_all
  show ?thesis unfolding kv_spec_def f by (rule refl)
qed

lemma request_wf:
  assumes "request_ok req"
  shows "kv_in_wf ((request_in req)\<lparr>ki_result_sink := sk\<rparr>)" "kv_call_ok ((request_in req)\<lparr>ki_result_sink := sk\<rparr>)"
    "kv_key_ok ((request_in req)\<lparr>ki_result_sink := sk\<rparr>)" "ki_verb (request_in req) \<noteq> verb_code VERB_LIST"
    "\<exists>k. ki_key (request_in req) = pad_key k \<and> ki_key_len (request_in req) = length k" "ki_value_bulk (request_in req) = None"
  using assms
  by (cases req; auto simp: request_ok_def request_in_def kv_request_in_def kv_in_wf_def kv_call_ok_def kv_key_ok_def key_ok_def
      has_flag_def inline_wf_def nkvx_inline_max_def exec_key_max_len_def split: option.splits)+

lemma delivered_bytes:
  assumes "request_ok req" "kv_spec (request_in req) m = (res, m')"
  shows "kvdev_rados_nkvx_front_done (bridge_ctx req 0) st len (er_buf res) = (st, len, case er_buf res of None \<Rightarrow> [] | Some b \<Rightarrow> b)"
proof (cases req)
  case (Req_Retrieve key ro sk)
  have "length b \<le> sk_len sk" if "er_buf res = Some b" for b
    using assms that
    by (auto simp: Req_Retrieve request_in_def kv_request_in_def kv_spec_def plain_result_def serve_bytes_def nkvx_result_set_def Let_def
        split: if_splits option.splits)
  then show ?thesis using assms(1)
    by (auto simp: Req_Retrieve kvdev_rados_nkvx_front_done_def bridge_ctx_def request_ok_def split: option.splits)
next
  case (Req_Store key ro flags val vlen)
  then show ?thesis using assms
    by (auto simp: request_in_def kv_request_in_def kv_spec_def plain_result_def nkvx_result_set_def
        kvdev_rados_nkvx_front_done_def bridge_ctx_def Let_def apfst_def map_prod_def split: if_splits option.splits prod.splits)
next
  case (Req_Delete key ro)
  then show ?thesis using assms
    by (auto simp: request_in_def kv_request_in_def kv_spec_def plain_result_def nkvx_result_set_def
        kvdev_rados_nkvx_front_done_def bridge_ctx_def Let_def split: if_splits option.splits)
next
  case (Req_Exist key ro)
  then show ?thesis using assms
    by (auto simp: request_in_def kv_request_in_def kv_spec_def plain_result_def nkvx_result_set_def
        kvdev_rados_nkvx_front_done_def bridge_ctx_def Let_def split: if_splits option.splits)
qed (use assms(1) in \<open>simp_all add: request_ok_def\<close>)

section \<open>The path implements the map\<close>

lemma kv_path_spec:
  assumes "hg_prims_ok P" "rados_ok rd view" "exec_inv view ex" "ee_alloc env" "bk_kv bk = nkvx_executor_kv env rd"
    and "front_env_ok fenv" "hg_alloc hg 0" "request_ok req"
    and "kv_spec (request_in req) (view (ex_rados ex)) = (res, m')" "buf_len res \<le> nkvx_inline_max"
  shows "\<exists>ex'. kv_path P fenv hg bk req ex
      = Some ((er_status res, er_result_len res, case er_buf res of None \<Rightarrow> [] | Some b \<Rightarrow> b), ex')
    \<and> view (ex_rados ex') = m' \<and> exec_inv view ex'"
proof -
  define va where "va = (case req of Req_Retrieve _ _ sk \<Rightarrow> map_option (\<lambda>_. 0 :: nat) (sk_addr sk) | _ \<Rightarrow> None)"
  obtain sk fr where fr: "snd (bridge_kv fenv req va 0 front_zero) = fr" "fr_log fr = [Fe_kv_sent 0 ((request_in req)\<lparr>ki_result_sink := sk\<rparr>)]"
    "fr_kv fr = [\<lparr>vc_id = 0, vc_arg = 0, vc_value_bulk = None, vc_result_sink = sk\<rparr>]"
    using request_sends [OF assms(6,8)] by metis
  let ?i = "(request_in req)\<lparr>ki_result_sink := sk\<rparr>"
  obtain res' ex' where run: "nkvx_executor_kv env rd ex ?i = (res', ex')" by fastforce
  have "ki_verb ?i \<noteq> verb_code VERB_LIST" using request_wf(4) [OF assms(8)] by simp
  from kv_refines [OF assms(2-4) request_wf(2,3) [OF assms(8)] this run] assms(9)
  have ex': "exec_inv view ex'" "res' = res" "view (ex_rados ex') = m'" by (auto simp: kv_spec_sink)
  obtain k where "ki_key ?i = pad_key k" "ki_key_len ?i = length k" using request_wf(5) [OF assms(8)] by auto
  then have w: "wire_kv_in P ?i = Some ?i" using wire_in_id [OF assms(1) request_wf(1) [OF assms(8)]] by blast
  have vb: "ki_value_bulk ?i = None" using request_wf(6) [OF assms(8)] by simp
  note sv = service_answers [OF assms(7) vb _ assms(10), of bk ex ex']
  have "kv_out_wf (kv_answer res)"
    using kv_spec_wf [OF assms(9)] status_code_range [of "er_status res"] by (simp add: kv_out_wf_def kv_answer_def)
  then have wo: "wire_kv_out P (kv_answer res) = Some (kv_answer res)" by (rule wire_out_id [OF assms(1)])
  have buf: "map_option (take (buf_len res)) (er_buf res) = er_buf res" by (cases "er_buf res") (simp_all add: buf_len_def)
  have t: "tenant_kv (fr_log (run_completion (Done_kv 0 HG_SUCCESS (Some (kv_answer res))) fr)) = Some (er_status res, er_result_len res, er_buf res)"
    by (rule completion_reaches_tenant [OF fr(2,3)]) (simp_all add: kv_result_def kv_answer_def buf)
  have "kv_path P fenv hg bk req ex = Some (kvdev_rados_nkvx_front_done (bridge_ctx req 0) (er_status res) (er_result_len res) (er_buf res), ex')"
    unfolding kv_path_def Let_def va_def [symmetric] fr(1)
    using fr(2) w sv assms(5) run ex'(2) wo t by simp
  then show ?thesis using ex' delivered_bytes [OF assms(8,9)] by simp
qed

section \<open>A Store and a Retrieve along the path\<close>

lemma store_path:
  assumes "hg_prims_ok P" "rados_ok rd view" "exec_inv view ex" "ee_alloc env" "bk_kv bk = nkvx_executor_kv env rd"
    and "front_env_ok fenv" "hg_alloc hg 0" "key_ok k" "length v \<le> nkvx_inline_max"
  shows "\<exists>ex1. kv_path P fenv hg bk (Req_Store k False 0 (if v = [] then None else Some v) (length v)) ex = Some ((IO_SUCCESS, 0, []), ex1)
    \<and> view (ex_rados ex1) = (view (ex_rados ex))(nkvx_key_to_oid (pad_key k) (length k) \<mapsto> v) \<and> exec_inv view ex1"
proof -
  let ?req = "Req_Store k False 0 (if v = [] then None else Some v) (length v)"
  have ok: "request_ok ?req" using assms(8,9) by (simp add: request_ok_def has_flag_def)
  let ?oid = "nkvx_key_to_oid (pad_key k) (length k)"
  have sp: "kv_spec (request_in ?req) (view (ex_rados ex)) = (plain_result IO_SUCCESS, (view (ex_rados ex))(?oid \<mapsto> v))"
    using assms(8) by (auto simp: kv_spec_def request_in_def kv_request_in_def spec_store_def has_flag_def key_ok_def Let_def)
  have plain: "er_status (plain_result IO_SUCCESS) = IO_SUCCESS" "er_result_len (plain_result IO_SUCCESS) = 0"
    "(case er_buf (plain_result IO_SUCCESS) of None \<Rightarrow> [] | Some b \<Rightarrow> b) = []" "buf_len (plain_result IO_SUCCESS) \<le> nkvx_inline_max"
    by (simp_all add: plain_result_def nkvx_result_set_def buf_len_def)
  show ?thesis using kv_path_spec [OF assms(1-7) ok sp plain(4)] unfolding plain(1-3) by blast
qed

lemma retrieve_path:
  assumes "hg_prims_ok P" "rados_ok rd view" "exec_inv view ex" "ee_alloc env" "bk_kv bk = nkvx_executor_kv env rd"
    and "front_env_ok fenv" "hg_alloc hg 0" "key_ok k" "length v \<le> nkvx_inline_max" "sk_len sk < 2 ^ 32" "sk_addr sk = None \<longrightarrow> sk_len sk = 0"
    and "view (ex_rados ex) (nkvx_key_to_oid (pad_key k) (length k)) = Some v"
  shows "\<exists>ex2. kv_path P fenv hg bk (Req_Retrieve k ro sk) ex
      = Some ((if length v > sk_len sk then IO_BUFFER_TOO_SMALL else IO_SUCCESS, length v, take (sk_len sk) v), ex2)
    \<and> view (ex_rados ex2) = view (ex_rados ex) \<and> exec_inv view ex2"
proof -
  let ?req = "Req_Retrieve k ro sk"
  have ok: "request_ok ?req" using assms(8,10,11) by (simp add: request_ok_def)
  have sp: "kv_spec (request_in ?req) (view (ex_rados ex)) = (serve_bytes True v (sk_len sk), view (ex_rados ex))"
    using assms(8,12) by (auto simp: kv_spec_def request_in_def kv_request_in_def key_ok_def Let_def)
  have cl: "clamp_u32 (length v) = length v" using assms(9) by (simp add: clamp_u32_def uint32_max_def nkvx_inline_max_def)
  have res: "er_status (serve_bytes True v (sk_len sk)) = (if length v > sk_len sk then IO_BUFFER_TOO_SMALL else IO_SUCCESS)"
    "er_result_len (serve_bytes True v (sk_len sk)) = length v"
    "(case er_buf (serve_bytes True v (sk_len sk)) of None \<Rightarrow> [] | Some b \<Rightarrow> b) = take (sk_len sk) v"
    "buf_len (serve_bytes True v (sk_len sk)) \<le> nkvx_inline_max"
    using assms(9) by (auto simp: serve_bytes_def cl nkvx_result_set_def size_status_def buf_len_def min_def Let_def)
  show ?thesis using kv_path_spec [OF assms(1-7) ok sp res(4)] unfolding res(1-3) by blast
qed

section \<open>A concrete system\<close>

definition handle_prims :: "nat hg_prims" where
  "handle_prims = \<lparr>
    hg_u8 = hg_u8 le_prims, hg_u32 = hg_u32 le_prims, hg_u64 = hg_u64 le_prims, hg_i32 = hg_i32 le_prims,
    hg_string = hg_string le_prims,
    hg_bulk = field_of (opt_enc (\<lambda>n. chars_enc (replicate n CHR ''h''))) (opt_dec (\<lambda>s. map_option (\<lambda>(cs, r). (length cs, r)) (chars_dec s))),
    hg_bytes = hg_bytes le_prims, hg_malloc_ok = hg_malloc_ok le_prims\<rparr>"

lemma handle_prims_ok: "hg_prims_ok handle_prims"
proof -
  have "hg_field_ok (hg_bulk handle_prims) (\<lambda>_. True)"
    unfolding handle_prims_def by (auto intro!: field_of_ok opt_dec_enc simp: chars_dec_enc)
  then show ?thesis using le_prims_ok by (simp add: hg_prims_ok_def handle_prims_def)
qed

definition front_env_path :: front_env where
  "front_env_path = \<lparr>fv_calloc = True, fv_bulk_create = \<lambda>_. True, fv_create = True, fv_forward = True,
     fv_cancel_create = \<lambda>_. True, fv_cancel_forward = \<lambda>_. True\<rparr>"

definition hg_path :: hg where
  "hg_path = \<lparr>hg_alloc = \<lambda>_. True, hg_bulk_create = \<lambda>_. True, hg_bulk_transfer = \<lambda>_. True, hg_bulk_cancel = \<lambda>_. True\<rparr>"

definition backend_path :: "(((string \<times> bytes) list, unit) executor, nat) backend" where
  "backend_path = \<lparr>bk_run = \<lambda>s _. (plain_result IO_INVALID, s), bk_kv = nkvx_executor_kv exec_env_ex alist_rados\<rparr>"

lemma executor_ex_inv: "exec_inv map_of executor_ex"
  using exec_sys.reachable_inv [OF executor_ex_session] by (simp add: session_inv_def)

lemmas path_ok = handle_prims_ok alist_rados_ok executor_ex_inv
lemmas path_examples = front_env_path_def hg_path_def backend_path_def exec_env_ex_def front_env_ok_def

section \<open>Properties\<close>




definition store_cmd :: nvme_cmd where
  "store_cmd = (cmd_example KV_STORE)\<lparr>cmd_dont_store_if_exists := False\<rparr>"


end
