(* ===== verification/VfuQueue.thy ===== *)
theory VfuQueue
  imports Bdev
begin

text \<open>
  The vfio-user NVMe driver of the host clients (\<^verbatim>\<open>clients/nvme-kv/kv/vfu_host/nkv_vfu.h\<close>): the queue
  pair with its phase-tagged completion ring, and the scatter lists that describe a DMA buffer in
  blocks that do not cross a 2 MiB region.

  The controller is not part of the program. Its half of a completion queue (the tail and the phase
  it tags entries with) is the record \<open>ctrl\<close>, and it posts as the NVMe specification says: at its
  tail, only while the ring is not full, with a phase that flips at each wrap. The completions it
  posts before a poll's deadline are an argument of the poll.
\<close>

section \<open>Queues\<close>

definition admin_q_entries :: nat where
  "admin_q_entries = 16"

definition io_q_entries :: nat where
  "io_q_entries = 128"

datatype host_opc = Hop_identify | Hop_create_io_cq | Hop_create_io_sq | Hop_kv nvme_opc

text \<open>A data pointer: one data block, or the list of data blocks a last-segment descriptor points at.\<close>

datatype sgl = Sgl_none | Sgl_data_block nat nat | Sgl_last_segment "(nat \<times> nat) list"

record sqe =
  se_opc :: host_opc
  se_nsid :: nat
  se_cid :: nat
  se_prp1 :: nat
  se_sgl :: sgl
  se_cdw10 :: nat
  se_cdw11 :: nat
  se_kl :: nat
  se_ro :: nat
  se_cdw12 :: nat
  se_cdw13 :: nat

definition zero_sqe :: sqe where
  "zero_sqe = \<lparr>se_opc = Hop_kv (OPC_OTHER 0), se_nsid = 0, se_cid = 0, se_prp1 = 0, se_sgl = Sgl_none, se_cdw10 = 0,
     se_cdw11 = 0, se_kl = 0, se_ro = 0, se_cdw12 = 0, se_cdw13 = 0\<rparr>"

text \<open>A completion without its phase bit; the ring holds the two together.\<close>

record cpl =
  cp_cdw0 :: nat
  cp_cid :: nat
  cp_status :: nvme_status

definition zero_cpl :: cpl where
  "zero_cpl = \<lparr>cp_cdw0 = 0, cp_cid = 0, cp_status = (SCT_GENERIC, SC_SUCCESS)\<rparr>"

record nvfu_queue =
  nq_sq :: "sqe list"
  nq_cq :: "(bool \<times> cpl) list"
  nq_sq_iova :: nat
  nq_cq_iova :: nat
  nq_qid :: nat
  nq_depth :: nat
  nq_sq_tail :: nat
  nq_cq_head :: nat
  nq_cq_phase :: bool
  nq_cid :: nat
  nq_sq_db :: nat
  nq_cq_db :: nat

record nvfu_dev =
  nd_doorbells :: "nat \<Rightarrow> nat"
  nd_db_stride :: nat
  nd_admin :: nvfu_queue
  nd_io :: nvfu_queue

record ctrl =
  ct_tail :: nat
  ct_phase :: bool

definition fresh_ctrl :: ctrl where
  "fresh_ctrl = \<lparr>ct_tail = 0, ct_phase = True\<rparr>"

definition nvfu_queue_init_db :: "nvfu_dev \<Rightarrow> nvfu_queue \<Rightarrow> nvfu_queue" where
  "nvfu_queue_init_db d q =
    q\<lparr>nq_sq_db := u32 ((2 * nq_qid q) * nd_db_stride d), nq_cq_db := u32 ((2 * nq_qid q + 1) * nd_db_stride d),
      nq_sq_tail := 0, nq_cq_head := 0, nq_cq_phase := True, nq_cid := 0\<rparr>"

text \<open>The producer of the CPU build: the entry into its slot, then the doorbell.\<close>

definition nvfu_produce :: "nvfu_dev \<Rightarrow> nvfu_queue \<Rightarrow> sqe \<Rightarrow> nat \<Rightarrow> nat \<Rightarrow> nvfu_dev \<times> nvfu_queue" where
  "nvfu_produce d q cmd slot new_tail =
    (d\<lparr>nd_doorbells := (nd_doorbells d)(nq_sq_db q := new_tail)\<rparr>, q\<lparr>nq_sq := (nq_sq q)[slot := cmd]\<rparr>)"

section \<open>The completion ring\<close>

definition cq_full :: "nvfu_queue \<times> ctrl \<Rightarrow> bool" where
  "cq_full s = (case s of (q, c) \<Rightarrow> (ct_tail c + 1) mod nq_depth q = nq_cq_head q)"

definition cq_post :: "cpl \<Rightarrow> nvfu_queue \<times> ctrl \<Rightarrow> nvfu_queue \<times> ctrl" where
  "cq_post e s =
    (case s of (q, c) \<Rightarrow>
      let t = (ct_tail c + 1) mod nq_depth q in
      (q\<lparr>nq_cq := (nq_cq q)[ct_tail c := (ct_phase c, e)]\<rparr>, \<lparr>ct_tail = t, ct_phase = (if t = 0 then \<not> ct_phase c else ct_phase c)\<rparr>))"

text \<open>The host takes the entry at its head when its phase bit is the one the host expects.\<close>

definition cq_take :: "nvfu_queue \<times> ctrl \<Rightarrow> (cpl \<times> nvfu_queue \<times> ctrl) option" where
  "cq_take s =
    (case s of (q, c) \<Rightarrow>
      if fst (nq_cq q ! nq_cq_head q) \<noteq> nq_cq_phase q then None
      else let h = (nq_cq_head q + 1) mod nq_depth q in
        Some (snd (nq_cq q ! nq_cq_head q),
          q\<lparr>nq_cq_head := h, nq_cq_phase := (if h = 0 then \<not> nq_cq_phase q else nq_cq_phase q)\<rparr>, c))"

definition e_timedout :: int where
  "e_timedout = - 110"

text \<open>One command: submit, then poll. \<open>posts\<close> is what the controller posts before the deadline.\<close>

definition nvfu_submit_poll :: "cpl list \<Rightarrow> nvfu_dev \<Rightarrow> nvfu_queue \<Rightarrow> ctrl \<Rightarrow> sqe \<Rightarrow> (int + cpl) \<times> nvfu_dev \<times> nvfu_queue \<times> ctrl" where
  "nvfu_submit_poll posts d q c cmd =
    (let slot = nq_sq_tail q;
         new_tail = (nq_sq_tail q + 1) mod nq_depth q in
     case nvfu_produce d (q\<lparr>nq_cid := u16 (nq_cid q + 1)\<rparr>) (cmd\<lparr>se_cid := nq_cid q\<rparr>) slot new_tail of
       (d1, q1) \<Rightarrow>
         (case fold cq_post posts (q1\<lparr>nq_sq_tail := new_tail\<rparr>, c) of
            (q2, c2) \<Rightarrow>
              (case cq_take (q2, c2) of
                 None \<Rightarrow> (Inl e_timedout, d1, q2, c2)
               | Some (e, q3, c3) \<Rightarrow> (Inr e, d1\<lparr>nd_doorbells := (nd_doorbells d1)(nq_cq_db q3 := nq_cq_head q3)\<rparr>, q3, c3))))"

text \<open>The ring's invariant: the controller's current pass has its phase, the rest the other one.\<close>

definition cq_ok :: "nvfu_queue \<times> ctrl \<Rightarrow> bool" where
  "cq_ok s =
    (case s of (q, c) \<Rightarrow>
      nq_depth q \<ge> 2 \<and> length (nq_cq q) = nq_depth q \<and> length (nq_sq q) = nq_depth q
      \<and> nq_sq_tail q < nq_depth q \<and> nq_cq_head q < nq_depth q \<and> ct_tail c < nq_depth q
      \<and> (\<forall>i < nq_depth q. fst (nq_cq q ! i) = (if i < ct_tail c then ct_phase c else \<not> ct_phase c))
      \<and> nq_cq_phase q = (if nq_cq_head q \<le> ct_tail c then ct_phase c else \<not> ct_phase c))"

text \<open>The completions posted and not yet taken, oldest first.\<close>

definition unread :: "nvfu_queue \<times> ctrl \<Rightarrow> cpl list" where
  "unread s =
    (case s of (q, c) \<Rightarrow>
      map snd (if nq_cq_head q \<le> ct_tail c then drop (nq_cq_head q) (take (ct_tail c) (nq_cq q))
               else drop (nq_cq_head q) (nq_cq q) @ take (ct_tail c) (nq_cq q)))"

lemma cq_post_ok:
  assumes "cq_ok (q, c)" "\<not> cq_full (q, c)"
  shows "cq_ok (cq_post e (q, c))" "unread (cq_post e (q, c)) = unread (q, c) @ [e]"
proof -
  note a = assms [unfolded cq_ok_def cq_full_def prod.case]
  have len: "ct_tail c < length (nq_cq q)" using a by simp
  have "cq_ok (cq_post e (q, c)) \<and> unread (cq_post e (q, c)) = unread (q, c) @ [e]"
  proof (cases "ct_tail c + 1 = nq_depth q")
    case True
    then have h: "nq_cq_head q \<le> ct_tail c" "nq_cq_head q \<noteq> 0" using a by auto
    have p: "fst (((nq_cq q)[ct_tail c := (ct_phase c, e)]) ! i) = ct_phase c" if "i < nq_depth q" for i
      using a that True by (cases "i = ct_tail c") auto
    have "cq_ok (cq_post e (q, c))" using a h True p by (auto simp: cq_ok_def cq_post_def)
    have t: "(ct_tail c + 1) mod nq_depth q = 0" using True by simp
    have "drop (nq_cq_head q) ((nq_cq q)[ct_tail c := (ct_phase c, e)]) = drop (nq_cq_head q) (take (ct_tail c) (nq_cq q)) @ [(ct_phase c, e)]"
      using h(1) a True by (simp add: upd_conv_take_nth_drop)
    then have "unread (cq_post e (q, c)) = unread (q, c) @ [e]" using h t by (simp add: unread_def cq_post_def)
    with \<open>cq_ok (cq_post e (q, c))\<close> show ?thesis by blast
  next
    case False
    then have t: "(ct_tail c + 1) mod nq_depth q = ct_tail c + 1" using a by simp
    then have h: "nq_cq_head q \<noteq> ct_tail c + 1" using a by simp
    have "cq_ok (cq_post e (q, c))"
      using a t h False by (auto simp: cq_ok_def cq_post_def nth_list_update less_Suc_eq)
    have "take (ct_tail c + 1) ((nq_cq q)[ct_tail c := (ct_phase c, e)]) = take (ct_tail c) (nq_cq q) @ [(ct_phase c, e)]"
      using len by (simp add: take_Suc_conv_app_nth)
    moreover have "drop (nq_cq_head q) ((nq_cq q)[ct_tail c := (ct_phase c, e)]) = drop (nq_cq_head q) (nq_cq q)" if "ct_tail c < nq_cq_head q"
      using that by (simp add: drop_update_cancel)
    ultimately have "unread (cq_post e (q, c)) = unread (q, c) @ [e]"
      using a t h by (auto simp: unread_def cq_post_def)
    with \<open>cq_ok (cq_post e (q, c))\<close> show ?thesis by blast
  qed
  then show "cq_ok (cq_post e (q, c))" "unread (cq_post e (q, c)) = unread (q, c) @ [e]" by blast+
qed

lemma cq_take_None:
  assumes "cq_ok (q, c)"
  shows "cq_take (q, c) = None \<longleftrightarrow> nq_cq_head q = ct_tail c"
  using assms by (auto simp: cq_ok_def cq_take_def Let_def split: if_splits)

lemma unread_Nil:
  assumes "cq_ok (q, c)"
  shows "unread (q, c) = [] \<longleftrightarrow> nq_cq_head q = ct_tail c"
  using assms by (auto simp: cq_ok_def unread_def split: if_splits)

lemma cq_take_ok:
  assumes "cq_ok (q, c)" "cq_take (q, c) = Some (e, s')"
  shows "cq_ok s'" "unread (q, c) = e # unread s'"
proof -
  note a = assms(1) [unfolded cq_ok_def prod.case]
  let ?h = "(nq_cq_head q + 1) mod nq_depth q"
  let ?q = "q\<lparr>nq_cq_head := ?h, nq_cq_phase := (if ?h = 0 then \<not> nq_cq_phase q else nq_cq_phase q)\<rparr>"
  have s: "s' = (?q, c)" and e: "e = snd (nq_cq q ! nq_cq_head q)"
    using assms(2) by (auto simp: cq_take_def Let_def split: if_splits)
  have ne: "nq_cq_head q \<noteq> ct_tail c" using assms cq_take_None [OF assms(1)] by auto
  have len: "nq_cq_head q < length (nq_cq q)" using a by simp
  have d: "drop (nq_cq_head q) (nq_cq q) = (nq_cq q ! nq_cq_head q) # drop (Suc (nq_cq_head q)) (nq_cq q)"
    using len by (simp add: Cons_nth_drop_Suc)
  have "cq_ok s' \<and> unread (q, c) = e # unread s'"
  proof (cases "nq_cq_head q + 1 = nq_depth q")
    case True
    then have h: "?h = 0" by simp
    have "cq_ok s'" using a ne True h by (auto simp: s cq_ok_def)
    moreover have "unread (q, c) = e # unread s'" using a ne True h d by (auto simp: s e unread_def)
    ultimately show ?thesis by blast
  next
    case False
    then have h: "?h = nq_cq_head q + 1" using a by simp
    have "cq_ok s'" using a ne h False by (auto simp: s cq_ok_def)
    moreover have "drop (nq_cq_head q) (take (ct_tail c) (nq_cq q)) = (nq_cq q ! nq_cq_head q) # drop (Suc (nq_cq_head q)) (take (ct_tail c) (nq_cq q))"
      if "nq_cq_head q < ct_tail c" using that len a Cons_nth_drop_Suc [of "nq_cq_head q" "take (ct_tail c) (nq_cq q)"] by simp
    then have "unread (q, c) = e # unread s'" using a ne h d by (auto simp: s e unread_def)
    ultimately show ?thesis by blast
  qed
  then show "cq_ok s'" "unread (q, c) = e # unread s'" by blast+
qed

interpretation cq: fifo cq_ok unread cq_full cq_post cq_take
proof
  fix s :: "nvfu_queue \<times> ctrl" and x y s'
  assume ok: "cq_ok s"
  obtain q c where s: "s = (q, c)" by (cases s)
  show "\<not> cq_full s \<Longrightarrow> cq_ok (cq_post x s)" "\<not> cq_full s \<Longrightarrow> unread (cq_post x s) = unread s @ [x]"
    using cq_post_ok ok unfolding s by blast+
  show "cq_take s = None \<longleftrightarrow> unread s = []" using cq_take_None unread_Nil ok unfolding s by blast
  show "cq_take s = Some (y, s') \<Longrightarrow> cq_ok s'" "cq_take s = Some (y, s') \<Longrightarrow> unread s = y # unread s'"
    using cq_take_ok ok unfolding s by blast+
qed

section \<open>Submitting\<close>

text \<open>Posting while there is room.\<close>

primrec posts_fit :: "cpl list \<Rightarrow> nvfu_queue \<times> ctrl \<Rightarrow> bool" where
  "posts_fit [] s = True"
| "posts_fit (e # es) s = (\<not> cq_full s \<and> posts_fit es (cq_post e s))"

lemma posts_ok: "cq_ok s \<Longrightarrow> posts_fit es s \<Longrightarrow> cq_ok (fold cq_post es s) \<and> unread (fold cq_post es s) = unread s @ es"
  by (induction es arbitrary: s) (simp_all add: cq.push_ok cq.push_items)

definition submitted :: "nvfu_queue \<Rightarrow> sqe \<Rightarrow> nvfu_queue" where
  "submitted q cmd = q\<lparr>nq_cid := u16 (nq_cid q + 1), nq_sq := (nq_sq q)[nq_sq_tail q := cmd\<lparr>se_cid := nq_cid q\<rparr>],
     nq_sq_tail := (nq_sq_tail q + 1) mod nq_depth q\<rparr>"

lemma submitted_ok: "cq_ok (q, c) \<Longrightarrow> cq_ok (submitted q cmd, c)" "unread (submitted q cmd, c) = unread (q, c)"
  by (auto simp: cq_ok_def submitted_def unread_def)

lemma submit_poll_cases:
  assumes "cq_ok (q, c)" "posts_fit posts (submitted q cmd, c)" "nvfu_submit_poll posts d q c cmd = (r, d', q', c')"
  shows "cq_ok (q', c') \<and> (case unread (q, c) @ posts of
      [] \<Rightarrow> r = Inl e_timedout \<and> unread (q', c') = []
    | e # es \<Rightarrow> r = Inr e \<and> unread (q', c') = es)"
proof -
  obtain q2 c2 where m: "fold cq_post posts (submitted q cmd, c) = (q2, c2)" by fastforce
  have p: "cq_ok (q2, c2)" "unread (q2, c2) = unread (q, c) @ posts"
    using posts_ok [OF submitted_ok(1) [OF assms(1)] assms(2)] m by (simp_all add: submitted_ok(2))
  have r: "nvfu_submit_poll posts d q c cmd =
      (let d1 = d\<lparr>nd_doorbells := (nd_doorbells d)(nq_sq_db q := (nq_sq_tail q + 1) mod nq_depth q)\<rparr> in
       case cq_take (q2, c2) of
         None \<Rightarrow> (Inl e_timedout, d1, q2, c2)
       | Some (e, q3, c3) \<Rightarrow> (Inr e, d1\<lparr>nd_doorbells := (nd_doorbells d1)(nq_cq_db q3 := nq_cq_head q3)\<rparr>, q3, c3))"
    using m by (simp add: nvfu_submit_poll_def nvfu_produce_def submitted_def Let_def split: option.split)
  show ?thesis
  proof (cases "cq_take (q2, c2)")
    case None
    then show ?thesis using r assms(3) p cq.pop_None [OF p(1)] by (simp add: Let_def)
  next
    case (Some es)
    obtain e q3 c3 where es: "es = (e, q3, c3)" by (cases es)
    then have "unread (q, c) @ posts = e # unread (q3, c3)" "cq_ok (q3, c3)"
      using p(2) Some cq.pop_ok [OF p(1)] cq.pop_items [OF p(1)] by simp_all
    then show ?thesis using r assms(3) Some es by (auto simp: Let_def)
  qed
qed

section \<open>Scatter lists\<close>

definition nvfu_dma_region :: nat where
  "nvfu_dma_region = 2 * 1024 * 1024"

unbundle bit_operations_syntax

definition first_chunk_of :: "nat \<Rightarrow> nat" where
  "first_chunk_of iova = nvfu_dma_region - (iova AND (nvfu_dma_region - 1))"

text \<open>The loop over the segments: the first chunk, then whole regions, the last one cut.\<close>

primrec sgl_loop :: "nat \<Rightarrow> nat \<Rightarrow> nat \<Rightarrow> nat \<Rightarrow> nat \<Rightarrow> (nat \<times> nat) list" where
  "sgl_loop 0 iova len chunk off = []"
| "sgl_loop (Suc n) iova len chunk off =
    (let k = (if off + chunk > len then len - off else chunk) in
     (iova + off, u32 k) # sgl_loop n iova len nvfu_dma_region (off + k))"

definition nseg_of :: "nat \<Rightarrow> nat \<Rightarrow> nat" where
  "nseg_of iova len = 1 + u32 ((len - first_chunk_of iova + nvfu_dma_region - 1) div nvfu_dma_region)"

text \<open>\<^const>\<open>None\<close>: the descriptor list could not be allocated.\<close>

definition nvfu_sgl_set_dptr :: "bool \<Rightarrow> sqe \<Rightarrow> nat \<Rightarrow> nat \<Rightarrow> sqe option" where
  "nvfu_sgl_set_dptr alloc cmd buf_iova len =
    (if len \<le> first_chunk_of buf_iova then Some (cmd\<lparr>se_sgl := Sgl_data_block buf_iova len\<rparr>)
     else if \<not> alloc then None
     else Some (cmd\<lparr>se_sgl := Sgl_last_segment (sgl_loop (nseg_of buf_iova len) buf_iova len (first_chunk_of buf_iova) 0)\<rparr>))"

definition val_nseg :: "nat \<Rightarrow> nat \<Rightarrow> nat" where
  "val_nseg val_iova val_len =
    (if val_len = 0 then 0 else if val_len \<le> first_chunk_of val_iova then 1 else nseg_of val_iova val_len)"

definition nvfu_sgl_set_dptr_kv :: "bool \<Rightarrow> sqe \<Rightarrow> nat \<Rightarrow> nat \<Rightarrow> nat \<Rightarrow> nat \<Rightarrow> sqe option" where
  "nvfu_sgl_set_dptr_kv alloc cmd head_iova head_len val_iova val_len =
    (if \<not> alloc then None
     else Some (cmd\<lparr>se_sgl := Sgl_last_segment ((head_iova, head_len)
        # sgl_loop (val_nseg val_iova val_len) val_iova val_len (first_chunk_of val_iova) 0)\<rparr>))"

text \<open>The data blocks a data pointer describes.\<close>

definition sgl_blocks :: "sgl \<Rightarrow> (nat \<times> nat) list" where
  "sgl_blocks s = (case s of Sgl_none \<Rightarrow> [] | Sgl_data_block a n \<Rightarrow> [(a, n)] | Sgl_last_segment bs \<Rightarrow> bs)"

text \<open>
  What it takes to describe the \<open>len\<close> bytes at \<open>iova\<close>: the blocks follow each other from the first
  byte to the last, none is empty, and each lies in one region.
\<close>

definition covers :: "(nat \<times> nat) list \<Rightarrow> nat \<Rightarrow> nat \<Rightarrow> bool" where
  "covers bs iova len = (concat (map (\<lambda>(a, n). [a..<a + n]) bs) = [iova..<iova + len])"

definition one_region :: "nat \<times> nat \<Rightarrow> bool" where
  "one_region b = (case b of (a, n) \<Rightarrow> 0 < n \<and> a div nvfu_dma_region = (a + n - 1) div nvfu_dma_region)"

lemma region_pos: "0 < nvfu_dma_region"
  by (simp add: nvfu_dma_region_def)

lemma region_mask: "iova AND (nvfu_dma_region - 1) = iova mod nvfu_dma_region"
proof -
  have "nvfu_dma_region - 1 = mask 21" by (simp add: nvfu_dma_region_def mask_eq_exp_minus_1)
  then have "iova AND (nvfu_dma_region - 1) = take_bit 21 iova" by (simp add: take_bit_eq_mask)
  then show ?thesis by (simp add: take_bit_eq_mod nvfu_dma_region_def)
qed

lemma first_chunk: "first_chunk_of iova = nvfu_dma_region - iova mod nvfu_dma_region" "0 < first_chunk_of iova"
  "first_chunk_of iova \<le> nvfu_dma_region" "(iova + first_chunk_of iova) mod nvfu_dma_region = 0"
proof -
  have r: "0 < nvfu_dma_region" by (simp add: nvfu_dma_region_def)
  then have m: "iova mod nvfu_dma_region < nvfu_dma_region" by simp
  show e: "first_chunk_of iova = nvfu_dma_region - iova mod nvfu_dma_region" by (simp only: first_chunk_of_def region_mask)
  show "0 < first_chunk_of iova" "first_chunk_of iova \<le> nvfu_dma_region" using e m by simp_all
  have "iova + first_chunk_of iova = nvfu_dma_region * (iova div nvfu_dma_region) + nvfu_dma_region"
    using e m mult_div_mod_eq [of nvfu_dma_region iova] by linarith
  then show "(iova + first_chunk_of iova) mod nvfu_dma_region = 0" by simp
qed

lemma one_regionI:
  assumes "0 < k" "k \<le> nvfu_dma_region - a mod nvfu_dma_region"
  shows "one_region (a, k)"
proof -
  let ?r = nvfu_dma_region
  have r: "0 < ?r" by (simp add: nvfu_dma_region_def)
  have e: "a + k - 1 = (a mod ?r + k - 1) + ?r * (a div ?r)" using assms(1) mult_div_mod_eq [of ?r a] by linarith
  have "a mod ?r + k - 1 < ?r" using assms r mod_less_divisor [OF r, of a] by linarith
  then have "(a + k - 1) div ?r = a div ?r" unfolding e using r by simp
  then show ?thesis using assms(1) by (simp add: one_region_def)
qed

text \<open>The loop from an offset: with room for the rest in \<open>n\<close> chunks, the first of them \<open>chunk\<close>.\<close>

lemma sgl_loop_blocks:
  assumes "off < len" "0 < chunk" "chunk = nvfu_dma_region - (iova + off) mod nvfu_dma_region" "len < 2 ^ 32"
    and "len - off \<le> chunk + (n - 1) * nvfu_dma_region" "n \<noteq> 0" "n = 1 \<or> chunk + (n - 2) * nvfu_dma_region < len - off"
  shows "concat (map (\<lambda>(a, k). [a..<a + k]) (sgl_loop n iova len chunk off)) = [iova + off..<iova + len]
    \<and> (\<forall>b \<in> set (sgl_loop n iova len chunk off). one_region b) \<and> length (sgl_loop n iova len chunk off) = n"
  using assms
proof (induction n arbitrary: off chunk)
  case (Suc n)
  let ?r = nvfu_dma_region
  let ?k = "if off + chunk > len then len - off else chunk"
  have k: "0 < ?k" "?k \<le> chunk" "off + ?k \<le> len" "u32 ?k = ?k"
    using Suc.prems(1,2,4) by (auto intro!: u32_id)
  have b: "one_region (iova + off, ?k)" using one_regionI [OF k(1), of "iova + off"] k(2) Suc.prems(3) by metis
  show ?case
  proof (cases n)
    case 0
    then have "off + ?k = len" using Suc.prems(5) k by (auto split: if_splits)
    then show ?thesis using b k(4) 0 by (simp add: Let_def add.assoc)
  next
    case (Suc m)
    have lt: "chunk + m * ?r < len - off" using Suc.prems(7) Suc by simp
    then have ke: "?k = chunk" "off + chunk < len" by auto
    have "(iova + (off + chunk)) mod ?r = 0"
    proof -
      have "iova + (off + chunk) = ?r * ((iova + off) div ?r) + ?r"
        using Suc.prems(3) mult_div_mod_eq [of ?r "iova + off"] mod_less_divisor [OF region_pos, of "iova + off"] by linarith
      then show ?thesis by simp
    qed
    then have "?r = ?r - (iova + (off + chunk)) mod ?r" "0 < ?r" by (simp_all add: nvfu_dma_region_def)
    moreover have "len - (off + chunk) \<le> ?r + (n - 1) * ?r" using Suc.prems(5) Suc by simp
    moreover have "n = 1 \<or> ?r + (n - 2) * ?r < len - (off + chunk)"
    proof (cases m)
      case (Suc l)
      then show ?thesis using lt \<open>n = Suc m\<close> by simp
    qed (simp add: Suc)
    ultimately have ih: "concat (map (\<lambda>(a, k). [a..<a + k]) (sgl_loop n iova len ?r (off + chunk))) = [iova + (off + chunk)..<iova + len]
        \<and> (\<forall>b \<in> set (sgl_loop n iova len ?r (off + chunk)). one_region b) \<and> length (sgl_loop n iova len ?r (off + chunk)) = n"
      using Suc.IH [of "off + chunk" ?r] ke(2) Suc.prems(4) Suc by blast
    moreover have "[iova + off..<iova + off + chunk] @ [iova + (off + chunk)..<iova + len] = [iova + off..<iova + len]"
      using ke(2) upt_add_eq_append [of "iova + off" "iova + off + chunk" "len - (off + chunk)"] by (simp add: add.assoc)
    ultimately show ?thesis using b ke(1) k(4) by (simp add: Let_def)
  qed
qed simp

lemma nseg_room:
  assumes "first_chunk_of iova < len" "len < 2 ^ 32"
  shows "len \<le> first_chunk_of iova + (nseg_of iova len - 1) * nvfu_dma_region" "1 < nseg_of iova len"
    "first_chunk_of iova + (nseg_of iova len - 2) * nvfu_dma_region < len"
proof -
  let ?r = nvfu_dma_region and ?x = "len - first_chunk_of iova"
  let ?n = "(?x + ?r - 1) div ?r"
  have x: "0 < ?x" using assms(1) by simp
  have "?n \<le> ?x + ?r - 1" by (rule div_le_dividend)
  then have "?n < 2 ^ 32" using assms(2) div_le_mono [of "?x + ?r - 1" "2 ^ 32 + ?r - 1" ?r]
    by (simp add: nvfu_dma_region_def)
  then have n: "nseg_of iova len = 1 + ?n" by (simp add: nseg_of_def u32_id)
  have d: "?x + ?r - 1 = ?r * ?n + (?x + ?r - 1) mod ?r" "(?x + ?r - 1) mod ?r < ?r" using region_pos by simp_all
  have "?x \<le> ?r * ?n" using d by linarith
  then have up: "len \<le> first_chunk_of iova + ?n * ?r" using assms(1) by (simp add: mult.commute)
  then show "len \<le> first_chunk_of iova + (nseg_of iova len - 1) * ?r" using n by simp
  have pos: "0 < ?n" using up assms(1) by (cases ?n) simp_all
  then show "1 < nseg_of iova len" using n by simp
  obtain m where m: "?n = Suc m" using pos gr0_implies_Suc by blast
  have "?r * m + ?r \<le> ?x + ?r - 1" using d(1) unfolding m by simp
  then have "?r * m < ?x" using region_pos by linarith
  then show "first_chunk_of iova + (nseg_of iova len - 2) * ?r < len" using n m assms(1) by (simp add: mult.commute)
qed

lemma value_blocks:
  assumes "len < 2 ^ 32"
  shows "covers (sgl_loop (val_nseg iova len) iova len (first_chunk_of iova) 0) iova len
    \<and> (\<forall>b \<in> set (sgl_loop (val_nseg iova len) iova len (first_chunk_of iova) 0). one_region b)"
proof (cases "len = 0")
  case False
  have c: "first_chunk_of iova = nvfu_dma_region - (iova + 0) mod nvfu_dma_region" by (simp add: first_chunk(1))
  show ?thesis
  proof (cases "len \<le> first_chunk_of iova")
    case True
    then have "val_nseg iova len = 1" using False by (simp add: val_nseg_def)
    then show ?thesis using sgl_loop_blocks [OF _ first_chunk(2) c assms, of 1] False True by (simp add: covers_def)
  next
    case len: False
    then have "val_nseg iova len = nseg_of iova len" using False by (simp add: val_nseg_def)
    then show ?thesis
      using sgl_loop_blocks [OF _ first_chunk(2) c assms, of "nseg_of iova len"] nseg_room [of iova len] assms len False by (auto simp: covers_def)
  qed
qed (simp add: val_nseg_def covers_def)

lemma set_dptr_blocks:
  assumes "0 < len" "len < 2 ^ 32" "nvfu_sgl_set_dptr alloc cmd iova len = Some cmd'"
  shows "covers (sgl_blocks (se_sgl cmd')) iova len \<and> (\<forall>b \<in> set (sgl_blocks (se_sgl cmd')). one_region b)"
proof (cases "len \<le> first_chunk_of iova")
  case True
  then have "one_region (iova, len)" using assms(1) by (intro one_regionI) (simp_all add: first_chunk(1))
  then show ?thesis using True assms(3) by (auto simp: nvfu_sgl_set_dptr_def covers_def sgl_blocks_def)
next
  case False
  then have "val_nseg iova len = nseg_of iova len" by (simp add: val_nseg_def)
  then show ?thesis using False assms(3) value_blocks [OF assms(2), of iova]
    by (auto simp: nvfu_sgl_set_dptr_def sgl_blocks_def split: if_splits)
qed

section \<open>The driver's guarantees\<close>

text \<open>
  C16. The completion ring is a queue. From a ring in its invariant, whatever completions the
  controller posts while the ring has room and whenever the host looks, the completions the host takes
  are the ones posted, in the order they were posted, none lost, repeated or read before it was written;
  and the invariant holds again.
\<close>

theorem completions_in_order:
  assumes "cq_ok s" "fifo_run cq_full cq_post cq_take ops s = (posted, taken, t)"
  shows "cq_ok t \<and> taken @ unread t = unread s @ posted"
  by (rule cq.in_order [OF assms])

definition queue_ex :: nvfu_queue where
  "queue_ex = \<lparr>nq_sq = replicate 2 zero_sqe, nq_cq = replicate 2 (False, zero_cpl), nq_sq_iova = 0, nq_cq_iova = 0, nq_qid = 1,
     nq_depth = 2, nq_sq_tail = 0, nq_cq_head = 0, nq_cq_phase = True, nq_cid = 0, nq_sq_db = 2, nq_cq_db = 3\<rparr>"

definition cpl_ex :: "nat \<Rightarrow> cpl" where
  "cpl_ex i = \<lparr>cp_cdw0 = i, cp_cid = i, cp_status = (SCT_GENERIC, SC_SUCCESS)\<rparr>"

lemma queue_ex_ok: "cq_ok (queue_ex, fresh_ctrl)" "unread (queue_ex, fresh_ctrl) = []"
  by (auto simp: cq_ok_def unread_def queue_ex_def fresh_ctrl_def nth_Cons split: nat.splits)

theorem completions_in_order_witness:
  "\<exists>t. fifo_run cq_full cq_post cq_take [Some (cpl_ex 4), Some (cpl_ex 5), None, Some (cpl_ex 6), None, None] (queue_ex, fresh_ctrl)
      = ([cpl_ex 4, cpl_ex 6], [cpl_ex 4, cpl_ex 6], t) \<and> cq_ok t \<and> unread t = []"
proof -
  obtain posted taken t where r: "fifo_run cq_full cq_post cq_take [Some (cpl_ex 4), Some (cpl_ex 5), None, Some (cpl_ex 6), None, None]
    (queue_ex, fresh_ctrl) = (posted, taken, t)" using prod_cases3 by blast
  then have "posted = [cpl_ex 4, cpl_ex 6]" "taken = [cpl_ex 4, cpl_ex 6]"
    by (auto simp: cq_full_def cq_post_def cq_take_def queue_ex_def fresh_ctrl_def)
  then show ?thesis using completions_in_order [OF queue_ex_ok(1) r] r queue_ex_ok(2) by simp
qed

text \<open>
  A poll takes the oldest completion, whoever it belongs to. With nothing left over from before,
  a command gets the first completion the controller posts for it; with a completion left over, as
  after a command that timed out and completed late, the next command gets that one instead, status,
  length and all, and its own stays behind for the command after it.
\<close>

theorem poll_takes_oldest:
  assumes "cq_ok (q, c)" "posts_fit posts (submitted q cmd, c)" "nvfu_submit_poll posts d q c cmd = (r, d', q', c')"
  shows "(unread (q, c) = [] \<and> posts = [] \<longrightarrow> r = Inl e_timedout)
    \<and> (unread (q, c) = [] \<and> posts = [e] \<longrightarrow> r = Inr e \<and> unread (q', c') = [])
    \<and> (unread (q, c) = [late] \<and> posts = [e] \<longrightarrow> r = Inr late \<and> unread (q', c') = [e])"
  using submit_poll_cases [OF assms] by auto

definition dev_ex :: nvfu_dev where
  "dev_ex = \<lparr>nd_doorbells = \<lambda>_. 0, nd_db_stride = 1, nd_admin = queue_ex, nd_io = queue_ex\<lparr>nq_depth := 3,
     nq_sq := replicate 3 zero_sqe, nq_cq := replicate 3 (False, zero_cpl)\<rparr>\<rparr>"

text \<open>A Store times out, completes late, and its completion is what the following Retrieve gets.\<close>

theorem poll_takes_oldest_witness:
  "case nvfu_submit_poll [] dev_ex (nd_io dev_ex) fresh_ctrl zero_sqe of (r1, d1, q1, c1) \<Rightarrow>
     r1 = Inl e_timedout \<and>
     (case cq_post (cpl_ex 0) (q1, c1) of (q2, c2) \<Rightarrow>
        case nvfu_submit_poll [cpl_ex 1] d1 q2 c2 zero_sqe of (r2, d2, q3, c3) \<Rightarrow> r2 = Inr (cpl_ex 0) \<and> unread (q3, c3) = [cpl_ex 1])"
proof -
  let ?q = "nd_io dev_ex"
  obtain r1 d1 q1 c1 where 1: "nvfu_submit_poll [] dev_ex ?q fresh_ctrl zero_sqe = (r1, d1, q1, c1)" by (cases rule: prod_cases4)
  obtain q2 c2 where 2: "cq_post (cpl_ex 0) (q1, c1) = (q2, c2)" by fastforce
  obtain r2 d2 q3 c3 where 3: "nvfu_submit_poll [cpl_ex 1] d1 q2 c2 zero_sqe = (r2, d2, q3, c3)" by (cases rule: prod_cases4)
  have ok: "cq_ok (?q, fresh_ctrl)" "unread (?q, fresh_ctrl) = []"
    by (auto simp: dev_ex_def queue_ex_def cq_ok_def unread_def fresh_ctrl_def nth_Cons split: nat.splits)
  have q1: "q1 = submitted ?q zero_sqe" "c1 = fresh_ctrl"
    using 1 by (simp_all add: nvfu_submit_poll_def nvfu_produce_def cq_take_def submitted_def dev_ex_def queue_ex_def)
  have a: "r1 = Inl e_timedout" using poll_takes_oldest [OF ok(1) _ 1] ok(2) by simp
  have room: "\<not> cq_full (q1, c1)" by (simp add: q1 cq_full_def submitted_def dev_ex_def queue_ex_def fresh_ctrl_def)
  have ok1: "cq_ok (q1, c1)" "unread (q1, c1) = []" using ok submitted_ok q1 by simp_all
  have ok2: "cq_ok (q2, c2)" "unread (q2, c2) = [cpl_ex 0]" using cq_post_ok [OF ok1(1) room, of "cpl_ex 0"] 2 ok1(2) by simp_all
  have "posts_fit [cpl_ex 1] (submitted q2 zero_sqe, c2)"
    using 2 by (simp add: q1 cq_post_def cq_full_def submitted_def dev_ex_def queue_ex_def fresh_ctrl_def) auto
  from poll_takes_oldest [OF ok2(1) this 3, of "cpl_ex 1" "cpl_ex 0"] ok2(2)
  have "r2 = Inr (cpl_ex 0) \<and> unread (q3, c3) = [cpl_ex 1]" by simp
  then show ?thesis using 1 2 3 a by simp
qed

text \<open>
  C17. Scatter lists are exact. The data pointer built for a buffer describes its bytes from the first
  to the last, in order, each once, in nonempty blocks none of which crosses a 2 MiB region, whether
  it is one block or a segment list; with the key head in front, the value's blocks do the same for
  the value.
\<close>

theorem scatter_list_exact:
  assumes "0 < len" "len < 2 ^ 32" "nvfu_sgl_set_dptr alloc cmd iova len = Some cmd1"
    and "vlen < 2 ^ 32" "nvfu_sgl_set_dptr_kv alloc2 cmd head_iova head_len viova vlen = Some cmd2"
  shows "covers (sgl_blocks (se_sgl cmd1)) iova len \<and> (\<forall>b \<in> set (sgl_blocks (se_sgl cmd1)). one_region b)
    \<and> (\<exists>bs. sgl_blocks (se_sgl cmd2) = (head_iova, head_len) # bs \<and> covers bs viova vlen \<and> (\<forall>b \<in> set bs. one_region b))"
  using set_dptr_blocks [OF assms(1-3)] value_blocks [OF assms(4), of viova] assms(5)
  by (auto simp: nvfu_sgl_set_dptr_kv_def sgl_blocks_def split: if_splits)

theorem scatter_list_exact_witness:
  "\<exists>cmd1 cmd2. nvfu_sgl_set_dptr True zero_sqe 4096 4194304 = Some cmd1 \<and> nvfu_sgl_set_dptr_kv True zero_sqe 64 5 0 0 = Some cmd2
    \<and> covers (sgl_blocks (se_sgl cmd1)) 4096 4194304 \<and> sgl_blocks (se_sgl cmd2) = [(64, 5)]"
proof -
  have "nvfu_sgl_set_dptr True zero_sqe 4096 4194304 \<noteq> None" by (simp add: nvfu_sgl_set_dptr_def)
  then obtain cmd1 where 1: "nvfu_sgl_set_dptr True zero_sqe 4096 4194304 = Some cmd1" by blast
  obtain cmd2 where 2: "nvfu_sgl_set_dptr_kv True zero_sqe 64 5 0 0 = Some cmd2" "sgl_blocks (se_sgl cmd2) = [(64, 5)]"
    by (auto simp: nvfu_sgl_set_dptr_kv_def val_nseg_def sgl_blocks_def)
  show ?thesis using scatter_list_exact [OF _ _ 1 _ 2(1)] 1 2 by simp
qed

end
