(* ===== verification/VfuClient.thy ===== *)
theory VfuClient
  imports VfuQueue
begin

text \<open>
  The KV operations of the host clients over the vfio-user driver: the helpers of
  \<^verbatim>\<open>clients/nvme-kv/kv/vfu_host/nkv_vfu.h\<close>, the shim of the command-line client
  (\<^verbatim>\<open>clients/rkv/csrc/nkvx_shim.c\<close>) and its session (\<^verbatim>\<open>clients/rkv/src/datapath.rs\<close>).

  The target is a parameter \<open>dev\<close>: for a command and the contents of the data blocks its data pointer
  describes it gives the completions posted before the deadline and the blocks' new contents.
  \<open>client_env\<close> holds what the allocator returns: the address of the data buffer and of the key head,
  and whether a descriptor list could be had. Results are a negative errno or a value.
\<close>

section \<open>Running a command\<close>

record host =
  hs_dev :: nvfu_dev
  hs_ctrl :: ctrl

type_synonym 's target = "'s \<Rightarrow> sqe \<Rightarrow> bytes list \<Rightarrow> cpl list \<times> bytes list \<times> 's"

record client_env =
  ce_buf :: "nat option"
  ce_head :: "nat option"
  ce_segs :: bool

definition e_nomem :: int where "e_nomem = - 12"
definition e_inval :: int where "e_inval = - 22"
definition e_eio :: int where "e_eio = - 5"

definition status_ok :: "nvme_status \<Rightarrow> bool" where
  "status_ok st = (st = (SCT_GENERIC, SC_SUCCESS))"

definition run_io :: "'s target \<Rightarrow> sqe \<Rightarrow> bytes list \<Rightarrow> host \<times> 's \<Rightarrow> (int + cpl) \<times> bytes list \<times> host \<times> 's" where
  "run_io dev cmd segs hs =
    (case hs of (h, s) \<Rightarrow>
      let q = nd_io (hs_dev h) in
      case dev s (cmd\<lparr>se_cid := nq_cid q\<rparr>) segs of (posts, segs', s') \<Rightarrow>
        (case nvfu_submit_poll posts (hs_dev h) q (hs_ctrl h) cmd of
           (r, d', q', c') \<Rightarrow> (r, segs', \<lparr>hs_dev = d'\<lparr>nd_io := q'\<rparr>, hs_ctrl = c'\<rparr>, s')))"

text \<open>The contents of the blocks of a buffer at \<open>iova\<close>.\<close>

definition block_bytes :: "nat \<Rightarrow> bytes \<Rightarrow> nat \<times> nat \<Rightarrow> bytes" where
  "block_bytes iova buf b = (case b of (a, n) \<Rightarrow> take n (drop (a - iova) buf))"

definition dma_zmalloc :: "nat \<Rightarrow> bytes" where
  "dma_zmalloc n = replicate n 0"

definition kv_cmd :: "nvme_opc \<Rightarrow> nat \<Rightarrow> nat \<Rightarrow> sqe" where
  "kv_cmd opc nsid vsize = zero_sqe\<lparr>se_opc := Hop_kv opc, se_nsid := nsid, se_kl := 0, se_cdw10 := vsize\<rparr>"

section \<open>The driver's helpers\<close>

text \<open>A command over one buffer: the status or error, and the buffer's contents afterwards.\<close>

definition xfer_buf :: "client_env \<Rightarrow> 's target \<Rightarrow> nat \<Rightarrow> sqe \<Rightarrow> bytes \<Rightarrow> nat \<Rightarrow> host \<times> 's \<Rightarrow> (int + int + cpl) \<times> bytes \<times> host \<times> 's" where
  "xfer_buf env dev iova cmd buf len hs =
    (case nvfu_sgl_set_dptr (ce_segs env) cmd iova len of
       None \<Rightarrow> (Inl e_nomem, buf, hs)
     | Some cmd' \<Rightarrow>
         (case run_io dev cmd' (map (block_bytes iova buf) (sgl_blocks (se_sgl cmd'))) hs of
            (r, segs, hs') \<Rightarrow> (Inr r, memcpy_at 0 (concat segs) buf, hs')))"

definition nvfu_kv_store_lk :: "client_env \<Rightarrow> 's target \<Rightarrow> nat \<Rightarrow> bytes \<Rightarrow> nat \<Rightarrow> bytes \<Rightarrow> host \<times> 's \<Rightarrow> (int + unit) \<times> host \<times> 's" where
  "nvfu_kv_store_lk env dev nsid key key_len v hs =
    (let payload_len = u32 (2 + key_len + length v) in
     case ce_buf env of
       None \<Rightarrow> (Inl e_nomem, hs)
     | Some iova \<Rightarrow>
         (case xfer_buf env dev iova (kv_cmd KV_STORE nsid (length v))
             (memcpy_at 0 (le_bytes 2 key_len @ take key_len key @ v) (dma_zmalloc (max payload_len 4096))) payload_len hs of
            (Inl e, buf, hs') \<Rightarrow> (Inl e, hs')
          | (Inr (Inl e), buf, hs') \<Rightarrow> (Inl e_eio, hs')
          | (Inr (Inr e), buf, hs') \<Rightarrow> (if status_ok (cp_status e) then Inr () else Inl e_eio, hs')))"

definition nvfu_kv_store :: "client_env \<Rightarrow> 's target \<Rightarrow> nat \<Rightarrow> bytes \<Rightarrow> bytes \<Rightarrow> host \<times> 's \<Rightarrow> (int + unit) \<times> host \<times> 's" where
  "nvfu_kv_store env dev nsid key v hs = nvfu_kv_store_lk env dev nsid key (u8 (length key)) v hs"

definition nvfu_kv_retrieve_lk :: "client_env \<Rightarrow> 's target \<Rightarrow> nat \<Rightarrow> bytes \<Rightarrow> nat \<Rightarrow> nat \<Rightarrow> host \<times> 's \<Rightarrow> (int + bytes) \<times> host \<times> 's" where
  "nvfu_kv_retrieve_lk env dev nsid key key_len out_len hs =
    (let head_len = 2 + key_len; xfer_len = u32 (head_len + out_len) in
     case ce_buf env of
       None \<Rightarrow> (Inl e_nomem, hs)
     | Some iova \<Rightarrow>
         (case xfer_buf env dev iova (kv_cmd KV_RETRIEVE nsid out_len)
             (memcpy_at 0 (le_bytes 2 key_len @ take key_len key) (dma_zmalloc (max xfer_len 4096))) xfer_len hs of
            (Inl e, buf, hs') \<Rightarrow> (Inl e, hs')
          | (Inr (Inl e), buf, hs') \<Rightarrow> (Inl e_eio, hs')
          | (Inr (Inr e), buf, hs') \<Rightarrow>
              (if status_ok (cp_status e) then Inr (take (min (cp_cdw0 e) out_len) (drop head_len buf)) else Inl e_eio, hs')))"

definition nvfu_kv_retrieve :: "client_env \<Rightarrow> 's target \<Rightarrow> nat \<Rightarrow> bytes \<Rightarrow> nat \<Rightarrow> host \<times> 's \<Rightarrow> (int + bytes) \<times> host \<times> 's" where
  "nvfu_kv_retrieve env dev nsid key out_len hs = nvfu_kv_retrieve_lk env dev nsid key (u8 (length key)) out_len hs"

text \<open>Delete and Exist return the completion's status; an error of the driver is negative.\<close>

definition nvfu_kv_op_lk :: "client_env \<Rightarrow> 's target \<Rightarrow> nat \<Rightarrow> nvme_opc \<Rightarrow> bytes \<Rightarrow> nat \<Rightarrow> host \<times> 's \<Rightarrow> (int + nvme_status) \<times> host \<times> 's" where
  "nvfu_kv_op_lk env dev nsid opc key key_len hs =
    (let head_len = 2 + key_len in
     case ce_buf env of
       None \<Rightarrow> (Inl e_nomem, hs)
     | Some iova \<Rightarrow>
         (case xfer_buf env dev iova (kv_cmd opc nsid 0)
             (memcpy_at 0 (le_bytes 2 key_len @ take key_len key) (dma_zmalloc (max head_len 4096))) head_len hs of
            (Inl e, buf, hs') \<Rightarrow> (Inl e, hs')
          | (Inr (Inl e), buf, hs') \<Rightarrow> (Inl e, hs')
          | (Inr (Inr e), buf, hs') \<Rightarrow> (Inr (cp_status e), hs')))"

definition nvfu_kv_delete_lk :: "client_env \<Rightarrow> 's target \<Rightarrow> nat \<Rightarrow> bytes \<Rightarrow> nat \<Rightarrow> host \<times> 's \<Rightarrow> (int + nvme_status) \<times> host \<times> 's" where
  "nvfu_kv_delete_lk env dev nsid key key_len hs = nvfu_kv_op_lk env dev nsid KV_DELETE key key_len hs"

definition nvfu_kv_exist_lk :: "client_env \<Rightarrow> 's target \<Rightarrow> nat \<Rightarrow> bytes \<Rightarrow> nat \<Rightarrow> host \<times> 's \<Rightarrow> (int + nvme_status) \<times> host \<times> 's" where
  "nvfu_kv_exist_lk env dev nsid key key_len hs = nvfu_kv_op_lk env dev nsid KV_EXIST key key_len hs"

text \<open>
  Exec: the request and the result share the buffer. The driver's helper reports the result length
  cut to the caller's buffer, the shim the true one; both copy from the start of the buffer.
\<close>

definition exec_xfer :: "client_env \<Rightarrow> 's target \<Rightarrow> nat \<Rightarrow> bytes \<Rightarrow> nat \<Rightarrow> bytes \<Rightarrow> nat \<Rightarrow> host \<times> 's \<Rightarrow> (int + nat \<times> bytes) \<times> host \<times> 's" where
  "exec_xfer env dev nsid key op_id input out_len hs =
    (let key_len = u8 (length key);
         payload_len = u32 (2 + key_len + length input);
         bufsz = max out_len 4096;
         xfer_len = max payload_len out_len in
     if payload_len > bufsz then (Inl e_inval, hs)
     else case ce_buf env of
       None \<Rightarrow> (Inl e_nomem, hs)
     | Some iova \<Rightarrow>
         (case xfer_buf env dev iova ((kv_cmd KV_EXEC nsid payload_len)\<lparr>se_cdw12 := out_len, se_cdw13 := op_id\<rparr>)
             (memcpy_at 0 (le_bytes 2 key_len @ take key_len key @ input) (dma_zmalloc bufsz)) xfer_len hs of
            (Inl e, buf, hs') \<Rightarrow> (Inl e, hs')
          | (Inr (Inl e), buf, hs') \<Rightarrow> (Inl e_eio, hs')
          | (Inr (Inr e), buf, hs') \<Rightarrow>
              (if status_ok (cp_status e) then Inr (cp_cdw0 e, take (min (cp_cdw0 e) out_len) buf) else Inl e_eio, hs')))"

definition nvfu_kv_exec :: "client_env \<Rightarrow> 's target \<Rightarrow> nat \<Rightarrow> bytes \<Rightarrow> nat \<Rightarrow> bytes \<Rightarrow> nat \<Rightarrow> host \<times> 's \<Rightarrow> (int + nat \<times> bytes) \<times> host \<times> 's" where
  "nvfu_kv_exec env dev nsid key op_id input out_len hs =
    (case exec_xfer env dev nsid key op_id input out_len hs of
       (Inl e, hs') \<Rightarrow> (Inl e, hs')
     | (Inr (n, out), hs') \<Rightarrow> (Inr (min n out_len, out), hs'))"

text \<open>
  A value buffer of its own, behind a key head of its own: the completion, and the contents of the
  value buffer afterwards.
\<close>

text \<open>The bit of the Store options that says a lifetime follows.\<close>

definition store_opt_ttl_valid :: nat where
  "store_opt_ttl_valid = 3"

definition nvfu_kv_xfer_sgl :: "client_env \<Rightarrow> 's target \<Rightarrow> nat \<Rightarrow> nvme_opc \<Rightarrow> bytes \<Rightarrow> bytes \<Rightarrow> nat \<Rightarrow> nat \<Rightarrow> nat \<Rightarrow> nat \<Rightarrow> host \<times> 's
    \<Rightarrow> (int + cpl) \<times> bytes \<times> host \<times> 's" where
  "nvfu_kv_xfer_sgl env dev nsid opc key buf vsize iova ro ttl hs =
    (let key_len = u8 (length key); head_len = 2 + key_len;
         cmd0 = kv_cmd opc nsid vsize;
         cmd = (if opc = KV_STORE
                then cmd0\<lparr>se_ro := ro, se_cdw12 := (if bit ro store_opt_ttl_valid then ttl else 0)\<rparr> else cmd0) in
     case ce_head env of
       None \<Rightarrow> (Inl e_nomem, buf, hs)
     | Some head_iova \<Rightarrow>
         let head = le_bytes 2 key_len @ take key_len key in
         (case nvfu_sgl_set_dptr_kv (ce_segs env) cmd head_iova head_len iova vsize of
            None \<Rightarrow> (Inl e_nomem, buf, hs)
          | Some cmd' \<Rightarrow>
              (case run_io dev cmd' (head # map (block_bytes iova buf) (tl (sgl_blocks (se_sgl cmd')))) hs of
                 (Inl e, segs, hs') \<Rightarrow> (Inl e, memcpy_at 0 (concat (tl segs)) buf, hs')
               | (Inr e, segs, hs') \<Rightarrow> (Inr e, memcpy_at 0 (concat (tl segs)) buf, hs'))))"

section \<open>The shim of the command-line client\<close>

definition nkvx_store_shim :: "client_env \<Rightarrow> 's target \<Rightarrow> nat \<Rightarrow> bytes \<Rightarrow> bytes \<Rightarrow> nat \<Rightarrow> nat \<Rightarrow> host \<times> 's \<Rightarrow> (int + unit) \<times> host \<times> 's" where
  "nkvx_store_shim env dev nsid key v store_opt ttl hs =
    (case ce_buf env of
       None \<Rightarrow> (Inl e_nomem, hs)
     | Some iova \<Rightarrow>
         (case nvfu_kv_xfer_sgl env dev nsid KV_STORE key (memcpy_at 0 v (dma_zmalloc (max (length v) 1))) (length v) iova store_opt ttl hs of
            (Inl e, buf, hs') \<Rightarrow> (Inl e_eio, hs')
          | (Inr e, buf, hs') \<Rightarrow> (if status_ok (cp_status e) then Inr () else Inl e_eio, hs')))"

definition nkvx_retrieve_shim :: "client_env \<Rightarrow> 's target \<Rightarrow> nat \<Rightarrow> bytes \<Rightarrow> nat \<Rightarrow> host \<times> 's \<Rightarrow> (int + nat \<times> bytes) \<times> host \<times> 's" where
  "nkvx_retrieve_shim env dev nsid key out_len hs =
    (case ce_buf env of
       None \<Rightarrow> (Inl e_nomem, hs)
     | Some iova \<Rightarrow>
         (case nvfu_kv_xfer_sgl env dev nsid KV_RETRIEVE key (dma_zmalloc (max out_len 1)) out_len iova 0 0 hs of
            (Inl e, buf, hs') \<Rightarrow> (Inl e_eio, hs')
          | (Inr e, buf, hs') \<Rightarrow>
              (if status_ok (cp_status e) then Inr (cp_cdw0 e, take (min (cp_cdw0 e) out_len) buf) else Inl e_eio, hs')))"

definition nkvx_exec_shim :: "client_env \<Rightarrow> 's target \<Rightarrow> nat \<Rightarrow> bytes \<Rightarrow> nat \<Rightarrow> bytes \<Rightarrow> nat \<Rightarrow> host \<times> 's \<Rightarrow> (int + nat \<times> bytes) \<times> host \<times> 's" where
  "nkvx_exec_shim env dev nsid key op_id input out_len hs = exec_xfer env dev nsid key op_id input out_len hs"

section \<open>The session of the command-line client\<close>

datatype cli_error = Cli_nul | Cli_rc int | Cli_too_big nat | Cli_changed nat nat | Cli_would_truncate nat

definition retrieve_hint :: nat where
  "retrieve_hint = 4 * 1024 * 1024"

definition max_value :: nat where
  "max_value = 64 * 1024 * 1024"

definition session_store_opts :: "client_env \<Rightarrow> 's target \<Rightarrow> nat \<Rightarrow> bytes \<Rightarrow> bytes \<Rightarrow> nat \<Rightarrow> nat \<Rightarrow> host \<times> 's \<Rightarrow> (cli_error + unit) \<times> host \<times> 's" where
  "session_store_opts env dev nsid key v store_opt ttl hs =
    (if 0 \<in> set key then (Inl Cli_nul, hs)
     else case nkvx_store_shim env dev nsid key (take (u32 (length v)) v) store_opt ttl hs of
       (Inl rc, hs') \<Rightarrow> (Inl (Cli_rc rc), hs')
     | (Inr _, hs') \<Rightarrow> (Inr (), hs'))"

definition session_store :: "client_env \<Rightarrow> 's target \<Rightarrow> nat \<Rightarrow> bytes \<Rightarrow> bytes \<Rightarrow> host \<times> 's \<Rightarrow> (cli_error + unit) \<times> host \<times> 's" where
  "session_store env dev nsid key v hs = session_store_opts env dev nsid key v 0 0 hs"

text \<open>
  One read: the true length, and the caller's buffer of \<open>len\<close> bytes. Both operations share the
  probe and the retry, with \<open>raw\<close> the read into a buffer of a given size.
\<close>

definition into_buf :: "nat \<Rightarrow> (int + nat \<times> bytes) \<times> host \<times> 's \<Rightarrow> (cli_error + nat \<times> bytes) \<times> host \<times> 's" where
  "into_buf len r =
    (case r of
       (Inl rc, hs) \<Rightarrow> (Inl (Cli_rc rc), hs)
     | (Inr (n, bs), hs) \<Rightarrow> (Inr (n, memcpy_at 0 bs (replicate len 0)), hs))"

definition retrieve_raw :: "client_env \<Rightarrow> 's target \<Rightarrow> nat \<Rightarrow> bytes \<Rightarrow> nat \<Rightarrow> host \<times> 's \<Rightarrow> (cli_error + nat \<times> bytes) \<times> host \<times> 's" where
  "retrieve_raw env dev nsid key len hs = into_buf len (nkvx_retrieve_shim env dev nsid key (u32 len) hs)"

definition exec_raw :: "client_env \<Rightarrow> 's target \<Rightarrow> nat \<Rightarrow> bytes \<Rightarrow> nat \<Rightarrow> bytes \<Rightarrow> nat \<Rightarrow> host \<times> 's \<Rightarrow> (cli_error + nat \<times> bytes) \<times> host \<times> 's" where
  "exec_raw env dev nsid key op_id input len hs =
    into_buf len (nkvx_exec_shim env dev nsid key op_id (take (u32 (length input)) input) (u32 len) hs)"

definition probe_and_retry :: "(nat \<Rightarrow> host \<times> 's \<Rightarrow> (cli_error + nat \<times> bytes) \<times> host \<times> 's) \<Rightarrow> host \<times> 's \<Rightarrow> (cli_error + bytes) \<times> host \<times> 's" where
  "probe_and_retry raw hs =
    (case raw retrieve_hint hs of
       (Inl e, hs1) \<Rightarrow> (Inl e, hs1)
     | (Inr (true_len, buf), hs1) \<Rightarrow>
         if true_len \<le> retrieve_hint then (Inr (take true_len buf), hs1)
         else if true_len > max_value then (Inl (Cli_too_big true_len), hs1)
         else (case raw true_len hs1 of
            (Inl e, hs2) \<Rightarrow> (Inl e, hs2)
          | (Inr (got2, buf2), hs2) \<Rightarrow>
              if got2 \<noteq> true_len then (Inl (Cli_changed true_len got2), hs2) else (Inr (take got2 buf2), hs2)))"

definition session_retrieve :: "client_env \<Rightarrow> 's target \<Rightarrow> nat \<Rightarrow> bytes \<Rightarrow> host \<times> 's \<Rightarrow> (cli_error + bytes) \<times> host \<times> 's" where
  "session_retrieve env dev nsid key hs =
    (if 0 \<in> set key then (Inl Cli_nul, hs) else probe_and_retry (retrieve_raw env dev nsid key) hs)"

definition session_retrieve_into :: "client_env \<Rightarrow> 's target \<Rightarrow> nat \<Rightarrow> bytes \<Rightarrow> nat \<Rightarrow> host \<times> 's \<Rightarrow> (cli_error + nat \<times> bytes) \<times> host \<times> 's" where
  "session_retrieve_into env dev nsid key cap hs =
    (if 0 \<in> set key then (Inl Cli_nul, hs)
     else case retrieve_raw env dev nsid key cap hs of
       (Inl e, hs') \<Rightarrow> (Inl e, hs')
     | (Inr (true_len, buf), hs') \<Rightarrow> (if true_len > cap then Inl (Cli_would_truncate true_len) else Inr (true_len, buf), hs'))"

definition session_exec :: "client_env \<Rightarrow> 's target \<Rightarrow> nat \<Rightarrow> bytes \<Rightarrow> nat \<Rightarrow> bytes \<Rightarrow> host \<times> 's \<Rightarrow> (cli_error + bytes) \<times> host \<times> 's" where
  "session_exec env dev nsid key op_id input hs =
    (if 0 \<in> set key then (Inl Cli_nul, hs) else probe_and_retry (exec_raw env dev nsid key op_id input) hs)"

end
