(* ===== verification/ClientPath.thy ===== *)
theory ClientPath
  imports VfuClient EndToEnd
begin

text \<open>
  The command-line client against the whole stack: the target behind the client's driver is the
  forwarder bdev with the KV path behind it.

  Between driver and bdev lies the NVMe-oF target of SPDK, which is not part of the program: it hands
  a command's data blocks to the bdev as a scatter list, one segment for each block, decodes the Store
  options by two bits of the specification (\<open>sk_bits\<close>), and posts one completion that carries the
  command's identifier. \<open>sk_kv\<close> is what becomes of a forwarded request.
\<close>

record 's stack =
  sk_bits :: "nat \<times> nat"
  sk_benv :: bdev_env
  sk_disk :: kvrados_disk
  sk_chan :: kvrados_channel
  sk_kv :: "kv_request \<Rightarrow> 's \<Rightarrow> ((io_status \<times> nat \<times> bytes) \<times> 's) option"

definition nvmf_cmd :: "nat \<times> nat \<Rightarrow> nvme_opc \<Rightarrow> sqe \<Rightarrow> nvme_cmd" where
  "nvmf_cmd bits opc cmd = \<lparr>cmd_opc = opc, cmd_nsid = se_nsid cmd, cmd_dont_store_if_not_exists = has_flag (se_ro cmd) (fst bits),
     cmd_dont_store_if_exists = has_flag (se_ro cmd) (snd bits), cmd_cdw12 = se_cdw12 cmd, cmd_cdw13 = se_cdw13 cmd\<rparr>"

definition request_sink :: "kv_request \<Rightarrow> sink" where
  "request_sink req = (case req of Req_Retrieve _ _ sk \<Rightarrow> sk | Req_List _ _ sk \<Rightarrow> sk | Req_Exec xr \<Rightarrow> xr_sink xr
     | _ \<Rightarrow> \<lparr>sk_addr = None, sk_len = 0\<rparr>)"

definition target_dev :: "'s stack \<Rightarrow> 's target" where
  "target_dev k s cmd segs =
    (case se_opc cmd of
       Hop_kv opc \<Rightarrow>
         (let r = kvrados_handle_kv_io (sk_benv k) (sk_disk k) (sk_chan k) 0 (nvmf_cmd (sk_bits k) opc cmd) segs in
          case ir_outcome r of
            Completed dw0 st \<Rightarrow> ([\<lparr>cp_cdw0 = dw0, cp_cid = se_cid cmd, cp_status = st\<rparr>], ir_iovs r, s)
          | Forwarded req \<Rightarrow>
              (case sk_kv k req s of
                 None \<Rightarrow> ([], segs, s)
               | Some ((st, len, bs), s') \<Rightarrow>
                   ([\<lparr>cp_cdw0 = len, cp_cid = se_cid cmd, cp_status = kvrados_kvdev_status_to_nvme st\<rparr>],
                    sink_write (request_sink req) bs segs, s')))
     | _ \<Rightarrow> ([], segs, s))"

section \<open>One command in step\<close>

definition host_ok :: "host \<Rightarrow> bool" where
  "host_ok h = (cq_ok (nd_io (hs_dev h), hs_ctrl h) \<and> unread (nd_io (hs_dev h), hs_ctrl h) = [])"

lemma idle_not_full: "cq_ok (q, c) \<Longrightarrow> unread (q, c) = [] \<Longrightarrow> \<not> cq_full (q, c)"
  using unread_Nil [of q c] mod_Suc [of "ct_tail c" "nq_depth q"] by (auto simp: cq_full_def cq_ok_def)

lemma run_in_step:
  assumes "host_ok h" "dev s (cmd\<lparr>se_cid := nq_cid (nd_io (hs_dev h))\<rparr>) segs = ([e], segs', s')"
  obtains h' where "run_io dev cmd segs (h, s) = (Inr e, segs', h', s')" "host_ok h'"
proof -
  let ?q = "nd_io (hs_dev h)" and ?c = "hs_ctrl h"
  have ok: "cq_ok (?q, ?c)" "unread (?q, ?c) = []" using assms(1) by (auto simp: host_ok_def)
  have room: "posts_fit [e] (submitted ?q cmd, ?c)"
    using idle_not_full [of "submitted ?q cmd" ?c] submitted_ok ok by simp
  obtain r d' q' c' where sp: "nvfu_submit_poll [e] (hs_dev h) ?q ?c cmd = (r, d', q', c')" by (cases rule: prod_cases4)
  have "cq_ok (q', c') \<and> r = Inr e \<and> unread (q', c') = []" using submit_poll_cases [OF ok(1) room sp] ok(2) by simp
  then show thesis using that [of "\<lparr>hs_dev = d'\<lparr>nd_io := q'\<rparr>, hs_ctrl = c'\<rparr>"] sp assms(2) by (simp add: run_io_def host_ok_def Let_def)
qed

section \<open>The value's blocks\<close>

lemma blocks_slice:
  assumes "covers bs iova len" "len \<le> length buf"
  shows "concat (map (block_bytes iova buf) bs) = take len buf"
proof -
  let ?f = "\<lambda>x. buf ! (x - iova)"
  have sl: "take n (drop a buf) = map (\<lambda>i. buf ! i) [a..<a + n]" if "a + n \<le> length buf" for a n
    by (rule nth_equalityI) (use that in auto)
  have "block_bytes iova buf b = map ?f [fst b..<fst b + snd b]" if b: "b \<in> set bs" for b
  proof -
    have "set [fst b..<fst b + snd b] \<subseteq> set (concat (map (\<lambda>(a, n). [a..<a + n]) bs))" using b by (force split: prod.splits)
    then have s: "set [fst b..<fst b + snd b] \<subseteq> {iova..<iova + len}" using assms(1) unfolding covers_def by simp
    show ?thesis
    proof (cases "snd b")
      case (Suc n)
      then have r: "iova \<le> fst b" "fst b + snd b \<le> iova + len" using s by (auto simp: subset_eq)
      have "take (snd b) (drop (fst b - iova) buf) = map (\<lambda>i. buf ! i) [fst b - iova..<fst b - iova + snd b]"
        by (rule sl) (use r assms(2) in linarith)
      also have "\<dots> = map ?f [fst b..<fst b + snd b]" by (rule nth_equalityI) (use r in auto)
      finally show ?thesis by (simp add: block_bytes_def case_prod_beta)
    qed (simp add: block_bytes_def case_prod_beta)
  qed
  then have "concat (map (block_bytes iova buf) bs) = concat (map (\<lambda>b. map ?f [fst b..<fst b + snd b]) bs)" by (simp cong: map_cong)
  also have "\<dots> = map ?f (concat (map (\<lambda>(a, n). [a..<a + n]) bs))" by (simp add: map_concat comp_def case_prod_beta)
  also have "\<dots> = map ?f [iova..<iova + len]" using assms(1) unfolding covers_def by simp
  also have "\<dots> = take len buf" by (rule nth_equalityI) (use assms(2) in auto)
  finally show ?thesis .
qed

text \<open>The blocks the driver builds for a value: all of it, the first up to the region's end.\<close>

definition value_list :: "nat \<Rightarrow> nat \<Rightarrow> (nat \<times> nat) list" where
  "value_list iova n = sgl_loop (val_nseg iova n) iova n (first_chunk_of iova) 0"

lemma value_list_slice: "n < 2 ^ 32 \<Longrightarrow> n \<le> length buf \<Longrightarrow> concat (map (block_bytes iova buf) (value_list iova n)) = take n buf"
  using blocks_slice value_blocks unfolding value_list_def by blast

lemma value_list_first:
  assumes "0 < n" "n < 2 ^ 32"
  shows "\<exists>bs. value_list iova n = (iova, min n (first_chunk_of iova)) # bs"
proof -
  have "val_nseg iova n \<noteq> 0" using assms by (simp add: val_nseg_def nseg_of_def)
  then obtain m where "val_nseg iova n = Suc m" using not0_implies_Suc by blast
  then show ?thesis using assms by (auto simp: value_list_def Let_def u32_id min_def)
qed

section \<open>Store and Retrieve of the shim\<close>

lemma client_head: "length key \<le> 255 \<Longrightarrow> le_bytes 2 (u8 (length key)) @ take (u8 (length key)) key = encode_key key"
  by (simp add: encode_key_def u8_id)

lemma xfer_in_step:
  assumes "host_ok h" "ce_head env = Some hi" "ce_segs env" "length key \<le> 255"
    and "\<And>cmd. se_opc cmd = Hop_kv opc \<Longrightarrow> (opc = KV_STORE \<longrightarrow> se_ro cmd = ro) \<Longrightarrow>
      \<exists>e. dev s cmd (encode_key key # map (block_bytes iova buf) (value_list iova n)) = ([e], segs', s') \<and> cp_cdw0 e = dw \<and> cp_status e = st"
  shows "\<exists>e h'. nvfu_kv_xfer_sgl env dev nsid opc key buf n iova ro ttl (h, s) = (Inr e, memcpy_at 0 (concat (tl segs')) buf, h', s')
    \<and> cp_cdw0 e = dw \<and> cp_status e = st \<and> host_ok h'"
proof -
  define cmd0 where "cmd0 = (if opc = KV_STORE
    then (kv_cmd opc nsid n)\<lparr>se_ro := ro, se_cdw12 := (if bit ro store_opt_ttl_valid then ttl else 0)\<rparr> else kv_cmd opc nsid n)"
  define cmd where "cmd = cmd0\<lparr>se_sgl := Sgl_last_segment ((hi, 2 + length key) # value_list iova n)\<rparr>"
  have c0: "se_opc cmd0 = Hop_kv opc" "opc = KV_STORE \<longrightarrow> se_ro cmd0 = ro" by (simp_all add: cmd0_def kv_cmd_def)
  have len: "u8 (length key) = length key" using assms(4) by (simp add: u8_id)
  have d: "nvfu_sgl_set_dptr_kv (ce_segs env) cmd0 hi (2 + length key) iova n = Some cmd"
    using assms(3) by (simp add: nvfu_sgl_set_dptr_kv_def cmd_def value_list_def)
  obtain e where e: "dev s (cmd\<lparr>se_cid := nq_cid (nd_io (hs_dev h))\<rparr>) (encode_key key # map (block_bytes iova buf) (value_list iova n)) = ([e], segs', s')"
    "cp_cdw0 e = dw" "cp_status e = st"
    using assms(5) [of "cmd\<lparr>se_cid := nq_cid (nd_io (hs_dev h))\<rparr>"] c0 by (auto simp: cmd_def)
  obtain h' where h': "run_io dev cmd (encode_key key # map (block_bytes iova buf) (value_list iova n)) (h, s) = (Inr e, segs', h', s')" "host_ok h'"
    using run_in_step [OF assms(1), where dev = dev and s = s and cmd = cmd] e(1) by blast
  have b: "sgl_blocks (se_sgl cmd) = (hi, 2 + length key) # value_list iova n" by (simp add: cmd_def sgl_blocks_def)
  have "nvfu_kv_xfer_sgl env dev nsid opc key buf n iova ro ttl (h, s) = (Inr e, memcpy_at 0 (concat (tl segs')) buf, h', s')"
    unfolding nvfu_kv_xfer_sgl_def Let_def client_head [OF assms(4)] len cmd0_def [symmetric]
    using assms(2) d b h'(1) by (simp add: encode_key_def)
  then show ?thesis using e h'(2) by blast
qed

text \<open>A stack whose every part is healthy, over a pool seen as the map \<open>view\<close>.\<close>

definition healthy_stack :: "('r \<Rightarrow> string \<Rightarrow> bytes option) \<Rightarrow> ('r, 'a) executor stack \<Rightarrow> bool" where
  "healthy_stack view k = (\<exists>P fenv hg bk rd env. sk_kv k = kv_path P fenv hg bk \<and> hg_prims_ok P \<and> rados_ok rd view \<and> ee_alloc env
     \<and> bk_kv bk = nkvx_executor_kv env rd \<and> front_env_ok fenv \<and> hg_alloc hg 0
     \<and> be_calloc_ok (sk_benv k) \<and> (\<forall>n. be_malloc_ok (sk_benv k) n) \<and> (\<forall>r. be_front_rc (sk_benv k) r = 0)
     \<and> ch_front (sk_chan k) \<and> \<not> kd_read_only (sk_disk k))"

definition client_ready :: "client_env \<Rightarrow> bool" where
  "client_ready env = (\<exists>iova hi. ce_buf env = Some iova \<and> iova mod 4096 = 0 \<and> ce_head env = Some hi \<and> ce_segs env)"

abbreviation key_oid :: "bytes \<Rightarrow> string" where
  "key_oid k \<equiv> nkvx_key_to_oid (pad_key k) (length k)"

lemma page_chunk: "iova mod 4096 = 0 \<Longrightarrow> nkvx_inline_max \<le> first_chunk_of iova"
proof -
  assume a: "iova mod 4096 = 0"
  have "nvfu_dma_region mod 4096 = 0" by (simp add: nvfu_dma_region_def)
  then have "(iova mod nvfu_dma_region) mod 4096 = 0" using a by (simp add: nvfu_dma_region_def mod_mod_cancel)
  moreover have "iova mod nvfu_dma_region < nvfu_dma_region" using region_pos by simp
  ultimately have "iova mod nvfu_dma_region + 4096 \<le> nvfu_dma_region"
    by (auto simp: nvfu_dma_region_def dvd_def mod_eq_0_iff_dvd)
  then show ?thesis by (simp add: first_chunk(1) nkvx_inline_max_def)
qed

lemma shim_store:
  assumes "healthy_stack view k" "exec_inv view ex" "client_ready env" "host_ok h" "key_ok key" "length v \<le> nkvx_inline_max"
  shows "\<exists>h' ex'. nkvx_store_shim env (target_dev k) nsid key v 0 0 (h, ex) = (Inr (), h', ex') \<and> host_ok h' \<and> exec_inv view ex'
    \<and> view (ex_rados ex') = (view (ex_rados ex))(key_oid key \<mapsto> v)"
proof -
  obtain P fenv hg bk rd env' where st: "sk_kv k = kv_path P fenv hg bk" "hg_prims_ok P" "rados_ok rd view" "ee_alloc env'"
    "bk_kv bk = nkvx_executor_kv env' rd" "front_env_ok fenv" "hg_alloc hg 0"
    and b: "be_calloc_ok (sk_benv k)" "\<forall>n. be_malloc_ok (sk_benv k) n" "\<forall>r. be_front_rc (sk_benv k) r = 0" "ch_front (sk_chan k)"
    "\<not> kd_read_only (sk_disk k)" using assms(1) unfolding healthy_stack_def by blast
  obtain iova hi where c: "ce_buf env = Some iova" "ce_head env = Some hi" "ce_segs env" using assms(3) unfolding client_ready_def by blast
  have kl: "length key \<le> 255" using assms(5) by (simp add: key_ok_def exec_key_max_len_def)
  have small: "length v < 2 ^ 32" using assms(6) by (simp add: nkvx_inline_max_def)
  let ?buf = "memcpy_at 0 v (dma_zmalloc (max (length v) 1))"
  let ?segs = "encode_key key # map (block_bytes iova ?buf) (value_list iova (length v))"
  have "concat (map (block_bytes iova ?buf) (value_list iova (length v))) = v"
    using value_list_slice [OF small, of ?buf iova] by (simp add: memcpy_at_def dma_zmalloc_def)
  then have cat: "concat ?segs = encode_key key @ v" by simp
  let ?req = "Req_Store key False 0 (if v = [] then None else Some v) (length v)"
  obtain ex1 where p: "kv_path P fenv hg bk ?req ex = Some ((IO_SUCCESS, 0, []), ex1)"
    "view (ex_rados ex1) = (view (ex_rados ex))(key_oid key \<mapsto> v)" "exec_inv view ex1"
    using store_path [OF st(2,3) assms(2) st(4-7) assms(5,6)] by blast
  have dev: "\<exists>e. target_dev k ex cmd ?segs = ([e], ?segs, ex1) \<and> cp_cdw0 e = 0 \<and> cp_status e = (SCT_GENERIC, SC_SUCCESS)"
    if "se_opc cmd = Hop_kv KV_STORE" "KV_STORE = KV_STORE \<longrightarrow> se_ro cmd = 0" for cmd
  proof -
    have "ir_outcome (kvrados_handle_kv_io (sk_benv k) (sk_disk k) (sk_chan k) 0 (nvmf_cmd (sk_bits k) KV_STORE cmd) ?segs) = Forwarded ?req"
      using store_forward [OF _ b(5,4,1-3) assms(5) small cat, of "nvmf_cmd (sk_bits k) KV_STORE cmd" 0] that(2)
      by (simp add: nvmf_cmd_def kvrados_decode_store_flags_def has_flag_def)
    then show ?thesis using that(1) p(1) st(1)
      by (simp add: target_dev_def request_sink_def sink_write_def kvrados_kvdev_status_to_nvme_def Let_def)
  qed
  obtain e h' where x: "nvfu_kv_xfer_sgl env (target_dev k) nsid KV_STORE key ?buf (length v) iova 0 0 (h, ex)
      = (Inr e, memcpy_at 0 (concat (tl ?segs)) ?buf, h', ex1)" "cp_status e = (SCT_GENERIC, SC_SUCCESS)" "host_ok h'"
    using xfer_in_step [OF assms(4) c(2,3) kl, where dev = "target_dev k" and s = ex and opc = KV_STORE and ro = 0 and iova = iova and buf = ?buf
      and n = "length v" and segs' = ?segs and s' = ex1 and dw = 0 and st = "(SCT_GENERIC, SC_SUCCESS)" and nsid = nsid and ttl = 0] dev by blast
  then show ?thesis using c(1) p by (simp add: nkvx_store_shim_def status_ok_def)
qed

lemma retrieve_forwarded:
  assumes "be_calloc_ok benv" "\<forall>r. be_front_rc benv r = 0" "ch_front ch" "key_ok key" "cmd_opc cmd = KV_RETRIEVE"
    and "segs = encode_key key # b # bs" "b \<noteq> []" "length b < 2 ^ 32"
  shows "ir_outcome (kvrados_handle_kv_io benv d ch io cmd segs) = Forwarded (Req_Retrieve key (kd_read_only d) \<lparr>sk_addr = Some (1, 0), sk_len = length b\<rparr>)"
proof -
  have "kvrados_parse_inpayload_key segs (length (concat segs)) = Some (key, 2 + length key)"
    by (rule parse_encode_key [OF assms(4), where v = "b @ concat bs"]) (simp add: assms(6))
  moreover have "span_walk segs (2 + length key) 0 0 = Some (1, 0, length b)"
    using assms(7) by (simp add: assms(6) encode_key_def Let_def)
  moreover have "min (length b) uint32_max = length b" using assms(8) by (simp add: uint32_max_def)
  ultimately show ?thesis using assms(1-3,5)
    by (simp add: kvrados_handle_kv_io_def kv_retrieve_io_def kv_forward_def length_concat Let_def)
qed

lemma shim_retrieve:
  assumes "healthy_stack view k" "exec_inv view ex" "client_ready env" "host_ok h" "key_ok key" "length v \<le> nkvx_inline_max"
    and "view (ex_rados ex) (key_oid key) = Some v" "0 < out_len" "out_len < 2 ^ 32"
  shows "\<exists>h' ex'. nkvx_retrieve_shim env (target_dev k) nsid key out_len (h, ex) = (if length v \<le> out_len then Inr (length v, v) else Inl e_eio, h', ex')
    \<and> host_ok h' \<and> exec_inv view ex' \<and> view (ex_rados ex') = view (ex_rados ex)"
proof -
  obtain P fenv hg bk rd env' where st: "sk_kv k = kv_path P fenv hg bk" "hg_prims_ok P" "rados_ok rd view" "ee_alloc env'"
    "bk_kv bk = nkvx_executor_kv env' rd" "front_env_ok fenv" "hg_alloc hg 0"
    and b: "be_calloc_ok (sk_benv k)" "\<forall>r. be_front_rc (sk_benv k) r = 0" "ch_front (sk_chan k)" "\<not> kd_read_only (sk_disk k)"
    using assms(1) unfolding healthy_stack_def by blast
  obtain iova hi where c: "ce_buf env = Some iova" "ce_head env = Some hi" "ce_segs env" "iova mod 4096 = 0"
    using assms(3) unfolding client_ready_def by auto
  have kl: "length key \<le> 255" using assms(5) by (simp add: key_ok_def exec_key_max_len_def)
  let ?buf = "dma_zmalloc (max out_len 1)"
  define m where "m = min out_len (first_chunk_of iova)"
  obtain bs where vl: "value_list iova out_len = (iova, m) # bs" using value_list_first [OF assms(8,9)] m_def by blast
  let ?b = "block_bytes iova ?buf (iova, m)"
  let ?segs = "encode_key key # ?b # map (block_bytes iova ?buf) bs"
  have mb: "0 < m" "m \<le> out_len" "m < 2 ^ 32" using assms(8,9) first_chunk(2) [of iova] by (auto simp: m_def)
  have bl: "?b = replicate m 0" using mb(2) by (auto simp: block_bytes_def dma_zmalloc_def min_def)
  have fits: "length v \<le> m \<longleftrightarrow> length v \<le> out_len" using page_chunk [OF c(4)] assms(6) by (simp add: m_def)
  have cat: "?b @ concat (map (block_bytes iova ?buf) bs) = replicate out_len 0"
    using value_list_slice [OF assms(9), of ?buf iova] by (simp add: vl dma_zmalloc_def min_def)
  let ?sk = "\<lparr>sk_addr = Some (1, 0), sk_len = m\<rparr>"
  obtain ex2 where p: "kv_path P fenv hg bk (Req_Retrieve key False ?sk) ex
      = Some ((if length v > m then IO_BUFFER_TOO_SMALL else IO_SUCCESS, length v, take m v), ex2)"
    "view (ex_rados ex2) = view (ex_rados ex)" "exec_inv view ex2"
    using retrieve_path [OF st(2,3) assms(2) st(4-7) assms(5,6) _ _ assms(7), of ?sk False] mb(3) by auto
  define st' where "st' = kvrados_kvdev_status_to_nvme (if length v > m then IO_BUFFER_TOO_SMALL else IO_SUCCESS)"
  let ?segs' = "sink_write ?sk (take m v) ?segs"
  have dev: "\<exists>e. target_dev k ex cmd (encode_key key # map (block_bytes iova ?buf) (value_list iova out_len)) = ([e], ?segs', ex2)
      \<and> cp_cdw0 e = length v \<and> cp_status e = st'"
    if "se_opc cmd = Hop_kv KV_RETRIEVE" for cmd
  proof -
    have "ir_outcome (kvrados_handle_kv_io (sk_benv k) (sk_disk k) (sk_chan k) 0 (nvmf_cmd (sk_bits k) KV_RETRIEVE cmd) ?segs)
        = Forwarded (Req_Retrieve key False ?sk)"
      using retrieve_forwarded [OF b(1-3) assms(5), of "nvmf_cmd (sk_bits k) KV_RETRIEVE cmd" ?segs ?b] b(4) bl mb by (simp add: nvmf_cmd_def)
    then show ?thesis using that p(1) st(1) by (simp add: target_dev_def request_sink_def vl st'_def Let_def)
  qed
  obtain e h' where x: "nvfu_kv_xfer_sgl env (target_dev k) nsid KV_RETRIEVE key ?buf out_len iova 0 0 (h, ex)
      = (Inr e, memcpy_at 0 (concat (tl ?segs')) ?buf, h', ex2)" "cp_cdw0 e = length v" "cp_status e = st'" "host_ok h'"
    using xfer_in_step [OF assms(4) c(2,3) kl, where dev = "target_dev k" and s = ex and opc = KV_RETRIEVE and ro = 0 and iova = iova and buf = ?buf
      and n = out_len and segs' = ?segs' and s' = ex2 and dw = "length v" and st = st' and nsid = nsid and ttl = 0] dev by blast
  have "take (length v) (memcpy_at 0 (concat (tl ?segs')) ?buf) = v" if "length v \<le> m"
    using that by (simp add: sink_write_def memcpy_at_def)
  moreover have "status_ok st' = (length v \<le> m)" by (simp add: st'_def status_ok_def kvrados_kvdev_status_to_nvme_def)
  ultimately show ?thesis using x c(1) p fits by (auto simp: nkvx_retrieve_shim_def)
qed

text \<open>The same through the session.\<close>

lemma session_store_ok:
  assumes "healthy_stack view k" "exec_inv view ex" "client_ready env" "host_ok h" "key_ok key" "0 \<notin> set key" "length v \<le> nkvx_inline_max"
  obtains h' ex' where "session_store env (target_dev k) nsid key v (h, ex) = (Inr (), h', ex')" "host_ok h'" "exec_inv view ex'"
    "view (ex_rados ex') = (view (ex_rados ex))(key_oid key \<mapsto> v)"
proof -
  have "u32 (length v) = length v" using assms(7) by (simp add: nkvx_inline_max_def u32_def)
  then show thesis using that shim_store [OF assms(1-5,7), of nsid] assms(6) by (auto simp: session_store_def session_store_opts_def)
qed

lemma session_retrieve_ok:
  assumes "healthy_stack view k" "exec_inv view ex" "client_ready env" "host_ok h" "key_ok key" "0 \<notin> set key" "length v \<le> nkvx_inline_max"
    and "view (ex_rados ex) (key_oid key) = Some v"
  obtains h' ex' where "session_retrieve env (target_dev k) nsid key (h, ex) = (Inr v, h', ex')" "host_ok h'" "exec_inv view ex'"
    "view (ex_rados ex') = view (ex_rados ex)"
proof -
  have v: "length v \<le> retrieve_hint" "u32 retrieve_hint = retrieve_hint" "0 < retrieve_hint" "retrieve_hint < 2 ^ 32"
    using assms(7) by (simp_all add: nkvx_inline_max_def retrieve_hint_def u32_def)
  show thesis using that shim_retrieve [OF assms(1-5,7,8) v(3,4), of nsid] v(1,2) assms(6)
    by (auto simp: session_retrieve_def probe_and_retry_def retrieve_raw_def into_buf_def memcpy_at_def)
qed

section \<open>A concrete client\<close>

definition stack_ex :: "((string \<times> bytes) list, unit) executor stack" where
  "stack_ex = \<lparr>sk_bits = (0, 1), sk_benv = env_ok, sk_disk = disk_example, sk_chan = channel_example,
     sk_kv = kv_path handle_prims front_env_path hg_path backend_path\<rparr>"

definition client_ex :: client_env where
  "client_ex = \<lparr>ce_buf = Some 8192, ce_head = Some 4096, ce_segs = True\<rparr>"

definition host_ex :: host where
  "host_ex = \<lparr>hs_dev = dev_ex, hs_ctrl = fresh_ctrl\<rparr>"

lemma client_ex_ok: "healthy_stack map_of stack_ex" "exec_inv map_of executor_ex" "client_ready client_ex" "host_ok host_ex"
proof -
  show "healthy_stack map_of stack_ex"
    unfolding healthy_stack_def
    by (intro exI [of _ handle_prims] exI [of _ front_env_path] exI [of _ hg_path] exI [of _ backend_path] exI [of _ alist_rados]
        exI [of _ exec_env_ex]) (simp add: stack_ex_def path_ok path_examples bdev_examples)
  show "client_ready client_ex" by (simp add: client_ready_def client_ex_def)
  show "host_ok host_ex"
    by (auto simp: host_ok_def host_ex_def dev_ex_def queue_ex_def cq_ok_def unread_def fresh_ctrl_def nth_Cons split: nat.splits)
qed (rule executor_ex_inv)

section \<open>The client's guarantees\<close>



text \<open>
  A short read is an error, not a truncation. When the value is longer than the buffer the client
  offers, the forwarder completes the Retrieve with a nonzero status and the shim reports an I/O error:
  neither the bytes that fit nor the true length, on which the session's retry rests, reach the caller.
\<close>

theorem short_read_fails:
  assumes "healthy_stack view k" "exec_inv view ex" "client_ready env" "host_ok h" "key_ok key" "length v \<le> nkvx_inline_max"
    and "view (ex_rados ex) (key_oid key) = Some v" "0 < out_len" "out_len < length v"
  shows "fst (nkvx_retrieve_shim env (target_dev k) nsid key out_len (h, ex)) = Inl e_eio"
proof -
  have "out_len < 2 ^ 32" using assms(6,9) by (simp add: nkvx_inline_max_def)
  from shim_retrieve [OF assms(1-8) this, of nsid] assms(9) show ?thesis by auto
qed

theorem short_read_fails_witness:
  "fst (nkvx_retrieve_shim client_ex (target_dev stack_ex) 1 [107] 2 (host_ex, executor_ex)) = Inl e_eio"
proof -
  have "key_oid [107] = ''6b''" using take_pad_key [of "[107]"] by (simp add: nkvx_key_to_oid_def hex_digits_def)
  then have "map_of (ex_rados executor_ex) (key_oid [107]) = Some [1, 2, 3]" by (simp add: executor_ex_def)
  from short_read_fails [OF client_ex_ok _ _ this, of 2 1] show ?thesis by (simp add: key_ok_def exec_key_max_len_def nkvx_inline_max_def)
qed

text \<open>
  Long keys alias. Whatever the target does, the client's operations on a key of more than 255
  bytes are the operations on its first bytes, their number being the key's length modulo 256: distinct
  keys are stored over each other.
\<close>

theorem long_key_aliases:
  assumes "0 \<notin> set key"
  shows "session_store env dev nsid key v hs = session_store env dev nsid (take (length key mod 256) key) v hs
    \<and> session_retrieve env dev nsid key hs = session_retrieve env dev nsid (take (length key mod 256) key) hs"
proof -
  let ?k = "take (length key mod 256) key"
  have l: "length ?k = length key mod 256" by simp
  have u: "u8 (length ?k) = u8 (length key)" unfolding l by (simp add: u8_def)
  have t: "take (u8 (length key)) ?k = take (u8 (length key)) key" by (simp add: u8_def)
  have x: "nvfu_kv_xfer_sgl env dev nsid opc key = nvfu_kv_xfer_sgl env dev nsid opc ?k" for opc
    by (intro ext) (unfold nvfu_kv_xfer_sgl_def Let_def u t, rule refl)
  have "nkvx_store_shim env dev nsid key = nkvx_store_shim env dev nsid ?k" by (intro ext) (simp only: nkvx_store_shim_def x)
  moreover have "nkvx_retrieve_shim env dev nsid key = nkvx_retrieve_shim env dev nsid ?k" by (intro ext) (simp only: nkvx_retrieve_shim_def x)
  then have "retrieve_raw env dev nsid key = retrieve_raw env dev nsid ?k" by (intro ext) (simp only: retrieve_raw_def)
  moreover have "0 \<notin> set ?k" using assms in_set_takeD by metis
  ultimately show ?thesis using assms by (simp only: session_store_def session_store_opts_def session_retrieve_def if_False)
qed

theorem long_key_aliases_witness:
  "session_store client_ex (target_dev stack_ex) 1 (replicate 257 65) [9] (host_ex, executor_ex)
    = session_store client_ex (target_dev stack_ex) 1 [65] [9] (host_ex, executor_ex)"
  using conjunct1 [OF long_key_aliases [of "replicate 257 65" client_ex "target_dev stack_ex" 1 "[9]" "(host_ex, executor_ex)"]]
  by (simp only: length_replicate take_replicate) simp

section \<open>Exec through the client\<close>

lemma exec_sink_head:
  assumes "concat iovs = e @ rest"
  shows "\<exists>rest'. concat (sink_write (exec_sink iovs (length e) osize) bs iovs) = e @ rest'"
proof (cases iovs)
  case (Cons seg iovs')
  have "take (length e) (seg @ concat iovs') = e" using assms Cons by simp
  then have "length (seg) > length e \<Longrightarrow> take (length e) seg = e" by simp
  then show ?thesis using assms Cons by (auto simp: exec_sink_def sink_write_def memcpy_at_def)
qed (use assms in \<open>simp add: exec_sink_def sink_write_def\<close>)

lemma exec_dispatch_iovs:
  "\<exists>bs. ir_iovs (exec_dispatch env d ch io xr iovs) = sink_write (xr_sink xr) bs iovs \<or> ir_iovs (exec_dispatch env d ch io xr iovs) = iovs"
  by (auto simp: exec_dispatch_def kvrados_exec_complete_def Let_def split: prod.splits)

lemma exec_dispatch_request:
  "ir_outcome (exec_dispatch env d ch io xr iovs) = Forwarded req \<Longrightarrow> req = Req_Exec xr"
  by (auto simp: exec_dispatch_def kvrados_exec_complete_def Let_def split: prod.splits if_splits)

text \<open>Whatever an Exec command does, the key head at the start of its payload is still there afterwards.\<close>

lemma exec_keeps_head:
  assumes "key_ok key" "concat iovs = encode_key key @ rest" "cmd_opc cmd = KV_EXEC"
    and "r = kvrados_handle_kv_io benv d ch io cmd iovs"
  shows "(\<exists>rest'. concat (ir_iovs r) = encode_key key @ rest')
    \<and> (\<forall>req. ir_outcome r = Forwarded req \<longrightarrow> (\<exists>osize. request_sink req = exec_sink iovs (length (encode_key key)) osize))"
proof -
  have pl: "sum_list (map length iovs) = length (concat iovs)" by (simp add: length_concat)
  have r: "r = kvrados_handle_exec benv d ch io cmd key (2 + length key) (length (concat iovs)) iovs"
    using parse_encode_key [OF assms(1,2)] assms(3,4) by (simp add: kvrados_handle_kv_io_def pl Let_def)
  show ?thesis
  proof (cases "ir_iovs r = iovs \<and> (\<exists>dw st. ir_outcome r = Completed dw st)")
    case True
    then show ?thesis using assms(2) by auto
  next
    case False
    then obtain xr osize where x: "r = exec_dispatch benv d ch io xr iovs" "xr_sink xr = exec_sink iovs (length (encode_key key)) osize"
      unfolding r kvrados_handle_exec_def Let_def by (auto split: option.splits sum.splits prod.splits if_splits)
    then show ?thesis
      using exec_dispatch_iovs [of benv d ch io xr iovs] exec_sink_head [OF assms(2), of osize] assms(2) exec_dispatch_request [of benv d ch io xr iovs]
      by (auto simp: request_sink_def)
  qed
qed

lemma target_keeps_head:
  assumes "key_ok key" "concat segs = encode_key key @ rest" "se_opc cmd = Hop_kv KV_EXEC" "target_dev k s cmd segs = (posts, segs', s')"
  shows "\<exists>rest'. concat segs' = encode_key key @ rest'"
proof -
  let ?r = "kvrados_handle_kv_io (sk_benv k) (sk_disk k) (sk_chan k) 0 (nvmf_cmd (sk_bits k) KV_EXEC cmd) segs"
  have h: "\<exists>rest'. concat (ir_iovs ?r) = encode_key key @ rest'"
    "ir_outcome ?r = Forwarded req \<Longrightarrow> \<exists>osize. request_sink req = exec_sink segs (length (encode_key key)) osize" for req
    using exec_keeps_head [OF assms(1,2) _ refl, where cmd = "nvmf_cmd (sk_bits k) KV_EXEC cmd"] by (auto simp: nvmf_cmd_def)
  show ?thesis
  proof (cases "ir_outcome ?r")
    case (Completed dw st)
    then show ?thesis using assms(3,4) h(1) by (simp add: target_dev_def Let_def)
  next
    case (Forwarded req)
    then obtain osize where "request_sink req = exec_sink segs (length (encode_key key)) osize" using h(2) by blast
    then show ?thesis using assms(2-4) Forwarded exec_sink_head [OF assms(2), of osize]
      by (auto simp: target_dev_def Let_def split: option.splits)
  qed
qed

lemma take_front: "take (length e) (take m (e @ r)) = take (length (take m (e @ r))) e"
  by (cases "m \<le> length e") auto

text \<open>What an Exec of the shim that succeeds has done.\<close>

lemma exec_shim_success:
  assumes "length key \<le> 255" "length input < 2 ^ 31" "nkvx_exec_shim env dev nsid key op_id input out_len hs = (Inr (n, out), hs')"
    and "buf = memcpy_at 0 (encode_key key @ input) (dma_zmalloc (max out_len 4096))" "len = max (2 + length key + length input) out_len"
  shows "\<exists>iova cmd cmd' segs'. 2 + length key + length input \<le> max out_len 4096 \<and> se_opc cmd = Hop_kv KV_EXEC
    \<and> nvfu_sgl_set_dptr (ce_segs env) cmd iova len = Some cmd'
    \<and> fst (snd (run_io dev cmd' (map (block_bytes iova buf) (sgl_blocks (se_sgl cmd'))) hs)) = segs'
    \<and> out = take (min n out_len) (memcpy_at 0 (concat segs') buf)"
proof -
  have pl: "u32 (2 + length key + length input) = 2 + length key + length input" using assms(1,2) by (simp add: u32_id)
  have u8k: "u8 (length key) = length key" using assms(1) by (simp add: u8_id)
  have head: "le_bytes 2 (length key) @ take (length key) key @ input = encode_key key @ input" by (simp add: encode_key_def)
  define cmd where "cmd = (kv_cmd KV_EXEC nsid (2 + length key + length input))\<lparr>se_cdw12 := out_len, se_cdw13 := op_id\<rparr>"
  obtain iova where x: "2 + length key + length input \<le> max out_len 4096" and
    "(case xfer_buf env dev iova cmd buf len hs of
        (Inl e, buf, hs') \<Rightarrow> (Inl e, hs') | (Inr (Inl e), buf, hs') \<Rightarrow> (Inl e_eio, hs')
      | (Inr (Inr e), buf, hs') \<Rightarrow> (if status_ok (cp_status e) then Inr (cp_cdw0 e, take (min (cp_cdw0 e) out_len) buf) else Inl e_eio, hs'))
      = (Inr (n, out), hs')"
    using assms(3) unfolding nkvx_exec_shim_def exec_xfer_def Let_def u8k pl head assms(4) [symmetric] assms(5) [symmetric] cmd_def [symmetric]
    by (auto split: if_splits option.splits)
  then obtain e buf' where "xfer_buf env dev iova cmd buf len hs = (Inr (Inr e), buf', hs')" "n = cp_cdw0 e" "out = take (min n out_len) buf'"
    by (auto split: prod.splits sum.splits if_splits)
  then obtain cmd' segs' where "nvfu_sgl_set_dptr (ce_segs env) cmd iova len = Some cmd'"
    "run_io dev cmd' (map (block_bytes iova buf) (sgl_blocks (se_sgl cmd'))) hs = (Inr e, segs', hs')"
    "out = take (min n out_len) (memcpy_at 0 (concat segs') buf)"
    by (auto simp: xfer_buf_def split: option.splits prod.splits)
  moreover have "se_opc cmd = Hop_kv KV_EXEC" by (simp add: cmd_def kv_cmd_def)
  ultimately show ?thesis using x by (intro exI [of _ iova] exI [of _ cmd] exI [of _ cmd'] exI [of _ segs']) simp
qed

text \<open>
  C39. The result of an Exec is returned with the request in front of it. The client reads the result
  from the start of the buffer it shares with the request, while the bdev has it written after the key:
  whatever operation ran and whatever it returned, an Exec that succeeds hands its caller bytes that
  begin with the key's length and the key.
\<close>

theorem exec_result_misplaced:
  assumes "key_ok key" "length input < 2 ^ 31" "out_len < 2 ^ 32"
    and "nkvx_exec_shim env (target_dev k) nsid key op_id input out_len hs = (Inr (n, out), hs')"
  shows "take (2 + length key) out = take (length out) (encode_key key)"
proof -
  obtain h s where hs: "hs = (h, s)" by fastforce
  have kl: "length key \<le> 255" using assms(1) by (simp add: key_ok_def exec_key_max_len_def)
  define buf where "buf = memcpy_at 0 (encode_key key @ input) (dma_zmalloc (max out_len 4096))"
  define len where "len = max (2 + length key + length input) out_len"
  obtain iova cmd cmd' segs' where x: "2 + length key + length input \<le> max out_len 4096" "se_opc cmd = Hop_kv KV_EXEC"
    "nvfu_sgl_set_dptr (ce_segs env) cmd iova len = Some cmd'"
    "fst (snd (run_io (target_dev k) cmd' (map (block_bytes iova buf) (sgl_blocks (se_sgl cmd'))) hs)) = segs'"
    "out = take (min n out_len) (memcpy_at 0 (concat segs') buf)"
    using exec_shim_success [OF kl assms(2,4) buf_def len_def] by blast
  let ?segs = "map (block_bytes iova buf) (sgl_blocks (se_sgl cmd'))"
  have l: "0 < len" "len < 2 ^ 32" "len \<le> length buf" using x(1) assms(2,3) kl by (auto simp: len_def buf_def memcpy_at_def dma_zmalloc_def)
  have "concat ?segs = take len buf" using blocks_slice set_dptr_blocks [OF l(1,2) x(3)] l(3) by blast
  also have "\<dots> = encode_key key @ take (len - (2 + length key)) (drop (2 + length key) buf)" by (simp add: buf_def memcpy_at_def len_def)
  finally have segs: "concat ?segs = encode_key key @ take (len - (2 + length key)) (drop (2 + length key) buf)" .
  obtain posts s' where d: "target_dev k s (cmd'\<lparr>se_cid := nq_cid (nd_io (hs_dev h))\<rparr>) ?segs = (posts, segs', s')"
    using x(4) by (auto simp: hs run_io_def Let_def split: prod.splits)
  have "se_opc cmd' = Hop_kv KV_EXEC" using x(2,3) by (auto simp: nvfu_sgl_set_dptr_def split: if_splits)
  with target_keeps_head [OF assms(1) segs _ d] obtain rest' where "concat segs' = encode_key key @ rest'" by auto
  then have "out = take (min n out_len) (encode_key key @ (rest' @ drop (length (concat segs')) buf))" by (simp add: x(5) memcpy_at_def)
  then show ?thesis using take_front [of "encode_key key" "min n out_len"] unfolding length_encode_key by blast
qed

text \<open>The operation answers 5, and the caller is handed the key's length, the key and then the 5.\<close>

definition stack_exec :: "unit stack" where
  "stack_exec = \<lparr>sk_bits = (0, 1), sk_benv = env_ok, sk_disk = disk_forward_example, sk_chan = channel_example,
     sk_kv = \<lambda>req s. Some ((IO_SUCCESS, 4, [5]), s)\<rparr>"

lemma stack_exec_forwards:
  "\<exists>xr. ir_outcome (kvrados_handle_kv_io env_ok disk_forward_example channel_example 0 cmd [[1, 0, 0xca, 7]]) = Forwarded (Req_Exec xr)
    \<and> xr_sink xr = \<lparr>sk_addr = Some (0, 3), sk_len = 1\<rparr>"
  if "cmd_opc cmd = KV_EXEC" "cmd_cdw12 cmd = 4" "cmd_cdw13 cmd = 9"
proof -
  have "kvrados_parse_inpayload_key [[1, 0, 0xca, 7]] (length (concat [[1, 0, 0xca, 7 :: byte]])) = Some ([0xca], 2 + length [0xca :: byte])"
    by (rule parse_encode_key [where v = "[7]"]) (simp_all add: key_ok_def exec_key_max_len_def encode_key_def le_bytes_2)
  then have "kvrados_parse_inpayload_key [[1, 0, 0xca, 7]] (Suc (Suc (Suc (Suc 0)))) = Some ([0xca], 3)" by simp
  then show ?thesis using that
    by (simp add: kvrados_handle_kv_io_def kvrados_handle_exec_def exec_dispatch_def disk_forward_example_def
        bdev_examples spdk_kv_exec_decode_def kvrados_resolve_binding_def has_structured_def caps_tier_max_def
        exec_input_def exec_sink_def kvrados_native_builtin_exec_def uint32_max_def u32_def)
qed

theorem exec_result_misplaced_witness:
  "\<exists>out hs'. nkvx_exec_shim client_ex (target_dev stack_exec) 1 [0xca] 9 [7] 4 (host_ex, ()) = (Inr (4, out), hs') \<and> take 3 out = [1, 0, 0xca]"
proof -
  let ?buf = "memcpy_at 0 [1, 0, 0xca, 7] (dma_zmalloc (max 4 4096))"
  let ?cmd = "(kv_cmd KV_EXEC 1 4)\<lparr>se_cdw12 := 4, se_cdw13 := 9, se_sgl := Sgl_data_block 8192 4\<rparr>"
  let ?e = "\<lparr>cp_cdw0 = 4, cp_cid = nq_cid (nd_io (hs_dev host_ex)), cp_status = (SCT_GENERIC, SC_SUCCESS)\<rparr>"
  have seg: "block_bytes 8192 ?buf (8192, 4) = [1, 0, 0xca, 7]" by (simp add: block_bytes_def memcpy_at_def)
  have "target_dev stack_exec () (?cmd\<lparr>se_cid := nq_cid (nd_io (hs_dev host_ex))\<rparr>) [[1, 0, 0xca, 7]] = ([?e], [[1, 0, 0xca, 5]], ())"
    using stack_exec_forwards [of "nvmf_cmd (0, 1) KV_EXEC (?cmd\<lparr>se_cid := nq_cid (nd_io (hs_dev host_ex))\<rparr>)"]
    by (auto simp: target_dev_def stack_exec_def kv_cmd_def nvmf_cmd_def request_sink_def sink_write_def memcpy_at_def
        kvrados_kvdev_status_to_nvme_def Let_def)
  then obtain h' where r: "run_io (target_dev stack_exec) ?cmd [[1, 0, 0xca, 7]] (host_ex, ()) = (Inr ?e, [[1, 0, 0xca, 5]], h', ())"
    using run_in_step [OF client_ex_ok(4), where dev = "target_dev stack_exec" and s = "()"] by blast
  have d: "nvfu_sgl_set_dptr True ((kv_cmd KV_EXEC 1 4)\<lparr>se_cdw12 := 4, se_cdw13 := 9\<rparr>) 8192 4 = Some ?cmd"
    using page_chunk [of 8192] by (simp add: nvfu_sgl_set_dptr_def nkvx_inline_max_def)
  have "xfer_buf client_ex (target_dev stack_exec) 8192 ((kv_cmd KV_EXEC 1 4)\<lparr>se_cdw12 := 4, se_cdw13 := 9\<rparr>) ?buf 4 (host_ex, ())
      = (Inr (Inr ?e), memcpy_at 0 [1, 0, 0xca, 5] ?buf, h', ())"
    using d r seg by (simp add: xfer_buf_def client_ex_def sgl_blocks_def)
  then have "\<exists>out. nkvx_exec_shim client_ex (target_dev stack_exec) 1 [0xca] 9 [7] 4 (host_ex, ()) = (Inr (4, out), h', ()) \<and> 3 \<le> length out"
    by (simp add: nkvx_exec_shim_def exec_xfer_def client_ex_def status_ok_def u8_def u32_def le_bytes_2 memcpy_at_def)
  then obtain out where o: "nkvx_exec_shim client_ex (target_dev stack_exec) 1 [0xca] 9 [7] 4 (host_ex, ()) = (Inr (4, out), h', ())" "3 \<le> length out" by blast
  from exec_result_misplaced [OF _ _ _ o(1)] o(2) have "take 3 out = [1, 0, 0xca]"
    by (simp add: key_ok_def exec_key_max_len_def encode_key_def le_bytes_2)
  with o(1) show ?thesis by blast
qed

end
