(* ===== verification/ResultCache.thy ===== *)
theory ResultCache
  imports Wasm MemStore
begin

text \<open>
  The result cache of \<^verbatim>\<open>target/kvdev_rados_nkvx.c\<close>: the key of a request, the lookup before a
  run, the insertion after it, the reset, and the least-recently-used bound.

  OpenSSL's digest is a parameter, \<^const>\<open>None\<close> where one of its calls fails; \<open>result_env\<close> holds the two
  environment variables and what the allocator answers. The mutex is held over each operation, so each
  is one step.
\<close>

section \<open>State\<close>

record result_stats =
  rs_hits :: nat
  rs_misses :: nat
  rs_inserts :: nat
  rs_evictions :: nat

record result_entry =
  re_key :: bytes
  re_status :: io_status
  re_result_len :: nat
  re_bytes_len :: nat
  re_bytes :: bytes

record result_cache =
  rc_entries :: "result_entry list"
  rc_count :: nat
  rc_max :: nat
  rc_inited :: bool
  rc_enabled :: bool
  rc_stats :: result_stats

record result_env =
  rv_enable :: "string option"
  rv_max :: "string option"
  rv_malloc :: bool
  rv_calloc :: bool

definition result_stats_zero :: result_stats where
  "result_stats_zero = \<lparr>rs_hits = 0, rs_misses = 0, rs_inserts = 0, rs_evictions = 0\<rparr>"

text \<open>The zeroed static object.\<close>

definition result_static :: result_cache where
  "result_static = \<lparr>rc_entries = [], rc_count = 0, rc_max = 0, rc_inited = False, rc_enabled = False, rc_stats = result_stats_zero\<rparr>"

definition result_cache_max_default :: nat where
  "result_cache_max_default = 1024"

text \<open>\<^verbatim>\<open>strtoull\<close> with base 10, \<^const>\<open>None\<close> where no digit was read; a value past 64 bits saturates.\<close>

definition strtoull_base10 :: "string \<Rightarrow> nat option" where
  "strtoull_base10 str =
    (let s1 = dropWhile is_space str;
         s2 = (if take 1 s1 = ''-'' \<or> take 1 s1 = ''+'' then drop 1 s1 else s1);
         n = fst (digits_acc 10 s2 0) in
     if s2 = [] \<or> \<not> digit_val (hd s2) < 10 then None
     else Some (if n \<ge> 2 ^ 64 then 2 ^ 64 - 1 else if take 1 s1 = ''-'' then (2 ^ 64 - n) mod 2 ^ 64 else n))"

definition nkvx_result_init_once :: "result_env \<Rightarrow> result_cache \<Rightarrow> result_cache" where
  "nkvx_result_init_once env c =
    (if rc_inited c then c
     else c\<lparr>rc_entries := [],
       rc_enabled := (case rv_enable env of None \<Rightarrow> True | Some s \<Rightarrow> s = [] \<or> hd s \<notin> {CHR ''0'', CHR ''n'', CHR ''N'', CHR ''f'', CHR ''F''}),
       rc_max := (case rv_max env of None \<Rightarrow> result_cache_max_default
                  | Some s \<Rightarrow> (case strtoull_base10 s of None \<Rightarrow> result_cache_max_default | Some v \<Rightarrow> v)),
       rc_inited := True\<rparr>)"

definition nkvx_result_cache_enabled :: "result_env \<Rightarrow> result_cache \<Rightarrow> bool \<times> result_cache" where
  "nkvx_result_cache_enabled env c = (let c1 = nkvx_result_init_once env c in (rc_enabled c1, c1))"

definition nkvx_result_get_stats :: "result_env \<Rightarrow> result_cache \<Rightarrow> result_stats \<times> result_cache" where
  "nkvx_result_get_stats env c = (let c1 = nkvx_result_init_once env c in (rc_stats c1, c1))"

definition nkvx_result_cache_reset :: "result_env \<Rightarrow> result_cache \<Rightarrow> result_cache" where
  "nkvx_result_cache_reset env c =
    nkvx_result_init_once env ((nkvx_result_init_once env c)\<lparr>rc_entries := [], rc_count := 0, rc_stats := result_stats_zero, rc_inited := False\<rparr>)"

section \<open>The key of a request\<close>

text \<open>A component as it enters the digest: its length in eight bytes, then its bytes unless the pointer is NULL.\<close>

definition nkvx_result_hash_update :: "bytes option \<Rightarrow> nat \<Rightarrow> bytes" where
  "nkvx_result_hash_update buf len = le_bytes 8 len @ (case buf of Some b \<Rightarrow> (if len > 0 then take len b else []) | None \<Rightarrow> [])"

definition name_bytes :: "string \<Rightarrow> bytes" where
  "name_bytes s = map (\<lambda>c. word_of_nat (of_char c)) s"

definition result_preimage :: "string \<Rightarrow> bytes option \<Rightarrow> bytes \<Rightarrow> bytes option \<Rightarrow> nat \<Rightarrow> bytes" where
  "result_preimage module mod_sha256 obj_hash input input_len =
    nkvx_result_hash_update (Some (name_bytes module)) (length module)
    @ nkvx_result_hash_update (Some [if mod_sha256 \<noteq> None then 1 else 0]) 1
    @ (case mod_sha256 of None \<Rightarrow> [] | Some sha \<Rightarrow> nkvx_result_hash_update (Some sha) sha256_len)
    @ nkvx_result_hash_update (Some obj_hash) sha256_len
    @ nkvx_result_hash_update input input_len"

definition nkvx_result_key :: "(bytes \<Rightarrow> bytes option) \<Rightarrow> bool \<Rightarrow> string option \<Rightarrow> bytes option \<Rightarrow> bytes \<Rightarrow> bytes option \<Rightarrow> nat \<Rightarrow> errno + bytes" where
  "nkvx_result_key digest ctx_new module mod_sha256 object input input_len =
    (case module of
       None \<Rightarrow> Inl E_INVAL
     | Some name \<Rightarrow>
         (case digest object of
            None \<Rightarrow> Inl (E_OTHER 5)
          | Some obj_hash \<Rightarrow>
              if length obj_hash \<noteq> sha256_len then Inl (E_OTHER 5)
              else if \<not> ctx_new then Inl E_NOMEM
              else case digest (result_preimage name mod_sha256 obj_hash input input_len) of
                None \<Rightarrow> Inl (E_OTHER 5)
              | Some d \<Rightarrow> if length d \<noteq> sha256_len then Inl (E_OTHER 5) else Inr d))"

section \<open>Lookup and insertion\<close>

definition nkvx_result_lookup_locked :: "result_cache \<Rightarrow> bytes \<Rightarrow> result_entry option" where
  "nkvx_result_lookup_locked c key = find (\<lambda>e. re_key e = key) (rc_entries c)"

definition result_touch :: "result_entry \<Rightarrow> result_cache \<Rightarrow> result_cache" where
  "result_touch e c = c\<lparr>rc_entries := remove1 e (rc_entries c) @ [e]\<rparr>"

definition nkvx_result_lookup :: "result_env \<Rightarrow> bytes option \<Rightarrow> nat \<Rightarrow> result_cache \<Rightarrow> (io_status \<times> nat \<times> bytes) option \<times> result_cache" where
  "nkvx_result_lookup env key out_len c =
    (case key of
       None \<Rightarrow> (None, c)
     | Some k \<Rightarrow>
         let c1 = nkvx_result_init_once env c in
         if \<not> rc_enabled c1 then (None, c1)
         else case nkvx_result_lookup_locked c1 k of
           None \<Rightarrow> (None, c1\<lparr>rc_stats := (rc_stats c1)\<lparr>rs_misses := rs_misses (rc_stats c1) + 1\<rparr>\<rparr>)
         | Some e \<Rightarrow>
             (Some (re_status e, re_result_len e, take (min (re_bytes_len e) out_len) (re_bytes e)),
              (result_touch e c1)\<lparr>rc_stats := (rc_stats c1)\<lparr>rs_hits := rs_hits (rc_stats c1) + 1\<rparr>\<rparr>))"

text \<open>The eviction loop: from the oldest entry on, while the count is above the cap.\<close>

primrec result_evict :: "nat \<Rightarrow> result_entry list \<Rightarrow> nat \<Rightarrow> nat \<Rightarrow> result_entry list \<times> nat \<times> nat" where
  "result_evict cap [] n evictions = ([], n, evictions)"
| "result_evict cap (e # es) n evictions =
    (if cap \<noteq> 0 \<and> n > cap then result_evict cap es (n - 1) (evictions + 1) else (e # es, n, evictions))"

definition nkvx_result_insert :: "result_env \<Rightarrow> bytes option \<Rightarrow> io_status \<Rightarrow> nat \<Rightarrow> bytes option \<Rightarrow> nat \<Rightarrow> result_cache \<Rightarrow> result_cache" where
  "nkvx_result_insert env key kvstatus result_len result_bytes result_bytes_len c =
    (case key of
       None \<Rightarrow> c
     | Some k \<Rightarrow>
         if kvstatus \<noteq> IO_SUCCESS \<and> kvstatus \<noteq> IO_BUFFER_TOO_SMALL then c
         else
           let c1 = nkvx_result_init_once env c in
           if \<not> rc_enabled c1 then c1
           else case nkvx_result_lookup_locked c1 k of
             Some e \<Rightarrow> result_touch e c1
           | None \<Rightarrow>
               let copy = (if result_bytes_len > 0 then result_bytes else None) in
               if copy \<noteq> None \<and> \<not> rv_malloc env then c1
               else if \<not> rv_calloc env then c1
               else
                 let e = \<lparr>re_key = k, re_status = kvstatus, re_result_len = result_len,
                          re_bytes_len = (if copy \<noteq> None then result_bytes_len else 0),
                          re_bytes = (case copy of None \<Rightarrow> [] | Some b \<Rightarrow> take result_bytes_len b)\<rparr> in
                 case result_evict (rc_max c1) (rc_entries c1 @ [e]) (rc_count c1 + 1) (rs_evictions (rc_stats c1)) of
                   (es, n, evictions) \<Rightarrow>
                     c1\<lparr>rc_entries := es, rc_count := n,
                        rc_stats := (rc_stats c1)\<lparr>rs_inserts := rs_inserts (rc_stats c1) + 1, rs_evictions := evictions\<rparr>\<rparr>)"

section \<open>Lemmas: the key\<close>

text \<open>A component carries its own length, so components can be told apart in the digest's input.\<close>

definition get_component :: "bytes \<Rightarrow> (bytes \<times> bytes) option" where
  "get_component s = (let n = le_val (take 8 s) in if 8 + n \<le> length s then Some (take n (drop 8 s), drop (8 + n) s) else None)"

abbreviation component :: "bytes \<Rightarrow> bytes" where
  "component b \<equiv> nkvx_result_hash_update (Some b) (length b)"

interpretation comp: stream_codec component get_component "\<lambda>b. length b < 2 ^ 64"
proof unfold_locales
  fix b rest :: bytes assume "length b < 2 ^ 64"
  then have "le_val (le_bytes 8 (length b)) = length b" by (simp add: le_val_le_bytes)
  then show "get_component (component b @ rest) = Some (b, rest)"
    by (simp add: get_component_def nkvx_result_hash_update_def Let_def del: le_bytes.simps)
qed

lemma name_bytes_inject: "name_bytes s = name_bytes t \<longleftrightarrow> s = t"
proof -
  have "unat (word_of_nat (of_char c) :: byte) = of_char c" for c
    using of_char_mod_256 [of c, where 'a = nat] by (simp add: unat_of_nat)
  then have "inj (\<lambda>c. word_of_nat (of_char c) :: byte)" by (metis (mono_tags, lifting) injI of_char_eq_iff)
  then show ?thesis unfolding name_bytes_def by (rule inj_map_eq_map)
qed

lemma length_name_bytes: "length (name_bytes s) = length s"
  by (simp add: name_bytes_def)

text \<open>What a well-formed request has: a short name, a hash of 32 bytes, an input as long as it says.\<close>

definition request_wf_key :: "string \<Rightarrow> bytes option \<Rightarrow> bytes \<Rightarrow> bool" where
  "request_wf_key name sha input = (length name < 2 ^ 64 \<and> (\<forall>s. sha = Some s \<longrightarrow> length s = sha256_len) \<and> length input < 2 ^ 64)"

lemma preimage_inject:
  assumes "request_wf_key m s i" "request_wf_key m' s' i'" "length oh = sha256_len" "length oh' = sha256_len"
    and "result_preimage m s oh (Some i) (length i) = result_preimage m' s' oh' (Some i') (length i')"
  shows "m = m' \<and> s = s' \<and> oh = oh' \<and> i = i'"
proof -
  let ?flag = "\<lambda>s. [if s \<noteq> None then 1 else 0 :: byte]" and ?sha = "\<lambda>s. case s of None \<Rightarrow> [] | Some h \<Rightarrow> component h"
  have pre: "result_preimage m s oh (Some i) (length i)
      = component (name_bytes m) @ component (?flag s) @ ?sha s @ component oh @ component i @ []"
    if "request_wf_key m s i" "length oh = sha256_len" for m s oh i
    using that by (auto simp: result_preimage_def request_wf_key_def length_name_bytes split: option.splits)
  have w: "length (name_bytes m) < 2 ^ 64" "length (name_bytes m') < 2 ^ 64" "length i < 2 ^ 64" "length i' < 2 ^ 64"
    "\<And>h. s = Some h \<Longrightarrow> length h < 2 ^ 64" "\<And>h. s' = Some h \<Longrightarrow> length h < 2 ^ 64" "length oh < 2 ^ 64" "length oh' < 2 ^ 64"
    using assms(1-4) by (auto simp: request_wf_key_def sha256_len_def length_name_bytes)
  note eq = assms(5) [unfolded pre [OF assms(1,3)] pre [OF assms(2,4)]]
  from comp.put_inject [OF w(1,2) eq] have 1: "name_bytes m = name_bytes m'"
    and r1: "component (?flag s) @ ?sha s @ component oh @ component i @ [] = component (?flag s') @ ?sha s' @ component oh' @ component i' @ []" by auto
  from comp.put_inject [OF _ _ r1] have f: "?flag s = ?flag s'"
    and r2: "?sha s @ component oh @ component i @ [] = ?sha s' @ component oh' @ component i' @ []" by auto
  have "s = s' \<and> component oh @ component i @ [] = component oh' @ component i' @ []"
  proof (cases s)
    case (Some h)
    then obtain h' where "s' = Some h'" using f by (cases s') auto
    with Some r2 w(5,6) comp.put_inject [of h h'] show ?thesis by simp
  qed (use f r2 in \<open>cases s'; simp\<close>)
  then have 2: "s = s'" and r3: "component oh @ component i @ [] = component oh' @ component i' @ []" by auto
  from comp.put_inject [OF w(7,8) r3] have 3: "oh = oh'" and r4: "component i @ [] = component i' @ []" by auto
  from comp.put_inject [OF w(3,4) r4] 1 2 3 show ?thesis by (simp add: name_bytes_inject)
qed

section \<open>Lemmas: the least-recently-used bound\<close>

lemma result_evict_all: "result_evict 0 es n v = (es, n, v)"
  by (cases es) simp_all

lemma result_evict_spec:
  assumes "0 < cap"
  shows "result_evict cap es (length es) v = (drop (length es - cap) es, min (length es) cap, v + (length es - cap))"
proof (induction es arbitrary: v)
  case (Cons e es)
  show ?case
  proof (cases "length (e # es) > cap")
    case True
    then have "length (e # es) - cap = Suc (length es - cap)" by simp
    then show ?thesis using True Cons assms by (simp add: min_def)
  next
    case False
    then have "length (e # es) - cap = 0" by simp
    then show ?thesis using False by (simp add: min_def)
  qed
qed simp

text \<open>The last \<open>cap\<close> elements; all of them where the cap is 0.\<close>

definition newest :: "nat \<Rightarrow> 'a list \<Rightarrow> 'a list" where
  "newest cap xs = (if cap = 0 then xs else drop (length xs - cap) xs)"

lemma newest_append: "0 < cap \<Longrightarrow> cap \<le> length ys \<Longrightarrow> newest cap (xs @ ys) = newest cap ys"
  by (simp add: newest_def)

lemma newest_split: "\<exists>a. xs = a @ newest cap xs \<and> (a \<noteq> [] \<longrightarrow> 0 < cap \<and> length (newest cap xs) = cap)"
  by (rule exI [of _ "if cap = 0 then [] else take (length xs - cap) xs"]) (auto simp: newest_def)

lemma newest_length: "0 < cap \<Longrightarrow> length (newest cap xs) \<le> cap"
  by (simp add: newest_def)

lemma filter_one: "distinct ys \<Longrightarrow> length ys \<le> Suc (length (filter (\<lambda>x. x \<noteq> k) ys))"
proof (induction ys)
  case (Cons y ys)
  have "k \<notin> set ys \<Longrightarrow> filter (\<lambda>x. x \<noteq> k) ys = ys" by (intro filter_True) auto
  then show ?case using Cons by auto
qed simp

lemma newest_use:
  assumes "distinct xs"
  shows "newest cap (filter (\<lambda>x. x \<noteq> k) (newest cap xs) @ [k]) = newest cap (filter (\<lambda>x. x \<noteq> k) xs @ [k])"
proof -
  let ?f = "filter (\<lambda>x. x \<noteq> k)" and ?b = "newest cap xs"
  obtain a where a: "xs = a @ ?b" "a \<noteq> [] \<longrightarrow> 0 < cap \<and> length ?b = cap" using newest_split [of xs cap] by blast
  show ?thesis
  proof (cases "a = []")
    case False
    then have cap: "0 < cap" "length ?b = cap" using a(2) by auto
    have "distinct ?b" using a(1) assms by (metis distinct_append)
    then have "length (?f ?b @ [k]) \<ge> cap" using cap(2) filter_one [of ?b k] by simp
    moreover have "?f xs = ?f a @ ?f ?b" using a(1) filter_append [of "\<lambda>x. x \<noteq> k" a ?b] by simp
    ultimately show ?thesis using newest_append [OF cap(1), of "?f ?b @ [k]" "?f a"] by simp
  qed (use a in simp)
qed

lemma remdups_snoc: "remdups (h @ [k]) = filter (\<lambda>x. x \<noteq> k) (remdups h) @ [k]"
  by (induction h) auto

section \<open>Lemmas: the invariant\<close>

definition result_inv :: "result_cache \<Rightarrow> bool" where
  "result_inv c = (distinct (map re_key (rc_entries c)) \<and> rc_count c = length (rc_entries c)
    \<and> (rc_inited c \<longrightarrow> newest (rc_max c) (rc_entries c) = rc_entries c) \<and> (\<not> rc_inited c \<longrightarrow> rc_entries c = [])
    \<and> (\<forall>e \<in> set (rc_entries c). re_status e \<in> {IO_SUCCESS, IO_BUFFER_TOO_SMALL} \<and> length (re_bytes e) = re_bytes_len e))"

lemma init_once_inv: "result_inv c \<Longrightarrow> result_inv (nkvx_result_init_once env c)"
  by (simp add: result_inv_def nkvx_result_init_once_def newest_def)

lemma init_once_entries: "result_inv c \<Longrightarrow> rc_entries (nkvx_result_init_once env c) = rc_entries c"
  by (simp add: result_inv_def nkvx_result_init_once_def)

lemma init_once_inited: "rc_inited c \<Longrightarrow> nkvx_result_init_once env c = c"
  by (simp add: nkvx_result_init_once_def)

lemma init_once_done: "rc_inited (nkvx_result_init_once env c)"
  by (simp add: nkvx_result_init_once_def)

lemma lookup_locked_Some: "nkvx_result_lookup_locked c k = Some e \<Longrightarrow> e \<in> set (rc_entries c) \<and> re_key e = k"
  by (auto simp: nkvx_result_lookup_locked_def find_Some_iff in_set_conv_nth)

lemma lookup_locked_None: "nkvx_result_lookup_locked c k = None \<longleftrightarrow> k \<notin> re_key ` set (rc_entries c)"
  by (auto simp: nkvx_result_lookup_locked_def find_None_iff)

lemma touch_keys:
  assumes "distinct (map re_key (rc_entries c))" "e \<in> set (rc_entries c)"
  shows "map re_key (rc_entries (result_touch e c)) = filter (\<lambda>k. k \<noteq> re_key e) (map re_key (rc_entries c)) @ [re_key e]"
    "set (rc_entries (result_touch e c)) = set (rc_entries c)" "length (rc_entries (result_touch e c)) = length (rc_entries c)"
proof -
  have "map re_key (remove1 e es) = filter (\<lambda>k. k \<noteq> re_key e) (map re_key es)" if "distinct (map re_key es)" "e \<in> set es" for es
    using that
  proof (induction es)
    case (Cons x es)
    have "filter (\<lambda>k. k \<noteq> re_key e) (map re_key es) = map re_key es" if "re_key e \<notin> re_key ` set es"
      using that by (intro filter_True) force
    then show ?case using Cons by auto
  qed simp
  then show "map re_key (rc_entries (result_touch e c)) = filter (\<lambda>k. k \<noteq> re_key e) (map re_key (rc_entries c)) @ [re_key e]"
    using assms by (simp add: result_touch_def)
  have "distinct (rc_entries c)" using assms(1) by (simp add: distinct_map)
  then show "set (rc_entries (result_touch e c)) = set (rc_entries c)" using assms(2) by (auto simp: result_touch_def set_remove1_eq)
  show "length (rc_entries (result_touch e c)) = length (rc_entries c)"
    using assms(2) length_pos_if_in_set [OF assms(2)] by (simp add: result_touch_def length_remove1)
qed

lemma newest_eq_iff: "newest cap xs = xs \<longleftrightarrow> cap = 0 \<or> length xs \<le> cap"
  by (auto simp: newest_def) (metis diff_is_0_eq drop_eq_Nil2 length_drop length_greater_0_conv less_imp_diff_less list.size(3) nat_less_le not_le diff_less)

lemma result_touch_inv:
  assumes "result_inv c" "e \<in> set (rc_entries c)"
  shows "result_inv (result_touch e c)"
proof -
  have d: "distinct (map re_key (rc_entries c))" using assms(1) by (simp add: result_inv_def)
  have f: "rc_count (result_touch e c) = rc_count c" "rc_inited (result_touch e c) = rc_inited c" "rc_max (result_touch e c) = rc_max c"
    by (simp_all add: result_touch_def)
  have "distinct (map re_key (rc_entries (result_touch e c)))" using d by (simp add: touch_keys(1) [OF d assms(2)])
  then show ?thesis
    using assms(1) touch_keys(2,3) [OF d assms(2)] assms(2) unfolding result_inv_def f newest_eq_iff by auto
qed

lemma evict_newest: "fst (result_evict cap es (length es) v) = newest cap es \<and> fst (snd (result_evict cap es (length es) v)) = length (newest cap es)"
  by (cases "cap = 0") (auto simp: result_evict_all result_evict_spec newest_def min_def)

text \<open>An insertion that is carried out on a key that is not resident.\<close>

lemma insert_new:
  assumes "result_inv c" "rc_inited c" "rc_enabled c" "k \<notin> re_key ` set (rc_entries c)" "rv_malloc env" "rv_calloc env"
    and "st \<in> {IO_SUCCESS, IO_BUFFER_TOO_SMALL}"
  shows "\<exists>e. re_key e = k \<and> re_status e = st \<and> re_result_len e = n \<and> re_bytes e = bs \<and> re_bytes_len e = length bs
    \<and> rc_entries (nkvx_result_insert env (Some k) st n (Some bs) (length bs) c) = newest (rc_max c) (rc_entries c @ [e])
    \<and> rc_count (nkvx_result_insert env (Some k) st n (Some bs) (length bs) c) = length (newest (rc_max c) (rc_entries c @ [e]))"
proof -
  let ?e = "\<lparr>re_key = k, re_status = st, re_result_len = n, re_bytes_len = length bs, re_bytes = bs\<rparr>"
  have l: "nkvx_result_lookup_locked c k = None" using assms(4) by (simp add: lookup_locked_None)
  have n: "rc_count c + 1 = length (rc_entries c @ [?e])" using assms(1) by (simp add: result_inv_def)
  obtain es m v where ev: "result_evict (rc_max c) (rc_entries c @ [?e]) (length (rc_entries c @ [?e])) (rs_evictions (rc_stats c)) = (es, m, v)"
    using prod_cases3 by blast
  then have "es = newest (rc_max c) (rc_entries c @ [?e])" "m = length (newest (rc_max c) (rc_entries c @ [?e]))"
    using evict_newest [of "rc_max c" "rc_entries c @ [?e]" "rs_evictions (rc_stats c)"] by simp_all
  moreover have "nkvx_result_insert env (Some k) st n (Some bs) (length bs) c
      = c\<lparr>rc_entries := es, rc_count := m, rc_stats := (rc_stats c)\<lparr>rs_inserts := rs_inserts (rc_stats c) + 1, rs_evictions := v\<rparr>\<rparr>"
    unfolding nkvx_result_insert_def init_once_inited [OF assms(2)] l n [symmetric] Let_def
    using assms(3,5-7) ev n by (auto simp: l simp del: result_evict.simps)
  ultimately show ?thesis by (intro exI [of _ ?e]) simp
qed

lemma insert_fields: "rc_inited c \<Longrightarrow> rc_inited (nkvx_result_insert env k st n bs m c) \<and> rc_enabled (nkvx_result_insert env k st n bs m c) = rc_enabled c
    \<and> rc_max (nkvx_result_insert env k st n bs m c) = rc_max c"
  by (auto simp: nkvx_result_insert_def init_once_inited result_touch_def Let_def split: option.splits prod.splits)

lemma lookup_fields: "rc_inited c \<Longrightarrow> nkvx_result_lookup env k m c = (r, c') \<Longrightarrow> rc_inited c' \<and> rc_enabled c' = rc_enabled c \<and> rc_max c' = rc_max c"
  by (auto simp: nkvx_result_lookup_def init_once_inited result_touch_def Let_def split: option.splits if_splits)

section \<open>Memoised runs\<close>

text \<open>
  The protocol of the header: look the result up before a run, and insert the outcome of the run on a
  miss. \<open>run k n\<close> is the outcome of the request with key \<open>k\<close> and an output buffer of \<open>n\<close> bytes.
\<close>

definition memo_run :: "result_env \<Rightarrow> (bytes \<Rightarrow> nat \<Rightarrow> io_status \<times> nat \<times> bytes) \<Rightarrow> bytes \<Rightarrow> nat \<Rightarrow> result_cache
    \<Rightarrow> (io_status \<times> nat \<times> bytes) \<times> result_cache" where
  "memo_run env run k n c =
    (case nkvx_result_lookup env (Some k) n c of
       (Some r, c1) \<Rightarrow> (r, c1)
     | (None, c1) \<Rightarrow> (case run k n of (st, len, bs) \<Rightarrow> ((st, len, bs), nkvx_result_insert env (Some k) st len (Some bs) (length bs) c1)))"

primrec memo_session :: "result_env \<Rightarrow> (bytes \<Rightarrow> nat \<Rightarrow> io_status \<times> nat \<times> bytes) \<Rightarrow> (bytes \<times> nat) list \<Rightarrow> result_cache
    \<Rightarrow> (io_status \<times> nat \<times> bytes) list \<times> result_cache" where
  "memo_session env run [] c = ([], c)"
| "memo_session env run (q # qs) c =
    (case memo_run env run (fst q) (snd q) c of (r, c1) \<Rightarrow> (case memo_session env run qs c1 of (rs, c2) \<Rightarrow> (r # rs, c2)))"

definition memo_ok :: "(bytes \<Rightarrow> nat \<Rightarrow> io_status \<times> nat \<times> bytes) \<Rightarrow> nat \<Rightarrow> nat \<Rightarrow> result_cache \<Rightarrow> bool" where
  "memo_ok run n cap c = (result_inv c \<and> rc_inited c \<and> rc_enabled c \<and> rc_max c = cap
    \<and> (\<forall>e \<in> set (rc_entries c). (re_status e, re_result_len e, re_bytes e) = run (re_key e) n))"

definition run_ok :: "(bytes \<Rightarrow> nat \<Rightarrow> io_status \<times> nat \<times> bytes) \<Rightarrow> nat \<Rightarrow> bool" where
  "run_ok run n = (\<forall>k. fst (run k n) \<in> {IO_SUCCESS, IO_BUFFER_TOO_SMALL} \<and> length (snd (snd (run k n))) \<le> n)"

definition env_alloc :: "result_env \<Rightarrow> bool" where
  "env_alloc env = (rv_malloc env \<and> rv_calloc env)"

lemma newest_map: "map f (newest cap xs) = newest cap (map f xs)"
  by (simp add: newest_def drop_map)

lemma set_newest: "x \<in> set (newest cap xs) \<Longrightarrow> x \<in> set xs"
  by (auto simp: newest_def split: if_splits dest: in_set_dropD)

lemma distinct_newest: "distinct xs \<Longrightarrow> distinct (newest cap xs)"
  by (simp add: newest_def)

lemma newest_idem: "newest cap (newest cap xs) = newest cap xs"
  using newest_length [of cap xs] by (auto simp: newest_eq_iff)

lemma memo_hit:
  assumes "memo_ok run n cap c" "run_ok run n" "nkvx_result_lookup_locked c k = Some e"
  shows "\<exists>c'. memo_run env run k n c = (run k n, c') \<and> memo_ok run n cap c'
    \<and> map re_key (rc_entries c') = newest cap (filter (\<lambda>x. x \<noteq> k) (map re_key (rc_entries c)) @ [k])"
proof -
  have c: "result_inv c" "rc_inited c" "rc_enabled c" "rc_max c = cap" using assms(1) by (simp_all add: memo_ok_def)
  have e: "e \<in> set (rc_entries c)" "re_key e = k" using lookup_locked_Some [OF assms(3)] by auto
  have d: "distinct (map re_key (rc_entries c))" "length (re_bytes e) = re_bytes_len e" using c(1) e(1) by (auto simp: result_inv_def)
  have r: "(re_status e, re_result_len e, re_bytes e) = run k n" using assms(1) e by (auto simp: memo_ok_def)
  have "length (re_bytes e) \<le> n" using assms(2) r unfolding run_ok_def by (metis snd_conv)
  then have t: "take (min (re_bytes_len e) n) (re_bytes e) = re_bytes e" using d(2) by simp
  let ?c = "(result_touch e c)\<lparr>rc_stats := (rc_stats c)\<lparr>rs_hits := rs_hits (rc_stats c) + 1\<rparr>\<rparr>"
  have "memo_run env run k n c = (run k n, ?c)"
    using c assms(3) t r by (simp add: memo_run_def nkvx_result_lookup_def init_once_inited)
  moreover have "memo_ok run n cap ?c"
    using result_touch_inv [OF c(1) e(1)] touch_keys(2) [OF d(1) e(1)] assms(1) by (auto simp: memo_ok_def result_inv_def result_touch_def)
  moreover have "newest cap (rc_entries (result_touch e c)) = rc_entries (result_touch e c)"
    using result_touch_inv [OF c(1) e(1)] c by (simp add: result_inv_def result_touch_def)
  then have "map re_key (rc_entries ?c) = newest cap (filter (\<lambda>x. x \<noteq> k) (map re_key (rc_entries c)) @ [k])"
    using touch_keys(1) [OF d(1) e(1)] e(2) newest_map [of re_key cap "rc_entries (result_touch e c)"] by simp
  ultimately show ?thesis by blast
qed

lemma memo_miss:
  assumes "memo_ok run n cap c" "run_ok run n" "nkvx_result_lookup_locked c k = None" "env_alloc env"
  shows "\<exists>c'. memo_run env run k n c = (run k n, c') \<and> memo_ok run n cap c'
    \<and> map re_key (rc_entries c') = newest cap (filter (\<lambda>x. x \<noteq> k) (map re_key (rc_entries c)) @ [k])"
proof -
  let ?m = "c\<lparr>rc_stats := (rc_stats c)\<lparr>rs_misses := rs_misses (rc_stats c) + 1\<rparr>\<rparr>"
  obtain st len bs where r: "run k n = (st, len, bs)" using prod_cases3 by blast
  have c: "result_inv ?m" "rc_inited ?m" "rc_enabled ?m" "rc_max ?m = cap" using assms(1) by (auto simp: memo_ok_def result_inv_def)
  have k: "k \<notin> re_key ` set (rc_entries c)" using assms(3) by (simp add: lookup_locked_None)
  have st: "st \<in> {IO_SUCCESS, IO_BUFFER_TOO_SMALL}" using assms(2) r unfolding run_ok_def by (metis fst_conv)
  define c' where "c' = nkvx_result_insert env (Some k) st len (Some bs) (length bs) ?m"
  obtain e where e: "re_key e = k" "re_status e = st" "re_result_len e = len" "re_bytes e = bs" "re_bytes_len e = length bs"
    "rc_entries c' = newest cap (rc_entries c @ [e])" "rc_count c' = length (rc_entries c')"
    using insert_new [OF c(1-3), of k env st len bs] k assms(4) st c(4) unfolding c'_def env_alloc_def by fastforce
  have f: "rc_inited c'" "rc_enabled c'" "rc_max c' = cap" using insert_fields [OF c(2)] c unfolding c'_def by simp_all
  have "distinct (map re_key (rc_entries c @ [e]))" using c(1) k e(1) by (simp add: result_inv_def)
  then have "distinct (map re_key (rc_entries c'))" unfolding e(6) newest_map by (rule distinct_newest)
  moreover have "(re_status x, re_result_len x, re_bytes x) = run (re_key x) n \<and> re_status x \<in> {IO_SUCCESS, IO_BUFFER_TOO_SMALL}
      \<and> length (re_bytes x) = re_bytes_len x" if "x \<in> set (rc_entries c')" for x
  proof (cases "x = e")
    case False
    then have "x \<in> set (rc_entries c)" using that set_newest e(6) by fastforce
    then show ?thesis using assms(1) by (auto simp: memo_ok_def result_inv_def)
  qed (use e st r in simp)
  moreover have "newest cap (rc_entries c') = rc_entries c'" by (simp add: e(6) newest_idem)
  ultimately have "memo_ok run n cap c'" unfolding memo_ok_def result_inv_def using e(7) f by blast
  moreover have "filter (\<lambda>x. x \<noteq> k) (map re_key (rc_entries c)) = map re_key (rc_entries c)" using k by (intro filter_True) auto
  then have "map re_key (rc_entries c') = newest cap (filter (\<lambda>x. x \<noteq> k) (map re_key (rc_entries c)) @ [k])" by (simp add: e newest_map)
  moreover have "memo_run env run k n c = (run k n, c')"
    using c(2,3) assms(3) r by (simp add: memo_run_def nkvx_result_lookup_def init_once_inited c'_def)
  ultimately show ?thesis by blast
qed

lemma memo_session_spec:
  assumes "run_ok run n" "env_alloc env"
  shows "memo_ok run n cap c \<Longrightarrow> map re_key (rc_entries c) = newest cap (remdups h) \<Longrightarrow>
    \<exists>c'. memo_session env run (map (\<lambda>k. (k, n)) ks) c = (map (\<lambda>k. run k n) ks, c') \<and> memo_ok run n cap c'
      \<and> map re_key (rc_entries c') = newest cap (remdups (h @ ks))"
proof (induction ks arbitrary: c h)
  case (Cons k ks)
  obtain c1 where 1: "memo_run env run k n c = (run k n, c1)" "memo_ok run n cap c1"
    "map re_key (rc_entries c1) = newest cap (filter (\<lambda>x. x \<noteq> k) (map re_key (rc_entries c)) @ [k])"
    using memo_hit [OF Cons.prems(1) assms(1), of k] memo_miss [OF Cons.prems(1) assms(1) _ assms(2), of k]
    by (cases "nkvx_result_lookup_locked c k") blast+
  have "map re_key (rc_entries c1) = newest cap (remdups (h @ [k]))"
    using 1(3) newest_use [of "remdups h" cap k] by (simp add: Cons.prems(2) remdups_snoc)
  from Cons.IH [OF 1(2) this] 1(1) show ?case by auto
qed simp

section \<open>Properties\<close>

text \<open>
  Distinct requests have distinct keys. If two well-formed requests get the same key, then their
  module names, module hashes, object contents and inputs are the same, or the two requests exhibit a
  collision of the digest, on the objects or on the inputs of the outer digest: a result is never
  returned for another module, another version of the object or another input.
\<close>

theorem result_key_collision:
  assumes "request_wf_key m s i" "request_wf_key m' s' i'"
    and "nkvx_result_key digest ctx (Some m) s obj (Some i) (length i) = Inr d"
    and "nkvx_result_key digest ctx' (Some m') s' obj' (Some i') (length i') = Inr d"
  shows "(m, s, obj, i) = (m', s', obj', i') \<or> (obj \<noteq> obj' \<and> digest obj = digest obj')
    \<or> (\<exists>p p'. p \<noteq> p' \<and> digest p = digest p' \<and> (\<exists>oh. p = result_preimage m s oh (Some i) (length i)) \<and> (\<exists>oh. p' = result_preimage m' s' oh (Some i') (length i')))"
proof -
  obtain oh where 1: "digest obj = Some oh" "length oh = sha256_len" "digest (result_preimage m s oh (Some i) (length i)) = Some d"
    using assms(3) by (auto simp: nkvx_result_key_def split: option.splits if_splits)
  obtain oh' where 2: "digest obj' = Some oh'" "length oh' = sha256_len" "digest (result_preimage m' s' oh' (Some i') (length i')) = Some d"
    using assms(4) by (auto simp: nkvx_result_key_def split: option.splits if_splits)
  show ?thesis
  proof (cases "result_preimage m s oh (Some i) (length i) = result_preimage m' s' oh' (Some i') (length i')")
    case True
    from preimage_inject [OF assms(1,2) 1(2) 2(2) True] show ?thesis using 1(1) 2(1) by auto
  next
    case False
    then show ?thesis using 1(3) 2(3) by metis
  qed
qed

definition digest_ex :: "bytes \<Rightarrow> bytes option" where
  "digest_ex b = Some (take 32 (b @ replicate 32 0))"

theorem result_key_collision_witness:
  "digest_ex (replicate 32 7) = digest_ex (replicate 33 7) \<and>
   nkvx_result_key digest_ex True (Some ''identity'') None (replicate 32 7) (Some []) 0
     = nkvx_result_key digest_ex True (Some ''identity'') None (replicate 33 7) (Some []) 0"
proof -
  have "\<exists>d. digest_ex b = Some d \<and> length d = 32" for b by (auto simp: digest_ex_def min_def)
  then have "\<exists>d. nkvx_result_key digest_ex True (Some ''identity'') None obj (Some []) 0 = Inr d" for obj
    by (auto simp: nkvx_result_key_def sha256_len_def split: option.splits) (metis option.distinct(1) option.inject)+
  then obtain d d' where d: "nkvx_result_key digest_ex True (Some ''identity'') None (replicate 32 7) (Some []) (length ([] :: bytes)) = Inr d"
    "nkvx_result_key digest_ex True (Some ''identity'') None (replicate 33 7) (Some []) (length ([] :: bytes)) = Inr d'" by force
  have e: "digest_ex (replicate 32 7) = digest_ex (replicate 33 7)" by (simp add: digest_ex_def)
  then have "d = d'" using d by (simp add: nkvx_result_key_def split: if_splits option.splits)
  with d have "nkvx_result_key digest_ex True (Some ''identity'') None (replicate 33 7) (Some []) (length ([] :: bytes)) = Inr d" by simp
  from result_key_collision [OF _ _ d(1) this] e d \<open>d = d'\<close> show ?thesis by (auto simp: request_wf_key_def)
qed


definition result_env_ex :: result_env where
  "result_env_ex = \<lparr>rv_enable = None, rv_max = Some ''2'', rv_malloc = True, rv_calloc = True\<rparr>"

definition run_ex :: "bytes \<Rightarrow> nat \<Rightarrow> io_status \<times> nat \<times> bytes" where
  "run_ex k n = (if length k > n then IO_BUFFER_TOO_SMALL else IO_SUCCESS, length k, take n k)"


text \<open>
  The key leaves the size of the output buffer out. Once a result has been cut to a short buffer
  and memoised, the same request with a buffer the whole result fits is answered from the cache: too
  small again, with the short bytes, where a run would have succeeded with all of them.
\<close>

theorem memo_serves_truncated:
  assumes "result_inv c" "rc_inited c" "rc_enabled c" "rc_entries c = []" "env_alloc env" "small < length v" "length v \<le> n"
    and "run = (\<lambda>k m. (if length v > m then IO_BUFFER_TOO_SMALL else IO_SUCCESS, length v, take m v))"
  shows "fst (memo_session env run [(k, small), (k, n)] c) = [(IO_BUFFER_TOO_SMALL, length v, take small v), (IO_BUFFER_TOO_SMALL, length v, take small v)]
    \<and> run k n = (IO_SUCCESS, length v, v)"
proof -
  have "memo_ok run small (rc_max c) c" using assms(1-4) by (simp add: memo_ok_def)
  moreover have "run_ok run small" using assms(6,8) by (simp add: run_ok_def)
  moreover have "nkvx_result_lookup_locked c k = None" using assms(4) by (simp add: nkvx_result_lookup_locked_def)
  ultimately obtain c1 where 1: "memo_run env run k small c = (run k small, c1)" "memo_ok run small (rc_max c) c1"
    "map re_key (rc_entries c1) = newest (rc_max c) (filter (\<lambda>x. x \<noteq> k) (map re_key (rc_entries c)) @ [k])"
    using memo_miss assms(5) by blast
  then have "map re_key (rc_entries c1) = [k]" using assms(4) by (cases "rc_max c") (simp_all add: newest_def)
  then obtain e where e: "rc_entries c1 = [e]" "re_key e = k" by auto
  have r: "(re_status e, re_result_len e, re_bytes e) = run k small" "re_bytes_len e = length (re_bytes e)" "rc_inited c1" "rc_enabled c1"
    using 1(2) e by (auto simp: memo_ok_def result_inv_def)
  then have "fst (memo_run env run k n c1) = run k small"
    using e assms(6-8) by (simp add: memo_run_def nkvx_result_lookup_def init_once_inited nkvx_result_lookup_locked_def)
  then show ?thesis using 1(1) assms(6-8) by (auto simp: case_prod_beta)
qed

theorem memo_serves_truncated_witness:
  "fst (memo_session result_env_ex (\<lambda>k m. (if length [5, 6, 7 :: byte] > m then IO_BUFFER_TOO_SMALL else IO_SUCCESS, length [5, 6, 7 :: byte], take m [5, 6, 7]))
      [([1], 2), ([1], 8)] (nkvx_result_init_once result_env_ex result_static))
    = [(IO_BUFFER_TOO_SMALL, 3, [5, 6]), (IO_BUFFER_TOO_SMALL, 3, [5, 6])]"
proof -
  let ?c = "nkvx_result_init_once result_env_ex result_static"
  have c: "result_inv ?c" "rc_inited ?c" "rc_enabled ?c" "rc_entries ?c = []" "env_alloc result_env_ex"
    by (simp_all add: result_inv_def nkvx_result_init_once_def result_static_def result_env_ex_def newest_def env_alloc_def)
  from memo_serves_truncated [OF c _ _ refl, of 2 "[5, 6, 7]" 8 "[1]"] show ?thesis by simp
qed

end
