(* ===== verification/Worker.thy ===== *)
theory Worker
  imports Wasm MemStore "HOL-Library.Sublist"
begin

text \<open>
  The off-reactor worker of \<^verbatim>\<open>target/kvdev_rados_nkvx.c\<close>: the jobs, the run of a job's module, the queue
  between the SPDK threads and the worker thread, start, stop and the hand-back of a result to the
  thread that asked for it; and the copying run of \<^verbatim>\<open>kvdev_rados_nkvx_wasm_run\<close> it falls back to.

  A thread's progress between two critical sections is one step. \<open>wk_lost\<close> and \<open>wk_accepted\<close> are
  history: the jobs a start threw away with the old queue, and all jobs a dispatch took.
\<close>

section \<open>The copying run\<close>

text \<open>
  \<^verbatim>\<open>kvdev_rados_nkvx_wasm_run\<close>: a named module file, a fresh instance with a memory of its own, the object
  copied in. A guard that is switched off is passed on as the largest budget.
\<close>

definition nkvx_wasm_run :: "('m, 'i) wasmtime \<Rightarrow> wasm_env \<Rightarrow> string \<Rightarrow> nkvx_module option \<Rightarrow> bytes \<Rightarrow> nat \<Rightarrow> io_status \<times> nat \<times> bytes" where
  "nkvx_wasm_run wt env name modo object out_len =
    (let failed = (IO_FAILED, 0, []); caps = nkvx_wasm_caps_load env 0 in
     if \<not> wv_api env \<or> modo \<noteq> None then (IO_NOT_SUPPORTED, 0, [])
     else case wv_file env name of
       None \<Rightarrow> failed
     | Some bs \<Rightarrow>
       (case Option.bind (wt_compile wt bs) (wt_load wt) of
          None \<Rightarrow> failed
        | Some h \<Rightarrow>
          let size = wt_minimum wt h in
          (case wt_start wt h (cap_memory caps) \<lparr>zm_base = replicate size 0, zm_size = size, zm_cap = size, zm_owned = True\<rparr> of
             (None, m1) \<Rightarrow> failed
           | (Some inst, m1) \<Rightarrow>
             if wt_export wt h ''memory'' \<noteq> Some Ext_memory \<or> wt_export wt h name \<noteq> Some Ext_func then failed
             else if wasm_obj_off + length object > zm_size m1 then failed
             else if cap_fuel caps > 0 \<and> \<not> wt_set_fuel wt (cap_fuel caps) then failed
             else
               (case wt_call wt inst name (if cap_fuel caps > 0 then cap_fuel caps else 2 ^ 64 - 1)
                   (if cap_epoch caps > 0 then cap_epoch caps else 2 ^ 64 - 1)
                   (m1\<lparr>zm_base := memcpy_at wasm_obj_off object (zm_base m1)\<rparr>) wasm_obj_off (u32 (length object)) of (r, m2) \<Rightarrow>
                  (case r of
                     Call_error \<Rightarrow> failed
                   | Call_trap msg \<Rightarrow> (if nkvx_wasm_trap_is_cap msg then IO_ABORTED else IO_FAILED, 0, [])
                   | Call_other \<Rightarrow> failed
                   | Call_i32 n \<Rightarrow> extract_result m2 (zm_size m1) (u32 n) out_len)))))"

section \<open>The run of a job\<close>

definition nkvx_fill_from_job :: "bytes \<Rightarrow> nat \<Rightarrow> bytes option" where
  "nkvx_fill_from_job object cap = (if length object > cap then None else Some object)"

definition nkvx_run_module :: "('m, 'i) wasmtime \<Rightarrow> wasm_env \<Rightarrow> string \<Rightarrow> nkvx_module option \<Rightarrow> string \<Rightarrow> nat option \<Rightarrow> bytes \<Rightarrow> nat
    \<Rightarrow> mod_cache \<Rightarrow> 'm obj_cache \<Rightarrow> (io_status \<times> nat \<times> bytes) \<times> mod_cache \<times> 'm obj_cache" where
  "nkvx_run_module wt env module modo obj_key pin object out_len mc c =
    (if take 5 module = ''wasm:'' then
       let name = drop 5 module in
       if pin \<noteq> None then
         (case nkvx_wasm_run_pinned wt env name modo pin out_len mc c of (r, mc', c') \<Rightarrow> (r, mc', nkvx_wasm_cache_unpin pin c'))
       else if obj_key \<noteq> [] then
         nkvx_wasm_run_cached wt env name modo obj_key (length object) (nkvx_fill_from_job object) out_len mc c
       else (nkvx_wasm_run wt env name modo object out_len, mc, c)
     else
       let c' = nkvx_wasm_cache_unpin pin c in
       if module = ''bytecount'' then
         ((if 8 > out_len then IO_BUFFER_TOO_SMALL else IO_SUCCESS, 8, take (min 8 out_len) (le_bytes 8 (length object))), mc, c')
       else if module = ''identity'' then
         ((if length object > out_len then IO_BUFFER_TOO_SMALL else IO_SUCCESS, min (length object) uint32_max, take (min (length object) out_len) object), mc, c')
       else ((IO_NOT_SUPPORTED, 0, []), mc, c'))"

section \<open>Jobs and the queue\<close>

datatype job_work =
    Job_run string "nkvx_module option" string "nat option" bytes nat
  | Job_compile bytes bytes

record job =
  jb_id :: nat
  jb_origin :: nat
  jb_work :: job_work

type_synonym outcome = "io_status \<times> nat \<times> bytes"

datatype wthread = W_none | W_wait | W_busy job | W_exited

record 'm worker =
  wk_queue :: "job list"
  wk_running :: bool
  wk_stop :: bool
  wk_stopping :: bool
  wk_thread :: wthread
  wk_next :: nat
  wk_mods :: mod_cache
  wk_objs :: "'m obj_cache"
  wk_msgs :: "(job \<times> outcome) list"
  wk_completed :: "(job \<times> outcome) list"
  wk_accepted :: "job list"
  wk_lost :: "job list"

definition enqueue :: "job \<Rightarrow> 'm worker \<Rightarrow> 'm worker" where
  "enqueue j w = w\<lparr>wk_queue := wk_queue w @ [j], wk_accepted := wk_accepted w @ [j], wk_next := wk_next w + 1\<rparr>"

text \<open>The name and the object key are copied into arrays of 32 and 256 bytes.\<close>

definition nkvx_dispatch :: "bool \<Rightarrow> nat option \<Rightarrow> string option \<Rightarrow> nkvx_module option \<Rightarrow> string option \<Rightarrow> nat option \<Rightarrow> bytes \<Rightarrow> nat
    \<Rightarrow> 'm worker \<Rightarrow> errno option \<times> 'm worker" where
  "nkvx_dispatch calloc_ok origin module modo obj_key pin object out_len w =
    (case (origin, module) of
       (Some t, Some name) \<Rightarrow>
         if \<not> calloc_ok then (Some E_NOMEM, w)
         else if \<not> wk_running w then (Some (E_OTHER 19), w)
         else (None, enqueue \<lparr>jb_id = wk_next w, jb_origin = t,
           jb_work = Job_run (take 31 name) modo (case obj_key of None \<Rightarrow> [] | Some k \<Rightarrow> take 255 k) pin object out_len\<rparr> w)
     | _ \<Rightarrow> (Some E_INVAL, w))"

definition nkvx_dispatch_compile :: "bool \<Rightarrow> nat option \<Rightarrow> bytes option \<Rightarrow> bytes option \<Rightarrow> bool \<Rightarrow> 'm worker \<Rightarrow> errno option \<times> 'm worker" where
  "nkvx_dispatch_compile calloc_ok origin sha bs has_done w =
    (case (origin, sha, bs) of
       (Some t, Some h, Some b) \<Rightarrow>
         if b = [] \<or> \<not> has_done then (Some E_INVAL, w)
         else if \<not> calloc_ok then (Some E_NOMEM, w)
         else if \<not> wk_running w then (Some (E_OTHER 19), w)
         else (None, enqueue \<lparr>jb_id = wk_next w, jb_origin = t, jb_work = Job_compile h b\<rparr> w)
     | _ \<Rightarrow> (Some E_INVAL, w))"

section \<open>The worker thread\<close>

text \<open>
  The critical section at the top of the loop: wait while the queue is empty and no stop is asked
  for (no step), leave when both hold, else take the first job.
\<close>

definition worker_take :: "'m worker \<Rightarrow> 'm worker option" where
  "worker_take w =
    (if wk_thread w \<noteq> W_wait then None
     else case wk_queue w of
       [] \<Rightarrow> if wk_stop w then Some (w\<lparr>wk_thread := W_exited\<rparr>) else None
     | j # js \<Rightarrow> Some (w\<lparr>wk_queue := js, wk_thread := W_busy j\<rparr>))"

definition run_job :: "('m, 'i) wasmtime \<Rightarrow> wasm_env \<Rightarrow> job \<Rightarrow> mod_cache \<Rightarrow> 'm obj_cache \<Rightarrow> outcome \<times> mod_cache \<times> 'm obj_cache" where
  "run_job wt env j mc c =
    (case jb_work j of
       Job_compile sha bs \<Rightarrow> (case nkvx_wasm_module_insert wt env sha bs mc of (st, mc') \<Rightarrow> ((st, 0, []), mc', c))
     | Job_run module modo obj_key pin object out_len \<Rightarrow> nkvx_run_module wt env module modo obj_key pin object out_len mc c)"

definition worker_finish :: "('m, 'i) wasmtime \<Rightarrow> wasm_env \<Rightarrow> 'm worker \<Rightarrow> 'm worker option" where
  "worker_finish wt env w =
    (case wk_thread w of
       W_busy j \<Rightarrow> (case run_job wt env j (wk_mods w) (wk_objs w) of (r, mc, c) \<Rightarrow>
         Some (w\<lparr>wk_thread := W_wait, wk_mods := mc, wk_objs := c, wk_msgs := wk_msgs w @ [(j, r)]\<rparr>))
     | _ \<Rightarrow> None)"

section \<open>Start, stop and completion\<close>

definition nkvx_start :: "errno option \<Rightarrow> 'm worker \<Rightarrow> errno option \<times> 'm worker" where
  "nkvx_start create_rc w =
    (if wk_running w then (None, w)
     else
       let w1 = w\<lparr>wk_queue := [], wk_lost := wk_lost w @ wk_queue w, wk_stop := False\<rparr> in
       case create_rc of
         Some e \<Rightarrow> (Some e, w1)
       | None \<Rightarrow> (None, w1\<lparr>wk_running := True, wk_thread := W_wait\<rparr>))"

text \<open>Stop up to the join, and from the join on.\<close>

definition nkvx_stop_begin :: "'m worker \<Rightarrow> 'm worker" where
  "nkvx_stop_begin w = (if wk_running w then w\<lparr>wk_stop := True, wk_stopping := True\<rparr> else w)"

definition nkvx_stop_end :: "'m worker \<Rightarrow> 'm worker option" where
  "nkvx_stop_end w =
    (if wk_stopping w \<and> wk_thread w = W_exited then Some (w\<lparr>wk_running := False, wk_stopping := False, wk_thread := W_none\<rparr>) else None)"

text \<open>The message runs on the thread the job came from: it takes its first message.\<close>

definition nkvx_complete_on_spdk :: "nat \<Rightarrow> 'm worker \<Rightarrow> 'm worker option" where
  "nkvx_complete_on_spdk t w =
    (case find (\<lambda>m. jb_origin (fst m) = t) (wk_msgs w) of
       None \<Rightarrow> None
     | Some m \<Rightarrow> Some (w\<lparr>wk_msgs := remove1 m (wk_msgs w), wk_completed := wk_completed w @ [m]\<rparr>))"

definition worker_idle :: "mod_cache \<Rightarrow> 'm obj_cache \<Rightarrow> 'm worker" where
  "worker_idle mc c = \<lparr>wk_queue = [], wk_running = False, wk_stop = False, wk_stopping = False, wk_thread = W_none, wk_next = 0,
     wk_mods = mc, wk_objs = c, wk_msgs = [], wk_completed = [], wk_accepted = [], wk_lost = []\<rparr>"

text \<open>The queue between the threads is a queue: what a running worker accepts is what its thread takes, in order.\<close>

definition dequeue :: "'m worker \<Rightarrow> (job \<times> 'm worker) option" where
  "dequeue w = (case wk_queue w of [] \<Rightarrow> None | j # js \<Rightarrow> Some (j, w\<lparr>wk_queue := js\<rparr>))"

interpretation jobq: fifo "\<lambda>w. wk_running w" wk_queue "\<lambda>w. \<not> wk_running w" enqueue dequeue
  by unfold_locales (auto simp: enqueue_def dequeue_def split: list.splits)

text \<open>The thread's loop while nothing else happens: it ends, since every round takes a job.\<close>

function worker_drain :: "('m, 'i) wasmtime \<Rightarrow> wasm_env \<Rightarrow> 'm worker \<Rightarrow> 'm worker" where
  "worker_drain wt env w =
    (case worker_take w of
       None \<Rightarrow> w
     | Some w1 \<Rightarrow> (case worker_finish wt env w1 of None \<Rightarrow> w1 | Some w2 \<Rightarrow> worker_drain wt env w2))"
  by auto
termination
proof (relation "measure (\<lambda>(wt, env, w). length (wk_queue w))")
  fix wt :: "('m, 'i) wasmtime" and env and w w1 w2 :: "'m worker"
  assume a: "worker_take w = Some w1" "worker_finish wt env w1 = Some w2"
  have "wk_queue w2 = wk_queue w1" using a(2) by (auto simp: worker_finish_def split: wthread.splits prod.splits)
  moreover have "length (wk_queue w1) < length (wk_queue w)"
    using a by (auto simp: worker_take_def worker_finish_def split: list.splits if_splits)
  ultimately show "((wt, env, w2), wt, env, w) \<in> measure (\<lambda>(wt, env, w). length (wk_queue w))" by simp
qed simp

declare worker_drain.simps [simp del]

section \<open>All threads together\<close>

datatype worker_event = WE_dispatch | WE_compile | WE_take | WE_finish wasm_env | WE_start | WE_stop_begin | WE_stop_end | WE_complete nat

inductive worker_step :: "('m, 'i) wasmtime \<Rightarrow> 'm worker \<Rightarrow> worker_event \<Rightarrow> 'm worker \<Rightarrow> bool" for wt :: "('m, 'i) wasmtime" where
  ws_dispatch: "nkvx_dispatch al origin module modo key pin object out_len w = (r, w') \<Longrightarrow> worker_step wt w WE_dispatch w'"
| ws_compile: "nkvx_dispatch_compile al origin sha bs has_done w = (r, w') \<Longrightarrow> worker_step wt w WE_compile w'"
| ws_take: "worker_take w = Some w' \<Longrightarrow> worker_step wt w WE_take w'"
| ws_finish: "worker_finish wt env w = Some w' \<Longrightarrow> worker_step wt w (WE_finish env) w'"
| ws_start: "nkvx_start rc w = (r, w') \<Longrightarrow> worker_step wt w WE_start w'"
| ws_stop_begin: "\<not> wk_stopping w \<Longrightarrow> worker_step wt w WE_stop_begin (nkvx_stop_begin w)"
| ws_stop_end: "nkvx_stop_end w = Some w' \<Longrightarrow> worker_step wt w WE_stop_end w'"
| ws_complete: "nkvx_complete_on_spdk t w = Some w' \<Longrightarrow> worker_step wt w (WE_complete t) w'"

definition worker_init :: "'m worker \<Rightarrow> bool" where
  "worker_init w = (\<exists>mc c. w = worker_idle mc c)"

definition busy_jobs :: "'m worker \<Rightarrow> job list" where
  "busy_jobs w = (case wk_thread w of W_busy j \<Rightarrow> [j] | _ \<Rightarrow> [])"

text \<open>Where a job can be, oldest first: completed, on its way back, running, queued.\<close>

definition pipeline :: "'m worker \<Rightarrow> job list" where
  "pipeline w = map fst (wk_completed w @ wk_msgs w) @ busy_jobs w @ wk_queue w"

definition of_thread :: "nat \<Rightarrow> job list \<Rightarrow> job list" where
  "of_thread t js = filter (\<lambda>j. jb_origin j = t) js"

definition worker_inv :: "'m worker \<Rightarrow> bool" where
  "worker_inv w = (mset (wk_accepted w) = mset (pipeline w @ wk_lost w)
    \<and> (\<forall>t. subseq (of_thread t (pipeline w)) (of_thread t (wk_accepted w)))
    \<and> distinct (map jb_id (wk_accepted w)) \<and> (\<forall>j \<in> set (wk_accepted w). jb_id j < wk_next w)
    \<and> (wk_running w \<longleftrightarrow> wk_thread w \<noteq> W_none))"

text \<open>A step that moves no job keeps the invariant.\<close>

lemma inv_same:
  assumes "worker_inv w" "mset (pipeline w') = mset (pipeline w)" "\<And>t. of_thread t (pipeline w') = of_thread t (pipeline w)"
    and "wk_accepted w' = wk_accepted w" "wk_lost w' = wk_lost w" "wk_next w' = wk_next w" "wk_running w' \<longleftrightarrow> wk_thread w' \<noteq> W_none"
  shows "worker_inv w'"
  using assms by (simp add: worker_inv_def)

lemma enqueue_inv:
  assumes "worker_inv w" "jb_id j = wk_next w"
  shows "worker_inv (enqueue j w)"
proof -
  have p: "pipeline (enqueue j w) = pipeline w @ [j]" "wk_accepted (enqueue j w) = wk_accepted w @ [j]"
    "wk_lost (enqueue j w) = wk_lost w" "wk_next (enqueue j w) = wk_next w + 1" "wk_thread (enqueue j w) = wk_thread w"
    "wk_running (enqueue j w) = wk_running w"
    by (simp_all add: enqueue_def pipeline_def busy_jobs_def)
  have "subseq (of_thread t (pipeline w @ [j])) (of_thread t (wk_accepted w @ [j]))" for t
    using assms(1) by (simp add: worker_inv_def of_thread_def list_emb_append_mono)
  then show ?thesis using assms unfolding worker_inv_def p by (fastforce simp: image_iff less_Suc_eq)
qed

lemma complete_order:
  "find (\<lambda>m. jb_origin (fst m) = t) ms = Some m \<Longrightarrow>
    of_thread u (map fst (remove1 m ms)) = (if u = t then tl (of_thread u (map fst ms)) else of_thread u (map fst ms))
    \<and> jb_origin (fst m) = t \<and> m \<in> set ms \<and> of_thread t (map fst ms) = fst m # tl (of_thread t (map fst ms))"
  by (induction ms) (auto simp: of_thread_def split: if_splits)

lemma mset_map_remove1: "x \<in> set xs \<Longrightarrow> add_mset (f x) (mset (map f (remove1 x xs))) = mset (map f xs)"
  by (induction xs) auto

lemma complete_inv:
  assumes "worker_inv w" "nkvx_complete_on_spdk t w = Some w'"
  shows "worker_inv w'"
proof -
  obtain m where m: "find (\<lambda>m. jb_origin (fst m) = t) (wk_msgs w) = Some m"
    "w' = w\<lparr>wk_msgs := remove1 m (wk_msgs w), wk_completed := wk_completed w @ [m]\<rparr>"
    using assms(2) by (auto simp: nkvx_complete_on_spdk_def split: option.splits)
  note o = complete_order [OF m(1)]
  have "mset (map fst (remove1 m (wk_msgs w))) + {#fst m#} = mset (map fst (wk_msgs w))"
    using o mset_map_remove1 [of m "wk_msgs w" fst] by simp
  then have ms: "mset (pipeline w') = mset (pipeline w)" by (simp add: m(2) pipeline_def busy_jobs_def ac_simps)
  have "of_thread u (pipeline w') = of_thread u (pipeline w)" for u
    using o by (cases "u = t") (auto simp: m(2) pipeline_def busy_jobs_def of_thread_def)
  then show ?thesis using assms(1) ms by (intro inv_same [OF assms(1)]) (simp_all add: m(2) worker_inv_def)
qed

lemma start_inv:
  assumes "worker_inv w" "nkvx_start rc w = (r, w')"
  shows "worker_inv w'"
proof (cases "wk_running w")
  case False
  then have t: "wk_thread w = W_none" using assms(1) by (simp add: worker_inv_def)
  let ?x = "map fst (wk_completed w @ wk_msgs w)"
  have p: "pipeline w = ?x @ wk_queue w" using t by (simp add: pipeline_def busy_jobs_def)
  have w': "pipeline w' = ?x" "wk_accepted w' = wk_accepted w" "wk_lost w' = wk_lost w @ wk_queue w" "wk_next w' = wk_next w"
    "wk_running w' \<longleftrightarrow> wk_thread w' \<noteq> W_none"
    using assms(2) False t by (auto simp: nkvx_start_def pipeline_def busy_jobs_def Let_def split: option.splits)
  have "subseq (of_thread t ?x) (of_thread t (wk_accepted w))" for t
    using assms(1) unfolding worker_inv_def p of_thread_def filter_append by (meson list_emb_prefix subseq_order.trans subseq_append_le_same_iff list_emb_append2 subseq_order.refl)
  then show ?thesis using assms(1) unfolding worker_inv_def w' p by (simp add: ac_simps)
qed (use assms in \<open>simp add: nkvx_start_def\<close>)

lemma thread_inv:
  assumes "worker_inv w" "worker_take w = Some w' \<or> worker_finish wt env w = Some w' \<or> nkvx_stop_end w = Some w' \<or> nkvx_stop_begin w = w'"
  shows "worker_inv w'"
proof (rule inv_same [OF assms(1)])
  have r: "wk_running w \<longleftrightarrow> wk_thread w \<noteq> W_none" using assms(1) by (simp add: worker_inv_def)
  show "mset (pipeline w') = mset (pipeline w)" "\<And>t. of_thread t (pipeline w') = of_thread t (pipeline w)"
    "wk_accepted w' = wk_accepted w" "wk_lost w' = wk_lost w" "wk_next w' = wk_next w" "wk_running w' \<longleftrightarrow> wk_thread w' \<noteq> W_none"
    using assms(2) r
    by (auto simp: worker_take_def worker_finish_def nkvx_stop_end_def nkvx_stop_begin_def pipeline_def busy_jobs_def
        split: if_splits list.splits wthread.splits prod.splits)
qed

interpretation worker_sys: invariant_system worker_init "worker_step wt" worker_inv for wt :: "('m, 'i) wasmtime"
proof
  fix w :: "'m worker" assume "worker_init w"
  then show "worker_inv w" by (auto simp: worker_init_def worker_idle_def worker_inv_def pipeline_def busy_jobs_def of_thread_def)
next
  fix w w' :: "'m worker" and ev assume "worker_inv w" "worker_step wt w ev w'"
  from this(2,1) show "worker_inv w'"
  proof cases
    case (ws_dispatch al origin module modo key pin object out_len r)
    then show ?thesis using \<open>worker_inv w\<close> by (auto simp: nkvx_dispatch_def intro: enqueue_inv split: option.splits if_splits)
  next
    case (ws_compile al origin sha bs has_done r)
    then show ?thesis using \<open>worker_inv w\<close> by (auto simp: nkvx_dispatch_compile_def intro: enqueue_inv split: option.splits if_splits)
  qed (use \<open>worker_inv w\<close> in \<open>auto intro: thread_inv start_inv complete_inv\<close>)
qed

section \<open>Lemmas: the drain and the stranded job\<close>

lemma drain_spec:
  assumes "wk_thread w = W_wait"
  shows "wk_queue (worker_drain wt env w) = [] \<and> map fst (wk_msgs (worker_drain wt env w)) = map fst (wk_msgs w) @ wk_queue w
    \<and> wk_thread (worker_drain wt env w) = (if wk_stop w then W_exited else W_wait)"
  using assms
proof (induction "length (wk_queue w)" arbitrary: w)
  case 0
  then show ?case by (simp add: worker_drain.simps [of wt env w] worker_take_def worker_finish_def)
next
  case (Suc n)
  then obtain j js where q: "wk_queue w = j # js" by (cases "wk_queue w") auto
  let ?w1 = "w\<lparr>wk_queue := js, wk_thread := W_busy j\<rparr>"
  obtain r mc c where run: "run_job wt env j (wk_mods w) (wk_objs w) = (r, mc, c)" using prod_cases3 by blast
  let ?w2 = "?w1\<lparr>wk_thread := W_wait, wk_mods := mc, wk_objs := c, wk_msgs := wk_msgs w @ [(j, r)]\<rparr>"
  have "worker_drain wt env w = worker_drain wt env ?w2"
    using Suc.prems q run by (subst worker_drain.simps) (simp add: worker_take_def worker_finish_def)
  with Suc.hyps(1) [of ?w2] Suc.hyps(2) q show ?case by simp
qed

text \<open>A job no thread will run: thrown away, or queued with the thread gone.\<close>

definition stranded :: "job \<Rightarrow> 'm worker \<Rightarrow> bool" where
  "stranded j w = (j \<in> set (wk_lost w) \<or> (j \<in> set (wk_queue w) \<and> wk_thread w \<in> {W_exited, W_none}))"

lemma stranded_step: "worker_step wt w ev w' \<Longrightarrow> worker_inv w \<Longrightarrow> stranded j w \<Longrightarrow> stranded j w'"
  by (cases rule: worker_step.cases)
    (auto simp: stranded_def worker_inv_def nkvx_dispatch_def nkvx_dispatch_compile_def enqueue_def worker_take_def worker_finish_def nkvx_start_def
      nkvx_stop_begin_def nkvx_stop_end_def nkvx_complete_on_spdk_def Let_def split: option.splits if_splits list.splits wthread.splits prod.splits)

lemma stranded_steps: "steps (worker_step wt) w es w' \<Longrightarrow> worker_inv w \<Longrightarrow> stranded j w \<Longrightarrow> worker_inv w' \<and> stranded j w'"
proof (induction rule: steps.induct)
  case (steps_cons s e s' es s'')
  then show ?case using stranded_step worker_sys.inv_step by blast
qed simp

lemma stranded_unanswered:
  assumes "worker_inv w" "stranded j w"
  shows "j \<notin> fst ` set (wk_completed w @ wk_msgs w)"
proof -
  have "mset (wk_accepted w) = mset (pipeline w @ wk_lost w)" "distinct (wk_accepted w)"
    using assms(1) by (auto simp: worker_inv_def distinct_map)
  then have "distinct (pipeline w @ wk_lost w)" by (metis mset_eq_imp_distinct_iff)
  then show ?thesis using assms(2) by (auto simp: pipeline_def stranded_def)
qed

section \<open>Properties\<close>

text \<open>
  C18. Jobs are neither lost, repeated nor reordered. In every reachable state each job a dispatch took
  is in exactly one place: completed, on its way back to its thread, running, queued, or thrown away
  by a restart; and for every thread its jobs are completed in the order it dispatched them.
\<close>

theorem jobs_in_order:
  assumes "reachable worker_init (worker_step wt) w"
  shows "mset (wk_accepted w) = mset (map fst (wk_completed w) @ map fst (wk_msgs w) @ busy_jobs w @ wk_queue w @ wk_lost w)
    \<and> distinct (map jb_id (wk_accepted w))
    \<and> subseq (of_thread t (map fst (wk_completed w))) (of_thread t (wk_accepted w))"
proof -
  have i: "worker_inv w" by (rule worker_sys.reachable_inv [OF assms])
  have "subseq (of_thread t (map fst (wk_completed w))) (of_thread t (pipeline w))"
    by (simp add: pipeline_def of_thread_def list_emb_prefix)
  then show ?thesis using i unfolding worker_inv_def pipeline_def by (auto intro: subseq_order.trans)
qed

text \<open>One job in and out again: the identity module on three bytes.\<close>

definition worker_ex :: "unit worker" where
  "worker_ex = snd (nkvx_start None (worker_idle nkvx_modcache_init_once nkvx_cache_init_once))"

definition worker_ex1 :: "unit worker" where
  "worker_ex1 = snd (nkvx_dispatch True (Some 4) (Some ''identity'') None None None [1, 2, 3] 2 worker_ex)"

lemma worker_ex_reach: "reachable worker_init (worker_step wasmtime_ex) worker_ex" "reachable worker_init (worker_step wasmtime_ex) worker_ex1"
proof -
  have "reachable worker_init (worker_step wasmtime_ex) (worker_idle nkvx_modcache_init_once nkvx_cache_init_once)"
    by (rule reach_init) (auto simp: worker_init_def)
  moreover have "worker_step wasmtime_ex (worker_idle nkvx_modcache_init_once nkvx_cache_init_once) WE_start worker_ex"
    by (rule ws_start [where rc = None and r = None]) (simp add: worker_ex_def nkvx_start_def worker_idle_def)
  ultimately show 1: "reachable worker_init (worker_step wasmtime_ex) worker_ex" by (rule reach_step)
  have "worker_step wasmtime_ex worker_ex WE_dispatch worker_ex1"
    by (rule ws_dispatch [of True "Some 4" "Some ''identity''" None None None "[1, 2, 3]" 2 _ None]) (simp add: worker_ex1_def nkvx_dispatch_def worker_ex_def nkvx_start_def worker_idle_def)
  with 1 show "reachable worker_init (worker_step wasmtime_ex) worker_ex1" by (rule reach_step)
qed

theorem jobs_in_order_witness:
  "wk_accepted worker_ex1 \<noteq> [] \<and> mset (wk_accepted worker_ex1) = mset (wk_queue worker_ex1)"
  using jobs_in_order [OF worker_ex_reach(2)]
  by (simp add: worker_ex1_def worker_ex_def nkvx_dispatch_def nkvx_start_def worker_idle_def enqueue_def busy_jobs_def)

text \<open>
  A stop finishes the work first. From any state in which the thread waits, its loop ends, every
  job queued has been run and its outcome sent to its thread in the order of the queue, and the
  thread has left if a stop was asked for and waits again if not.
\<close>

theorem stop_drains_queue:
  assumes "wk_thread w = W_wait"
  shows "wk_queue (worker_drain wt env w) = [] \<and> map fst (wk_msgs (worker_drain wt env w)) = map fst (wk_msgs w) @ wk_queue w
    \<and> wk_thread (worker_drain wt env w) = (if wk_stop w then W_exited else W_wait)"
  using assms by (rule drain_spec)

theorem stop_drains_queue_witness:
  "wk_thread (worker_drain wasmtime_ex wasm_env_ex (nkvx_stop_begin worker_ex1)) = W_exited
    \<and> map fst (wk_msgs (worker_drain wasmtime_ex wasm_env_ex (nkvx_stop_begin worker_ex1))) = wk_accepted worker_ex1"
  using stop_drains_queue [of "nkvx_stop_begin worker_ex1" wasmtime_ex wasm_env_ex]
  by (simp add: worker_ex1_def worker_ex_def nkvx_dispatch_def nkvx_start_def nkvx_stop_begin_def worker_idle_def enqueue_def)

text \<open>
  A job dispatched while a stop waits for the thread is accepted and never answered. Once the
  thread has left its loop and until the stop clears the running flag, a dispatch succeeds; no
  continuation, a restart included, runs that job or completes it.
\<close>

theorem late_job_never_answered:
  assumes "reachable worker_init (worker_step wt) w" "wk_thread w = W_exited"
    and "nkvx_dispatch al origin module modo key pin object out_len w = (None, w1)" "steps (worker_step wt) w1 es w'"
  shows "wk_accepted w1 \<noteq> wk_accepted w \<and> last (wk_accepted w1) \<notin> fst ` set (wk_completed w' @ wk_msgs w')"
proof -
  have "reachable worker_init (worker_step wt) w1" using assms(1) by (rule reach_step) (rule ws_dispatch [OF assms(3)])
  then have i: "worker_inv w1" by (rule worker_sys.reachable_inv)
  obtain j where "w1 = enqueue j w" using assms(3) by (auto simp: nkvx_dispatch_def split: option.splits if_splits)
  then have "wk_accepted w1 \<noteq> wk_accepted w" "stranded (last (wk_accepted w1)) w1" using assms(2) by (simp_all add: enqueue_def stranded_def)
  then show ?thesis using stranded_steps [OF assms(4) i] stranded_unanswered by blast
qed

definition worker_ex_left :: "unit worker" where
  "worker_ex_left = (nkvx_stop_begin worker_ex)\<lparr>wk_thread := W_exited\<rparr>"

lemmas worker_examples = worker_ex_left_def worker_ex_def nkvx_dispatch_def nkvx_start_def nkvx_stop_begin_def nkvx_stop_end_def
  worker_idle_def enqueue_def worker_take_def

theorem late_job_never_answered_witness:
  "\<exists>w1 w2 w3. nkvx_dispatch True (Some 4) (Some ''identity'') None None None [1] 8 worker_ex_left = (None, w1)
    \<and> nkvx_stop_end w1 = Some w2 \<and> nkvx_start None w2 = (None, w3)
    \<and> wk_accepted w1 \<noteq> [] \<and> last (wk_accepted w1) \<notin> fst ` set (wk_completed w3 @ wk_msgs w3) \<and> wk_queue w3 = []"
proof -
  have "worker_step wasmtime_ex worker_ex WE_stop_begin (nkvx_stop_begin worker_ex)"
    by (rule ws_stop_begin) (simp add: worker_examples)
  moreover have "worker_step wasmtime_ex (nkvx_stop_begin worker_ex) WE_take worker_ex_left"
    by (rule ws_take) (simp add: worker_examples)
  ultimately have r: "reachable worker_init (worker_step wasmtime_ex) worker_ex_left"
    using reach_step [OF reach_step [OF worker_ex_reach(1)]] by blast
  obtain w1 where 1: "nkvx_dispatch True (Some 4) (Some ''identity'') None None None [1] 8 worker_ex_left = (None, w1)"
    by (simp add: worker_examples)
  obtain w2 w3 where 2: "nkvx_stop_end w1 = Some w2" "nkvx_start None w2 = (None, w3)" "wk_queue w3 = []"
    using 1 by (auto simp: worker_examples)
  have "steps (worker_step wasmtime_ex) w1 [WE_stop_end, WE_start] w3"
    using 2 by (auto simp: steps_cons_iff intro: ws_stop_end ws_start)
  from late_job_never_answered [OF r _ 1 this] 1 2 show ?thesis by (auto simp: worker_examples)
qed

section \<open>A job and the object cache\<close>

lemma run_pinned_keeps:
  assumes "obj_cache_inv p c" "wasmtime_ok wt" "nkvx_wasm_run_pinned wt env name modo (Some i) out_len mc c = (res, mc', c')"
  shows "obj_cache_inv p c'" "j \<noteq> i \<Longrightarrow> kept j c c'"
proof -
  have b: "obj_cache_inv p (bump_hits c)" "kept j c (bump_hits c)" using assms(1) by (auto simp: bump_hits_def intro: keptI)
  show "obj_cache_inv p c'"
    using assms run_on_object(1) [OF b(1) assms(2)] by (auto simp: nkvx_wasm_run_pinned_def split: if_splits)
  show "kept j c c'" if "j \<noteq> i"
    using assms(3) run_on_object(2) [OF b(1) assms(2) _ that] kept_trans [OF b(2)] keptI [of c c] by (auto simp: nkvx_wasm_run_pinned_def split: if_splits)
qed

lemma unpin_keeps:
  assumes "obj_cache_inv p c" "p i > 0"
  shows "obj_cache_inv (p(i := p i - 1)) (nkvx_wasm_cache_unpin (Some i) c)" "kept j c (nkvx_wasm_cache_unpin (Some i) c)"
proof -
  have "obj_cache_inv ((p(i := p i - 1))(i := (p(i := p i - 1)) i + 1)) c" using assms by simp
  then show "obj_cache_inv (p(i := p i - 1)) (nkvx_wasm_cache_unpin (Some i) c)" by (simp add: nkvx_wasm_cache_unpin_def unref_inv del: fun_upd_apply)
  show "kept j c (nkvx_wasm_cache_unpin (Some i) c)" by (simp add: nkvx_wasm_cache_unpin_def keptI contents_unref)
qed

text \<open>
  C19. A job gives its pin back, once, whatever happens. After a job with a pin has run, as wasm or as a
  built-in, with success or not, the object cache is in its invariant with exactly that one reference
  less, and every object another party has pinned is there with its bytes unchanged.
\<close>

theorem job_releases_pin:
  assumes "reachable cache_init cache_step (p, c)" "wasmtime_ok wt" "p i > 0"
    and "nkvx_run_module wt env module modo key (Some i) object out_len mc c = (r, mc', c')"
  shows "obj_cache_inv (p(i := p i - 1)) c' \<and> (\<forall>j. j \<noteq> i \<and> p j > 0 \<longrightarrow> nkvx_wasm_pin_object (Some j) c' = nkvx_wasm_pin_object (Some j) c)"
proof -
  have inv: "obj_cache_inv p c" using cache_sys.reachable_inv [OF assms(1)] by simp
  have "obj_cache_inv (p(i := p i - 1)) c' \<and> (\<forall>j. j \<noteq> i \<longrightarrow> kept j c c')"
  proof (cases "take 5 module = ''wasm:''")
    case True
    then obtain c1 where 1: "nkvx_wasm_run_pinned wt env (drop 5 module) modo (Some i) out_len mc c = (r, mc', c1)"
      "c' = nkvx_wasm_cache_unpin (Some i) c1"
      using assms(4) by (auto simp: nkvx_run_module_def Let_def split: prod.splits)
    show ?thesis
      using unpin_keeps [of p c1 i] run_pinned_keeps [OF inv assms(2) 1(1)] assms(3) kept_trans unfolding 1(2) by blast
  next
    case False
    then have "c' = nkvx_wasm_cache_unpin (Some i) c" using assms(4) by (auto simp: nkvx_run_module_def Let_def split: if_splits)
    then show ?thesis using unpin_keeps [OF inv assms(3)] by simp
  qed
  moreover have "(p(i := p i - 1)) j > 0" if "j \<noteq> i" "p j > 0" for j using that by simp
  ultimately show ?thesis using pin_object_kept [OF inv] by blast
qed

theorem job_releases_pin_witness:
  "obj_cache_inv (\<lambda>_. 0) (snd (snd (nkvx_run_module wasmtime_ex wasm_env_ex ''identity'' None [] (Some 0) [1, 2] 8 nkvx_modcache_init_once cache_ex_pinned)))"
proof -
  obtain r mc' c' where r: "nkvx_run_module wasmtime_ex wasm_env_ex ''identity'' None [] (Some 0) [1, 2] 8 nkvx_modcache_init_once cache_ex_pinned = (r, mc', c')"
    using prod_cases3 by blast
  have "(\<lambda>_ :: nat. 0 :: nat)(0 := 0) = (\<lambda>_. 0)" by auto
  with job_releases_pin [OF cache_ex_pinned_reachable wasmtime_ex_ok _ r] r show ?thesis by simp
qed

end
