(* ===== verification/Ticker.thy ===== *)
theory Ticker
  imports Prelude
begin

text \<open>
  The epoch ticker of \<^verbatim>\<open>target/kvdev_rados_nkvx_wasm.c\<close>: the thread that advances the clock of the engine
  a module runs on, armed and disarmed around each run and stopped with the executor.

  Engines are numbers, \<open>tk_live\<close> the ones wasmtime has not deleted and \<open>tk_armed\<close> the ones a run is
  using between its arming and its disarming. \<open>tk_ticks\<close> records each engine ticked and whether it
  was alive then. Threads take turns at the mutex: a critical section is one step.
\<close>

record ticker =
  tk_started :: bool
  tk_stop :: bool
  tk_stopping :: bool
  tk_engine :: "nat option"
  tk_api :: bool
  tk_threads :: nat
  tk_live :: "nat list"
  tk_armed :: "nat list"
  tk_ticks :: "(nat \<times> bool) list"

definition ticker_zero :: ticker where
  "ticker_zero = \<lparr>tk_started = False, tk_stop = False, tk_stopping = False, tk_engine = None, tk_api = False, tk_threads = 0,
     tk_live = [], tk_armed = [], tk_ticks = []\<rparr>"

section \<open>Operations\<close>

text \<open>One round of the thread after its wait: leave on a stop, else tick the engine that is armed.\<close>

definition nkvx_wasm_epoch_thread :: "ticker \<Rightarrow> ticker" where
  "nkvx_wasm_epoch_thread s =
    (if tk_stop s then s\<lparr>tk_threads := tk_threads s - 1\<rparr>
     else case tk_engine s of
       Some e \<Rightarrow> if tk_api s then s\<lparr>tk_ticks := tk_ticks s @ [(e, e \<in> set (tk_live s))]\<rparr> else s
     | None \<Rightarrow> s)"

definition nkvx_wasm_epoch_register :: "bool \<Rightarrow> nat \<Rightarrow> ticker \<Rightarrow> ticker" where
  "nkvx_wasm_epoch_register create_ok e s =
    (let s1 = (if tk_started s then s
               else if create_ok then s\<lparr>tk_stop := False, tk_threads := tk_threads s + 1, tk_started := True\<rparr>
               else s\<lparr>tk_stop := False\<rparr>) in
     s1\<lparr>tk_api := True, tk_engine := Some e\<rparr>)"

definition nkvx_wasm_epoch_unregister :: "nat \<Rightarrow> ticker \<Rightarrow> ticker" where
  "nkvx_wasm_epoch_unregister e s = (if tk_engine s = Some e then s\<lparr>tk_engine := None\<rparr> else s)"

text \<open>Stop up to the join and from the join on; the thread is joined only if one was started.\<close>

definition nkvx_wasm_epoch_stop :: "ticker \<Rightarrow> ticker" where
  "nkvx_wasm_epoch_stop s =
    (if tk_started s then s\<lparr>tk_engine := None, tk_api := False, tk_stop := True, tk_stopping := True\<rparr> else s)"

definition epoch_stop_joined :: "ticker \<Rightarrow> ticker" where
  "epoch_stop_joined s = s\<lparr>tk_started := False, tk_stop := False, tk_stopping := False\<rparr>"

section \<open>Runs and the ticker\<close>

text \<open>
  A run arms its engine and disarms it before it lets go of it; an engine is deleted only while no run
  uses it. The teardown stops the ticker once, after the worker has been joined.
\<close>

datatype ticker_event = TE_engine nat | TE_arm nat | TE_disarm nat | TE_delete nat | TE_round | TE_stop | TE_joined

inductive ticker_step :: "ticker \<Rightarrow> ticker_event \<Rightarrow> ticker \<Rightarrow> bool" where
  ts_engine: "e \<notin> set (tk_live s) \<Longrightarrow> ticker_step s (TE_engine e) (s\<lparr>tk_live := e # tk_live s\<rparr>)"
| ts_arm: "e \<in> set (tk_live s) \<Longrightarrow> e \<notin> set (tk_armed s) \<Longrightarrow>
    ticker_step s (TE_arm e) ((nkvx_wasm_epoch_register ok e s)\<lparr>tk_armed := e # tk_armed s\<rparr>)"
| ts_disarm: "e \<in> set (tk_armed s) \<Longrightarrow> ticker_step s (TE_disarm e) ((nkvx_wasm_epoch_unregister e s)\<lparr>tk_armed := removeAll e (tk_armed s)\<rparr>)"
| ts_delete: "e \<in> set (tk_live s) \<Longrightarrow> e \<notin> set (tk_armed s) \<Longrightarrow> ticker_step s (TE_delete e) (s\<lparr>tk_live := removeAll e (tk_live s)\<rparr>)"
| ts_round: "tk_threads s > 0 \<Longrightarrow> ticker_step s TE_round (nkvx_wasm_epoch_thread s)"
| ts_stop: "\<not> tk_stopping s \<Longrightarrow> ticker_step s TE_stop (nkvx_wasm_epoch_stop s)"
| ts_joined: "tk_stopping s \<Longrightarrow> tk_threads s = 0 \<Longrightarrow> ticker_step s TE_joined (epoch_stop_joined s)"

definition ticker_inv :: "ticker \<Rightarrow> bool" where
  "ticker_inv s = (set (tk_armed s) \<subseteq> set (tk_live s) \<and> (\<forall>e. tk_engine s = Some e \<longrightarrow> e \<in> set (tk_armed s))
    \<and> (\<forall>t \<in> set (tk_ticks s). snd t) \<and> tk_threads s \<le> 1
    \<and> (tk_threads s > 0 \<longrightarrow> tk_started s) \<and> (tk_started s \<and> \<not> tk_stopping s \<longrightarrow> tk_threads s = 1)
    \<and> (tk_stop s \<longleftrightarrow> tk_stopping s) \<and> (tk_stopping s \<longrightarrow> tk_started s))"

interpretation ticker_sys: invariant_system "\<lambda>s. s = ticker_zero" ticker_step ticker_inv
proof
  fix s s' e assume "ticker_inv s" "ticker_step s e s'"
  from this(2,1) show "ticker_inv s'"
    by cases (auto simp: ticker_inv_def nkvx_wasm_epoch_thread_def nkvx_wasm_epoch_register_def nkvx_wasm_epoch_unregister_def
        nkvx_wasm_epoch_stop_def epoch_stop_joined_def Let_def split: option.splits if_splits)
qed (simp add: ticker_inv_def ticker_zero_def)

section \<open>Properties\<close>

text \<open>
  C20. The ticker never touches a dead engine. However runs, deletions of engines, rounds of the thread,
  stops and restarts interleave, every engine the thread has ticked was alive when it was ticked, the
  engine it would tick next is one a run is using, and there is at most one ticker thread.
\<close>

theorem ticker_touches_live_engines:
  assumes "reachable (\<lambda>s. s = ticker_zero) ticker_step s"
  shows "(\<forall>t \<in> set (tk_ticks s). snd t) \<and> set_option (tk_engine s) \<subseteq> set (tk_armed s) \<inter> set (tk_live s) \<and> tk_threads s \<le> 1"
  using ticker_sys.reachable_inv [OF assms] by (auto simp: ticker_inv_def)

definition ticker_ex :: ticker where
  "ticker_ex = nkvx_wasm_epoch_thread ((nkvx_wasm_epoch_register True 7 (ticker_zero\<lparr>tk_live := [7]\<rparr>))\<lparr>tk_armed := [7]\<rparr>)"

theorem ticker_touches_live_engines_witness:
  "tk_ticks ticker_ex = [(7, True)] \<and> set_option (tk_engine ticker_ex) \<subseteq> set (tk_live ticker_ex)"
proof -
  let ?s1 = "ticker_zero\<lparr>tk_live := [7]\<rparr>" and ?s2 = "(nkvx_wasm_epoch_register True 7 (ticker_zero\<lparr>tk_live := [7]\<rparr>))\<lparr>tk_armed := [7]\<rparr>"
  have st: "ticker_step ticker_zero (TE_engine 7) ?s1" "ticker_step ?s1 (TE_arm 7) ?s2" "ticker_step ?s2 TE_round ticker_ex"
    using ts_engine [of 7 ticker_zero] ts_arm [of 7 ?s1 True] ts_round [of ?s2]
    by (simp_all add: ticker_zero_def ticker_ex_def nkvx_wasm_epoch_register_def)
  have "reachable (\<lambda>s. s = ticker_zero) ticker_step ticker_zero" by (rule reach_init) simp
  from reach_step [OF reach_step [OF reach_step [OF this st(1)] st(2)] st(3)]
  have "reachable (\<lambda>s. s = ticker_zero) ticker_step ticker_ex" .
  from ticker_touches_live_engines [OF this] show ?thesis
    by (auto simp: ticker_ex_def ticker_zero_def nkvx_wasm_epoch_register_def nkvx_wasm_epoch_thread_def)
qed

end
