(* ===== verification/Catalog.thy ===== *)
theory Catalog
  imports Prelude "HOL-Library.AList"
begin

text \<open>
  The data of the weights catalog (\<^verbatim>\<open>clients/vllm-weights/src/rados_nkv_weights\<close>): the keys
  (\<^verbatim>\<open>keys.py\<close>), the chunks of a tensor (\<^verbatim>\<open>chunking.py\<close>), the in-memory client (\<^verbatim>\<open>kvclient.py\<close>) and the
  weight manifest with its table form (\<^verbatim>\<open>manifest.py\<close>).

  A Python string is the list of its code points and a dict the list of its items in insertion order.
  \<open>lib\<close> holds what comes from libraries: the 15-byte BLAKE2b digest, Unicode normalisation and the
  Arrow stream format, a writer and a reader of tables. An exception is a value of \<open>werror\<close>.
\<close>

type_synonym pystr = "nat list"

datatype werror =
    W_value | W_key | W_type | W_parse | W_no_manifest | W_no_precision | W_missing_chunk bytes | W_integrity bytes
  | W_unsafe "pystr list"

type_synonym 'a result = "werror + 'a"

definition bindE :: "'a result \<Rightarrow> ('a \<Rightarrow> 'b result) \<Rightarrow> 'b result" where
  "bindE r f = (case r of Inl e \<Rightarrow> Inl e | Inr x \<Rightarrow> f x)"

lemma bindE_simps [simp]: "bindE (Inl e) f = Inl e" "bindE (Inr x) f = f x"
  by (simp_all add: bindE_def)

lemma bindE_Inr: "bindE r f = Inr y \<longleftrightarrow> (\<exists>x. r = Inr x \<and> f x = Inr y)"
  by (cases r) simp_all

text \<open>A loop that an exception leaves.\<close>

primrec foldE :: "('a \<Rightarrow> 's \<Rightarrow> 's result) \<Rightarrow> 'a list \<Rightarrow> 's \<Rightarrow> 's result" where
  "foldE f [] s = Inr s"
| "foldE f (x # xs) s = bindE (f x s) (foldE f xs)"

lemma foldE_append: "foldE f (xs @ ys) s = bindE (foldE f xs s) (foldE f ys)"
  by (induction xs arbitrary: s) (auto simp: bindE_def split: sum.splits)

section \<open>Keys\<close>

definition py_space :: "nat \<Rightarrow> bool" where
  "py_space c = ((9 \<le> c \<and> c \<le> 13) \<or> (28 \<le> c \<and> c \<le> 32) \<or> c \<in> {133, 160, 5760, 8232, 8233, 8239, 8287, 12288} \<or> (8192 \<le> c \<and> c \<le> 8202))"

definition py_strip :: "pystr \<Rightarrow> pystr" where
  "py_strip s = rev (dropWhile py_space (rev (dropWhile py_space s)))"

definition utf8_char :: "nat \<Rightarrow> bytes" where
  "utf8_char c =
    (if c < 128 then [word_of_nat c]
     else if c < 2048 then [word_of_nat (192 + c div 64), word_of_nat (128 + c mod 64)]
     else if c < 65536 then [word_of_nat (224 + c div 4096), word_of_nat (128 + c div 64 mod 64), word_of_nat (128 + c mod 64)]
     else [word_of_nat (240 + c div 262144), word_of_nat (128 + c div 4096 mod 64), word_of_nat (128 + c div 64 mod 64), word_of_nat (128 + c mod 64)])"

definition utf8 :: "pystr \<Rightarrow> bytes" where
  "utf8 s = concat (map utf8_char s)"

definition canonical_revision :: "(pystr \<Rightarrow> pystr) \<Rightarrow> pystr \<Rightarrow> pystr" where
  "canonical_revision nfc s = (let out = py_strip (nfc s) in if out \<noteq> [] \<and> last out = 47 then butlast out else out)"

definition chunk_key :: "(bytes \<Rightarrow> bytes) \<Rightarrow> bytes \<Rightarrow> bytes" where
  "chunk_key digest chunk = 1 # digest chunk"

definition manifest_key :: "(bytes \<Rightarrow> bytes) \<Rightarrow> (pystr \<Rightarrow> pystr) \<Rightarrow> pystr \<Rightarrow> bytes" where
  "manifest_key digest nfc revision = 0 # digest (utf8 (canonical_revision nfc revision))"

lemma key_tags [simp]: "manifest_key d n r \<noteq> chunk_key d c" "chunk_key d c \<noteq> manifest_key d n r"
  by (simp_all add: manifest_key_def chunk_key_def)

lemma chunk_key_inject: "chunk_key d a = chunk_key d b \<longleftrightarrow> d a = d b"
  by (simp add: chunk_key_def)

section \<open>Chunks\<close>

definition default_max_value_len :: nat where
  "default_max_value_len = 64 * 1024 * 1024"

function chunk_loop :: "bytes \<Rightarrow> nat \<Rightarrow> nat \<Rightarrow> bytes list" where
  "chunk_loop data max_len off =
    (if max_len = 0 \<or> off \<ge> length data then [] else take max_len (drop off data) # chunk_loop data max_len (off + max_len))"
  by auto
termination by (relation "measure (\<lambda>(data, max_len, off). length data - off)") auto

declare chunk_loop.simps [simp del]

definition iter_chunks :: "bytes \<Rightarrow> nat \<Rightarrow> bytes list result" where
  "iter_chunks data max_len = (if max_len = 0 then Inl W_value else Inr (chunk_loop data max_len 0))"

lemma chunk_loop_spec:
  assumes "0 < max_len"
  shows "concat (chunk_loop data max_len off) = drop off data \<and> (\<forall>c \<in> set (chunk_loop data max_len off). c \<noteq> [] \<and> length c \<le> max_len)"
proof (induction "length data - off" arbitrary: off rule: less_induct)
  case less
  show ?case
  proof (cases "off \<ge> length data")
    case True
    then show ?thesis by (simp add: chunk_loop.simps)
  next
    case False
    then have "length data - (off + max_len) < length data - off" using assms by simp
    note IH = less [OF this]
    have "concat (chunk_loop data max_len off) = take max_len (drop off data) @ drop (off + max_len) data"
      using False assms IH by (subst chunk_loop.simps) simp
    also have "\<dots> = drop off data" by (simp add: add.commute flip: drop_drop)
    finally show ?thesis using False assms IH by (subst (2) chunk_loop.simps) auto
  qed
qed

section \<open>The in-memory client\<close>

record memkv =
  kv_data :: "(bytes \<times> bytes) list"
  kv_store_calls :: nat
  kv_max_value_len :: int

definition mem_store :: "bytes \<Rightarrow> bytes \<Rightarrow> memkv \<Rightarrow> memkv" where
  "mem_store k v kv = kv\<lparr>kv_data := AList.update k v (kv_data kv), kv_store_calls := kv_store_calls kv + 1\<rparr>"

definition mem_retrieve :: "memkv \<Rightarrow> bytes \<Rightarrow> bytes option" where
  "mem_retrieve kv k = map_of (kv_data kv) k"

definition mem_exists :: "memkv \<Rightarrow> bytes \<Rightarrow> bool" where
  "mem_exists kv k = (k \<in> fst ` set (kv_data kv))"

definition mem_delete :: "bytes \<Rightarrow> memkv \<Rightarrow> memkv" where
  "mem_delete k kv = kv\<lparr>kv_data := AList.delete k (kv_data kv)\<rparr>"

definition mem_iter_keys :: "memkv \<Rightarrow> bytes list" where
  "mem_iter_keys kv = map fst (kv_data kv)"

interpretation memkv: object_map mem_retrieve "\<lambda>kv k v. mem_store k v kv" "\<lambda>kv k. mem_delete k kv" "\<lambda>_. True" "\<lambda>_ _. True"
  by unfold_locales (auto simp: mem_retrieve_def mem_store_def mem_delete_def update_conv' delete_conv' fun_eq_iff)

lemma mem_exists_iff: "mem_exists kv k \<longleftrightarrow> mem_retrieve kv k \<noteq> None"
  by (simp add: mem_exists_def mem_retrieve_def map_of_eq_None_iff)

lemma mem_store_get: "mem_retrieve (mem_store k v kv) = (mem_retrieve kv)(k \<mapsto> v)"
  using memkv.find_put by simp

lemma mem_delete_get: "mem_retrieve (mem_delete k kv) = (mem_retrieve kv)(k := None)"
  using memkv.find_del by simp

section \<open>The manifest\<close>

record variant =
  va_dtype :: pystr
  va_keys :: "bytes list"
  va_offsets :: "int list"
  va_sizes :: "int list"

record row =
  rw_shape :: "int list"
  rw_variants :: "(pystr \<times> variant) list"

record manifest =
  mf_rows :: "(pystr \<times> row) list"
  mf_precisions :: "pystr list"

definition empty_manifest :: manifest where
  "empty_manifest = \<lparr>mf_rows = [], mf_precisions = []\<rparr>"

definition add_tensor :: "pystr \<Rightarrow> pystr \<Rightarrow> pystr \<Rightarrow> int list \<Rightarrow> bytes list \<Rightarrow> int list \<Rightarrow> int list option \<Rightarrow> manifest \<Rightarrow> manifest result" where
  "add_tensor name precision dtype shape keys sizes offsets m =
    (let offs = (case offsets of None \<Rightarrow> replicate (length keys) 0 | Some os \<Rightarrow> os) in
     if \<not> (length keys = length sizes \<and> length sizes = length offs) then Inl W_value
     else
       let row = (case map_of (mf_rows m) name of None \<Rightarrow> \<lparr>rw_shape = shape, rw_variants = []\<rparr> | Some r \<Rightarrow> r) in
       if shape \<noteq> rw_shape row then Inl W_value
       else if precision \<in> fst ` set (rw_variants row) then Inl W_value
       else
         let v = \<lparr>va_dtype = dtype, va_keys = keys, va_offsets = offs, va_sizes = sizes\<rparr> in
         Inr \<lparr>mf_rows = AList.update name (row\<lparr>rw_variants := rw_variants row @ [(precision, v)]\<rparr>) (mf_rows m),
              mf_precisions = (if precision \<in> set (mf_precisions m) then mf_precisions m else mf_precisions m @ [precision])\<rparr>)"

text \<open>The read accessors.\<close>

definition variant_of :: "manifest \<Rightarrow> pystr \<Rightarrow> pystr \<Rightarrow> variant option" where
  "variant_of m tensor precision = Option.bind (map_of (mf_rows m) tensor) (\<lambda>r. map_of (rw_variants r) precision)"

definition get_variant :: "manifest \<Rightarrow> pystr \<Rightarrow> pystr \<Rightarrow> variant result" where
  "get_variant m tensor precision = (case variant_of m tensor precision of None \<Rightarrow> Inl W_key | Some v \<Rightarrow> Inr v)"

definition tensors_at :: "manifest \<Rightarrow> pystr \<Rightarrow> pystr list" where
  "tensors_at m precision = map fst (filter (\<lambda>(n, r). precision \<in> fst ` set (rw_variants r)) (mf_rows m))"

definition chunk_keys :: "manifest \<Rightarrow> pystr \<Rightarrow> pystr \<Rightarrow> bytes list result" where
  "chunk_keys m tensor precision = bindE (get_variant m tensor precision) (\<lambda>v. Inr (va_keys v))"

definition chunk_slices :: "manifest \<Rightarrow> pystr \<Rightarrow> pystr \<Rightarrow> (bytes \<times> int \<times> int) list result" where
  "chunk_slices m tensor precision = bindE (get_variant m tensor precision) (\<lambda>v. Inr (zip (va_keys v) (zip (va_offsets v) (va_sizes v))))"

definition tensor_meta :: "manifest \<Rightarrow> pystr \<Rightarrow> pystr \<Rightarrow> (pystr \<times> int list \<times> int list) result" where
  "tensor_meta m tensor precision =
    (case map_of (mf_rows m) tensor of
       None \<Rightarrow> Inl W_key
     | Some r \<Rightarrow> bindE (get_variant m tensor precision) (\<lambda>v. Inr (va_dtype v, rw_shape r, va_sizes v)))"

section \<open>The table form\<close>

definition py :: "string \<Rightarrow> pystr" where
  "py s = map of_char s"

datatype column = Col_str "pystr option list" | Col_keys "bytes list option list" | Col_ints "int list option list"

record table =
  tb_names :: "pystr list"
  tb_shapes :: "int list list"
  tb_columns :: "(pystr \<times> column) list"
  tb_meta :: "pystr option"

record lib =
  wg_digest :: "bytes \<Rightarrow> bytes"
  wg_nfc :: "pystr \<Rightarrow> pystr"
  wg_write :: "table \<Rightarrow> bytes"
  wg_read :: "bytes \<Rightarrow> table option"

definition dtype_col :: "pystr \<Rightarrow> pystr" where "dtype_col p = p @ py ''__dtype''"
definition keys_col :: "pystr \<Rightarrow> pystr" where "keys_col p = p @ py ''__keys''"
definition offsets_col :: "pystr \<Rightarrow> pystr" where "offsets_col p = p @ py ''__offsets''"
definition sizes_col :: "pystr \<Rightarrow> pystr" where "sizes_col p = p @ py ''__sizes''"

text \<open>\<^verbatim>\<open>",".join\<close> and \<^verbatim>\<open>split(",")\<close>.\<close>

fun py_join :: "pystr list \<Rightarrow> pystr" where
  "py_join [] = []"
| "py_join [x] = x"
| "py_join (x # y # xs) = x @ 44 # py_join (y # xs)"

primrec py_split :: "pystr \<Rightarrow> pystr list" where
  "py_split [] = [[]]"
| "py_split (c # cs) = (if c = 44 then [] # py_split cs else (case py_split cs of [] \<Rightarrow> [[c]] | p # ps \<Rightarrow> (c # p) # ps))"

text \<open>The columns of one precision; a row without it is null in all four.\<close>

definition cell :: "pystr \<Rightarrow> (variant \<Rightarrow> 'a) \<Rightarrow> pystr \<times> row \<Rightarrow> 'a option" where
  "cell p f nr = map_option f (map_of (rw_variants (snd nr)) p)"

definition precision_columns :: "(pystr \<times> row) list \<Rightarrow> pystr \<Rightarrow> (pystr \<times> column) list" where
  "precision_columns rows p =
    [(dtype_col p, Col_str (map (cell p va_dtype) rows)), (keys_col p, Col_keys (map (cell p va_keys) rows)),
     (offsets_col p, Col_ints (map (cell p va_offsets) rows)), (sizes_col p, Col_ints (map (cell p va_sizes) rows))]"

definition to_table :: "manifest \<Rightarrow> table" where
  "to_table m =
    \<lparr>tb_names = map fst (mf_rows m), tb_shapes = map (\<lambda>nr. rw_shape (snd nr)) (mf_rows m),
     tb_columns = concat (map (precision_columns (mf_rows m)) (mf_precisions m)), tb_meta = Some (py_join (mf_precisions m))\<rparr>"

definition to_ipc :: "lib \<Rightarrow> manifest \<Rightarrow> bytes" where
  "to_ipc lb m = wg_write lb (to_table m)"

definition table_precisions :: "table \<Rightarrow> pystr list" where
  "table_precisions t =
    (let derived = map (\<lambda>c. take (length c - 7) c) (filter (\<lambda>c. 7 \<le> length c \<and> drop (length c - 7) c = py ''__dtype'') (map fst (tb_columns t))) in
     case tb_meta t of Some s \<Rightarrow> if s \<noteq> [] then py_split s else derived | None \<Rightarrow> derived)"

definition str_column :: "table \<Rightarrow> pystr \<Rightarrow> pystr option list result" where
  "str_column t c = (case map_of (tb_columns t) c of Some (Col_str xs) \<Rightarrow> Inr xs | None \<Rightarrow> Inl W_key | _ \<Rightarrow> Inl W_type)"

definition keys_column :: "table \<Rightarrow> pystr \<Rightarrow> bytes list option list result" where
  "keys_column t c = (case map_of (tb_columns t) c of Some (Col_keys xs) \<Rightarrow> Inr xs | None \<Rightarrow> Inl W_key | _ \<Rightarrow> Inl W_type)"

definition ints_column :: "table \<Rightarrow> pystr \<Rightarrow> int list option list result" where
  "ints_column t c = (case map_of (tb_columns t) c of Some (Col_ints xs) \<Rightarrow> Inr xs | None \<Rightarrow> Inl W_key | _ \<Rightarrow> Inl W_type)"

type_synonym column_group = "pystr \<times> pystr option list \<times> bytes list option list \<times> int list option list option \<times> int list option list"

definition column_group :: "table \<Rightarrow> pystr \<Rightarrow> column_group result" where
  "column_group t p =
    bindE (if offsets_col p \<in> fst ` set (tb_columns t) then bindE (ints_column t (offsets_col p)) (\<lambda>os. Inr (Some os)) else Inr None) (\<lambda>os.
    bindE (str_column t (dtype_col p)) (\<lambda>ds.
    bindE (keys_column t (keys_col p)) (\<lambda>ks.
    bindE (ints_column t (sizes_col p)) (\<lambda>ss. Inr (p, ds, ks, os, ss)))))"

definition read_cell :: "table \<Rightarrow> nat \<Rightarrow> column_group \<Rightarrow> manifest \<Rightarrow> manifest result" where
  "read_cell t i g m =
    (case g of (p, ds, ks, os, ss) \<Rightarrow>
      (case ds ! i of
         None \<Rightarrow> Inr m
       | Some d \<Rightarrow>
           (case (ks ! i, ss ! i, map_option (\<lambda>o'. o' ! i) os) of
              (Some k, Some sz, None) \<Rightarrow> add_tensor (tb_names t ! i) p d (tb_shapes t ! i) k sz None m
            | (Some k, Some sz, Some (Some off)) \<Rightarrow> add_tensor (tb_names t ! i) p d (tb_shapes t ! i) k sz (Some off) m
            | _ \<Rightarrow> Inl W_type)))"

primrec column_groups :: "table \<Rightarrow> pystr list \<Rightarrow> column_group list result" where
  "column_groups t [] = Inr []"
| "column_groups t (p # ps) = bindE (column_group t p) (\<lambda>g. bindE (column_groups t ps) (\<lambda>gs. Inr (g # gs)))"

definition from_table :: "table \<Rightarrow> manifest result" where
  "from_table t =
    bindE (column_groups t (table_precisions t)) (\<lambda>gs.
      foldE (\<lambda>i m. foldE (read_cell t i) gs m) [0..<length (tb_names t)] empty_manifest)"

definition from_ipc :: "lib \<Rightarrow> bytes \<Rightarrow> manifest result" where
  "from_ipc lb bs = (case wg_read lb bs of None \<Rightarrow> Inl W_parse | Some t \<Rightarrow> from_table t)"

section \<open>Lemmas: the table form\<close>

definition arrow_ok :: "lib \<Rightarrow> bool" where
  "arrow_ok lb = (\<forall>t. wg_read lb (wg_write lb t) = Some t)"

definition variant_wf :: "variant \<Rightarrow> bool" where
  "variant_wf v = (length (va_keys v) = length (va_sizes v) \<and> length (va_sizes v) = length (va_offsets v))"

definition row_wf :: "pystr list \<Rightarrow> row \<Rightarrow> bool" where
  "row_wf ps r = (distinct (map fst (rw_variants r)) \<and> rw_variants r \<noteq> [] \<and> fst ` set (rw_variants r) \<subseteq> set ps
    \<and> (\<forall>v \<in> snd ` set (rw_variants r). variant_wf v))"

definition manifest_wf :: "manifest \<Rightarrow> bool" where
  "manifest_wf m = (distinct (map fst (mf_rows m)) \<and> distinct (mf_precisions m)
    \<and> (\<forall>r \<in> snd ` set (mf_rows m). row_wf (mf_precisions m) r)
    \<and> set (mf_precisions m) = (\<Union>r \<in> snd ` set (mf_rows m). fst ` set (rw_variants r)))"

lemma split_join:
  assumes "\<forall>p \<in> set ps. 44 \<notin> set p" "ps \<noteq> []"
  shows "py_split (py_join ps) = ps"
proof -
  have end': "py_split p = [p]" if "44 \<notin> set p" for p using that by (induction p) auto
  have app: "py_split (p @ 44 # s) = p # py_split s" if "44 \<notin> set p" for p s using that by (induction p) auto
  show ?thesis using assms by (induction ps rule: py_join.induct) (auto simp: end' app)
qed

lemma join_empty: "py_join ps = [] \<Longrightarrow> ps = [] \<or> ps = [[]]"
  by (cases ps rule: py_join.cases) auto

lemmas col_defs = dtype_col_def keys_col_def offsets_col_def sizes_col_def py_def

lemma append_rev_eq: "(p :: 'a list) @ s = q @ s' \<longleftrightarrow> rev s @ rev p = rev s' @ rev q"
  by (metis rev_append rev_rev_ident)

lemma col_distinct:
  "dtype_col p \<noteq> keys_col q" "dtype_col p \<noteq> offsets_col q" "dtype_col p \<noteq> sizes_col q" "keys_col p \<noteq> offsets_col q" "keys_col p \<noteq> sizes_col q"
  "offsets_col p \<noteq> sizes_col q" "dtype_col p = dtype_col q \<longleftrightarrow> p = q" "keys_col p = keys_col q \<longleftrightarrow> p = q" "offsets_col p = offsets_col q \<longleftrightarrow> p = q"
  "sizes_col p = sizes_col q \<longleftrightarrow> p = q"
  by (auto simp: col_defs append_rev_eq)

lemmas col_neq = col_distinct(1-6) col_distinct(1-6) [symmetric] col_distinct(7-)

lemma map_of_columns:
  assumes "p \<in> set ps" "c \<in> {dtype_col p, keys_col p, offsets_col p, sizes_col p}"
  shows "map_of (concat (map (precision_columns rows) ps)) c = map_of (precision_columns rows p) c"
proof -
  have other: "map_of (precision_columns rows q) c = None" if "q \<noteq> p" for q
    using that assms(2) by (auto simp: precision_columns_def col_neq)
  have here: "map_of (precision_columns rows p) c \<noteq> None" using assms(2) by (auto simp: precision_columns_def)
  show ?thesis using assms(1)
  proof (induction ps)
    case (Cons q ps)
    then show ?case using other here by (cases "q = p") (auto simp: map_add_def split: option.splits)
  qed simp
qed

lemma group_of_table:
  assumes "p \<in> set (mf_precisions m)"
  shows "column_group (to_table m) p
    = Inr (p, map (cell p va_dtype) (mf_rows m), map (cell p va_keys) (mf_rows m), Some (map (cell p va_offsets) (mf_rows m)), map (cell p va_sizes) (mf_rows m))"
proof -
  have c: "map_of (tb_columns (to_table m)) c = map_of (precision_columns (mf_rows m) p) c"
    if "c \<in> {dtype_col p, keys_col p, offsets_col p, sizes_col p}" for c
    using map_of_columns [OF assms that] by (simp add: to_table_def)
  have v: "map_of (tb_columns (to_table m)) (dtype_col p) = Some (Col_str (map (cell p va_dtype) (mf_rows m)))"
    "map_of (tb_columns (to_table m)) (keys_col p) = Some (Col_keys (map (cell p va_keys) (mf_rows m)))"
    "map_of (tb_columns (to_table m)) (offsets_col p) = Some (Col_ints (map (cell p va_offsets) (mf_rows m)))"
    "map_of (tb_columns (to_table m)) (sizes_col p) = Some (Col_ints (map (cell p va_sizes) (mf_rows m)))"
    by (simp_all add: c precision_columns_def col_neq)
  have "offsets_col p \<in> fst ` set (tb_columns (to_table m))" using v(3) by (metis map_of_eq_None_iff option.distinct(1))
  then show ?thesis by (simp add: column_group_def str_column_def keys_column_def ints_column_def v)
qed

lemma groups_of_table:
  "set ps \<subseteq> set (mf_precisions m) \<Longrightarrow> column_groups (to_table m) ps = Inr (map (\<lambda>p. (p, map (cell p va_dtype) (mf_rows m),
     map (cell p va_keys) (mf_rows m), Some (map (cell p va_offsets) (mf_rows m)), map (cell p va_sizes) (mf_rows m))) ps)"
  by (induction ps) (simp_all add: group_of_table)

lemma precisions_of_table:
  assumes "\<forall>p \<in> set (mf_precisions m). 44 \<notin> set p"
  shows "table_precisions (to_table m) = mf_precisions m"
proof (cases "py_join (mf_precisions m) = []")
  case True
  then consider "mf_precisions m = []" | "mf_precisions m = [[]]" using join_empty by blast
  then show ?thesis
    by cases (auto simp: table_precisions_def to_table_def precision_columns_def col_defs)
next
  case False
  then have "mf_precisions m \<noteq> []" by auto
  then show ?thesis using False split_join [OF assms] by (simp add: table_precisions_def to_table_def)
qed

text \<open>The variants of a row in the order of the precisions, as reading the table leaves them.\<close>

definition ordered :: "pystr list \<Rightarrow> (pystr \<times> variant) list \<Rightarrow> (pystr \<times> variant) list" where
  "ordered ps vs = concat (map (\<lambda>p. case map_of vs p of None \<Rightarrow> [] | Some v \<Rightarrow> [(p, v)]) ps)"

lemma ordered_keys: "fst ` set (ordered ps vs) = set ps \<inter> fst ` set vs"
proof -
  have "fst ` set (case map_of vs p of None \<Rightarrow> [] | Some v \<Rightarrow> [(p, v)]) = (if p \<in> fst ` set vs then {p} else {})" for p
    using map_of_eq_None_iff [of vs p] by (auto split: option.splits)
  then show ?thesis by (induction ps) (auto simp: ordered_def image_Un split: if_splits)
qed

lemma ordered_snoc: "ordered (ps @ [p]) vs = ordered ps vs @ (case map_of vs p of None \<Rightarrow> [] | Some v \<Rightarrow> [(p, v)])"
  by (simp add: ordered_def)

lemma map_of_ordered: "fst ` set vs \<subseteq> set ps \<Longrightarrow> map_of (ordered ps vs) = map_of vs"
proof
  fix p assume sub: "fst ` set vs \<subseteq> set ps"
  have "map_of (ordered qs vs) p = (if p \<in> set qs then map_of vs p else None)" for qs
    by (induction qs) (auto simp: ordered_def map_add_def split: option.splits)
  then show "map_of (ordered ps vs) p = map_of vs p" using sub map_of_eq_None_iff [of vs p] by auto
qed

lemma update_fresh: "n \<notin> fst ` set xs \<Longrightarrow> AList.update n x xs = xs @ [(n, x)]"
  by (induction xs) auto

lemma update_last: "n \<notin> fst ` set xs \<Longrightarrow> AList.update n x (xs @ [(n, y)]) = xs @ [(n, x)]"
  by (induction xs) auto

lemma read_row:
  assumes i: "i < length (mf_rows m)" "mf_rows m ! i = (n, r)" and wf: "\<forall>v \<in> snd ` set (rw_variants r). variant_wf v"
    and fresh: "n \<notin> fst ` set (mf_rows m0)" and d: "distinct ps"
  shows "\<exists>qs. foldE (read_cell (to_table m) i) (map (\<lambda>p. (p, map (cell p va_dtype) (mf_rows m),
      map (cell p va_keys) (mf_rows m), Some (map (cell p va_offsets) (mf_rows m)), map (cell p va_sizes) (mf_rows m))) ps) m0
    = Inr \<lparr>mf_rows = (if ordered ps (rw_variants r) = [] then mf_rows m0 else mf_rows m0 @ [(n, \<lparr>rw_shape = rw_shape r, rw_variants = ordered ps (rw_variants r)\<rparr>)]),
        mf_precisions = qs\<rparr> \<and> set qs = set (mf_precisions m0) \<union> (set ps \<inter> fst ` set (rw_variants r))"
  using d
proof (induction ps rule: rev_induct)
  case Nil
  then show ?case by (cases m0) (simp add: ordered_def)
next
  case (snoc p ps)
  let ?g = "\<lambda>p. (p, map (cell p va_dtype) (mf_rows m), map (cell p va_keys) (mf_rows m), Some (map (cell p va_offsets) (mf_rows m)), map (cell p va_sizes) (mf_rows m))"
  let ?row = "\<lambda>ps. \<lparr>rw_shape = rw_shape r, rw_variants = ordered ps (rw_variants r)\<rparr>"
  let ?rows = "\<lambda>ps. if ordered ps (rw_variants r) = [] then mf_rows m0 else mf_rows m0 @ [(n, ?row ps)]"
  obtain qs where qs: "foldE (read_cell (to_table m) i) (map ?g ps) m0 = Inr \<lparr>mf_rows = ?rows ps, mf_precisions = qs\<rparr>"
    "set qs = set (mf_precisions m0) \<union> (set ps \<inter> fst ` set (rw_variants r))" using snoc by auto
  have np: "p \<notin> fst ` set (ordered ps (rw_variants r))" using snoc.prems by (simp add: ordered_keys)
  have t: "tb_names (to_table m) ! i = n" "tb_shapes (to_table m) ! i = rw_shape r" using i by (simp_all add: to_table_def)
  have cell: "map (cell p f) (mf_rows m) ! i = map_option f (map_of (rw_variants r) p)" for f :: "variant \<Rightarrow> 'z" using i by (simp add: cell_def)
  show ?case
  proof (cases "map_of (rw_variants r) p")
    case None
    then have "read_cell (to_table m) i (?g p) m1 = Inr m1" for m1 using cell [of va_dtype] by (simp add: read_cell_def)
    moreover have "p \<notin> fst ` set (rw_variants r)" using None by (simp add: map_of_eq_None_iff)
    ultimately show ?thesis using qs None by (auto simp: foldE_append ordered_snoc)
  next
    case (Some v)
    then have pv: "p \<in> fst ` set (rw_variants r)" "variant_wf v" using wf map_of_SomeD [OF Some] by (force, force)
    have v: "\<lparr>va_dtype = va_dtype v, va_keys = va_keys v, va_offsets = va_offsets v, va_sizes = va_sizes v\<rparr> = v" by simp
    have rd: "read_cell (to_table m) i (?g p) m1 = add_tensor n p (va_dtype v) (rw_shape r) (va_keys v) (va_sizes v) (Some (va_offsets v)) m1" for m1
      using i Some by (simp add: read_cell_def t cell_def)
    have lookup: "map_of (mf_rows m0) n = None" using fresh by (simp add: map_of_eq_None_iff)
    have "add_tensor n p (va_dtype v) (rw_shape r) (va_keys v) (va_sizes v) (Some (va_offsets v)) \<lparr>mf_rows = ?rows ps, mf_precisions = qs\<rparr>
        = Inr \<lparr>mf_rows = mf_rows m0 @ [(n, ?row (ps @ [p]))], mf_precisions = (if p \<in> set qs then qs else qs @ [p])\<rparr>"
      using pv(2) np fresh
      by (cases "ordered ps (rw_variants r) = []")
        (simp_all add: add_tensor_def variant_wf_def lookup map_add_def ordered_snoc Some update_fresh update_last Let_def v)
    then show ?thesis using qs pv(1) rd by (auto simp: foldE_append ordered_snoc Some)
  qed
qed

text \<open>Writing a manifest and reading it back: the same rows with the same variants, their order per row that of the precisions.\<close>

lemma table_roundtrip:
  assumes "manifest_wf m" "\<forall>p \<in> set (mf_precisions m). 44 \<notin> set p"
  shows "\<exists>qs. from_table (to_table m) = Inr \<lparr>mf_rows = map (\<lambda>(n, r). (n, \<lparr>rw_shape = rw_shape r, rw_variants = ordered (mf_precisions m) (rw_variants r)\<rparr>)) (mf_rows m),
      mf_precisions = qs\<rparr> \<and> set qs = set (mf_precisions m)"
proof -
  let ?ps = "mf_precisions m" and ?rows = "mf_rows m"
  let ?c = "\<lambda>(n, r). (n, \<lparr>rw_shape = rw_shape r, rw_variants = ordered ?ps (rw_variants r)\<rparr>)"
  define gs where "gs = map (\<lambda>p. (p, map (cell p va_dtype) ?rows, map (cell p va_keys) ?rows, Some (map (cell p va_offsets) ?rows), map (cell p va_sizes) ?rows)) ?ps"
  have "\<exists>qs. foldE (\<lambda>i m1. foldE (read_cell (to_table m) i) gs m1) [0..<k] empty_manifest = Inr \<lparr>mf_rows = map ?c (take k ?rows), mf_precisions = qs\<rparr>
      \<and> set qs = (\<Union>r \<in> snd ` set (take k ?rows). fst ` set (rw_variants r))" if "k \<le> length ?rows" for k
    using that
  proof (induction k)
    case (Suc k)
    obtain n r where nr: "?rows ! k = (n, r)" by fastforce
    have wf: "row_wf ?ps r" using assms(1) Suc.prems nr nth_mem [of k ?rows] unfolding manifest_wf_def by fastforce
    have tk: "take (Suc k) ?rows = take k ?rows @ [(n, r)]" using Suc.prems nr by (simp add: take_Suc_conv_app_nth)
    have "distinct (map fst (take (Suc k) ?rows))" using assms(1) by (simp add: manifest_wf_def distinct_take flip: take_map)
    then have fresh: "n \<notin> fst ` set (map ?c (take k ?rows))" by (force simp: tk image_iff)
    obtain qs where qs: "foldE (\<lambda>i m1. foldE (read_cell (to_table m) i) gs m1) [0..<k] empty_manifest = Inr \<lparr>mf_rows = map ?c (take k ?rows), mf_precisions = qs\<rparr>"
      "set qs = (\<Union>r \<in> snd ` set (take k ?rows). fst ` set (rw_variants r))" using Suc by auto
    have d: "distinct ?ps" and v: "\<forall>v \<in> snd ` set (rw_variants r). variant_wf v" "fst ` set (rw_variants r) \<subseteq> set ?ps" "rw_variants r \<noteq> []"
      using assms(1) wf by (auto simp: manifest_wf_def row_wf_def)
    have ne: "ordered ?ps (rw_variants r) \<noteq> []" using ordered_keys [of ?ps "rw_variants r"] v(2,3) by (cases "rw_variants r") auto
    obtain qs' where qs': "foldE (read_cell (to_table m) k) gs \<lparr>mf_rows = map ?c (take k ?rows), mf_precisions = qs\<rparr>
        = Inr \<lparr>mf_rows = map ?c (take k ?rows) @ [?c (n, r)], mf_precisions = qs'\<rparr>" "set qs' = set qs \<union> fst ` set (rw_variants r)"
      using read_row [OF _ nr v(1) _ d, of "\<lparr>mf_rows = map ?c (take k ?rows), mf_precisions = qs\<rparr>"] Suc.prems fresh ne v(2)
      by (auto simp: gs_def Int_absorb1)
    show ?case using qs qs' by (auto simp: foldE_append tk)
  qed (simp add: empty_manifest_def)
  from this [of "length ?rows"] show ?thesis
    using assms precisions_of_table [OF assms(2)] groups_of_table [of ?ps m] by (auto simp: from_table_def manifest_wf_def gs_def to_table_def)
qed

end
