(* ===== verification/ManifestWf.thy ===== *)
theory ManifestWf
  imports Catalog
begin

text \<open>
  What the operations of a weight manifest keep: a manifest built by \<^verbatim>\<open>add_tensor\<close> or read by \<^verbatim>\<open>from_ipc\<close>
  has one row per tensor, one variant per precision, four lists of one length per variant and exactly
  the precisions its rows use.
\<close>

subsection \<open>What adding a tensor does to a manifest\<close>

lemma fold_invariantE:
  assumes "foldE f xs s = Inr s'" "P s" "\<And>x s s'. \<lbrakk>x \<in> set xs; P s; f x s = Inr s'\<rbrakk> \<Longrightarrow> P s'"
  shows "P s'"
  using assms
proof (induction xs arbitrary: s)
  case (Cons x xs)
  then obtain t where t: "f x s = Inr t" "foldE f xs t = Inr s'" by (auto simp: bindE_Inr)
  show ?case
  proof (rule Cons.IH [OF t(2)])
    show "P t" using Cons.prems(2) t(1) by (rule Cons.prems(3) [rotated 1]) simp
  qed (use Cons.prems(3) in auto)
qed simp

lemma add_tensor_Inr:
  assumes "add_tensor n p d sh ks szs os m = Inr m'"
  shows "\<exists>r offs. offs = (case os of None \<Rightarrow> replicate (length ks) 0 | Some x \<Rightarrow> x) \<and> length ks = length szs \<and> length szs = length offs
    \<and> r = (case map_of (mf_rows m) n of None \<Rightarrow> \<lparr>rw_shape = sh, rw_variants = []\<rparr> | Some r \<Rightarrow> r) \<and> p \<notin> fst ` set (rw_variants r)
    \<and> m' = \<lparr>mf_rows = AList.update n (r\<lparr>rw_variants := rw_variants r @ [(p, \<lparr>va_dtype = d, va_keys = ks, va_offsets = offs, va_sizes = szs\<rparr>)]\<rparr>) (mf_rows m),
         mf_precisions = (if p \<in> set (mf_precisions m) then mf_precisions m else mf_precisions m @ [p])\<rparr>"
  using assms by (auto simp: add_tensor_def Let_def split: if_splits)

lemma update_values: "x \<in> set (AList.update k v al) \<Longrightarrow> x = (k, v) \<or> (x \<in> set al \<and> (distinct (map fst al) \<longrightarrow> fst x \<noteq> k))"
  by (induction al) (auto split: if_splits simp: image_iff)

lemma update_new: "(k, v) \<in> set (AList.update k v al)"
  by (induction al) auto

lemma update_keeps: "x \<in> set al \<Longrightarrow> fst x \<noteq> k \<Longrightarrow> x \<in> set (AList.update k v al)"
  by (induction al) auto

lemma add_tensor_wf:
  assumes wf: "manifest_wf m" and add: "add_tensor n p d sh ks szs os m = Inr m'"
  shows "manifest_wf m'"
proof -
  obtain r offs where r: "r = (case map_of (mf_rows m) n of None \<Rightarrow> \<lparr>rw_shape = sh, rw_variants = []\<rparr> | Some r \<Rightarrow> r)"
    and len: "length ks = length szs" "length szs = length offs" and np: "p \<notin> fst ` set (rw_variants r)"
    and m': "m' = \<lparr>mf_rows = AList.update n (r\<lparr>rw_variants := rw_variants r @ [(p, \<lparr>va_dtype = d, va_keys = ks, va_offsets = offs, va_sizes = szs\<rparr>)]\<rparr>) (mf_rows m),
         mf_precisions = (if p \<in> set (mf_precisions m) then mf_precisions m else mf_precisions m @ [p])\<rparr>"
    using add_tensor_Inr [OF add] by blast
  define r' where "r' = r\<lparr>rw_variants := rw_variants r @ [(p, \<lparr>va_dtype = d, va_keys = ks, va_offsets = offs, va_sizes = szs\<rparr>)]\<rparr>"
  have rows': "mf_rows m' = AList.update n r' (mf_rows m)" by (simp add: m' r'_def)
  have d: "distinct (map fst (mf_rows m))" "distinct (mf_precisions m)" using wf by (auto simp: manifest_wf_def)
  have old: "rw_variants r = [] \<or> (n, r) \<in> set (mf_rows m)" using r map_of_SomeD [of "mf_rows m" n r] by (auto split: option.splits)
  have wr: "rw_variants r = [] \<or> row_wf (mf_precisions m) r" using old wf by (force simp: manifest_wf_def)
  have ps: "set (mf_precisions m') = insert p (set (mf_precisions m))" by (auto simp: m')
  have new: "row_wf (mf_precisions m') r'" using wr np len ps by (auto simp: row_wf_def variant_wf_def r'_def)
  have keep: "row_wf (mf_precisions m') q" if "(k, q) \<in> set (mf_rows m)" for k q
  proof -
    have "row_wf (mf_precisions m) q" using that wf unfolding manifest_wf_def by force
    then show ?thesis using ps by (auto simp: row_wf_def)
  qed
  have rows: "row_wf (mf_precisions m') q" if "(k, q) \<in> set (mf_rows m')" for k q
    using update_values [of "(k, q)" n r' "mf_rows m"] that new keep by (auto simp: rows')
  have "q \<in> (\<Union>r \<in> snd ` set (mf_rows m'). fst ` set (rw_variants r))" if "q \<in> set (mf_precisions m')" for q
  proof (cases "q = p \<or> q \<in> fst ` set (rw_variants r)")
    case True
    then have "q \<in> fst ` set (rw_variants r')" by (auto simp: r'_def)
    moreover have "r' \<in> snd ` set (mf_rows m')" using update_new [of n r' "mf_rows m"] unfolding rows' by force
    ultimately show ?thesis by blast
  next
    case False
    then have "q \<in> set (mf_precisions m)" using that ps by simp
    then obtain k q' where kq: "(k, q') \<in> set (mf_rows m)" "q \<in> fst ` set (rw_variants q')" using wf unfolding manifest_wf_def by force
    moreover have "k \<noteq> n" using kq False r d(1) by auto
    ultimately have "q' \<in> snd ` set (mf_rows m')" using update_keeps [of "(k, q')" "mf_rows m" n r'] unfolding rows' by force
    then show ?thesis using kq(2) by blast
  qed
  moreover have "fst ` set (rw_variants q) \<subseteq> set (mf_precisions m')" if "(k, q) \<in> set (mf_rows m')" for k q
    using rows [OF that] by (simp add: row_wf_def)
  moreover have "distinct (map fst (mf_rows m'))" "distinct (mf_precisions m')" using d by (simp_all add: m' distinct_update)
  ultimately show ?thesis using rows unfolding manifest_wf_def by fastforce
qed

lemma add_tensor_variant:
  assumes "add_tensor n p d sh ks szs (Some os) m = Inr m'"
  shows "variant_of m' = (\<lambda>n' p'. if n' = n \<and> p' = p then Some \<lparr>va_dtype = d, va_keys = ks, va_offsets = os, va_sizes = szs\<rparr> else variant_of m n' p')"
    and "set (mf_precisions m') = insert p (set (mf_precisions m))" and "variant_of m n p = None"
proof -
  obtain r where r: "r = (case map_of (mf_rows m) n of None \<Rightarrow> \<lparr>rw_shape = sh, rw_variants = []\<rparr> | Some r \<Rightarrow> r)" "p \<notin> fst ` set (rw_variants r)"
    and m': "m' = \<lparr>mf_rows = AList.update n (r\<lparr>rw_variants := rw_variants r @ [(p, \<lparr>va_dtype = d, va_keys = ks, va_offsets = os, va_sizes = szs\<rparr>)]\<rparr>) (mf_rows m),
         mf_precisions = (if p \<in> set (mf_precisions m) then mf_precisions m else mf_precisions m @ [p])\<rparr>"
    using add_tensor_Inr [OF assms] by auto
  have np: "map_of (rw_variants r) p = None" using r(2) by (simp add: map_of_eq_None_iff)
  show "variant_of m' = (\<lambda>n' p'. if n' = n \<and> p' = p then Some \<lparr>va_dtype = d, va_keys = ks, va_offsets = os, va_sizes = szs\<rparr> else variant_of m n' p')"
    using np r(1) by (auto simp: variant_of_def m' update_conv' fun_eq_iff map_add_def split: option.splits)
  show "set (mf_precisions m') = insert p (set (mf_precisions m))" by (auto simp: m')
  show "variant_of m n p = None" using np r(1) by (auto simp: variant_of_def split: option.splits)
qed

lemma empty_manifest_wf: "manifest_wf empty_manifest" "variant_of empty_manifest n p = None"
  by (simp_all add: manifest_wf_def empty_manifest_def variant_of_def)

lemma from_table_wf: "from_table t = Inr m \<Longrightarrow> manifest_wf m"
  unfolding from_table_def
proof (clarsimp simp: bindE_Inr)
  fix gs
  assume l: "foldE (\<lambda>i. foldE (read_cell t i) gs) [0..<length (tb_names t)] empty_manifest = Inr m"
  have cell: "manifest_wf s'" if "manifest_wf s" "read_cell t i g s = Inr s'" for i g s s'
    using that by (auto simp: read_cell_def split: option.splits prod.splits intro: add_tensor_wf)
  have "manifest_wf s'" if "manifest_wf s" "foldE (read_cell t i) gs s = Inr s'" for i s s'
    by (rule fold_invariantE [where P = manifest_wf, OF that(2,1)]) (rule cell)
  then show "manifest_wf m" by (rule fold_invariantE [where P = manifest_wf, OF l empty_manifest_wf(1)])
qed

lemma from_ipc_wf: "from_ipc lb bs = Inr m \<Longrightarrow> manifest_wf m"
  by (auto simp: from_ipc_def from_table_wf split: option.splits)

text \<open>A manifest read back has the tensors, the shapes, the variants and the precisions it was written with.\<close>

lemma ipc_roundtrip:
  assumes "arrow_ok lb" "manifest_wf m" "\<forall>p \<in> set (mf_precisions m). 44 \<notin> set p"
  shows "\<exists>m'. from_ipc lb (to_ipc lb m) = Inr m' \<and> variant_of m' = variant_of m \<and> set (mf_precisions m') = set (mf_precisions m)
    \<and> map fst (mf_rows m') = map fst (mf_rows m) \<and> map (rw_shape \<circ> snd) (mf_rows m') = map (rw_shape \<circ> snd) (mf_rows m)"
proof -
  let ?c = "\<lambda>r. \<lparr>rw_shape = rw_shape r, rw_variants = ordered (mf_precisions m) (rw_variants r)\<rparr>"
  obtain qs where qs: "from_table (to_table m) = Inr \<lparr>mf_rows = map (\<lambda>(n, r). (n, ?c r)) (mf_rows m), mf_precisions = qs\<rparr>"
    "set qs = set (mf_precisions m)" using table_roundtrip [OF assms(2,3)] by blast
  have row: "map_of (rw_variants (?c r)) = map_of (rw_variants r)" if "map_of (mf_rows m) n = Some r" for n r
  proof -
    have "row_wf (mf_precisions m) r" using map_of_SomeD [OF that] assms(2) unfolding manifest_wf_def by force
    then show ?thesis using assms(2) by (simp add: row_wf_def manifest_wf_def map_of_ordered)
  qed
  have "map_of (map (\<lambda>(n, r). (n, ?c r)) (mf_rows m)) n = map_option ?c (map_of (mf_rows m) n)" for n
    by (simp add: map_of_map)
  then have "variant_of \<lparr>mf_rows = map (\<lambda>(n, r). (n, ?c r)) (mf_rows m), mf_precisions = qs\<rparr> n p = variant_of m n p" for n p
    using row [of n] by (cases "map_of (mf_rows m) n") (simp_all add: variant_of_def)
  then have "variant_of \<lparr>mf_rows = map (\<lambda>(n, r). (n, ?c r)) (mf_rows m), mf_precisions = qs\<rparr> = variant_of m" by (intro ext)
  then show ?thesis using qs assms(1) by (auto simp: from_ipc_def to_ipc_def arrow_ok_def comp_def case_prod_unfold)
qed

end
