(* ===== verification/Loader.thy ===== *)
theory Loader
  imports ManifestWf
begin

text \<open>
  The read path of the weights catalog (\<^verbatim>\<open>clients/vllm-weights/src/rados_nkv_weights/loader.py\<close>): the
  manifest is retrieved and parsed, and every tensor of a precision is put together from slices of
  values, each value retrieved once, verified against its key and kept for the tensors that share it.
  The verification of a loaded model against its source is the command line's \<^verbatim>\<open>_verify\<close>.

  The lemmas show that the loader with its store of verified values does what a loader that
  retrieves and verifies every slice anew does, errors included.
\<close>

section \<open>The loader\<close>

definition load_manifest :: "lib \<Rightarrow> memkv \<Rightarrow> pystr \<Rightarrow> manifest result" where
  "load_manifest lb kv model_revision =
    (case mem_retrieve kv (manifest_key (wg_digest lb) (wg_nfc lb) model_revision) of
       None \<Rightarrow> Inl W_no_manifest
     | Some raw \<Rightarrow> from_ipc lb raw)"

definition get_verified :: "lib \<Rightarrow> memkv \<Rightarrow> bytes \<Rightarrow> (bytes \<times> bytes) list \<Rightarrow> (bytes \<times> (bytes \<times> bytes) list) result" where
  "get_verified lb kv key verified =
    (case map_of verified key of
       Some cached \<Rightarrow> Inr (cached, verified)
     | None \<Rightarrow>
         (case mem_retrieve kv key of
            None \<Rightarrow> Inl (W_missing_chunk key)
          | Some val \<Rightarrow>
              if chunk_key (wg_digest lb) val \<noteq> key then Inl (W_integrity key)
              else Inr (val, AList.update key val verified)))"

text \<open>\<^verbatim>\<open>v[a:e]\<close> for a start that is not negative.\<close>

definition py_slice :: "bytes \<Rightarrow> int \<Rightarrow> int \<Rightarrow> bytes" where
  "py_slice v a e =
    (let n = int (length v); e' = (if e < 0 then max 0 (e + n) else min e n) in take (nat (e' - a)) (drop (nat a) v))"

definition read_slice :: "lib \<Rightarrow> memkv \<Rightarrow> bytes \<times> int \<times> int \<Rightarrow> bytes list \<times> (bytes \<times> bytes) list \<Rightarrow> (bytes list \<times> (bytes \<times> bytes) list) result" where
  "read_slice lb kv sl st =
    (case sl of (key, offset, sz) \<Rightarrow>
      bindE (get_verified lb kv key (snd st)) (\<lambda>(val, verified).
        let e = offset + sz in
        if offset < 0 \<or> e > int (length val) then Inl W_value
        else Inr (fst st @ [py_slice val offset e], verified)))"

definition read_tensor :: "lib \<Rightarrow> memkv \<Rightarrow> manifest \<Rightarrow> pystr \<Rightarrow> pystr \<Rightarrow> (pystr \<times> bytes) list \<times> (bytes \<times> bytes) list
    \<Rightarrow> ((pystr \<times> bytes) list \<times> (bytes \<times> bytes) list) result" where
  "read_tensor lb kv m precision tensor st =
    bindE (chunk_slices m tensor precision) (\<lambda>slices.
    bindE (foldE (read_slice lb kv) slices ([], snd st)) (\<lambda>(parts, verified).
      let data = concat parts in
      if int (length data) \<noteq> sum_list (map (\<lambda>(k, off, sz). sz) slices) then Inl W_value
      else Inr (AList.update tensor data (fst st), verified)))"

definition reassemble :: "lib \<Rightarrow> memkv \<Rightarrow> manifest \<Rightarrow> pystr \<Rightarrow> (pystr \<times> bytes) list result" where
  "reassemble lb kv m precision =
    (if precision \<notin> set (mf_precisions m) then Inl W_no_precision
     else bindE (foldE (read_tensor lb kv m precision) (tensors_at m precision) ([], [])) (\<lambda>st. Inr (fst st)))"

definition load :: "lib \<Rightarrow> memkv \<Rightarrow> pystr \<Rightarrow> pystr \<Rightarrow> (pystr \<times> bytes) list result" where
  "load lb kv model_revision precision =
    bindE (load_manifest lb kv model_revision) (\<lambda>m. reassemble lb kv m precision)"

text \<open>\<^verbatim>\<open>_verify\<close>: \<open>src\<close> holds the name, the SHA-256 digest and the length of every tensor of the source.\<close>

definition verify :: "lib \<Rightarrow> (bytes \<Rightarrow> bytes) \<Rightarrow> memkv \<Rightarrow> pystr \<Rightarrow> pystr \<Rightarrow> (pystr \<times> bytes \<times> nat) list \<Rightarrow> nat result" where
  "verify lb sha256 kv model_revision precision src =
    bindE (load lb kv model_revision precision) (\<lambda>tensors.
      let mismatches = filter (\<lambda>(name, data).
            case map_of src name of
              None \<Rightarrow> True
            | Some (sha, nbytes) \<Rightarrow> if length data \<noteq> nbytes then True else sha256 data \<noteq> sha) tensors;
          missing = filter (\<lambda>name. name \<notin> fst ` set tensors) (map fst src) in
      Inr (if mismatches \<noteq> [] \<or> missing \<noteq> [] then 1 else 0))"

section \<open>The loader without the store of verified values\<close>

primrec mapE :: "('a \<Rightarrow> 'b result) \<Rightarrow> 'a list \<Rightarrow> 'b list result" where
  "mapE f [] = Inr []"
| "mapE f (x # xs) = bindE (f x) (\<lambda>y. bindE (mapE f xs) (\<lambda>ys. Inr (y # ys)))"

definition value_at :: "lib \<Rightarrow> memkv \<Rightarrow> bytes \<Rightarrow> bytes result" where
  "value_at lb kv key =
    (case mem_retrieve kv key of
       None \<Rightarrow> Inl (W_missing_chunk key)
     | Some val \<Rightarrow> if chunk_key (wg_digest lb) val \<noteq> key then Inl (W_integrity key) else Inr val)"

definition slice_bytes :: "lib \<Rightarrow> memkv \<Rightarrow> bytes \<times> int \<times> int \<Rightarrow> bytes result" where
  "slice_bytes lb kv sl =
    (case sl of (key, offset, sz) \<Rightarrow>
      bindE (value_at lb kv key) (\<lambda>val.
        if offset < 0 \<or> offset + sz > int (length val) then Inl W_value else Inr (py_slice val offset (offset + sz))))"

definition variant_bytes :: "lib \<Rightarrow> memkv \<Rightarrow> variant \<Rightarrow> bytes result" where
  "variant_bytes lb kv v =
    bindE (mapE (slice_bytes lb kv) (zip (va_keys v) (zip (va_offsets v) (va_sizes v)))) (\<lambda>parts.
      if int (length (concat parts)) \<noteq> sum_list (map (\<lambda>(k, off, sz). sz) (zip (va_keys v) (zip (va_offsets v) (va_sizes v)))) then Inl W_value
      else Inr (concat parts))"

definition tensor_bytes :: "lib \<Rightarrow> memkv \<Rightarrow> manifest \<Rightarrow> pystr \<Rightarrow> pystr \<Rightarrow> (pystr \<times> bytes) result" where
  "tensor_bytes lb kv m precision tensor =
    bindE (get_variant m tensor precision) (\<lambda>v. bindE (variant_bytes lb kv v) (\<lambda>data. Inr (tensor, data)))"

definition load_uncached :: "lib \<Rightarrow> memkv \<Rightarrow> pystr \<Rightarrow> pystr \<Rightarrow> (pystr \<times> bytes) list result" where
  "load_uncached lb kv model_revision precision =
    bindE (load_manifest lb kv model_revision) (\<lambda>m.
      if precision \<notin> set (mf_precisions m) then Inl W_no_precision
      else mapE (tensor_bytes lb kv m precision) (tensors_at m precision))"

section \<open>Lemmas\<close>

definition verified_ok :: "lib \<Rightarrow> memkv \<Rightarrow> (bytes \<times> bytes) list \<Rightarrow> bool" where
  "verified_ok lb kv ver = (\<forall>k v. map_of ver k = Some v \<longrightarrow> value_at lb kv k = Inr v)"

lemma get_verified_Inl: "verified_ok lb kv ver \<Longrightarrow> get_verified lb kv k ver = Inl e \<longleftrightarrow> value_at lb kv k = Inl e"
  by (cases "map_of ver k") (auto simp: get_verified_def value_at_def verified_ok_def split: option.splits if_splits)

lemma get_verified_Inr:
  assumes ok: "verified_ok lb kv ver" and g: "get_verified lb kv k ver = Inr (v, ver')"
  shows "value_at lb kv k = Inr v \<and> verified_ok lb kv ver'"
proof (cases "map_of ver k")
  case None
  then have "value_at lb kv k = Inr v" "ver' = AList.update k v ver" using g by (auto simp: get_verified_def value_at_def split: option.splits if_splits)
  then show ?thesis using ok unfolding verified_ok_def by (simp add: update_conv')
next
  case (Some x)
  then show ?thesis using assms by (simp add: get_verified_def verified_ok_def)
qed

lemma read_slice_Inr:
  assumes "verified_ok lb kv (snd st)" "read_slice lb kv sl st = Inr st'"
  shows "\<exists>piece. slice_bytes lb kv sl = Inr piece \<and> fst st' = fst st @ [piece] \<and> verified_ok lb kv (snd st')"
proof -
  obtain k off sz where sl: "sl = (k, off, sz)" by (cases sl)
  then obtain v ver where g: "get_verified lb kv k (snd st) = Inr (v, ver)" using assms(2) by (auto simp: read_slice_def bindE_Inr)
  then show ?thesis using get_verified_Inr [OF assms(1) g] assms(2)
    by (auto simp: sl read_slice_def slice_bytes_def Let_def split: if_splits)
qed

lemma read_slice_Inl:
  assumes "verified_ok lb kv (snd st)" "read_slice lb kv sl st = Inl e"
  shows "slice_bytes lb kv sl = Inl e"
proof (cases "get_verified lb kv (fst sl) (snd st)")
  case (Inl a)
  then show ?thesis using assms(2) get_verified_Inl [OF assms(1), of "fst sl" a] by (cases sl) (simp add: read_slice_def slice_bytes_def)
next
  case (Inr b)
  then show ?thesis using assms get_verified_Inr [OF assms(1), of "fst sl" "fst b" "snd b"]
    by (cases sl) (auto simp: read_slice_def slice_bytes_def Let_def case_prod_unfold split: if_splits)
qed

text \<open>A loop whose steps agree with \<open>g\<close>, up to a part of the state that only has to keep an invariant.\<close>

lemma foldE_mapE:
  assumes Inr: "\<And>x st st'. \<lbrakk>x \<in> set xs; I (snd st); f x st = Inr st'\<rbrakk> \<Longrightarrow> \<exists>y. g x = Inr y \<and> fst st' = fst st @ [y] \<and> I (snd st')"
    and Inl: "\<And>x st e. \<lbrakk>x \<in> set xs; I (snd st); f x st = Inl e\<rbrakk> \<Longrightarrow> g x = Inl e" and I: "I (snd st)"
  shows "(case foldE f xs st of Inl e \<Rightarrow> mapE g xs = Inl e | Inr st' \<Rightarrow> \<exists>ys. mapE g xs = Inr ys \<and> fst st' = fst st @ ys \<and> I (snd st'))"
  using assms
proof (induction xs arbitrary: st)
  case (Cons x xs)
  show ?case
  proof (cases "f x st")
    case (Inl e)
    then show ?thesis using Cons.prems(2) [of x st e] Cons.prems(3) by simp
  next
    case (Inr st')
    then obtain y where y: "g x = Inr y" "fst st' = fst st @ [y]" "I (snd st')" using Cons.prems(1) [of x st st'] Cons.prems(3) by auto
    have IH: "(case foldE f xs st' of Inl e \<Rightarrow> mapE g xs = Inl e | Inr st'' \<Rightarrow> \<exists>ys. mapE g xs = Inr ys \<and> fst st'' = fst st' @ ys \<and> I (snd st''))"
      by (rule Cons.IH) (use Cons.prems(1,2) y(3) in auto)
    then show ?thesis using Inr y by (auto split: sum.splits)
  qed
qed simp

lemma read_slices:
  assumes "verified_ok lb kv ver"
  shows "(case foldE (read_slice lb kv) sls ([], ver) of Inl e \<Rightarrow> mapE (slice_bytes lb kv) sls = Inl e
    | Inr st \<Rightarrow> mapE (slice_bytes lb kv) sls = Inr (fst st) \<and> verified_ok lb kv (snd st))"
  using foldE_mapE [of sls "verified_ok lb kv" "read_slice lb kv" "slice_bytes lb kv" "([], ver)"] assms
  by (auto simp: read_slice_Inr read_slice_Inl split: sum.splits)

lemma read_tensor_cases:
  assumes "verified_ok lb kv (snd st)"
  shows "(case read_tensor lb kv m p n st of Inl e \<Rightarrow> tensor_bytes lb kv m p n = Inl e
    | Inr st' \<Rightarrow> \<exists>d. tensor_bytes lb kv m p n = Inr (n, d) \<and> fst st' = AList.update n d (fst st) \<and> verified_ok lb kv (snd st'))"
proof (cases "get_variant m n p")
  case (Inr v)
  define sls where "sls = zip (va_keys v) (zip (va_offsets v) (va_sizes v))"
  show ?thesis using read_slices [OF assms, of sls] Inr
    by (cases "foldE (read_slice lb kv) sls ([], snd st)")
      (auto simp: read_tensor_def chunk_slices_def tensor_bytes_def variant_bytes_def Let_def simp flip: sls_def split: prod.splits)
qed (simp add: read_tensor_def chunk_slices_def tensor_bytes_def)

lemma read_tensor_Inl:
  assumes "verified_ok lb kv (snd st)" "read_tensor lb kv m p n st = Inl e"
  shows "tensor_bytes lb kv m p n = Inl e"
  using read_tensor_cases [OF assms(1), of m p n] assms(2) by simp

lemma read_tensor_Inr:
  assumes "verified_ok lb kv (snd st)" "read_tensor lb kv m p n st = Inr st'"
  shows "\<exists>d. tensor_bytes lb kv m p n = Inr (n, d) \<and> fst st' = AList.update n d (fst st) \<and> verified_ok lb kv (snd st')"
  using read_tensor_cases [OF assms(1), of m p n] assms(2) by simp

lemma mapE_Inr: "mapE f xs = Inr ys \<longleftrightarrow> length ys = length xs \<and> (\<forall>i < length xs. f (xs ! i) = Inr (ys ! i))"
proof (induction xs arbitrary: ys)
  case (Cons x xs)
  then show ?case by (cases ys) (auto simp: bindE_Inr All_less_Suc2)
qed auto

lemma mapE_cong: "(\<And>x. x \<in> set xs \<Longrightarrow> f x = g x) \<Longrightarrow> mapE f xs = mapE g xs"
  by (induction xs) simp_all

lemma mapE_total: "(\<And>x. x \<in> set xs \<Longrightarrow> f x = Inr (g x)) \<Longrightarrow> mapE f xs = Inr (map g xs)"
  by (induction xs) simp_all

lemma read_tensors:
  assumes "distinct ns" "verified_ok lb kv (snd st)" "set ns \<inter> fst ` set (fst st) = {}"
  shows "(case foldE (read_tensor lb kv m p) ns st of Inl e \<Rightarrow> mapE (tensor_bytes lb kv m p) ns = Inl e
    | Inr st' \<Rightarrow> \<exists>ys. mapE (tensor_bytes lb kv m p) ns = Inr ys \<and> fst st' = fst st @ ys)"
  using assms
proof (induction ns arbitrary: st)
  case (Cons n ns)
  show ?case
  proof (cases "read_tensor lb kv m p n st")
    case (Inl e)
    then show ?thesis using read_tensor_Inl [OF Cons.prems(2) Inl] by simp
  next
    case (Inr st')
    then obtain d where d: "tensor_bytes lb kv m p n = Inr (n, d)" "fst st' = fst st @ [(n, d)]" "verified_ok lb kv (snd st')"
      using read_tensor_Inr [OF Cons.prems(2) Inr] Cons.prems(3) by (auto simp: update_fresh)
    have "set ns \<inter> fst ` set (fst st') = {}" using Cons.prems(1,3) d(2) by auto
    then have "(case foldE (read_tensor lb kv m p) ns st' of Inl e \<Rightarrow> mapE (tensor_bytes lb kv m p) ns = Inl e
      | Inr st'' \<Rightarrow> \<exists>ys. mapE (tensor_bytes lb kv m p) ns = Inr ys \<and> fst st'' = fst st' @ ys)"
      using Cons.IH Cons.prems(1) d(3) by auto
    then show ?thesis using Inr d by (auto split: sum.splits)
  qed
qed simp

lemma tensors_at_distinct: "distinct (map fst (mf_rows m)) \<Longrightarrow> distinct (tensors_at m p)"
  by (simp add: tensors_at_def distinct_map_filter)

lemma tensors_at_iff: "distinct (map fst (mf_rows m)) \<Longrightarrow> n \<in> set (tensors_at m p) \<longleftrightarrow> variant_of m n p \<noteq> None"
proof -
  assume d: "distinct (map fst (mf_rows m))"
  have "n \<in> set (tensors_at m p) \<longleftrightarrow> (\<exists>r. map_of (mf_rows m) n = Some r \<and> p \<in> fst ` set (rw_variants r))"
    using d by (force simp: tensors_at_def map_of_eq_Some_iff)
  also have "\<dots> \<longleftrightarrow> variant_of m n p \<noteq> None" 
  proof (cases "map_of (mf_rows m) n")
    case (Some r)
    then show ?thesis using map_of_eq_None_iff [of "rw_variants r" p] by (simp add: variant_of_def)
  qed (simp add: variant_of_def)
  finally show ?thesis .
qed

lemma reassemble_mapE:
  assumes "distinct (map fst (mf_rows m))"
  shows "reassemble lb kv m p = (if p \<notin> set (mf_precisions m) then Inl W_no_precision else mapE (tensor_bytes lb kv m p) (tensors_at m p))"
  using read_tensors [OF tensors_at_distinct [OF assms], of lb kv "([], [])" p m p]
  by (auto simp: reassemble_def verified_ok_def bindE_def split: sum.splits)

lemma load_is_uncached: "load lb kv mr p = load_uncached lb kv mr p"
proof (cases "load_manifest lb kv mr")
  case (Inr m)
  then have "manifest_wf m" by (auto simp: load_manifest_def from_ipc_wf split: option.splits)
  then show ?thesis using Inr by (simp add: load_def load_uncached_def reassemble_mapE manifest_wf_def)
qed (simp add: load_def load_uncached_def)

text \<open>A load seen from the manifest: one entry per tensor of the precision, with the bytes of its variant.\<close>

lemma load_Inr:
  assumes "load_manifest lb kv mr = Inr m"
  shows "load lb kv mr p = Inr out \<longleftrightarrow> p \<in> set (mf_precisions m) \<and> map fst out = tensors_at m p
    \<and> (\<forall>n d. (n, d) \<in> set out \<longrightarrow> (\<exists>v. variant_of m n p = Some v \<and> variant_bytes lb kv v = Inr d))"
proof -
  have tb: "tensor_bytes lb kv m p n = Inr y \<longleftrightarrow> fst y = n \<and> (\<exists>v. variant_of m n p = Some v \<and> variant_bytes lb kv v = Inr (snd y))" for n y
    by (cases y) (auto simp: tensor_bytes_def get_variant_def bindE_Inr split: option.splits)
  have "mapE (tensor_bytes lb kv m p) ns = Inr ys \<longleftrightarrow> map fst ys = ns
      \<and> (\<forall>n d. (n, d) \<in> set ys \<longrightarrow> (\<exists>v. variant_of m n p = Some v \<and> variant_bytes lb kv v = Inr d))" for ns ys
  proof (induction ns arbitrary: ys)
    case (Cons n ns)
    then show ?case by (cases ys) (auto simp: bindE_Inr tb)
  qed auto
  then show ?thesis using assms by (simp add: load_is_uncached load_uncached_def)
qed

lemma load_map_of:
  assumes m: "load_manifest lb kv mr = Inr m" and out: "load lb kv mr p = Inr out"
  shows "map_of out n = (case variant_of m n p of None \<Rightarrow> None | Some v \<Rightarrow> (case variant_bytes lb kv v of Inl _ \<Rightarrow> None | Inr d \<Rightarrow> Some d))"
proof -
  have d: "distinct (map fst (mf_rows m))" using m from_ipc_wf by (auto simp: load_manifest_def manifest_wf_def split: option.splits)
  note o = out [unfolded load_Inr [OF m]]
  show ?thesis
  proof (cases "map_of out n")
    case None
    then have "n \<notin> set (tensors_at m p)" using o by (auto simp: map_of_eq_None_iff simp flip: set_map)
    then show ?thesis using None tensors_at_iff [OF d] by auto
  next
    case (Some x)
    then show ?thesis using o map_of_SomeD [OF Some] by fastforce
  qed
qed

lemma load_succeeds:
  assumes m: "load_manifest lb kv mr = Inr m" and p: "p \<in> set (mf_precisions m)"
    and v: "\<And>n v. variant_of m n p = Some v \<Longrightarrow> \<exists>d. variant_bytes lb kv v = Inr d"
  shows "\<exists>out. load lb kv mr p = Inr out"
proof -
  have d: "distinct (map fst (mf_rows m))" using m from_ipc_wf by (auto simp: load_manifest_def manifest_wf_def split: option.splits)
  define out where "out = map (\<lambda>n. (n, projr (variant_bytes lb kv (the (variant_of m n p))))) (tensors_at m p)"
  have "load lb kv mr p = Inr out" unfolding load_Inr [OF m]
    using p v tensors_at_iff [OF d] by (fastforce simp: out_def comp_def)
  then show ?thesis ..
qed

text \<open>The bytes of a variant depend only on the values under its keys, and with values that hash apart, not even on them.\<close>

lemma value_at_cong: "mem_retrieve kv k = mem_retrieve kv' k \<Longrightarrow> value_at lb kv k = value_at lb kv' k"
  by (simp add: value_at_def)

lemma variant_bytes_cong:
  assumes "\<And>k. k \<in> set (va_keys v) \<Longrightarrow> value_at lb kv k = value_at lb kv' k"
  shows "variant_bytes lb kv v = variant_bytes lb kv' v"
proof -
  have "mapE (slice_bytes lb kv) (zip (va_keys v) (zip (va_offsets v) (va_sizes v))) = mapE (slice_bytes lb kv') (zip (va_keys v) (zip (va_offsets v) (va_sizes v)))"
    by (rule mapE_cong) (auto simp: slice_bytes_def assms dest: set_zip_leftD)
  then show ?thesis by (simp add: variant_bytes_def)
qed

lemma variant_bytes_values:
  assumes "variant_bytes lb kv v = Inr d" "variant_wf v" "k \<in> set (va_keys v)"
  shows "\<exists>val. value_at lb kv k = Inr val"
proof -
  obtain i where i: "i < length (va_keys v)" "va_keys v ! i = k" using assms(3) by (auto simp: in_set_conv_nth)
  obtain ys where "mapE (slice_bytes lb kv) (zip (va_keys v) (zip (va_offsets v) (va_sizes v))) = Inr ys"
    using assms(1) by (auto simp: variant_bytes_def bindE_Inr)
  then have "\<exists>y. slice_bytes lb kv (k, va_offsets v ! i, va_sizes v ! i) = Inr y"
    using i assms(2) by (fastforce simp: mapE_Inr variant_wf_def)
  then show ?thesis by (auto simp: slice_bytes_def bindE_Inr)
qed

lemma value_at_Inr: "value_at lb kv k = Inr v \<longleftrightarrow> mem_retrieve kv k = Some v \<and> chunk_key (wg_digest lb) v = k"
  by (auto simp: value_at_def split: option.splits)

text \<open>The values of a catalog that are stored under chunk keys.\<close>

definition chunk_values :: "memkv \<Rightarrow> bytes list" where
  "chunk_values kv = map snd (filter (\<lambda>(k, v). take 1 k = [1]) (kv_data kv))"

lemma value_at_chunk: "value_at lb kv k = Inr v \<Longrightarrow> v \<in> set (chunk_values kv)"
  by (force simp: value_at_Inr chunk_values_def mem_retrieve_def chunk_key_def dest!: map_of_SomeD)

lemma variant_of_wf: "manifest_wf m \<Longrightarrow> variant_of m n p = Some v \<Longrightarrow> variant_wf v"
  using map_of_SomeD unfolding variant_of_def manifest_wf_def row_wf_def by (fastforce simp: bind_eq_Some_conv)

lemma variant_bytes_unique:
  assumes dd: "variant_bytes lb kv v = Inr d" "variant_bytes lb kv' v = Inr d'" and v: "variant_wf v"
    and inj: "inj_on (wg_digest lb) (set (chunk_values kv @ chunk_values kv'))"
  shows "d = d'"
proof -
  have "value_at lb kv k = value_at lb kv' k" if k: "k \<in> set (va_keys v)" for k
  proof -
    obtain a b where ab: "value_at lb kv k = Inr a" "value_at lb kv' k = Inr b"
      using variant_bytes_values [OF dd(1) v k] variant_bytes_values [OF dd(2) v k] by blast
    then have "wg_digest lb a = wg_digest lb b" by (metis value_at_Inr chunk_key_inject)
    then have "a = b" using ab inj value_at_chunk [OF ab(1)] value_at_chunk [OF ab(2)] by (auto dest: inj_onD)
    then show ?thesis using ab by simp
  qed
  then show ?thesis using variant_bytes_cong [of v lb kv kv'] dd by simp
qed

text \<open>What a load reads: the manifest and the keys it names.\<close>

lemma load_cong:
  assumes m: "mem_retrieve kv (manifest_key (wg_digest lb) (wg_nfc lb) mr) = mem_retrieve kv' (manifest_key (wg_digest lb) (wg_nfc lb) mr)"
    and k: "\<And>m n p v k. load_manifest lb kv mr = Inr m \<Longrightarrow> variant_of m n p = Some v \<Longrightarrow> k \<in> set (va_keys v) \<Longrightarrow> mem_retrieve kv k = mem_retrieve kv' k"
  shows "load lb kv mr p = load lb kv' mr p"
proof -
  have lm: "load_manifest lb kv mr = load_manifest lb kv' mr" using m by (simp add: load_manifest_def)
  show ?thesis
  proof (cases "load_manifest lb kv mr")
    case (Inr w)
    have "tensor_bytes lb kv w p n = tensor_bytes lb kv' w p n" for n
    proof (cases "variant_of w n p")
      case (Some v)
      have "variant_bytes lb kv v = variant_bytes lb kv' v" using k [OF Inr Some] by (auto intro!: variant_bytes_cong value_at_cong)
      then show ?thesis by (simp add: tensor_bytes_def get_variant_def Some)
    qed (simp add: tensor_bytes_def get_variant_def)
    then have "mapE (tensor_bytes lb kv w p) ns = mapE (tensor_bytes lb kv' w p) ns" for ns by (intro mapE_cong)
    then show ?thesis using Inr lm by (simp add: load_is_uncached load_uncached_def)
  qed (use lm in \<open>simp add: load_def\<close>)
qed

end
