(* ===== verification/Publish.thy ===== *)
theory Publish
  imports Loader
begin

text \<open>
  The write path of the weights catalog (\<^verbatim>\<open>clients/vllm-weights/src/rados_nkv_weights/publisher.py\<close>): a
  tensor is cut into chunks of at most the value cap, a chunk of the cap is a value of its own, smaller
  chunks are packed into a shared value, a value is stored under the hash of its bytes unless the key
  exists, and the slice records of a value are filled in when it is sealed. \<^verbatim>\<open>finalize\<close> seals the last
  value, adds the tensors to the manifest and stores it.

  \<open>bd_values\<close> is the history of the values given to \<^verbatim>\<open>_store_value\<close>, and \<open>bd_assert_ok\<close> says that no
  assertion of \<^verbatim>\<open>_fill\<close> has failed: they are read by no operation.
\<close>

section \<open>The builder\<close>

type_synonym spec = "(pystr \<times> (pystr \<times> pystr \<times> int list \<times> bytes) list) list"

record publish_stats =
  st_chunks_total :: nat
  st_values_total :: nat
  st_values_stored :: nat
  st_values_deduped :: nat
  st_bytes_total :: nat

record slice =
  sl_tensor :: pystr
  sl_precision :: pystr
  sl_seq :: nat

record builder =
  bd_kv :: memkv
  bd_max :: nat
  bd_pack :: bool
  bd_stats :: publish_stats
  bd_records :: "pystr \<times> pystr \<rightharpoonup> (bytes option \<times> nat option \<times> nat) list"
  bd_buf :: bytes
  bd_members :: "(slice \<times> nat \<times> nat) list"
  bd_values :: "bytes list"
  bd_assert_ok :: bool

definition builder_init :: "memkv \<Rightarrow> nat \<Rightarrow> bool \<Rightarrow> builder" where
  "builder_init kv max_value_len pack =
    \<lparr>bd_kv = kv, bd_max = max_value_len, bd_pack = pack,
     bd_stats = \<lparr>st_chunks_total = 0, st_values_total = 0, st_values_stored = 0, st_values_deduped = 0, st_bytes_total = 0\<rparr>,
     bd_records = Map.empty, bd_buf = [], bd_members = [], bd_values = [], bd_assert_ok = True\<rparr>"

definition new_slice :: "pystr \<Rightarrow> pystr \<Rightarrow> nat \<Rightarrow> builder \<Rightarrow> slice \<times> builder" where
  "new_slice tensor precision sz b =
    (let recs = (case bd_records b (tensor, precision) of None \<Rightarrow> [] | Some rs \<Rightarrow> rs) in
     (\<lparr>sl_tensor = tensor, sl_precision = precision, sl_seq = length recs\<rparr>,
      b\<lparr>bd_records := (bd_records b)((tensor, precision) \<mapsto> recs @ [(None, None, sz)]),
        bd_stats := (bd_stats b)\<lparr>st_chunks_total := st_chunks_total (bd_stats b) + 1\<rparr>\<rparr>))"

definition builder_store_value :: "bytes \<Rightarrow> bytes \<Rightarrow> builder \<Rightarrow> builder" where
  "builder_store_value key val b =
    (let st = (bd_stats b)\<lparr>st_values_total := st_values_total (bd_stats b) + 1\<rparr>;
         b' = b\<lparr>bd_values := bd_values b @ [val]\<rparr> in
     if mem_exists (bd_kv b) key then b'\<lparr>bd_stats := st\<lparr>st_values_deduped := st_values_deduped st + 1\<rparr>\<rparr>
     else b'\<lparr>bd_kv := mem_store key val (bd_kv b), bd_stats := st\<lparr>st_values_stored := st_values_stored st + 1\<rparr>\<rparr>)"

definition fill :: "slice \<Rightarrow> bytes \<Rightarrow> nat \<Rightarrow> nat \<Rightarrow> builder \<Rightarrow> builder" where
  "fill sl key offset sz b =
    (case bd_records b (sl_tensor sl, sl_precision sl) of
       None \<Rightarrow> b\<lparr>bd_assert_ok := False\<rparr>
     | Some rs \<Rightarrow>
         if sl_seq sl \<ge> length rs then b\<lparr>bd_assert_ok := False\<rparr>
         else b\<lparr>bd_records := (bd_records b)((sl_tensor sl, sl_precision sl) \<mapsto> rs[sl_seq sl := (Some key, Some offset, snd (snd (rs ! sl_seq sl)))]),
                bd_assert_ok := bd_assert_ok b \<and> snd (snd (rs ! sl_seq sl)) = sz\<rparr>)"

definition store_whole :: "(bytes \<Rightarrow> bytes) \<Rightarrow> slice \<Rightarrow> bytes \<Rightarrow> builder \<Rightarrow> builder" where
  "store_whole digest sl chunk b =
    (let key = chunk_key digest chunk in fill sl key 0 (length chunk) (builder_store_value key chunk b))"

definition flush_pending :: "(bytes \<Rightarrow> bytes) \<Rightarrow> builder \<Rightarrow> builder" where
  "flush_pending digest b =
    (if bd_members b = [] then b
     else
       let val = bd_buf b; key = chunk_key digest val;
           b1 = builder_store_value key val b;
           b2 = fold (\<lambda>(sl, offset, sz). fill sl key offset sz) (bd_members b) b1 in
       b2\<lparr>bd_buf := [], bd_members := []\<rparr>)"

definition append_packed :: "(bytes \<Rightarrow> bytes) \<Rightarrow> slice \<Rightarrow> bytes \<Rightarrow> builder \<Rightarrow> builder" where
  "append_packed digest sl chunk b =
    (let b1 = (if length (bd_buf b) + length chunk > bd_max b then flush_pending digest b else b) in
     b1\<lparr>bd_buf := bd_buf b1 @ chunk, bd_members := bd_members b1 @ [(sl, length (bd_buf b1), length chunk)]\<rparr>)"

definition add_chunk :: "(bytes \<Rightarrow> bytes) \<Rightarrow> pystr \<Rightarrow> pystr \<Rightarrow> bytes \<Rightarrow> builder \<Rightarrow> builder" where
  "add_chunk digest tensor precision chunk b =
    (case new_slice tensor precision (length chunk) b of (sl, b1) \<Rightarrow>
       if \<not> bd_pack b1 \<or> length chunk = bd_max b1 then store_whole digest sl chunk (flush_pending digest b1)
       else append_packed digest sl chunk b1)"

text \<open>\<^verbatim>\<open>_Builder.add_tensor\<close>; \<^verbatim>\<open>publish\<close> has rejected a cap of zero, on which \<^verbatim>\<open>iter_chunks\<close> would raise.\<close>

definition build_tensor :: "(bytes \<Rightarrow> bytes) \<Rightarrow> pystr \<Rightarrow> pystr \<Rightarrow> bytes \<Rightarrow> builder \<Rightarrow> builder" where
  "build_tensor digest tensor precision data b =
    (let b1 = b\<lparr>bd_stats := (bd_stats b)\<lparr>st_bytes_total := st_bytes_total (bd_stats b) + length data\<rparr>\<rparr> in
     if length data = 0 then
       (case bd_records b1 (tensor, precision) of None \<Rightarrow> b1\<lparr>bd_records := (bd_records b1)((tensor, precision) \<mapsto> [])\<rparr> | Some _ \<Rightarrow> b1)
     else
       (case iter_chunks data (bd_max b1) of
          Inl _ \<Rightarrow> b1
        | Inr chunks \<Rightarrow> fold (add_chunk digest tensor precision) chunks b1))"

section \<open>Publishing\<close>

definition spec_items :: "spec \<Rightarrow> ((pystr \<times> pystr) \<times> pystr \<times> int list \<times> bytes) list" where
  "spec_items tensors = concat (map (\<lambda>(n, bp). map (\<lambda>(p, x). ((n, p), x)) bp) tensors)"

definition assemble :: "lib \<Rightarrow> memkv \<Rightarrow> nat \<Rightarrow> bool \<Rightarrow> spec \<Rightarrow> builder" where
  "assemble lb kv max_value_len pack tensors =
    fold (\<lambda>((n, p), dtype, shape, data). build_tensor (wg_digest lb) n p data) (spec_items tensors) (builder_init kv max_value_len pack)"

definition filled_recs :: "(bytes option \<times> nat option \<times> nat) list \<Rightarrow> (bytes list \<times> int list \<times> int list) option" where
  "filled_recs rs =
    (if (\<forall>(k, off, sz) \<in> set rs. k \<noteq> None \<and> off \<noteq> None)
     then Some (map (\<lambda>(k, off, sz). the k) rs, map (\<lambda>(k, off, sz). int sz) rs, map (\<lambda>(k, off, sz). int (the off)) rs)
     else None)"

definition finalize_item :: "builder \<Rightarrow> (pystr \<times> pystr) \<times> pystr \<times> int list \<times> bytes \<Rightarrow> manifest \<Rightarrow> manifest result" where
  "finalize_item b it m =
    (case it of ((n, p), dtype, shape, data) \<Rightarrow>
      (let recs = (case bd_records b (n, p) of None \<Rightarrow> [] | Some rs \<Rightarrow> rs) in
       case filled_recs recs of
         None \<Rightarrow> Inl W_type
       | Some (keys, sizes, offsets) \<Rightarrow> add_tensor n p dtype shape keys sizes (Some offsets) m))"

text \<open>\<^verbatim>\<open>finalize\<close>: the values stored so far stay in the catalog when the manifest is refused.\<close>

definition finalize :: "lib \<Rightarrow> spec \<Rightarrow> pystr \<Rightarrow> manifest option \<Rightarrow> builder \<Rightarrow> memkv \<times> publish_stats result" where
  "finalize lb tensors model_revision base b =
    (let b1 = flush_pending (wg_digest lb) b in
     case foldE (finalize_item b1) (spec_items tensors) (case base of None \<Rightarrow> empty_manifest | Some m \<Rightarrow> m) of
       Inl e \<Rightarrow> (bd_kv b1, Inl e)
     | Inr m \<Rightarrow> (mem_store (manifest_key (wg_digest lb) (wg_nfc lb) model_revision) (to_ipc lb m) (bd_kv b1), Inr (bd_stats b1)))"

definition read_base :: "lib \<Rightarrow> memkv \<Rightarrow> pystr \<Rightarrow> bool \<Rightarrow> manifest option result" where
  "read_base lb kv model_revision merge =
    (if merge then
       (case mem_retrieve kv (manifest_key (wg_digest lb) (wg_nfc lb) model_revision) of
          None \<Rightarrow> Inr None
        | Some existing \<Rightarrow> bindE (from_ipc lb existing) (\<lambda>m. Inr (Some m)))
     else Inr None)"

definition value_cap :: "memkv \<Rightarrow> int option \<Rightarrow> int" where
  "value_cap kv max_value_len = (case max_value_len of None \<Rightarrow> kv_max_value_len kv | Some c \<Rightarrow> c)"

definition publish :: "lib \<Rightarrow> memkv \<Rightarrow> pystr \<Rightarrow> spec \<Rightarrow> int option \<Rightarrow> bool \<Rightarrow> bool \<Rightarrow> memkv \<times> publish_stats result" where
  "publish lb kv model_revision tensors max_value_len pack merge =
    (let cap = value_cap kv max_value_len in
     if cap \<le> 0 then (kv, Inl W_value)
     else
       case read_base lb kv model_revision merge of
         Inl e \<Rightarrow> (kv, Inl e)
       | Inr base \<Rightarrow> finalize lb tensors model_revision base (assemble lb kv (nat cap) pack tensors))"

text \<open>\<^verbatim>\<open>publish_safetensors\<close> on the contents of the shards: a tensor of two shards is refused before anything is stored.\<close>

definition shard_spec :: "pystr \<Rightarrow> (pystr \<times> pystr \<times> int list \<times> bytes) list list \<Rightarrow> spec result" where
  "shard_spec precision shards =
    foldE (\<lambda>(name, x) tensors. if name \<in> fst ` set tensors then Inl W_value else Inr (tensors @ [(name, [(precision, x)])])) (concat shards) []"

definition publish_safetensors :: "lib \<Rightarrow> memkv \<Rightarrow> pystr \<Rightarrow> (pystr \<times> pystr \<times> int list \<times> bytes) list list \<Rightarrow> pystr \<Rightarrow> int option \<Rightarrow> bool \<Rightarrow> bool
    \<Rightarrow> memkv \<times> publish_stats result" where
  "publish_safetensors lb kv model_revision shards precision max_value_len pack merge =
    (case shard_spec precision shards of
       Inl e \<Rightarrow> (kv, Inl e)
     | Inr tensors \<Rightarrow> publish lb kv model_revision tensors max_value_len pack merge)"

end
