(* ===== verification/PublishLoad.thy ===== *)
theory PublishLoad
  imports Publish
begin

text \<open>
  What publishing a model leaves in the catalog. \<open>recs_ok\<close> and \<open>pending_ok\<close> relate the builder's slice records
  to the chunks \<open>C\<close> of every tensor: a record is filled with a key and an offset at which a stored value
  holds the chunk, or it is a member of the value being packed. They carry the properties: a published
  model is loaded byte for byte, merging keeps what was there, and no value exceeds the cap.
\<close>

section \<open>The builder's invariant\<close>

type_synonym chunks = "pystr \<times> pystr \<rightharpoonup> bytes list"

definition chunk_in :: "bytes \<Rightarrow> nat \<Rightarrow> bytes \<Rightarrow> bool" where
  "chunk_in v off c = (off + length c \<le> length v \<and> take (length c) (drop off v) = c)"

definition filled :: "(bytes \<Rightarrow> bytes) \<Rightarrow> bytes set \<Rightarrow> bytes option \<times> nat option \<times> nat \<Rightarrow> bytes \<Rightarrow> bool" where
  "filled digest vals r c = (\<exists>v \<in> vals. \<exists>off. r = (Some (chunk_key digest v), Some off, length c) \<and> chunk_in v off c)"

definition member_of :: "(slice \<times> nat \<times> nat) list \<Rightarrow> pystr \<times> pystr \<Rightarrow> nat \<Rightarrow> bool" where
  "member_of ms tp i = (\<exists>sl off sz. (sl, off, sz) \<in> set ms \<and> (sl_tensor sl, sl_precision sl) = tp \<and> sl_seq sl = i)"

definition recs_at :: "(bytes \<Rightarrow> bytes) \<Rightarrow> bytes set \<Rightarrow> (slice \<times> nat \<times> nat) list \<Rightarrow> pystr \<times> pystr \<Rightarrow> (bytes option \<times> nat option \<times> nat) list
    \<Rightarrow> bytes list \<Rightarrow> bool" where
  "recs_at digest vals ms tp rs cs = (length rs = length cs
    \<and> (\<forall>i < length cs. filled digest vals (rs ! i) (cs ! i) \<or> (rs ! i = (None, None, length (cs ! i)) \<and> member_of ms tp i)))"

definition recs_ok :: "(bytes \<Rightarrow> bytes) \<Rightarrow> chunks \<Rightarrow> (pystr \<times> pystr \<rightharpoonup> (bytes option \<times> nat option \<times> nat) list) \<Rightarrow> bytes set
    \<Rightarrow> (slice \<times> nat \<times> nat) list \<Rightarrow> bool" where
  "recs_ok digest C R vals ms = (dom R = dom C \<and> (\<forall>tp rs cs. R tp = Some rs \<longrightarrow> C tp = Some cs \<longrightarrow> recs_at digest vals ms tp rs cs))"

definition pending_ok :: "chunks \<Rightarrow> bytes \<Rightarrow> (slice \<times> nat \<times> nat) list \<Rightarrow> bool" where
  "pending_ok C buf ms = (\<forall>(sl, off, sz) \<in> set ms. \<exists>cs. C (sl_tensor sl, sl_precision sl) = Some cs \<and> sl_seq sl < length cs
    \<and> sz = length (cs ! sl_seq sl) \<and> chunk_in buf off (cs ! sl_seq sl))"

definition kv_grown :: "(bytes \<Rightarrow> bytes) \<Rightarrow> memkv \<Rightarrow> bytes list \<Rightarrow> memkv \<Rightarrow> bool" where
  "kv_grown digest kv0 vals kv = ((\<forall>k v. mem_retrieve kv0 k = Some v \<longrightarrow> mem_retrieve kv k = Some v)
    \<and> (\<forall>k v. mem_retrieve kv k = Some v \<longrightarrow> mem_retrieve kv0 k = Some v \<or> (v \<in> set vals \<and> k = chunk_key digest v))
    \<and> (\<forall>v \<in> set vals. mem_retrieve kv (chunk_key digest v) \<noteq> None))"

text \<open>What a builder keeps beside its slice records.\<close>

definition builder_ok :: "(bytes \<Rightarrow> bytes) \<Rightarrow> memkv \<Rightarrow> builder \<Rightarrow> bool" where
  "builder_ok digest kv0 b = (kv_grown digest kv0 (bd_values b) (bd_kv b) \<and> bd_assert_ok b \<and> 0 < bd_max b \<and> length (bd_buf b) \<le> bd_max b
    \<and> (\<forall>v \<in> set (bd_values b). length v \<le> bd_max b) \<and> (bd_members b = [] \<longrightarrow> bd_buf b = []))"

definition builder_inv :: "(bytes \<Rightarrow> bytes) \<Rightarrow> memkv \<Rightarrow> chunks \<Rightarrow> builder \<Rightarrow> bool" where
  "builder_inv digest kv0 C b = (builder_ok digest kv0 b \<and> recs_ok digest C (bd_records b) (set (bd_values b)) (bd_members b)
    \<and> pending_ok C (bd_buf b) (bd_members b))"

lemma chunk_in_self: "chunk_in c 0 c" by (simp add: chunk_in_def)

lemma chunk_in_append: "chunk_in v off c \<Longrightarrow> chunk_in (v @ w) off c" "chunk_in (v @ c) (length v) c"
  by (auto simp: chunk_in_def)

lemma kv_grown_store:
  assumes "kv_grown d kv0 vals kv"
  shows "kv_grown d kv0 (vals @ [v]) (if mem_exists kv (chunk_key d v) then kv else mem_store (chunk_key d v) v kv)"
  using assms by (auto simp: kv_grown_def mem_exists_iff mem_store_get split: if_splits)

lemma store_value_fields:
  "bd_records (builder_store_value k v b) = bd_records b" "bd_buf (builder_store_value k v b) = bd_buf b" "bd_members (builder_store_value k v b) = bd_members b"
  "bd_max (builder_store_value k v b) = bd_max b" "bd_pack (builder_store_value k v b) = bd_pack b" "bd_values (builder_store_value k v b) = bd_values b @ [v]"
  "bd_assert_ok (builder_store_value k v b) = bd_assert_ok b"
  "bd_kv (builder_store_value k v b) = (if mem_exists (bd_kv b) k then bd_kv b else mem_store k v (bd_kv b))"
  by (simp_all add: builder_store_value_def Let_def)

lemma store_value_ok:
  assumes "builder_ok d kv0 b" "length v \<le> bd_max b"
  shows "builder_ok d kv0 (builder_store_value (chunk_key d v) v b)"
  using assms kv_grown_store [of d kv0 "bd_values b" "bd_kv b" v] by (auto simp: builder_ok_def store_value_fields)

lemma fill_fields:
  "bd_buf (fill sl k off sz b) = bd_buf b" "bd_members (fill sl k off sz b) = bd_members b" "bd_max (fill sl k off sz b) = bd_max b"
  "bd_pack (fill sl k off sz b) = bd_pack b" "bd_values (fill sl k off sz b) = bd_values b" "bd_kv (fill sl k off sz b) = bd_kv b"
  by (auto simp: fill_def split: option.split)

text \<open>Filling the record of a member whose chunk the sealed value holds.\<close>

lemma fill_recs_ok:
  assumes R: "recs_ok d C (bd_records b) (set (bd_values b)) ((sl, off, sz) # ms)" and M: "pending_ok C v [(sl, off, sz)]" and v: "v \<in> set (bd_values b)"
  shows "recs_ok d C (bd_records (fill sl (chunk_key d v) off sz b)) (set (bd_values b)) ms \<and> bd_assert_ok (fill sl (chunk_key d v) off sz b) = bd_assert_ok b"
proof -
  define tp where "tp = (sl_tensor sl, sl_precision sl)"
  obtain cs where cs: "C tp = Some cs" "sl_seq sl < length cs" "sz = length (cs ! sl_seq sl)" "chunk_in v off (cs ! sl_seq sl)"
    using M by (auto simp: pending_ok_def tp_def)
  obtain rs where rs: "bd_records b tp = Some rs" using R cs(1) unfolding recs_ok_def by (metis domD domI)
  then have old: "recs_at d (set (bd_values b)) ((sl, off, sz) # ms) tp rs cs" using R cs(1) unfolding recs_ok_def by blast
  then have len: "length rs = length cs" and sz: "snd (snd (rs ! sl_seq sl)) = sz" using cs(2,3) by (auto simp: recs_at_def filled_def)
  define R' where "R' = (bd_records b)(tp \<mapsto> rs[sl_seq sl := (Some (chunk_key d v), Some off, sz)])"
  have f: "fill sl (chunk_key d v) off sz b = b\<lparr>bd_records := R', bd_assert_ok := bd_assert_ok b\<rparr>"
    using rs cs(2) len sz by (simp add: fill_def R'_def tp_def)
  have "recs_at d (set (bd_values b)) ms q rs' qs" if q: "R' q = Some rs'" "C q = Some qs" for q rs' qs
  proof (cases "q = tp")
    case True
    have new: "filled d (set (bd_values b)) (Some (chunk_key d v), Some off, sz) (cs ! sl_seq sl)"
      using v cs(3,4) by (auto simp: filled_def)
    have m: "member_of ((sl, off, sz) # ms) tp i \<longleftrightarrow> member_of ms tp i" if "i \<noteq> sl_seq sl" for i
      using that by (auto simp: member_of_def)
    have rs': "rs' = rs[sl_seq sl := (Some (chunk_key d v), Some off, sz)]" "qs = cs" using True q cs(1) by (simp_all add: R'_def)
    have "filled d (set (bd_values b)) (rs' ! i) (cs ! i) \<or> (rs' ! i = (None, None, length (cs ! i)) \<and> member_of ms tp i)" if "i < length cs" for i
      using that old new m [of i] len by (cases "i = sl_seq sl") (auto simp: rs'(1) recs_at_def)
    then show ?thesis using True len by (simp add: recs_at_def rs')
  next
    case False
    then have "member_of ((sl, off, sz) # ms) q i \<longleftrightarrow> member_of ms q i" for i by (auto simp: member_of_def tp_def)
    moreover have "recs_at d (set (bd_values b)) ((sl, off, sz) # ms) q rs' qs" using False R q unfolding recs_ok_def R'_def by (metis fun_upd_apply)
    ultimately show ?thesis by (simp add: recs_at_def)
  qed
  moreover have "dom R' = dom C" using R rs by (auto simp: recs_ok_def R'_def)
  ultimately show ?thesis by (simp add: f recs_ok_def)
qed

lemma fill_all:
  assumes "recs_ok d C (bd_records b) (set (bd_values b)) (ms @ ns)" "pending_ok C v ms" "v \<in> set (bd_values b)"
  shows "recs_ok d C (bd_records (fold (\<lambda>(sl, off, sz). fill sl (chunk_key d v) off sz) ms b)) (set (bd_values b)) ns
    \<and> (\<exists>R. fold (\<lambda>(sl, off, sz). fill sl (chunk_key d v) off sz) ms b = b\<lparr>bd_records := R\<rparr>)"
  using assms
proof (induction ms arbitrary: b)
  case Nil
  then show ?case by (auto intro: exI [of _ "bd_records b"])
next
  case (Cons m ms)
  obtain sl off sz where m: "m = (sl, off, sz)" by (cases m)
  define b1 where "b1 = fill sl (chunk_key d v) off sz b"
  have M: "pending_ok C v [(sl, off, sz)]" "pending_ok C v ms" using Cons.prems(2) by (auto simp: pending_ok_def m)
  have R: "recs_ok d C (bd_records b1) (set (bd_values b)) (ms @ ns)" "bd_assert_ok b1 = bd_assert_ok b"
    using fill_recs_ok [OF _ M(1) Cons.prems(3), of d "ms @ ns"] Cons.prems(1) by (auto simp: m b1_def)
  obtain R1 where eq: "b1 = b\<lparr>bd_records := R1\<rparr>"
  proof
    show "b1 = b\<lparr>bd_records := bd_records b1\<rparr>" using R(2) by (auto simp: b1_def fill_def split: option.splits)
  qed
  have IH: "recs_ok d C (bd_records (fold (\<lambda>(sl, off, sz). fill sl (chunk_key d v) off sz) ms b1)) (set (bd_values b1)) ns
    \<and> (\<exists>R. fold (\<lambda>(sl, off, sz). fill sl (chunk_key d v) off sz) ms b1 = b1\<lparr>bd_records := R\<rparr>)"
    by (rule Cons.IH) (use R(1) M(2) Cons.prems(3) in \<open>simp_all add: eq\<close>)
  have step: "fold (\<lambda>(sl, off, sz). fill sl (chunk_key d v) off sz) (m # ms) b = fold (\<lambda>(sl, off, sz). fill sl (chunk_key d v) off sz) ms b1"
    by (simp add: m b1_def)
  obtain R2 where "fold (\<lambda>(sl, off, sz). fill sl (chunk_key d v) off sz) ms b1 = b1\<lparr>bd_records := R2\<rparr>" using IH by blast
  then have "fold (\<lambda>(sl, off, sz). fill sl (chunk_key d v) off sz) ms b1 = b\<lparr>bd_records := R2\<rparr>" by (simp add: eq)
  then show ?case using IH unfolding step by (auto simp: eq)
qed

lemma recs_ok_mono: "recs_ok d C R vals ms \<Longrightarrow> vals \<subseteq> vals' \<Longrightarrow> recs_ok d C R vals' ms"
  unfolding recs_ok_def recs_at_def filled_def by blast

lemma flush_ok:
  assumes ok: "builder_ok d kv0 b" and R: "recs_ok d C (bd_records b) (set (bd_values b)) (bd_members b @ ns)" and M: "pending_ok C (bd_buf b) (bd_members b)"
  shows "builder_ok d kv0 (flush_pending d b) \<and> recs_ok d C (bd_records (flush_pending d b)) (set (bd_values (flush_pending d b))) ns
    \<and> bd_members (flush_pending d b) = [] \<and> bd_max (flush_pending d b) = bd_max b \<and> bd_pack (flush_pending d b) = bd_pack b"
proof (cases "bd_members b = []")
  case True
  then show ?thesis using ok R by (simp add: flush_pending_def)
next
  case False
  define b1 where "b1 = builder_store_value (chunk_key d (bd_buf b)) (bd_buf b) b"
  have ok1: "builder_ok d kv0 b1" using ok by (auto simp: b1_def intro!: store_value_ok) (simp add: builder_ok_def)
  have R1: "recs_ok d C (bd_records b1) (set (bd_values b1)) (bd_members b @ ns)"
    using R by (auto simp: b1_def store_value_fields elim: recs_ok_mono)
  have "bd_buf b \<in> set (bd_values b1)" by (simp add: b1_def store_value_fields)
  from fill_all [OF R1 M this] obtain R' where
    R': "fold (\<lambda>(sl, off, sz). fill sl (chunk_key d (bd_buf b)) off sz) (bd_members b) b1 = b1\<lparr>bd_records := R'\<rparr>" "recs_ok d C R' (set (bd_values b1)) ns"
    by auto
  have f: "flush_pending d b = b1\<lparr>bd_records := R', bd_buf := [], bd_members := []\<rparr>"
    using False R'(1) by (simp add: flush_pending_def Let_def b1_def)
  then show ?thesis using ok1 R'(2) by (auto simp: f builder_ok_def b1_def store_value_fields)
qed

definition add_to :: "chunks \<Rightarrow> pystr \<times> pystr \<Rightarrow> bytes list \<Rightarrow> chunks" where
  "add_to C tp cs = C(tp \<mapsto> (case C tp of None \<Rightarrow> [] | Some old \<Rightarrow> old) @ cs)"

lemma add_to_add: "add_to (add_to C tp cs) tp ds = add_to C tp (cs @ ds)"
  by (simp add: add_to_def)

lemma new_slice_ok:
  assumes inv: "builder_inv d kv0 C b" and n: "new_slice t p (length c) b = (sl, b1)"
  shows "builder_ok d kv0 b1" "bd_max b1 = bd_max b" "bd_pack b1 = bd_pack b" "bd_members b1 = bd_members b" "bd_buf b1 = bd_buf b" "bd_values b1 = bd_values b"
    "recs_ok d (add_to C (t, p) [c]) (bd_records b1) (set (bd_values b1)) (bd_members b @ [(sl, off, length c)])"
    "pending_ok (add_to C (t, p) [c]) (bd_buf b) (bd_members b)"
    "\<exists>cs. add_to C (t, p) [c] (sl_tensor sl, sl_precision sl) = Some cs \<and> sl_seq sl < length cs \<and> cs ! sl_seq sl = c"
proof -
  define recs where "recs = (case bd_records b (t, p) of None \<Rightarrow> [] | Some rs \<Rightarrow> rs)"
  define cs0 where "cs0 = (case C (t, p) of None \<Rightarrow> [] | Some cs \<Rightarrow> cs)"
  have sl: "sl = \<lparr>sl_tensor = t, sl_precision = p, sl_seq = length recs\<rparr>" and
    b1: "b1 = b\<lparr>bd_records := (bd_records b)((t, p) \<mapsto> recs @ [(None, None, length c)]), bd_stats := (bd_stats b)\<lparr>st_chunks_total := st_chunks_total (bd_stats b) + 1\<rparr>\<rparr>"
    using n by (auto simp: new_slice_def Let_def recs_def)
  show "bd_max b1 = bd_max b" "bd_pack b1 = bd_pack b" "bd_members b1 = bd_members b" "bd_buf b1 = bd_buf b" "bd_values b1 = bd_values b" by (simp_all add: b1)
  show "builder_ok d kv0 b1" using inv by (simp add: b1 builder_inv_def builder_ok_def)
  have R: "recs_ok d C (bd_records b) (set (bd_values b)) (bd_members b)" and M: "pending_ok C (bd_buf b) (bd_members b)"
    using inv by (simp_all add: builder_inv_def)
  have dom: "dom (bd_records b) = dom C" using R by (simp add: recs_ok_def)
  have at: "recs_at d (set (bd_values b)) (bd_members b) (t, p) recs cs0"
  proof (cases "C (t, p)")
    case None
    then have "bd_records b (t, p) = None" using dom by (metis domIff)
    then show ?thesis using None by (simp add: recs_def cs0_def recs_at_def)
  next
    case (Some cs)
    then obtain rs where "bd_records b (t, p) = Some rs" using dom by (metis domD domI)
    then show ?thesis using Some R unfolding recs_ok_def by (simp add: recs_def cs0_def)
  qed
  have C': "add_to C (t, p) [c] = C((t, p) \<mapsto> cs0 @ [c])" by (simp add: add_to_def cs0_def)
  have len: "length recs = length cs0" using at by (simp add: recs_at_def)
  show "\<exists>cs. add_to C (t, p) [c] (sl_tensor sl, sl_precision sl) = Some cs \<and> sl_seq sl < length cs \<and> cs ! sl_seq sl = c"
    by (simp add: C' sl len)
  show "pending_ok (add_to C (t, p) [c]) (bd_buf b) (bd_members b)" using M
    by (fastforce simp: pending_ok_def C' cs0_def nth_append)
  have mono: "member_of (bd_members b) q i \<Longrightarrow> member_of (bd_members b @ [(sl, off, length c)]) q i" for q i by (auto simp: member_of_def)
  have self: "member_of (bd_members b @ [(sl, off, length c)]) (t, p) (length cs0)" 
    unfolding member_of_def by (intro exI [of _ sl] exI [of _ off] exI [of _ "length c"]) (simp add: sl len)
  have "recs_at d (set (bd_values b)) (bd_members b @ [(sl, off, length c)]) (t, p) (recs @ [(None, None, length c)]) (cs0 @ [c])"
    using at self mono by (auto simp: recs_at_def nth_append less_Suc_eq len)
  moreover have "recs_at d (set (bd_values b)) (bd_members b @ [(sl, off, length c)]) q rs cs"
    if "bd_records b q = Some rs" "C q = Some cs" for q rs cs
  proof -
    have "recs_at d (set (bd_values b)) (bd_members b) q rs cs" using R that unfolding recs_ok_def by blast
    then show ?thesis using mono unfolding recs_at_def by blast
  qed
  ultimately show "recs_ok d (add_to C (t, p) [c]) (bd_records b1) (set (bd_values b1)) (bd_members b @ [(sl, off, length c)])"
    using dom unfolding recs_ok_def C' by (auto simp: b1)
qed

lemma append_ok:
  assumes ok: "builder_ok d kv0 b" and R: "recs_ok d C (bd_records b) (set (bd_values b)) (bd_members b @ [(sl, length (bd_buf b), length c)])"
    and M: "pending_ok C (bd_buf b) (bd_members b)" and fits: "length (bd_buf b) + length c \<le> bd_max b"
    and sl: "\<exists>cs. C (sl_tensor sl, sl_precision sl) = Some cs \<and> sl_seq sl < length cs \<and> cs ! sl_seq sl = c"
  shows "builder_inv d kv0 C (b\<lparr>bd_buf := bd_buf b @ c, bd_members := bd_members b @ [(sl, length (bd_buf b), length c)]\<rparr>)"
proof -
  have "pending_ok C (bd_buf b @ c) (bd_members b @ [(sl, length (bd_buf b), length c)])"
    using M sl by (fastforce simp: pending_ok_def intro: chunk_in_append)
  then show ?thesis using ok R fits by (simp add: builder_inv_def builder_ok_def)
qed

lemma add_chunk_inv:
  assumes inv: "builder_inv d kv0 C b" and c: "length c \<le> bd_max b"
  shows "builder_inv d kv0 (add_to C (t, p) [c]) (add_chunk d t p c b) \<and> bd_max (add_chunk d t p c b) = bd_max b"
proof -
  obtain sl b1 where n: "new_slice t p (length c) b = (sl, b1)" by fastforce
  note n1 = new_slice_ok [OF inv n]
  define C' where "C' = add_to C (t, p) [c]"
  have R: "recs_ok d C' (bd_records b1) (set (bd_values b1)) (bd_members b1 @ [(sl, off, length c)])" for off using n1(4,7) by (simp add: C'_def)
  have M: "pending_ok C' (bd_buf b1) (bd_members b1)" using n1 by (simp add: C'_def)
  have sl: "\<exists>cs. C' (sl_tensor sl, sl_precision sl) = Some cs \<and> sl_seq sl < length cs \<and> cs ! sl_seq sl = c" using n1(9) by (simp add: C'_def)
  define b2 where "b2 = flush_pending d b1"
  have F: "builder_ok d kv0 b2" "recs_ok d C' (bd_records b2) (set (bd_values b2)) [(sl, 0, length c)]" "bd_members b2 = []" "bd_max b2 = bd_max b"
    using flush_ok [OF n1(1) R M] n1(2) by (simp_all add: b2_def)
  then have buf: "bd_buf b2 = []" by (simp add: builder_ok_def)
  show ?thesis
  proof (cases "\<not> bd_pack b1 \<or> length c = bd_max b1")
    case True
    define b3 where "b3 = builder_store_value (chunk_key d c) c b2"
    have ok3: "builder_ok d kv0 b3" using F(1,4) c by (auto simp: b3_def intro: store_value_ok)
    have R3: "recs_ok d C' (bd_records b3) (set (bd_values b3)) ([(sl, 0, length c)] @ [])"
      using F(2) by (auto simp: b3_def store_value_fields elim: recs_ok_mono)
    have "pending_ok C' c [(sl, 0, length c)]" using sl by (auto simp: pending_ok_def chunk_in_self)
    moreover have "c \<in> set (bd_values b3)" by (simp add: b3_def store_value_fields)
    ultimately obtain R4 where "fill sl (chunk_key d c) 0 (length c) b3 = b3\<lparr>bd_records := R4\<rparr>" "recs_ok d C' R4 (set (bd_values b3)) []"
      using fill_all [OF R3, of c] by auto
    moreover have "add_chunk d t p c b = fill sl (chunk_key d c) 0 (length c) b3"
      using True n by (simp add: add_chunk_def store_whole_def Let_def b3_def b2_def)
    ultimately show ?thesis using ok3 F(3,4) buf
      by (simp add: builder_inv_def builder_ok_def C'_def pending_ok_def b3_def store_value_fields)
  next
    case False
    define b3 where "b3 = (if length (bd_buf b1) + length c > bd_max b1 then b2 else b1)"
    have "add_chunk d t p c b = b3\<lparr>bd_buf := bd_buf b3 @ c, bd_members := bd_members b3 @ [(sl, length (bd_buf b3), length c)]\<rparr>"
      using False n by (simp add: add_chunk_def append_packed_def Let_def b3_def b2_def)
    moreover have "builder_inv d kv0 C' (b3\<lparr>bd_buf := bd_buf b3 @ c, bd_members := bd_members b3 @ [(sl, length (bd_buf b3), length c)]\<rparr>)"
      by (rule append_ok) (use F n1(1,2) R M sl buf c in \<open>auto simp: b3_def pending_ok_def\<close>)
    moreover have "bd_max b3 = bd_max b" using F(4) n1(2) by (simp add: b3_def)
    ultimately show ?thesis by (simp add: C'_def)
  qed
qed

section \<open>The values and the records of a published model\<close>

lemma add_chunks_inv:
  assumes "builder_inv d kv0 C b" "\<forall>c \<in> set cs. length c \<le> bd_max b" "cs \<noteq> []"
  shows "builder_inv d kv0 (add_to C (t, p) cs) (fold (add_chunk d t p) cs b) \<and> bd_max (fold (add_chunk d t p) cs b) = bd_max b"
  using assms
proof (induction cs arbitrary: C b)
  case (Cons c cs)
  have s: "builder_inv d kv0 (add_to C (t, p) [c]) (add_chunk d t p c b)" "bd_max (add_chunk d t p c b) = bd_max b"
    using add_chunk_inv [OF Cons.prems(1)] Cons.prems(2) by auto
  show ?case
  proof (cases "cs = []")
    case False
    then show ?thesis using Cons.IH [OF s(1)] s(2) Cons.prems(2) add_to_add [of C "(t, p)" "[c]" cs] by simp
  qed (use s in simp)
qed simp

lemma build_tensor_inv:
  assumes inv: "builder_inv d kv0 C b"
  shows "builder_inv d kv0 (add_to C (t, p) (chunk_loop data (bd_max b) 0)) (build_tensor d t p data b) \<and> bd_max (build_tensor d t p data b) = bd_max b"
proof -
  define b1 where "b1 = b\<lparr>bd_stats := (bd_stats b)\<lparr>st_bytes_total := st_bytes_total (bd_stats b) + length data\<rparr>\<rparr>"
  have inv1: "builder_inv d kv0 C b1" and max: "bd_max b1 = bd_max b" "0 < bd_max b" using inv by (simp_all add: b1_def builder_inv_def builder_ok_def)
  show ?thesis
  proof (cases "data = []")
    case True
    have dom: "dom (bd_records b1) = dom C" using inv1 by (simp add: builder_inv_def recs_ok_def)
    have cl: "chunk_loop data (bd_max b) 0 = []" using True by (simp add: chunk_loop.simps)
    show ?thesis
    proof (cases "bd_records b1 (t, p)")
      case None
      then have "C (t, p) = None" using dom by (metis domIff)
      then have "builder_inv d kv0 (add_to C (t, p) []) (b1\<lparr>bd_records := (bd_records b1)((t, p) \<mapsto> [])\<rparr>)"
        using inv1 by (fastforce simp: builder_inv_def builder_ok_def recs_ok_def recs_at_def add_to_def pending_ok_def)
      then show ?thesis using True None cl max by (simp add: build_tensor_def Let_def b1_def)
    next
      case (Some rs)
      then have "add_to C (t, p) [] = C" using dom by (auto simp: add_to_def fun_eq_iff split: option.splits)
      then show ?thesis using True Some cl max inv1 by (simp add: build_tensor_def Let_def b1_def)
    qed
  next
    case False
    have cs: "concat (chunk_loop data (bd_max b) 0) = data" "\<forall>c \<in> set (chunk_loop data (bd_max b) 0). length c \<le> bd_max b1"
      using chunk_loop_spec [OF max(2), of data 0] max by auto
    then have "chunk_loop data (bd_max b) 0 \<noteq> []" using False by auto
    then show ?thesis using add_chunks_inv [OF inv1 cs(2)] False max by (simp add: build_tensor_def Let_def b1_def iter_chunks_def)
  qed
qed

lemma assemble_inv:
  assumes "0 < cap" "distinct (map fst items)"
  shows "\<exists>C. builder_inv d kv C (fold (\<lambda>((n, p), dtype, shape, data). build_tensor d n p data) items (builder_init kv cap pack))
    \<and> bd_max (fold (\<lambda>((n, p), dtype, shape, data). build_tensor d n p data) items (builder_init kv cap pack)) = cap
    \<and> dom C = fst ` set items \<and> (\<forall>(tp, dtype, shape, data) \<in> set items. C tp = Some (chunk_loop data cap 0))"
  using assms(2)
proof (induction items rule: rev_induct)
  case Nil
  have "builder_inv d kv Map.empty (builder_init kv cap pack)"
    using assms(1) by (simp add: builder_inv_def builder_ok_def kv_grown_def recs_ok_def pending_ok_def builder_init_def)
  then show ?case by (auto simp: builder_init_def)
next
  case (snoc it items)
  obtain n p dtype shape data where it: "it = ((n, p), dtype, shape, data)" by (metis prod.exhaust)
  let ?f = "\<lambda>((n, p), dtype, shape, data). build_tensor d n p data"
  obtain C where C: "builder_inv d kv C (fold ?f items (builder_init kv cap pack))" "bd_max (fold ?f items (builder_init kv cap pack)) = cap"
    "dom C = fst ` set items" "\<forall>(tp, dtype, shape, data) \<in> set items. C tp = Some (chunk_loop data cap 0)" using snoc by auto
  have new: "(n, p) \<notin> fst ` set items" using snoc.prems by (auto simp: it)
  then have np: "C (n, p) = None" using C(3) by (metis domIff)
  define C' where "C' = add_to C (n, p) (chunk_loop data cap 0)"
  have C': "C' = C((n, p) \<mapsto> chunk_loop data cap 0)" using np by (simp add: C'_def add_to_def)
  have "C' tp = Some (chunk_loop dat cap 0)" if "(tp, dt, sh, dat) \<in> set (items @ [it])" for tp dt sh dat
    using that C(4) new by (auto simp: C' it image_iff)
  moreover have "dom C' = fst ` set (items @ [it])" using C(3) by (auto simp: C' it)
  moreover have "fold ?f (items @ [it]) (builder_init kv cap pack) = build_tensor d n p data (fold ?f items (builder_init kv cap pack))" by (simp add: it)
  moreover note build_tensor_inv [OF C(1), of n p data, unfolded C(2), folded C'_def]
  ultimately show ?case by (intro exI [of _ C']) (simp only:, blast)
qed

text \<open>The builder when its manifest is written, and the values it was given.\<close>

definition published :: "lib \<Rightarrow> memkv \<Rightarrow> nat \<Rightarrow> bool \<Rightarrow> spec \<Rightarrow> builder" where
  "published lb kv cap pack tensors = flush_pending (wg_digest lb) (assemble lb kv cap pack tensors)"

definition catalog_ok :: "lib \<Rightarrow> memkv \<Rightarrow> bool" where
  "catalog_ok lb kv = list_all (\<lambda>(k, v). take 1 k = [1] \<longrightarrow> chunk_key (wg_digest lb) v = k) (kv_data kv)"

definition values_apart :: "lib \<Rightarrow> memkv \<Rightarrow> nat \<Rightarrow> bool \<Rightarrow> spec \<Rightarrow> bool" where
  "values_apart lb kv cap pack tensors =
    inj_on (wg_digest lb) (set (chunk_values kv @ bd_values (published lb kv cap pack tensors)))"

lemma published_ok:
  assumes "0 < cap" "distinct (map fst (spec_items tensors))"
  shows "builder_ok (wg_digest lb) kv (published lb kv cap pack tensors) \<and> bd_max (published lb kv cap pack tensors) = cap
    \<and> (\<forall>(tp, dtype, shape, data) \<in> set (spec_items tensors). \<exists>rs cs. bd_records (published lb kv cap pack tensors) tp = Some rs \<and> concat cs = data
         \<and> recs_at (wg_digest lb) (set (bd_values (published lb kv cap pack tensors))) [] tp rs cs)"
proof -
  define b where "b = assemble lb kv cap pack tensors"
  let ?d = "wg_digest lb"
  obtain C where C: "builder_inv ?d kv C b" "bd_max b = cap" "dom C = fst ` set (spec_items tensors)"
    "\<forall>(tp, dtype, shape, data) \<in> set (spec_items tensors). C tp = Some (chunk_loop data cap 0)"
    using assemble_inv [OF assms, of ?d kv pack] by (auto simp: b_def assemble_def)
  have p: "published lb kv cap pack tensors = flush_pending ?d b" by (simp add: published_def b_def)
  have f: "builder_ok ?d kv (flush_pending ?d b)" "recs_ok ?d C (bd_records (flush_pending ?d b)) (set (bd_values (flush_pending ?d b))) []" "bd_max (flush_pending ?d b) = cap"
    using flush_ok [of ?d kv b C "[]"] C(1,2) by (auto simp: builder_inv_def)
  have "\<exists>rs cs. bd_records (flush_pending ?d b) tp = Some rs \<and> concat cs = data \<and> recs_at ?d (set (bd_values (flush_pending ?d b))) [] tp rs cs"
    if "(tp, dtype, shape, data) \<in> set (spec_items tensors)" for tp dtype shape data
  proof -
    have c: "C tp = Some (chunk_loop data cap 0)" using C(4) that by auto
    then obtain rs where "bd_records (flush_pending ?d b) tp = Some rs" using f(2) unfolding recs_ok_def by (metis domD domI)
    then show ?thesis using f(2) c chunk_loop_spec [OF assms(1), of data 0] unfolding recs_ok_def by (metis drop_0)
  qed
  then show ?thesis using f by (auto simp: p)
qed

lemma filled_variant:
  assumes r: "recs_at (wg_digest lb) vals [] tp rs cs" and v: "\<forall>v \<in> vals. value_at lb kv (chunk_key (wg_digest lb) v) = Inr v"
  shows "\<exists>ks szs os. filled_recs rs = Some (ks, szs, os) \<and> length ks = length szs \<and> length szs = length os
    \<and> variant_bytes lb kv \<lparr>va_dtype = dt, va_keys = ks, va_offsets = os, va_sizes = szs\<rparr> = Inr (concat cs)"
proof -
  have len: "length rs = length cs" and f: "filled (wg_digest lb) vals (rs ! i) (cs ! i)" if "i < length cs" for i
    using r that by (auto simp: recs_at_def member_of_def)
  have len: "length rs = length cs" using r by (simp add: recs_at_def)
  define ks szs os where "ks = map (\<lambda>(k, off, sz). the k) rs" "szs = map (\<lambda>(k, off, sz). int sz) rs" "os = map (\<lambda>(k, off, sz). int (the off)) rs"
  have all: "\<forall>(k, off, sz) \<in> set rs. k \<noteq> None \<and> off \<noteq> None" using f len by (fastforce simp: in_set_conv_nth filled_def)
  have z: "zip ks (zip os szs) = map (\<lambda>(k, off, sz). (the k, int (the off), int sz)) rs"
    by (rule nth_equalityI) (simp_all add: ks_szs_os_def case_prod_unfold)
  have sl: "slice_bytes lb kv (zip ks (zip os szs) ! i) = Inr (cs ! i)" if "i < length cs" for i
    using f [OF that] that len v by (auto simp: z filled_def chunk_in_def slice_bytes_def py_slice_def Let_def min_def)
  then have m: "mapE (slice_bytes lb kv) (zip ks (zip os szs)) = Inr cs" using len by (simp add: mapE_Inr z)
  have "map (\<lambda>(k, off, sz). sz) (zip ks (zip os szs)) = map (\<lambda>c. int (length c)) cs"
    by (rule nth_equalityI) (use f len in \<open>fastforce simp: z filled_def\<close>)+
  moreover have total: "int (length (concat cs)) = sum_list (map (\<lambda>c. int (length c)) cs)" by (induction cs) simp_all
  ultimately have "variant_bytes lb kv \<lparr>va_dtype = dt, va_keys = ks, va_offsets = os, va_sizes = szs\<rparr> = Inr (concat cs)"
    using m total by (simp add: variant_bytes_def)
  then show ?thesis using all by (auto simp: filled_recs_def ks_szs_os_def)
qed

end
