(* ===== verification/TableBytes.thy ===== *)
theory TableBytes
  imports Catalog
begin

text \<open>
  A byte format of tables that reads back what it writes. It stands for the Arrow stream format where a
  property about the catalog is applied to a concrete model, and shows that the hypothesis on Arrow
  (\<open>arrow_ok\<close>) can hold. A table is a list of numbers, lists with their length first, and a number is
  written in base 128, its low digits first and marked.
\<close>

definition enc_list :: "('a \<Rightarrow> nat list) \<Rightarrow> 'a list \<Rightarrow> nat list" where
  "enc_list f xs = length xs # concat (map f xs)"

primrec dec_many :: "(nat list \<Rightarrow> ('a \<times> nat list) option) \<Rightarrow> nat \<Rightarrow> nat list \<Rightarrow> ('a list \<times> nat list) option" where
  "dec_many d 0 ts = Some ([], ts)"
| "dec_many d (Suc n) ts =
    (case d ts of None \<Rightarrow> None | Some (x, r) \<Rightarrow> (case dec_many d n r of None \<Rightarrow> None | Some (xs, r') \<Rightarrow> Some (x # xs, r')))"

definition dec_list :: "(nat list \<Rightarrow> ('a \<times> nat list) option) \<Rightarrow> nat list \<Rightarrow> ('a list \<times> nat list) option" where
  "dec_list d ts = (case ts of [] \<Rightarrow> None | n # r \<Rightarrow> dec_many d n r)"

definition enc_opt :: "('a \<Rightarrow> nat list) \<Rightarrow> 'a option \<Rightarrow> nat list" where
  "enc_opt f x = (case x of None \<Rightarrow> [0] | Some y \<Rightarrow> 1 # f y)"

definition dec_opt :: "(nat list \<Rightarrow> ('a \<times> nat list) option) \<Rightarrow> nat list \<Rightarrow> ('a option \<times> nat list) option" where
  "dec_opt d ts = (case ts of [] \<Rightarrow> None | n # r \<Rightarrow> if n = 0 then Some (None, r) else map_option (\<lambda>(x, r'). (Some x, r')) (d r))"

definition enc_nat :: "nat \<Rightarrow> nat list" where "enc_nat n = [n]"

definition dec_nat :: "nat list \<Rightarrow> (nat \<times> nat list) option" where
  "dec_nat ts = (case ts of [] \<Rightarrow> None | n # r \<Rightarrow> Some (n, r))"

definition enc_int :: "int \<Rightarrow> nat list" where "enc_int i = [if i < 0 then 1 else 0, nat \<bar>i\<bar>]"

definition dec_int :: "nat list \<Rightarrow> (int \<times> nat list) option" where
  "dec_int ts = (case ts of s # n # r \<Rightarrow> Some (if s = 1 then - int n else int n, r) | _ \<Rightarrow> None)"

definition enc_byte :: "8 word \<Rightarrow> nat list" where "enc_byte b = [unat b]"

definition dec_byte :: "nat list \<Rightarrow> (8 word \<times> nat list) option" where
  "dec_byte ts = (case ts of [] \<Rightarrow> None | n # r \<Rightarrow> Some (word_of_nat n, r))"

definition enc_column :: "pystr \<times> column \<Rightarrow> nat list" where
  "enc_column nc = enc_list enc_nat (fst nc) @
    (case snd nc of
       Col_str xs \<Rightarrow> 0 # enc_list (enc_opt (enc_list enc_nat)) xs
     | Col_keys xs \<Rightarrow> 1 # enc_list (enc_opt (enc_list (enc_list enc_byte))) xs
     | Col_ints xs \<Rightarrow> 2 # enc_list (enc_opt (enc_list enc_int)) xs)"

definition dec_column :: "nat list \<Rightarrow> ((pystr \<times> column) \<times> nat list) option" where
  "dec_column ts =
    (case dec_list dec_nat ts of
       Some (n, c # r) \<Rightarrow>
         (if c = 0 then map_option (\<lambda>(xs, r'). ((n, Col_str xs), r')) (dec_list (dec_opt (dec_list dec_nat)) r)
          else if c = 1 then map_option (\<lambda>(xs, r'). ((n, Col_keys xs), r')) (dec_list (dec_opt (dec_list (dec_list dec_byte))) r)
          else map_option (\<lambda>(xs, r'). ((n, Col_ints xs), r')) (dec_list (dec_opt (dec_list dec_int)) r))
     | _ \<Rightarrow> None)"

definition enc_table :: "table \<Rightarrow> nat list" where
  "enc_table t = enc_list (enc_list enc_nat) (tb_names t) @ enc_list (enc_list enc_int) (tb_shapes t)
    @ enc_list enc_column (tb_columns t) @ enc_opt (enc_list enc_nat) (tb_meta t)"

definition dec_table :: "nat list \<Rightarrow> table option" where
  "dec_table ts =
    (case dec_list (dec_list dec_nat) ts of None \<Rightarrow> None | Some (names, r) \<Rightarrow>
    (case dec_list (dec_list dec_int) r of None \<Rightarrow> None | Some (shapes, r) \<Rightarrow>
    (case dec_list dec_column r of None \<Rightarrow> None | Some (cols, r) \<Rightarrow>
    (case dec_opt (dec_list dec_nat) r of None \<Rightarrow> None | Some (meta, r) \<Rightarrow>
      Some \<lparr>tb_names = names, tb_shapes = shapes, tb_columns = cols, tb_meta = meta\<rparr>))))"

function put_num :: "nat \<Rightarrow> bytes" where
  "put_num n = (if n < 128 then [word_of_nat n] else word_of_nat (128 + n mod 128) # put_num (n div 128))"
  by auto
termination by (relation "measure id") auto

declare put_num.simps [simp del]

definition put_nums :: "nat list \<Rightarrow> bytes" where
  "put_nums ts = concat (map put_num ts)"

primrec get_nums :: "nat \<Rightarrow> nat \<Rightarrow> bytes \<Rightarrow> nat list" where
  "get_nums acc w [] = []"
| "get_nums acc w (b # bs) =
    (let n = unat b in if n < 128 then (acc + w * n) # get_nums 0 1 bs else get_nums (acc + w * (n - 128)) (w * 128) bs)"

definition table_lib :: "(bytes \<Rightarrow> bytes) \<Rightarrow> lib" where
  "table_lib digest = \<lparr>wg_digest = digest, wg_nfc = (\<lambda>s. s), wg_write = (\<lambda>t. put_nums (enc_table t)), wg_read = (\<lambda>bs. dec_table (get_nums 0 1 bs))\<rparr>"

text \<open>Every encoder is undone by its decoder, whatever follows.\<close>

definition inverts :: "('a \<Rightarrow> nat list) \<Rightarrow> (nat list \<Rightarrow> ('a \<times> nat list) option) \<Rightarrow> bool" where
  "inverts f d = (\<forall>x r. d (f x @ r) = Some (x, r))"

lemma inverts_list: "inverts f d \<Longrightarrow> inverts (enc_list f) (dec_list d)"
proof -
  assume i: "inverts f d"
  have "dec_many d (length xs) (concat (map f xs) @ r) = Some (xs, r)" for xs r
    using i by (induction xs) (simp_all add: inverts_def)
  then show ?thesis by (simp add: inverts_def enc_list_def dec_list_def)
qed

lemma inverts_base [simp]: "inverts enc_nat dec_nat" "inverts enc_int dec_int" "inverts enc_byte dec_byte"
  by (auto simp: inverts_def enc_nat_def dec_nat_def enc_int_def dec_int_def enc_byte_def dec_byte_def)

lemma inverts_opt: "inverts f d \<Longrightarrow> inverts (enc_opt f) (dec_opt d)"
  by (auto simp: inverts_def enc_opt_def dec_opt_def split: option.split)

lemma invertsD: "inverts f d \<Longrightarrow> d (f x @ r) = Some (x, r)" "inverts f d \<Longrightarrow> d (f x) = Some (x, [])"
  by (simp add: inverts_def) (metis inverts_def append_Nil2)

lemma inverts_column: "inverts enc_column dec_column"
  unfolding inverts_def
proof (intro allI)
  fix x r
  show "dec_column (enc_column x @ r) = Some (x, r)"
    by (cases x; cases "snd x") (simp_all add: enc_column_def dec_column_def invertsD inverts_list inverts_opt)
qed

lemma get_put_num: "get_nums acc w (put_num n @ bs) = (acc + w * n) # get_nums 0 1 bs"
proof (induction n arbitrary: acc w rule: less_induct)
  case (less n)
  show ?case
  proof (cases "n < 128")
    case True
    then show ?thesis by (simp add: put_num.simps unat_of_nat)
  next
    case False
    have u: "unat (word_of_nat (128 + n mod 128) :: 8 word) = 128 + n mod 128" by (simp add: unat_of_nat del: of_nat_add)
    have n: "n mod 128 + 128 * (n div 128) = n" by simp
    have "get_nums acc w (put_num n @ bs) = get_nums (acc + w * (n mod 128)) (w * 128) (put_num (n div 128) @ bs)"
      using False by (subst put_num.simps) (simp add: u Let_def del: of_nat_add)
    also have "\<dots> = (acc + w * (n mod 128) + w * 128 * (n div 128)) # get_nums 0 1 bs" using False by (intro less) auto
    also have "acc + w * (n mod 128) + w * 128 * (n div 128) = acc + w * n" by (metis n distrib_left mult.assoc add.assoc)
    finally show ?thesis .
  qed
qed

lemma get_put_nums: "get_nums 0 1 (put_nums ts) = ts"
  by (induction ts) (simp_all add: put_nums_def get_put_num)

lemma table_lib_arrow_ok: "arrow_ok (table_lib digest)"
proof -
  have "dec_table (enc_table t) = Some t" for t
    by (simp add: enc_table_def dec_table_def invertsD inverts_list inverts_opt inverts_column)
  then show ?thesis by (simp add: arrow_ok_def table_lib_def get_put_nums del: One_nat_def)
qed

end
