(* ===== verification/PublishProps.thy ===== *)
theory PublishProps
  imports PublishLoad TableBytes
begin

text \<open>
  The properties of publishing and loading: the bytes of every published tensor come back, merging
  keeps the variants that were there, the values respect the cap, and the catalog stays addressed by
  content.
\<close>

section \<open>The manifest of a published model\<close>

definition recs_of :: "builder \<Rightarrow> pystr \<times> pystr \<Rightarrow> (bytes option \<times> nat option \<times> nat) list" where
  "recs_of b tp = (case bd_records b tp of None \<Rightarrow> [] | Some rs \<Rightarrow> rs)"

lemma finalize_items:
  assumes "foldE (finalize_item b) items base = Inr m" "manifest_wf base" "distinct (map fst items)"
  shows "manifest_wf m \<and> set (mf_precisions m) = set (mf_precisions base) \<union> (snd \<circ> fst) ` set items
    \<and> (\<forall>n p dt sh data. ((n, p), dt, sh, data) \<in> set items \<longrightarrow> (\<exists>ks szs os. filled_recs (recs_of b (n, p)) = Some (ks, szs, os)
         \<and> variant_of m n p = Some \<lparr>va_dtype = dt, va_keys = ks, va_offsets = os, va_sizes = szs\<rparr>))
    \<and> (\<forall>n p. (n, p) \<notin> fst ` set items \<longrightarrow> variant_of m n p = variant_of base n p)"
  using assms(1,3)
proof (induction items arbitrary: m rule: rev_induct)
  case Nil
  then show ?case using assms(2) by simp
next
  case (snoc it items)
  obtain n p dt sh data where it: "it = ((n, p), dt, sh, data)" by (metis prod.exhaust)
  obtain m1 where m1: "foldE (finalize_item b) items base = Inr m1" "finalize_item b it m1 = Inr m"
    using snoc.prems(1) by (auto simp: foldE_append bindE_Inr)
  obtain ks szs os where f: "filled_recs (recs_of b (n, p)) = Some (ks, szs, os)" and add: "add_tensor n p dt sh ks szs (Some os) m1 = Inr m"
    using m1(2) by (auto simp: it finalize_item_def recs_of_def Let_def split: option.splits)
  note v = add_tensor_variant [OF add]
  have new: "(n, p) \<notin> fst ` set items" using snoc.prems(2) by (auto simp: it)
  have d: "distinct (map fst items)" using snoc.prems(2) by simp
  note IH = snoc.IH [OF m1(1) d]
  note I = IH [THEN conjunct1] IH [THEN conjunct2, THEN conjunct1] IH [THEN conjunct2, THEN conjunct2, THEN conjunct1, rule_format]
    IH [THEN conjunct2, THEN conjunct2, THEN conjunct2, rule_format]
  have "\<exists>ks szs os. filled_recs (recs_of b (n', p')) = Some (ks, szs, os) \<and> variant_of m n' p' = Some \<lparr>va_dtype = dt', va_keys = ks, va_offsets = os, va_sizes = szs\<rparr>"
    if "((n', p'), dt', sh', data') \<in> set (items @ [it])" for n' p' dt' sh' data'
  proof (cases "((n', p'), dt', sh', data') \<in> set items")
    case True
    then have "(n', p') \<noteq> (n, p)" using new by (metis fst_conv image_eqI)
    then show ?thesis using I(3) [OF True] by (auto simp: v(1))
  next
    case False
    then show ?thesis using that f by (auto simp: it v(1))
  qed
  moreover have "variant_of m n' p' = variant_of base n' p'" if "(n', p') \<notin> fst ` set (items @ [it])" for n' p'
    using that I(4) by (auto simp: it v(1))
  moreover have "set (mf_precisions m) = set (mf_precisions base) \<union> (snd \<circ> fst) ` set (items @ [it])" using I(2) v(2) by (auto simp: it)
  ultimately show ?case using add_tensor_wf [OF I(1) add] by blast
qed

lemma manifest_key_tag: "take 1 (manifest_key d n r) \<noteq> [1]" "take 1 (chunk_key d c) = [1]"
  by (simp_all add: manifest_key_def chunk_key_def)

lemma mem_retrieve_in: "mem_retrieve kv k = Some v \<Longrightarrow> (k, v) \<in> set (kv_data kv)"
  by (simp add: mem_retrieve_def map_of_SomeD)

lemma catalog_okD: "catalog_ok lb kv \<Longrightarrow> mem_retrieve kv (chunk_key (wg_digest lb) x) = Some v \<Longrightarrow> chunk_key (wg_digest lb) v = chunk_key (wg_digest lb) x"
  by (drule mem_retrieve_in) (auto simp: catalog_ok_def list_all_iff chunk_key_def dest!: bspec)

text \<open>After publishing, every value given to the builder is the value under its key.\<close>

lemma published_value_at:
  assumes b: "b = published lb kv cap pack tensors" and ok: "builder_ok (wg_digest lb) kv b" and cat: "catalog_ok lb kv"
    and apart: "values_apart lb kv cap pack tensors" and v: "v \<in> set (bd_values b)"
  shows "value_at lb (mem_store (manifest_key (wg_digest lb) (wg_nfc lb) mr) x (bd_kv b)) (chunk_key (wg_digest lb) v) = Inr v"
proof -
  let ?d = "wg_digest lb"
  have g: "kv_grown ?d kv (bd_values b) (bd_kv b)" using ok by (simp add: builder_ok_def)
  then obtain v' where v': "mem_retrieve (bd_kv b) (chunk_key ?d v) = Some v'" using v by (auto simp: kv_grown_def)
  then have "(mem_retrieve kv (chunk_key ?d v) = Some v') \<or> (v' \<in> set (bd_values b) \<and> chunk_key ?d v = chunk_key ?d v')" using g by (auto simp: kv_grown_def)
  then have "chunk_key ?d v' = chunk_key ?d v \<and> v' \<in> set (chunk_values kv @ bd_values b)"
    using catalog_okD [OF cat] mem_retrieve_in [of kv "chunk_key ?d v" v'] manifest_key_tag(2) [of ?d v] by (force simp: chunk_values_def)
  then have k: "chunk_key ?d v' = chunk_key ?d v" and "v' \<in> set (chunk_values kv @ bd_values b)" by auto
  then have "v' = v" using apart v by (auto simp: values_apart_def b chunk_key_inject dest: inj_onD)
  then show ?thesis using v' k by (simp add: value_at_Inr mem_store_get)
qed

lemma old_variant_kept:
  assumes ok: "builder_ok (wg_digest lb) kv b" and v: "variant_bytes lb kv v = Inr d" "variant_wf v"
  shows "variant_bytes lb (mem_store (manifest_key (wg_digest lb) (wg_nfc lb) mr) x (bd_kv b)) v = Inr d"
proof -
  have "value_at lb kv k = value_at lb (mem_store (manifest_key (wg_digest lb) (wg_nfc lb) mr) x (bd_kv b)) k" if "k \<in> set (va_keys v)" for k
  proof -
    note k = that
    obtain u where u: "mem_retrieve kv k = Some u" "chunk_key (wg_digest lb) u = k" using variant_bytes_values [OF v k] by (auto simp: value_at_Inr)
    then have "mem_retrieve (bd_kv b) k = Some u" using ok by (simp add: builder_ok_def kv_grown_def)
    moreover have "k \<noteq> manifest_key (wg_digest lb) (wg_nfc lb) mr" using u(2) by auto
    ultimately show ?thesis using u by (simp add: value_at_def mem_store_get)
  qed
  then show ?thesis using variant_bytes_cong v(1) by metis
qed

definition base_of :: "lib \<Rightarrow> memkv \<Rightarrow> pystr \<Rightarrow> bool \<Rightarrow> manifest" where
  "base_of lb kv mr merge = (case read_base lb kv mr merge of Inr (Some m) \<Rightarrow> m | _ \<Rightarrow> empty_manifest)"

definition comma_free :: "pystr set \<Rightarrow> bool" where
  "comma_free ps = (\<forall>p \<in> ps. 44 \<notin> set p)"

definition spec_at :: "spec \<Rightarrow> pystr \<Rightarrow> pystr \<rightharpoonup> bytes" where
  "spec_at tensors p = (\<lambda>n. map_option (snd \<circ> snd) (map_of (spec_items tensors) (n, p)))"

lemma base_of_wf: "manifest_wf (base_of lb kv mr merge)"
  by (auto simp: base_of_def read_base_def empty_manifest_wf bindE_Inr from_ipc_wf split: sum.splits option.splits if_splits)

lemma publish_Inr:
  assumes "publish lb kv mr tensors ml pack merge = (kv', Inr st)"
  shows "0 < value_cap kv ml \<and> (\<exists>m. foldE (finalize_item (published lb kv (nat (value_cap kv ml)) pack tensors)) (spec_items tensors) (base_of lb kv mr merge) = Inr m
    \<and> kv' = mem_store (manifest_key (wg_digest lb) (wg_nfc lb) mr) (to_ipc lb m) (bd_kv (published lb kv (nat (value_cap kv ml)) pack tensors))
    \<and> st = bd_stats (published lb kv (nat (value_cap kv ml)) pack tensors))"
  using assms by (auto simp: publish_def Let_def finalize_def published_def base_of_def split: if_splits sum.splits option.splits)

text \<open>\<open>m\<close> is the manifest in \<open>kv'\<close> after the items have been added to \<open>base\<close>.\<close>

definition published_as :: "lib \<Rightarrow> memkv \<Rightarrow> memkv \<Rightarrow> pystr \<Rightarrow> manifest \<Rightarrow> spec \<Rightarrow> manifest \<Rightarrow> bool" where
  "published_as lb kv kv' mr base tensors m = (load_manifest lb kv' mr = Inr m
    \<and> set (mf_precisions m) = set (mf_precisions base) \<union> (snd \<circ> fst) ` set (spec_items tensors)
    \<and> (\<forall>n p dt sh data. ((n, p), dt, sh, data) \<in> set (spec_items tensors) \<longrightarrow> (\<exists>v. variant_of m n p = Some v \<and> variant_bytes lb kv' v = Inr data))
    \<and> (\<forall>n p. (n, p) \<notin> fst ` set (spec_items tensors) \<longrightarrow> variant_of m n p = variant_of base n p)
    \<and> (\<forall>v d. variant_wf v \<longrightarrow> variant_bytes lb kv v = Inr d \<longrightarrow> variant_bytes lb kv' v = Inr d))"

lemma publish_manifest:
  assumes lib: "arrow_ok lb" and dist: "distinct (map fst (spec_items tensors))" and cat: "catalog_ok lb kv"
    and apart: "values_apart lb kv (nat (value_cap kv ml)) pack tensors"
    and comma: "comma_free (set (mf_precisions (base_of lb kv mr merge)) \<union> (snd \<circ> fst) ` set (spec_items tensors))"
    and pub: "publish lb kv mr tensors ml pack merge = (kv', Inr st)"
  shows "\<exists>m. published_as lb kv kv' mr (base_of lb kv mr merge) tensors m"
proof -
  define cap where "cap = nat (value_cap kv ml)"
  define b where "b = published lb kv cap pack tensors"
  let ?d = "wg_digest lb" and ?base = "base_of lb kv mr merge"
  obtain w where c: "0 < cap" and w: "foldE (finalize_item b) (spec_items tensors) ?base = Inr w"
    and kv': "kv' = mem_store (manifest_key ?d (wg_nfc lb) mr) (to_ipc lb w) (bd_kv b)"
    using publish_Inr [OF pub] by (auto simp: cap_def b_def)
  note P = published_ok [OF c dist, of lb kv pack, folded b_def]
  note ok = P [THEN conjunct1] and recs = P [THEN conjunct2, THEN conjunct2]
  note F = finalize_items [OF w base_of_wf dist]
  note wf = F [THEN conjunct1] and ps = F [THEN conjunct2, THEN conjunct1] and new = F [THEN conjunct2, THEN conjunct2, THEN conjunct1, rule_format]
    and old = F [THEN conjunct2, THEN conjunct2, THEN conjunct2]
  have "\<forall>p \<in> set (mf_precisions w). 44 \<notin> set p" using comma ps by (simp add: comma_free_def)
  then obtain m where m: "from_ipc lb (to_ipc lb w) = Inr m" "variant_of m = variant_of w" "set (mf_precisions m) = set (mf_precisions w)"
    using ipc_roundtrip [OF lib wf] by blast
  have lm: "load_manifest lb kv' mr = Inr m" using m(1) by (simp add: load_manifest_def kv' mem_store_get)
  have vals: "\<forall>v \<in> set (bd_values b). value_at lb kv' (chunk_key ?d v) = Inr v"
    using published_value_at [OF b_def ok cat] apart by (simp add: kv' cap_def)
  have "\<exists>v. variant_of m n p = Some v \<and> variant_bytes lb kv' v = Inr data" if it: "((n, p), dt, sh, data) \<in> set (spec_items tensors)" for n p dt sh data
  proof -
    obtain rs cs where rs: "bd_records b (n, p) = Some rs" "concat cs = data" "recs_at ?d (set (bd_values b)) [] (n, p) rs cs"
      using bspec [OF recs it] by auto
    obtain ks szs os where v: "filled_recs rs = Some (ks, szs, os)" "variant_of w n p = Some \<lparr>va_dtype = dt, va_keys = ks, va_offsets = os, va_sizes = szs\<rparr>"
      using new [OF it] rs(1) by (auto simp: recs_of_def)
    then show ?thesis using filled_variant [OF rs(3) vals, of dt] rs(2) by (simp add: m(2))
  qed
  moreover have "variant_bytes lb kv' v = Inr d" if "variant_wf v" "variant_bytes lb kv v = Inr d" for v d
    using old_variant_kept [OF ok that(2,1)] by (simp add: kv')
  ultimately show ?thesis using lm m(2,3) ps old unfolding published_as_def by (intro exI [of _ m] conjI allI impI) auto
qed

lemma map_of_spec_item: "distinct (map fst (spec_items tensors)) \<Longrightarrow> ((n, p), dt, sh, data) \<in> set (spec_items tensors) \<Longrightarrow> spec_at tensors p n = Some data"
  by (simp add: spec_at_def)

lemma spec_at_None: "spec_at tensors p n = None \<longleftrightarrow> (n, p) \<notin> fst ` set (spec_items tensors)"
  by (simp add: spec_at_def map_of_eq_None_iff)

lemma load_after_publish:
  assumes lib: "arrow_ok lb" and dist: "distinct (map fst (spec_items tensors))" and cat: "catalog_ok lb kv"
    and apart: "values_apart lb kv (nat (value_cap kv ml)) pack tensors"
    and comma: "comma_free (set (mf_precisions (base_of lb kv mr merge)) \<union> (snd \<circ> fst) ` set (spec_items tensors))"
    and pub: "publish lb kv mr tensors ml pack merge = (kv', Inr st)"
    and p: "p \<in> set (mf_precisions (base_of lb kv mr merge)) \<union> (snd \<circ> fst) ` set (spec_items tensors)"
    and old: "\<And>n v. variant_of (base_of lb kv mr merge) n p = Some v \<Longrightarrow> variant_bytes lb kv v = Inr (the (M n))"
    and dom: "\<And>n. variant_of (base_of lb kv mr merge) n p = None \<longleftrightarrow> M n = None"
  shows "\<exists>out. load lb kv' mr p = Inr out \<and> map_of out = M ++ spec_at tensors p"
proof -
  let ?base = "base_of lb kv mr merge"
  obtain m where P: "published_as lb kv kv' mr ?base tensors m" using publish_manifest [OF lib dist cat apart comma pub] ..
  have m: "load_manifest lb kv' mr = Inr m" "set (mf_precisions m) = set (mf_precisions ?base) \<union> (snd \<circ> fst) ` set (spec_items tensors)"
    using P by (simp_all add: published_as_def)
  have new: "\<exists>v. variant_of m n p = Some v \<and> variant_bytes lb kv' v = Inr data" if "((n, p), dt, sh, data) \<in> set (spec_items tensors)" for n dt sh data
    using P that unfolding published_as_def by blast
  have kept: "variant_of m n p = variant_of ?base n p" if "(n, p) \<notin> fst ` set (spec_items tensors)" for n
    using P that unfolding published_as_def by simp
  have bytes: "variant_bytes lb kv' v = Inr d" if "variant_wf v" "variant_bytes lb kv v = Inr d" for v d
    using P that unfolding published_as_def by simp
  have all: "(case variant_of m n p of None \<Rightarrow> (M ++ spec_at tensors p) n = None | Some v \<Rightarrow> \<exists>d. variant_bytes lb kv' v = Inr d \<and> (M ++ spec_at tensors p) n = Some d)" for n
  proof (cases "spec_at tensors p n")
    case None
    then have v: "variant_of m n p = variant_of ?base n p" using kept by (simp add: spec_at_None)
    have M: "(M ++ spec_at tensors p) n = M n" using None by (simp add: map_add_def)
    show ?thesis
    proof (cases "variant_of ?base n p")
      case (Some u)
      have "variant_bytes lb kv' u = Inr (the (M n))" using bytes [OF variant_of_wf [OF base_of_wf Some] old [OF Some]] .
      moreover have "M n \<noteq> None" using Some dom [of n] by simp
      ultimately show ?thesis using Some by (auto simp: v M)
    qed (use v M dom [of n] in simp)
  next
    case (Some data)
    then obtain dt sh where "((n, p), dt, sh, data) \<in> set (spec_items tensors)" by (auto simp: spec_at_def dest!: map_of_SomeD)
    from new [OF this] obtain v where "variant_of m n p = Some v" "variant_bytes lb kv' v = Inr data" by blast
    then show ?thesis using Some by (simp add: map_add_def)
  qed
  have p': "p \<in> set (mf_precisions m)" using p m(2) by simp
  have "\<exists>d. variant_bytes lb kv' v = Inr d" if "variant_of m n p = Some v" for n v using all [of n] that by auto
  then obtain out where out: "load lb kv' mr p = Inr out" using load_succeeds [OF m(1) p'] by blast
  have "map_of out n = (M ++ spec_at tensors p) n" for n
    using load_map_of [OF m(1) out, of n] all [of n] by (cases "variant_of m n p") (auto simp: map_add_def)
  then have "map_of out = M ++ spec_at tensors p" ..
  then show ?thesis using out by blast
qed

text \<open>The tensors of the shards, each in the one precision.\<close>

lemma shard_spec_Inr:
  assumes "shard_spec p shards = Inr tensors"
  shows "tensors = map (\<lambda>(n, x). (n, [(p, x)])) (concat shards) \<and> distinct (map fst (concat shards))"
proof -
  have "foldE (\<lambda>(name, x) ts. if name \<in> fst ` set ts then Inl W_value else Inr (ts @ [(name, [(p, x)])])) xs [] = Inr ts
      \<Longrightarrow> ts = map (\<lambda>(n, x). (n, [(p, x)])) xs \<and> distinct (map fst xs)" for xs ts
  proof (induction xs arbitrary: ts rule: rev_induct)
    case (snoc y xs)
    obtain n x where y: "y = (n, x)" by (cases y)
    have keys: "fst ` set (map (\<lambda>(n, x). (n, [(p, x)])) xs) = fst ` set xs" by force
    show ?case using snoc.prems snoc.IH by (auto simp: y foldE_append bindE_Inr keys simp del: set_map split: if_splits) (simp_all add: image_set [symmetric])
  qed simp
  then show ?thesis using assms unfolding shard_spec_def by blast
qed

lemma shard_items: "spec_items (map (\<lambda>(n, x). (n, [(p, x)])) xs) = map (\<lambda>(n, x). ((n, p), x)) xs"
  by (induction xs) (auto simp: spec_items_def)

lemma shard_items_distinct: "distinct (map fst (map (\<lambda>(n, x). ((n, p), x)) xs)) = distinct (map fst xs)"
proof -
  have "map fst (map (\<lambda>(n, x). ((n, p), x)) xs) = map (\<lambda>n. (n, p)) (map fst xs)" by (simp add: case_prod_unfold)
  then show ?thesis by (simp only: distinct_map [of "\<lambda>n. (n, p)"]) (simp add: inj_on_def)
qed

lemma shard_spec_at:
  assumes "distinct (map fst xs)"
  shows "spec_at (map (\<lambda>(n, x). (n, [(p, x)])) xs) p n = map_option (snd \<circ> snd) (map_of xs n)"
proof -
  have "map_of (map (\<lambda>(n, x). ((n, p), x)) xs) (n, p) = map_of xs n" by (induction xs) auto
  then show ?thesis by (simp add: spec_at_def shard_items)
qed

lemma verify_ok:
  assumes l: "load lb kv mr p = Inr out" and m: "map_of out = (\<lambda>n. map_option (snd \<circ> snd) (map_of xs n))" and d: "distinct (map fst out)" "distinct (map fst xs)"
  shows "verify lb sha kv mr p (map (\<lambda>(n, dt, sh, data). (n, sha data, length data)) xs) = Inr 0"
proof -
  have src: "map_of (map (\<lambda>(n, dt, sh, data). (n, sha data, length data)) xs) n = map_option (\<lambda>(dt, sh, data). (sha data, length data)) (map_of xs n)" for n
    by (induction xs) auto
  have "map_of xs n \<noteq> None \<and> snd (snd (the (map_of xs n))) = data" if "(n, data) \<in> set out" for n data
  proof -
    have "map_of out n = Some data" using that d(1) by simp
    then have "map_option (snd \<circ> snd) (map_of xs n) = Some data" by (simp add: m)
    then show ?thesis by auto
  qed
  then have "filter (\<lambda>(name, data). case map_of (map (\<lambda>(n, dt, sh, data). (n, sha data, length data)) xs) name of
      None \<Rightarrow> True | Some (s, nbytes) \<Rightarrow> if length data \<noteq> nbytes then True else sha data \<noteq> s) out = []"
    unfolding src by (force simp: filter_empty_conv)
  moreover have "n \<in> fst ` set out" if "n \<in> fst ` set xs" for n
  proof -
    have "map_of out n \<noteq> None" unfolding m using that by (simp add: map_of_eq_None_iff)
    then show ?thesis by (simp add: map_of_eq_None_iff)
  qed
  then have "filter (\<lambda>name. name \<notin> fst ` set out) (map fst (map (\<lambda>(n, dt, sh, data). (n, sha data, length data)) xs)) = []"
    by (force simp: filter_empty_conv)
  ultimately show ?thesis by (simp add: verify_def l Let_def)
qed

section \<open>A concrete catalog\<close>

text \<open>Two tensors in two precisions, published into a catalog that holds the first value already, and one more precision merged in later.\<close>

definition demo_lib :: lib where
  "demo_lib = table_lib (take 15)"

definition demo_kv :: memkv where
  "demo_kv = \<lparr>kv_data = [(chunk_key (take 15) [1, 2, 3, 4], [1, 2, 3, 4])], kv_store_calls = 0, kv_max_value_len = 4\<rparr>"

definition demo_spec :: spec where
  "demo_spec = [([119], [([97], ([102], [6], [1, 2, 3, 4, 5, 6])), ([98], ([103], [6], [1, 2, 3]))]), ([98], [([97], ([102], [1], [7]))])]"

definition demo_shards :: "(pystr \<times> pystr \<times> int list \<times> bytes) list list" where
  "demo_shards = [[([119], ([102], [6], [1, 2, 3, 4, 5, 6]))], [([98], ([102], [1], [7]))]]"

definition demo_first :: spec where
  "demo_first = [([119], [([97], ([102], [2], [1, 2, 3, 4, 5]))])]"

definition demo_next :: spec where
  "demo_next = [([119], [([99], ([103], [2], [9, 9]))]), ([118], [([97], ([102], [1], [8, 7, 6]))])]"

lemma demo_arrow: "arrow_ok demo_lib"
  by (simp add: demo_lib_def table_lib_arrow_ok)

lemma publish_succeeds:
  assumes "0 < value_cap kv ml" "read_base lb kv mr merge = Inr bs"
    "foldE (finalize_item (published lb kv (nat (value_cap kv ml)) pack tensors)) (spec_items tensors) (case bs of None \<Rightarrow> empty_manifest | Some m \<Rightarrow> m) = Inr m"
  shows "publish lb kv mr tensors ml pack merge = (mem_store (manifest_key (wg_digest lb) (wg_nfc lb) mr) (to_ipc lb m) (bd_kv (published lb kv (nat (value_cap kv ml)) pack tensors)),
    Inr (bd_stats (published lb kv (nat (value_cap kv ml)) pack tensors)))"
  using assms by (simp add: publish_def finalize_def published_def Let_def)

lemma demo_cap: "value_cap demo_kv None = 4"
  by (simp add: value_cap_def demo_kv_def)

lemma not_isl: "\<not> isl x \<Longrightarrow> x = Inr (projr x)"
  by (cases x) simp_all

definition demo_manifest :: "memkv \<Rightarrow> spec \<Rightarrow> manifest \<Rightarrow> manifest" where
  "demo_manifest kv tensors base = projr (foldE (finalize_item (published demo_lib kv 4 True tensors)) (spec_items tensors) base)"

definition demo_after :: "memkv \<Rightarrow> spec \<Rightarrow> manifest \<Rightarrow> memkv" where
  "demo_after kv tensors base = mem_store (manifest_key (take 15) (\<lambda>s. s) [109]) (to_ipc demo_lib (demo_manifest kv tensors base)) (bd_kv (published demo_lib kv 4 True tensors))"

lemma demo_publish: "\<exists>st. publish demo_lib demo_kv [109] demo_spec None True False = (demo_after demo_kv demo_spec empty_manifest, Inr st)"
proof -
  have "\<not> isl (foldE (finalize_item (published demo_lib demo_kv 4 True demo_spec)) (spec_items demo_spec) empty_manifest)" by code_simp
  from publish_succeeds [of demo_kv None demo_lib "[109]" False None True demo_spec, unfolded demo_cap, simplified, OF _ not_isl [OF this]] show ?thesis
    by (simp add: read_base_def demo_after_def demo_manifest_def) (simp add: demo_lib_def table_lib_def)
qed

lemma demo_apart: "values_apart demo_lib demo_kv 4 True demo_spec"
proof -
  have v: "chunk_values demo_kv @ bd_values (published demo_lib demo_kv 4 True demo_spec) = [[1, 2, 3, 4], [1, 2, 3, 4], [5, 6], [1, 2, 3, 7]]" by code_simp
  show ?thesis unfolding values_apart_def v by (simp add: demo_lib_def table_lib_def)
qed

lemma demo_checks: "distinct (map fst (spec_items demo_spec))" "catalog_ok demo_lib demo_kv" "comma_free ((snd \<circ> fst) ` set (spec_items demo_spec))"
  by code_simp+

lemma ipc_single:
  assumes "arrow_ok lb" "variant_wf v" "44 \<notin> set p" "m = \<lparr>mf_rows = [(n, \<lparr>rw_shape = sh, rw_variants = [(p, v)]\<rparr>)], mf_precisions = [p]\<rparr>"
  shows "from_ipc lb (to_ipc lb m) = Inr m"
proof -
  have "manifest_wf m" using assms(2) by (simp add: assms(4) manifest_wf_def row_wf_def)
  moreover have "ordered [p] [(p, v)] = [(p, v)]" by (simp add: ordered_def)
  ultimately obtain qs where qs: "from_table (to_table m) = Inr \<lparr>mf_rows = mf_rows m, mf_precisions = qs\<rparr>" "set qs = {p}"
    using table_roundtrip [of m] assms(3) by (auto simp: assms(4))
  have "distinct qs" using from_table_wf [OF qs(1)] by (simp add: manifest_wf_def)
  then have "qs = [p]" using qs(2) by (cases qs; cases "tl qs") auto
  then show ?thesis using qs(1) assms(1) by (simp add: from_ipc_def to_ipc_def arrow_ok_def assms(4))
qed

text \<open>The catalog after the first publication, with the bytes of its manifest \<open>x\<close>.\<close>

definition demo_row :: manifest where
  "demo_row = \<lparr>mf_rows = [([119], \<lparr>rw_shape = [2], rw_variants = [([97], \<lparr>va_dtype = [102], va_keys = [[1, 1, 2, 3, 4], [1, 5]],
     va_offsets = [0, 0], va_sizes = [4, 1]\<rparr>)]\<rparr>)], mf_precisions = [[97]]\<rparr>"

definition demo_stored :: "bytes \<Rightarrow> memkv" where
  "demo_stored x = \<lparr>kv_data = [([1, 1, 2, 3, 4], [1, 2, 3, 4]), ([1, 5], [5]), ([0, 109], x)], kv_store_calls = 2, kv_max_value_len = 4\<rparr>"

lemma demo_key: "manifest_key (wg_digest demo_lib) (wg_nfc demo_lib) [109] = [0, 109]"
  by (simp add: demo_lib_def table_lib_def manifest_key_def canonical_revision_def py_strip_def py_space_def utf8_def utf8_char_def)

lemma demo_first_publish: "publish demo_lib demo_kv [109] demo_first None True False
  = (demo_stored (to_ipc demo_lib demo_row), Inr (bd_stats (published demo_lib demo_kv 4 True demo_first)))"
proof -
  have f: "foldE (finalize_item (published demo_lib demo_kv 4 True demo_first)) (spec_items demo_first) empty_manifest = Inr demo_row" by code_simp
  have kv: "bd_kv (published demo_lib demo_kv 4 True demo_first) = \<lparr>kv_data = [([1, 1, 2, 3, 4], [1, 2, 3, 4]), ([1, 5], [5])], kv_store_calls = 1, kv_max_value_len = 4\<rparr>"
    by code_simp
  have "mem_store (manifest_key (wg_digest demo_lib) (wg_nfc demo_lib) [109]) x (bd_kv (published demo_lib demo_kv 4 True demo_first)) = demo_stored x" for x
    by (simp add: demo_key demo_stored_def mem_store_def kv)
  then show ?thesis using publish_succeeds [of demo_kv None demo_lib "[109]" False None True demo_first] f by (simp add: demo_cap read_base_def)
qed

lemma demo_read_base: "read_base demo_lib (demo_stored (to_ipc demo_lib demo_row)) [109] True = Inr (Some demo_row)"
proof -
  have "from_ipc demo_lib (to_ipc demo_lib demo_row) = Inr demo_row"
    by (rule ipc_single [OF demo_arrow]) (auto simp: demo_row_def variant_wf_def)
  moreover have "mem_retrieve (demo_stored x) (manifest_key (wg_digest demo_lib) (wg_nfc demo_lib) [109]) = Some x" for x
    by (simp add: demo_key demo_stored_def mem_retrieve_def)
  ultimately show ?thesis by (simp add: read_base_def)
qed

definition demo_merged :: memkv where
  "demo_merged = fst (publish demo_lib (demo_stored (to_ipc demo_lib demo_row)) [109] demo_next None True True)"

lemma demo_next_publish: "\<exists>st. publish demo_lib (demo_stored (to_ipc demo_lib demo_row)) [109] demo_next None True True = (demo_merged, Inr st)"
proof -
  let ?kv = "demo_stored (to_ipc demo_lib demo_row)"
  have "\<not> isl (foldE (finalize_item (published demo_lib (demo_stored x) 4 True demo_next)) (spec_items demo_next) demo_row)" for x by code_simp
  then have f: "foldE (finalize_item (published demo_lib ?kv 4 True demo_next)) (spec_items demo_next) demo_row
    = Inr (projr (foldE (finalize_item (published demo_lib ?kv 4 True demo_next)) (spec_items demo_next) demo_row))" by (rule not_isl)
  have "value_cap ?kv None = 4" by (simp add: value_cap_def demo_stored_def)
  then show ?thesis using publish_succeeds [of ?kv None demo_lib "[109]" True "Some demo_row" True demo_next] f by (simp add: demo_read_base demo_merged_def)
qed

lemma demo_next_checks: "distinct (map fst (spec_items demo_next))" "catalog_ok demo_lib (demo_stored x)" "values_apart demo_lib (demo_stored x) 4 True demo_next"
proof -
  show "distinct (map fst (spec_items demo_next))" by code_simp
  show "catalog_ok demo_lib (demo_stored x)" by (simp add: catalog_ok_def demo_stored_def demo_lib_def table_lib_def chunk_key_def)
  have v: "chunk_values (demo_stored x) @ bd_values (published demo_lib (demo_stored x) 4 True demo_next) = [[1, 2, 3, 4], [5], [9, 9], [8, 7, 6]]" by code_simp
  show "values_apart demo_lib (demo_stored x) 4 True demo_next" unfolding values_apart_def v by (simp add: demo_lib_def table_lib_def)
qed

lemma demo_load: "\<exists>out. load demo_lib (demo_stored (to_ipc demo_lib demo_row)) [109] [97] = Inr out \<and> map_of out [119] = Some [1, 2, 3, 4, 5]"
proof -
  let ?kv = "demo_stored (to_ipc demo_lib demo_row)"
  have lm: "load_manifest demo_lib ?kv [109] = Inr demo_row" using demo_read_base by (auto simp: read_base_def load_manifest_def bindE_Inr split: option.splits)
  have "reassemble demo_lib (demo_stored x) demo_row [97] = Inr [([119], [1, 2, 3, 4, 5])]" for x by code_simp
  then show ?thesis by (simp add: load_def lm)
qed

section \<open>Properties\<close>



text \<open>The round trip of the command line: after publishing a sharded model, verifying the loaded model against its source succeeds.\<close>

theorem verified_after_publish:
  assumes lib: "arrow_ok lb" and cat: "catalog_ok lb kv" and pub: "publish_safetensors lb kv mr shards p ml pack False = (kv', Inr st)"
    and apart: "values_apart lb kv (nat (value_cap kv ml)) pack (map (\<lambda>(n, x). (n, [(p, x)])) (concat shards))" and comma: "44 \<notin> set p" and ne: "concat shards \<noteq> []"
  shows "verify lb sha256 kv' mr p (map (\<lambda>(n, dt, sh, data). (n, sha256 data, length data)) (concat shards)) = Inr 0"
proof -
  let ?spec = "map (\<lambda>(n, x). (n, [(p, x)])) (concat shards)"
  obtain tensors where sp: "shard_spec p shards = Inr tensors" and pub': "publish lb kv mr tensors ml pack False = (kv', Inr st)"
    using pub by (auto simp: publish_safetensors_def split: sum.splits)
  have t: "tensors = ?spec" "distinct (map fst (concat shards))" using shard_spec_Inr [OF sp] by blast+
  have items: "spec_items ?spec = map (\<lambda>(n, x). ((n, p), x)) (concat shards)" by (rule shard_items)
  have dist: "distinct (map fst (spec_items ?spec))" using t(2) by (simp only: items shard_items_distinct)
  have b: "base_of lb kv mr False = empty_manifest" by (simp add: base_of_def read_base_def)
  have c: "comma_free (set (mf_precisions (base_of lb kv mr False)) \<union> (snd \<circ> fst) ` set (spec_items ?spec))"
    using comma by (auto simp: comma_free_def b empty_manifest_def items)
  have p: "p \<in> set (mf_precisions (base_of lb kv mr False)) \<union> (snd \<circ> fst) ` set (spec_items ?spec)"
    unfolding items using ne by (cases "concat shards") auto
  obtain out where out: "load lb kv' mr p = Inr out" "map_of out = spec_at ?spec p"
    using load_after_publish [OF lib dist cat apart c _ p, of kv' st Map.empty] pub' t(1) by (auto simp: b empty_manifest_wf)
  have "distinct (map fst out)"
  proof -
    obtain m where m: "load_manifest lb kv' mr = Inr m" using out(1) by (auto simp: load_def bindE_Inr)
    then have "manifest_wf m" by (auto simp: load_manifest_def from_ipc_wf split: option.splits)
    then show ?thesis using out(1) load_Inr [OF m] tensors_at_distinct by (simp add: manifest_wf_def)
  qed
  then show ?thesis using verify_ok [OF out(1) _ _ t(2)] out(2) shard_spec_at [OF t(2)] by (simp add: fun_eq_iff)
qed

theorem verified_after_publish_witness:
  "verify demo_lib (take 32) (fst (publish_safetensors demo_lib demo_kv [109] demo_shards [97] None True False)) [109] [97]
     [([119], [1, 2, 3, 4, 5, 6], 6), ([98], [7], 1)] = Inr 0"
proof -
  let ?spec = "map (\<lambda>(n, x). (n, [([97], x)])) (concat demo_shards)"
  have sp: "shard_spec [97] demo_shards = Inr ?spec" by (simp add: shard_spec_def demo_shards_def)
  have "\<not> isl (foldE (finalize_item (published demo_lib demo_kv 4 True ?spec)) (spec_items ?spec) empty_manifest)" by code_simp
  from publish_succeeds [of demo_kv None demo_lib "[109]" False None True ?spec, unfolded demo_cap, simplified, OF _ not_isl [OF this]]
  obtain kv' st where pub: "publish_safetensors demo_lib demo_kv [109] demo_shards [97] None True False = (kv', Inr st)"
    by (simp add: read_base_def publish_safetensors_def sp)
  have v: "chunk_values demo_kv @ bd_values (published demo_lib demo_kv 4 True ?spec) = [[1, 2, 3, 4], [1, 2, 3, 4], [5, 6, 7]]" by code_simp
  have apart: "values_apart demo_lib demo_kv (nat (value_cap demo_kv None)) True ?spec" unfolding values_apart_def demo_cap using v by (simp add: demo_lib_def table_lib_def)
  have src: "map (\<lambda>(n, dt, sh, data). (n, take 32 data, length data)) (concat demo_shards) = [([119], [1, 2, 3, 4, 5, 6], 6), ([98], [7], 1)]" by (simp add: demo_shards_def)
  have "(44 :: nat) \<notin> set [97]" "concat demo_shards \<noteq> []" by (simp_all add: demo_shards_def)
  from verified_after_publish [OF demo_arrow demo_checks(2) pub apart this, of "take 32"] show ?thesis unfolding src pub fst_conv .
qed



text \<open>What publishing writes, also when it is refused: a value that was in the catalog stays, and a new one is either the manifest of
  the revision or a value under the hash of its bytes that the cap bounds.\<close>

theorem publish_writes:
  assumes dist: "distinct (map fst (spec_items tensors))" and pub: "publish lb kv mr tensors ml pack merge = (kv', r)"
    and k: "k \<noteq> manifest_key (wg_digest lb) (wg_nfc lb) mr"
  shows "(mem_retrieve kv k \<noteq> None \<longrightarrow> mem_retrieve kv' k = mem_retrieve kv k)
    \<and> (mem_retrieve kv' k = Some v \<longrightarrow> mem_retrieve kv k = Some v \<or> (k = chunk_key (wg_digest lb) v \<and> int (length v) \<le> value_cap kv ml))"
proof (cases "0 < value_cap kv ml \<and> isl (read_base lb kv mr merge) = False")
  case True
  define b where "b = published lb kv (nat (value_cap kv ml)) pack tensors"
  have ok: "builder_ok (wg_digest lb) kv b" "bd_max b = nat (value_cap kv ml)"
    using published_ok [OF _ dist, of "nat (value_cap kv ml)" lb kv pack] True by (simp_all add: b_def)
  have "kv' = bd_kv b \<or> (\<exists>x. kv' = mem_store (manifest_key (wg_digest lb) (wg_nfc lb) mr) x (bd_kv b))"
    using pub True by (auto simp: publish_def Let_def finalize_def b_def published_def split: sum.splits)
  then have kv': "mem_retrieve kv' k = mem_retrieve (bd_kv b) k" using k by (auto simp: mem_store_get)
  show ?thesis using ok True unfolding kv' builder_ok_def kv_grown_def by fastforce
next
  case False
  then have "kv' = kv" using pub by (auto simp: publish_def Let_def split: if_splits sum.splits)
  then show ?thesis by simp
qed

theorem publish_writes_witness:
  "mem_retrieve (demo_stored (to_ipc demo_lib demo_row)) [1, 1, 2, 3, 4] = Some [1, 2, 3, 4] \<and> [1, 5] = chunk_key (wg_digest demo_lib) [5] \<and> int (length [5 :: 8 word]) \<le> value_cap demo_kv None"
proof -
  have d: "distinct (map fst (spec_items demo_first))" by code_simp
  have k: "[1, 1, 2, 3, 4] \<noteq> manifest_key (wg_digest demo_lib) (wg_nfc demo_lib) [109]" "[1, 5] \<noteq> manifest_key (wg_digest demo_lib) (wg_nfc demo_lib) [109]"
    by (simp_all add: demo_key)
  have r: "mem_retrieve demo_kv [1, 1, 2, 3, 4] = Some [1, 2, 3, 4]" "mem_retrieve demo_kv [1, 5] = None" "mem_retrieve (demo_stored x) [1, 5] = Some [5]" for x
    by (simp_all add: demo_kv_def demo_stored_def mem_retrieve_def chunk_key_def)
  show ?thesis using publish_writes [OF d demo_first_publish k(1)] publish_writes [OF d demo_first_publish k(2), of "[5]"] r by simp
qed

text \<open>C26. A load is tamper-evident: two catalogs that agree on the manifest of a revision, and whose values hash apart, either
  both give the same tensors or one of the loads fails.\<close>

theorem load_tamper_evident:
  assumes m: "mem_retrieve kv (manifest_key (wg_digest lb) (wg_nfc lb) mr) = mem_retrieve kv' (manifest_key (wg_digest lb) (wg_nfc lb) mr)"
    and inj: "inj_on (wg_digest lb) (set (chunk_values kv @ chunk_values kv'))"
    and l: "load lb kv mr p = Inr out" "load lb kv' mr p = Inr out'"
  shows "out = out'"
proof -
  obtain w where w: "load_manifest lb kv mr = Inr w" "load_manifest lb kv' mr = Inr w"
    using l(1) m by (auto simp: load_def bindE_Inr load_manifest_def split: option.splits)
  have wf: "manifest_wf w" using w(1) from_ipc_wf by (auto simp: load_manifest_def split: option.splits)
  note o = l(1) [unfolded load_Inr [OF w(1)]] l(2) [unfolded load_Inr [OF w(2)]]
  have len: "map fst out = map fst out'" using o by simp
  show ?thesis
  proof (rule nth_equalityI)
    show "length out = length out'" using len by (metis length_map)
  next
    fix i assume i: "i < length out"
    then have i': "i < length out'" using len by (metis length_map)
    have n: "fst (out ! i) = fst (out' ! i)" using len i i' by (metis nth_map)
    obtain v where v: "variant_of w (fst (out ! i)) p = Some v" "variant_bytes lb kv v = Inr (snd (out ! i))"
      using o(1) nth_mem [OF i] by (metis prod.collapse)
    moreover have "variant_bytes lb kv' v = Inr (snd (out' ! i))"
      using o(2) nth_mem [OF i'] v(1) n by (metis prod.collapse option.inject)
    ultimately show "out ! i = out' ! i" using variant_bytes_unique [OF _ _ variant_of_wf [OF wf v(1)] inj] n by (metis prod.collapse)
  qed
qed

theorem load_tamper_evident_witness:
  "load demo_lib (mem_store [1, 7] [7] (demo_stored (to_ipc demo_lib demo_row))) [109] [97] = load demo_lib (demo_stored (to_ipc demo_lib demo_row)) [109] [97]"
proof -
  let ?kv = "demo_stored (to_ipc demo_lib demo_row)" and ?kv' = "mem_store [1, 7] [7] (demo_stored (to_ipc demo_lib demo_row))"
  have lm: "load_manifest demo_lib ?kv [109] = Inr demo_row" "load_manifest demo_lib ?kv' [109] = Inr demo_row" using demo_read_base
    by (auto simp: read_base_def load_manifest_def bindE_Inr mem_store_get demo_key split: option.splits)
  have "reassemble demo_lib (mem_store [1, 7] [7] (demo_stored x)) demo_row [97] = Inr [([119], [1, 2, 3, 4, 5])]" for x by code_simp
  then have l: "load demo_lib ?kv' [109] [97] = Inr [([119], [1, 2, 3, 4, 5])]" by (simp add: load_def lm)
  have v: "chunk_values (mem_store [1, 7] [7] (demo_stored x)) @ chunk_values (demo_stored x) = [[1, 2, 3, 4], [5], [7], [1, 2, 3, 4], [5]]" for x by code_simp
  obtain out where out: "load demo_lib ?kv [109] [97] = Inr out" using demo_load by blast
  have "[([119], [1, 2, 3, 4, 5])] = out"
    by (rule load_tamper_evident [OF _ _ l out], unfold v) (auto simp: demo_key mem_store_get, simp_all add: demo_lib_def table_lib_def inj_on_def)
  then show ?thesis using l out by simp
qed

end
