(* ===== verification/Gc.thy ===== *)
theory Gc
  imports PublishProps
begin

text \<open>
  Garbage collection of the weights catalog (\<^verbatim>\<open>clients/vllm-weights/src/rados_nkv_weights/gc.py\<close>): mark the
  manifests of the live revisions and every value key they name, then delete every other key. A live
  revision whose manifest cannot be read stops the collection before anything is deleted.

  The lemmas show what a collection keeps and removes; the last property shows what happens when it
  runs between the moment a publisher has stored its values and the moment it stores the manifest.
\<close>

section \<open>The collector\<close>

record mark_state =
  mk_live :: "bytes list"
  mk_unreadable :: "pystr list"
  mk_manifests :: nat
  mk_seen :: "bytes list"

record gc_stats =
  gs_live_chunks :: int
  gs_live_manifests :: nat
  gs_swept :: nat
  gs_bytes_swept :: nat
  gs_dry_run :: bool
  gs_swept_keys :: "bytes list"

definition manifest_keys :: "manifest \<Rightarrow> bytes list result" where
  "manifest_keys m =
    foldE (\<lambda>p live. foldE (\<lambda>n live. bindE (chunk_keys m n p) (\<lambda>ks. Inr (live @ ks))) (tensors_at m p) live) (mf_precisions m) []"

definition mark_one :: "lib \<Rightarrow> memkv \<Rightarrow> pystr \<Rightarrow> mark_state \<Rightarrow> mark_state result" where
  "mark_one lb kv mr st =
    (let mkey = manifest_key (wg_digest lb) (wg_nfc lb) mr in
     if mkey \<in> set (mk_seen st) then Inr st
     else
       let st1 = st\<lparr>mk_seen := mkey # mk_seen st\<rparr>; bad = st1\<lparr>mk_unreadable := mk_unreadable st1 @ [canonical_revision (wg_nfc lb) mr]\<rparr> in
       case mem_retrieve kv mkey of
         None \<Rightarrow> Inr bad
       | Some raw \<Rightarrow>
           (case from_ipc lb raw of
              Inl _ \<Rightarrow> Inr bad
            | Inr m \<Rightarrow>
                bindE (manifest_keys m) (\<lambda>ks.
                  Inr (st1\<lparr>mk_live := remdups (mk_live st1 @ mkey # ks), mk_manifests := mk_manifests st1 + 1\<rparr>))))"

definition mark :: "lib \<Rightarrow> memkv \<Rightarrow> pystr list \<Rightarrow> (bytes list \<times> nat) result" where
  "mark lb kv live_revisions =
    bindE (foldE (mark_one lb kv) live_revisions \<lparr>mk_live = [], mk_unreadable = [], mk_manifests = 0, mk_seen = []\<rparr>) (\<lambda>st.
      if mk_unreadable st \<noteq> [] then Inl (W_unsafe (mk_unreadable st)) else Inr (mk_live st, mk_manifests st))"

definition sweep_one :: "bytes list \<Rightarrow> bool \<Rightarrow> bytes \<Rightarrow> memkv \<times> gc_stats \<Rightarrow> memkv \<times> gc_stats" where
  "sweep_one live dry_run key s =
    (case s of (kv, st) \<Rightarrow>
      if key \<in> set live then (kv, st)
      else
        let sz = (case mem_retrieve kv key of Some v \<Rightarrow> length v | None \<Rightarrow> 0) in
        (if dry_run then kv else mem_delete key kv,
         st\<lparr>gs_bytes_swept := gs_bytes_swept st + sz, gs_swept := gs_swept st + 1, gs_swept_keys := gs_swept_keys st @ [key]\<rparr>))"

definition gc :: "lib \<Rightarrow> memkv \<Rightarrow> pystr list \<Rightarrow> bool \<Rightarrow> memkv \<times> gc_stats result" where
  "gc lb kv live_revisions dry_run =
    (case mark lb kv live_revisions of
       Inl e \<Rightarrow> (kv, Inl e)
     | Inr (live, n) \<Rightarrow>
         (case fold (sweep_one live dry_run) (mem_iter_keys kv)
             (kv, \<lparr>gs_live_chunks = int (length live) - int n, gs_live_manifests = n, gs_swept = 0, gs_bytes_swept = 0, gs_dry_run = dry_run, gs_swept_keys = []\<rparr>)
          of (kv', st) \<Rightarrow> (kv', Inr st)))"

section \<open>Lemmas: marking\<close>

text \<open>Every key that a manifest names, in any tensor and precision.\<close>

definition named_keys :: "manifest \<Rightarrow> bytes set" where
  "named_keys m = {k. \<exists>n p v. variant_of m n p = Some v \<and> k \<in> set (va_keys v)}"

lemma collect_foldE:
  assumes "\<And>x. x \<in> set xs \<Longrightarrow> \<exists>ks. f x = Inr ks"
  shows "foldE (\<lambda>x live. bindE (f x) (\<lambda>ks. Inr (live @ ks))) xs live = Inr (live @ concat (map (\<lambda>x. projr (f x)) xs))"
  using assms by (induction xs arbitrary: live) (fastforce simp: bindE_def split: sum.splits)+

lemma variant_precision: "manifest_wf m \<Longrightarrow> variant_of m n p = Some v \<Longrightarrow> p \<in> set (mf_precisions m)"
proof -
  assume wf: "manifest_wf m" and v: "variant_of m n p = Some v"
  obtain r where r: "map_of (mf_rows m) n = Some r" "map_of (rw_variants r) p = Some v" using v by (auto simp: variant_of_def bind_eq_Some_conv)
  have "row_wf (mf_precisions m) r" using wf map_of_SomeD [OF r(1)] unfolding manifest_wf_def by force
  then show ?thesis using map_of_SomeD [OF r(2)] unfolding row_wf_def by force
qed

lemma manifest_keys_named:
  assumes wf: "manifest_wf m"
  shows "\<exists>ks. manifest_keys m = Inr ks \<and> set ks = named_keys m"
proof -
  have d: "distinct (map fst (mf_rows m))" using wf by (simp add: manifest_wf_def)
  have ck: "chunk_keys m n p = Inr (va_keys (the (variant_of m n p)))" if "n \<in> set (tensors_at m p)" for n p
    using tensors_at_iff [OF d, of n p] that by (auto simp: chunk_keys_def get_variant_def)
  define g where "g p = concat (map (\<lambda>n. va_keys (the (variant_of m n p))) (tensors_at m p))" for p
  have inner: "foldE (\<lambda>n live. bindE (chunk_keys m n p) (\<lambda>ks. Inr (live @ ks))) (tensors_at m p) live = Inr (live @ g p)" for p live
    using collect_foldE [of "tensors_at m p" "\<lambda>n. chunk_keys m n p" live] ck by (auto simp: g_def cong: map_cong)
  have "manifest_keys m = Inr (concat (map g (mf_precisions m)))"
    unfolding manifest_keys_def inner using collect_foldE [of "mf_precisions m" "\<lambda>p. Inr (g p)" "[]"] by simp
  moreover have "k \<in> set (concat (map g (mf_precisions m))) \<longleftrightarrow> k \<in> named_keys m" for k
  proof
    assume "k \<in> set (concat (map g (mf_precisions m)))"
    then obtain p n where pn: "n \<in> set (tensors_at m p)" "k \<in> set (va_keys (the (variant_of m n p)))" by (auto simp: g_def)
    obtain v where "variant_of m n p = Some v" using pn(1) tensors_at_iff [OF d] by blast
    then show "k \<in> named_keys m" using pn(2) by (auto simp: named_keys_def)
  next
    assume "k \<in> named_keys m"
    then obtain n p v where v: "variant_of m n p = Some v" "k \<in> set (va_keys v)" by (auto simp: named_keys_def)
    have "k \<in> set (g p)" using v tensors_at_iff [OF d, of n p] by (force simp: g_def)
    then show "k \<in> set (concat (map g (mf_precisions m)))" using variant_precision [OF wf v(1)] by auto
  qed
  ultimately show ?thesis by (metis subsetI subset_antisym)
qed

text \<open>The keys a live revision needs, and whether its manifest can be read.\<close>

definition needed :: "lib \<Rightarrow> memkv \<Rightarrow> pystr \<Rightarrow> bytes set" where
  "needed lb kv mr = (case load_manifest lb kv mr of Inl _ \<Rightarrow> {} | Inr m \<Rightarrow> insert (manifest_key (wg_digest lb) (wg_nfc lb) mr) (named_keys m))"

definition mark_inv :: "lib \<Rightarrow> memkv \<Rightarrow> pystr list \<Rightarrow> mark_state \<Rightarrow> bool" where
  "mark_inv lb kv revs st = (set (mk_live st) = (\<Union>r \<in> set revs. needed lb kv r) \<and> (mk_unreadable st = [] \<longleftrightarrow> (\<forall>r \<in> set revs. \<not> isl (load_manifest lb kv r)))
    \<and> set (mk_seen st) = manifest_key (wg_digest lb) (wg_nfc lb) ` set revs)"

lemma needed_cong:
  "manifest_key (wg_digest lb) (wg_nfc lb) r = manifest_key (wg_digest lb) (wg_nfc lb) s \<Longrightarrow> load_manifest lb kv r = load_manifest lb kv s"
  by (simp add: load_manifest_def)

lemma mark_one_inv:
  assumes inv: "mark_inv lb kv revs st"
  shows "\<exists>st'. mark_one lb kv r st = Inr st' \<and> mark_inv lb kv (revs @ [r]) st'"
proof -
  let ?k = "manifest_key (wg_digest lb) (wg_nfc lb)"
  have L: "set (mk_live st) = (\<Union>r \<in> set revs. needed lb kv r)" and U: "mk_unreadable st = [] \<longleftrightarrow> (\<forall>r \<in> set revs. \<not> isl (load_manifest lb kv r))"
    and S: "set (mk_seen st) = ?k ` set revs" using inv unfolding mark_inv_def by blast+
  show ?thesis
  proof (cases "?k r \<in> set (mk_seen st)")
    case True
    then obtain s where s: "s \<in> set revs" "?k s = ?k r" unfolding S by force
    then have same: "load_manifest lb kv r = load_manifest lb kv s" using needed_cong by metis
    have "needed lb kv r = needed lb kv s" unfolding needed_def same s(2) ..
    have "mark_inv lb kv (revs @ [r]) st" unfolding mark_inv_def using L U S s same \<open>needed lb kv r = needed lb kv s\<close> by (auto simp: image_iff) metis+
    then show ?thesis using True by (simp add: mark_one_def)
  next
    case False
    show ?thesis
    proof (cases "load_manifest lb kv r")
      case (Inl e)
      define st' where "st' = st\<lparr>mk_seen := ?k r # mk_seen st, mk_unreadable := mk_unreadable st @ [canonical_revision (wg_nfc lb) r]\<rparr>"
      have "mark_one lb kv r st = Inr st'" using False Inl by (auto simp: mark_one_def Let_def load_manifest_def st'_def split: option.splits sum.splits)
      moreover have "mark_inv lb kv (revs @ [r]) st'" using L S Inl by (simp add: mark_inv_def st'_def needed_def)
      ultimately show ?thesis by blast
    next
      case (Inr m)
      then obtain raw where raw: "mem_retrieve kv (?k r) = Some raw" "from_ipc lb raw = Inr m" by (auto simp: load_manifest_def split: option.splits)
      obtain ks where ks: "manifest_keys m = Inr ks" "set ks = named_keys m" using manifest_keys_named [OF from_ipc_wf [OF raw(2)]] by blast
      define st' where "st' = st\<lparr>mk_seen := ?k r # mk_seen st, mk_live := remdups (mk_live st @ ?k r # ks), mk_manifests := mk_manifests st + 1\<rparr>"
      have "mark_one lb kv r st = Inr st'" using False raw ks(1) by (simp add: mark_one_def Let_def st'_def)
      moreover have "mark_inv lb kv (revs @ [r]) st'" using L U S Inr ks(2) by (simp add: mark_inv_def st'_def needed_def Un_commute)
      ultimately show ?thesis by blast
    qed
  qed
qed

lemma mark_loop:
  "\<exists>st. foldE (mark_one lb kv) revs \<lparr>mk_live = [], mk_unreadable = [], mk_manifests = 0, mk_seen = []\<rparr> = Inr st \<and> mark_inv lb kv revs st"
proof (induction revs rule: rev_induct)
  case Nil
  then show ?case by (simp add: mark_inv_def)
next
  case (snoc r revs)
  then obtain st where "foldE (mark_one lb kv) revs \<lparr>mk_live = [], mk_unreadable = [], mk_manifests = 0, mk_seen = []\<rparr> = Inr st" "mark_inv lb kv revs st" by blast
  then show ?case using mark_one_inv [of lb kv revs st r] by (auto simp: foldE_append)
qed

lemma mark_spec:
  "(case mark lb kv revs of Inl e \<Rightarrow> \<exists>r \<in> set revs. isl (load_manifest lb kv r)
    | Inr (live, n) \<Rightarrow> (\<forall>r \<in> set revs. \<not> isl (load_manifest lb kv r)) \<and> set live = (\<Union>r \<in> set revs. needed lb kv r))"
proof -
  obtain st where "foldE (mark_one lb kv) revs \<lparr>mk_live = [], mk_unreadable = [], mk_manifests = 0, mk_seen = []\<rparr> = Inr st" "mark_inv lb kv revs st"
    using mark_loop by blast
  then show ?thesis by (auto simp: mark_def mark_inv_def)
qed

section \<open>Lemmas: sweeping\<close>

lemma sweep_loop:
  assumes "fold (sweep_one live dry) keys (kv, st) = (kv', st')"
  shows "gs_swept_keys st' = gs_swept_keys st @ filter (\<lambda>k. k \<notin> set live) keys \<and> gs_swept st' = gs_swept st + length (filter (\<lambda>k. k \<notin> set live) keys)
    \<and> mem_retrieve kv' = (\<lambda>k. if \<not> dry \<and> k \<in> set keys \<and> k \<notin> set live then None else mem_retrieve kv k) \<and> gs_dry_run st' = gs_dry_run st"
  using assms
proof (induction keys arbitrary: kv st)
  case (Cons k keys)
  obtain kv1 st1 where s: "sweep_one live dry k (kv, st) = (kv1, st1)" by fastforce
  then have "fold (sweep_one live dry) keys (kv1, st1) = (kv', st')" using Cons.prems by simp
  note IH = Cons.IH [OF this]
  have r: "mem_retrieve kv1 = (\<lambda>k'. if \<not> dry \<and> k' = k \<and> k \<notin> set live then None else mem_retrieve kv k')"
    and t: "gs_swept_keys st1 = gs_swept_keys st @ (if k \<notin> set live then [k] else [])" "gs_swept st1 = gs_swept st + (if k \<notin> set live then 1 else 0)" "gs_dry_run st1 = gs_dry_run st"
    using s by (auto simp: sweep_one_def Let_def mem_delete_get fun_eq_iff split: if_splits)
  have "mem_retrieve kv' = (\<lambda>x. if \<not> dry \<and> x \<in> set (k # keys) \<and> x \<notin> set live then None else mem_retrieve kv x)" using IH by (auto simp: r fun_eq_iff)
  then show ?case using IH t by simp
qed simp

lemma not_listed: "k \<notin> set (mem_iter_keys kv) \<Longrightarrow> mem_retrieve kv k = None"
  by (simp add: mem_iter_keys_def mem_retrieve_def map_of_eq_None_iff)

lemma gc_Inr:
  assumes "gc lb kv revs dry = (kv', Inr st)"
  shows "(\<forall>r \<in> set revs. \<not> isl (load_manifest lb kv r)) \<and> gs_dry_run st = dry
    \<and> gs_swept_keys st = filter (\<lambda>k. k \<notin> (\<Union>r \<in> set revs. needed lb kv r)) (mem_iter_keys kv) \<and> gs_swept st = length (gs_swept_keys st)
    \<and> mem_retrieve kv' = (if dry then mem_retrieve kv else mem_retrieve kv |` (\<Union>r \<in> set revs. needed lb kv r))"
proof -
  obtain live n where m: "mark lb kv revs = Inr (live, n)" using assms by (auto simp: gc_def split: sum.splits)
  have M: "\<forall>r \<in> set revs. \<not> isl (load_manifest lb kv r)" "set live = (\<Union>r \<in> set revs. needed lb kv r)" using mark_spec [where lb = lb and kv = kv and revs = revs] by (simp_all add: m)
  have "fold (sweep_one live dry) (mem_iter_keys kv)
      (kv, \<lparr>gs_live_chunks = int (length live) - int n, gs_live_manifests = n, gs_swept = 0, gs_bytes_swept = 0, gs_dry_run = dry, gs_swept_keys = []\<rparr>) = (kv', st)"
    using assms by (simp add: gc_def m split: prod.splits)
  note S = sweep_loop [OF this]
  have "mem_retrieve kv' = (if dry then mem_retrieve kv else mem_retrieve kv |` set live)" using S by (auto simp: fun_eq_iff restrict_map_def not_listed)
  then show ?thesis using S M by simp
qed

section \<open>Properties\<close>

text \<open>C24. A collection keeps every live revision as it was and nothing else: loading a live revision in any precision gives the
  same result as before, errors included, and a key is left exactly when it is the manifest key of a live revision or a key its manifest names.\<close>

theorem gc_keeps_live:
  assumes gc: "gc lb kv revs False = (kv', Inr st)" and mr: "mr \<in> set revs"
  shows "load lb kv' mr p = load lb kv mr p \<and> (mem_retrieve kv' k \<noteq> None \<longleftrightarrow> mem_retrieve kv k \<noteq> None \<and> (\<exists>r \<in> set revs. k \<in> needed lb kv r))"
proof -
  have ok: "\<not> isl (load_manifest lb kv mr)" and kv': "mem_retrieve kv' = mem_retrieve kv |` (\<Union>r \<in> set revs. needed lb kv r)" using gc_Inr [OF gc] mr by auto
  obtain m where m: "load_manifest lb kv mr = Inr m" using ok by (cases "load_manifest lb kv mr") auto
  have same: "mem_retrieve kv k = mem_retrieve kv' k" if "k \<in> needed lb kv mr" for k using that mr by (auto simp: kv' restrict_map_def)
  have "load lb kv mr p = load lb kv' mr p"
  proof (rule load_cong)
    show "mem_retrieve kv (manifest_key (wg_digest lb) (wg_nfc lb) mr) = mem_retrieve kv' (manifest_key (wg_digest lb) (wg_nfc lb) mr)"
      by (rule same) (simp add: needed_def m)
    show "mem_retrieve kv k = mem_retrieve kv' k" if "load_manifest lb kv mr = Inr m'" "variant_of m' n q = Some v" "k \<in> set (va_keys v)" for m' n q v k
      by (rule same) (use that m in \<open>auto simp: needed_def named_keys_def\<close>)
  qed
  then show ?thesis by (auto simp: kv' restrict_map_def split: if_splits)
qed

text \<open>C25. Fail-safe: a collection is refused exactly when the manifest of some live revision is missing or cannot be read, and then, as in
  a dry run, the catalog is untouched; a dry run reports the keys that a real run deletes.\<close>

theorem gc_fail_safe:
  "(isl (snd (gc lb kv revs dry)) \<longleftrightarrow> (\<exists>r \<in> set revs. isl (load_manifest lb kv r)))
   \<and> (isl (snd (gc lb kv revs dry)) \<or> dry \<longrightarrow> mem_retrieve (fst (gc lb kv revs dry)) = mem_retrieve kv)
   \<and> (\<not> isl (snd (gc lb kv revs True)) \<longrightarrow> (\<forall>k. mem_retrieve kv k \<noteq> None \<longrightarrow>
        k \<in> set (gs_swept_keys (projr (snd (gc lb kv revs True)))) \<longleftrightarrow> mem_retrieve (fst (gc lb kv revs False)) k = None))"
proof -
  have s: "isl (snd (gc lb kv revs d)) \<longleftrightarrow> (\<exists>r \<in> set revs. isl (load_manifest lb kv r))" for d
    using mark_spec [where lb = lb and kv = kv and revs = revs] by (cases "mark lb kv revs") (auto simp: gc_def split: prod.splits)
  have r: "isl (snd (gc lb kv revs d)) \<Longrightarrow> fst (gc lb kv revs d) = kv" for d
    by (auto simp: gc_def split: sum.splits prod.splits)
  have i: "gc lb kv revs d = (fst (gc lb kv revs d), Inr (projr (snd (gc lb kv revs d))))" if "\<not> isl (snd (gc lb kv revs d))" for d
    using that by (cases "gc lb kv revs d") (auto simp: not_isl)
  have dry: "mem_retrieve (fst (gc lb kv revs True)) = mem_retrieve kv" if "\<not> isl (snd (gc lb kv revs True))" using gc_Inr [OF i [OF that]] by simp
  have kept: "mem_retrieve (fst (gc lb kv revs dry)) = mem_retrieve kv" if "isl (snd (gc lb kv revs dry)) \<or> dry"
    using that r [of dry] dry by (cases "isl (snd (gc lb kv revs dry))") simp_all
  have "k \<in> set (gs_swept_keys (projr (snd (gc lb kv revs True)))) \<longleftrightarrow> mem_retrieve (fst (gc lb kv revs False)) k = None"
    if d: "\<not> isl (snd (gc lb kv revs True))" and k: "mem_retrieve kv k \<noteq> None" for k
  proof -
    have "\<not> isl (snd (gc lb kv revs False))" using d s by blast
    then have "mem_retrieve (fst (gc lb kv revs False)) = mem_retrieve kv |` (\<Union>r \<in> set revs. needed lb kv r)" using gc_Inr [OF i] by simp
    moreover have "k \<in> set (mem_iter_keys kv)" 
    proof (rule ccontr)
      assume "k \<notin> set (mem_iter_keys kv)"
      then show False using k not_listed by simp
    qed
    moreover have "gs_swept_keys (projr (snd (gc lb kv revs True))) = filter (\<lambda>k. k \<notin> (\<Union>r \<in> set revs. needed lb kv r)) (mem_iter_keys kv)" using gc_Inr [OF i [OF d]] by simp
    ultimately show ?thesis using k by (auto simp: restrict_map_def)
  qed
  then show ?thesis using s [of dry] kept by simp
qed

theorem gc_fail_safe_witness:
  "isl (snd (gc demo_lib demo_kv [[109]] False)) \<and> mem_retrieve (fst (gc demo_lib demo_kv [[109]] False)) = mem_retrieve demo_kv"
proof -
  have "load_manifest demo_lib demo_kv [109] = Inl W_no_manifest" by (simp add: load_manifest_def demo_key demo_kv_def mem_retrieve_def chunk_key_def)
  then show ?thesis using gc_fail_safe [of demo_lib demo_kv "[[109]]" False] by simp
qed

theorem gc_keeps_live_witness:
  "\<exists>kv' out. mem_retrieve kv' [1, 7] = None \<and> load demo_lib kv' [109] [97] = Inr out \<and> map_of out [119] = Some [1, 2, 3, 4, 5]"
proof -
  let ?kv = "mem_store [1, 7] [7] (demo_stored (to_ipc demo_lib demo_row))"
  have lm: "load_manifest demo_lib ?kv [109] = Inr demo_row" using demo_read_base
    by (auto simp: read_base_def load_manifest_def bindE_Inr mem_store_get demo_key split: option.splits)
  then have "\<not> isl (snd (gc demo_lib ?kv [[109]] False))"
    using mark_spec [where lb = demo_lib and kv = ?kv and revs = "[[109]]"] by (auto simp: gc_def split: sum.splits prod.splits)
  then obtain kv' st where g: "gc demo_lib ?kv [[109]] False = (kv', Inr st)" by (cases "gc demo_lib ?kv [[109]] False") (auto dest: not_isl)
  have "reassemble demo_lib (mem_store [1, 7] [7] (demo_stored x)) demo_row [97] = Inr [([119], [1, 2, 3, 4, 5])]" for x by code_simp
  then have l: "load demo_lib ?kv [109] [97] = Inr [([119], [1, 2, 3, 4, 5])]" by (simp add: load_def lm)
  have "[1, 7] \<notin> needed demo_lib ?kv [109]" 
    by (simp add: needed_def lm demo_key) (auto simp: named_keys_def variant_of_def demo_row_def bind_eq_Some_conv split: if_splits)
  then show ?thesis using gc_keeps_live [OF g, of "[109]" "[97]" "[1, 7]"] l by (intro exI [of _ kv']) auto
qed


end
