(* ===== verification/VfuOpen.thy ===== *)
theory VfuOpen
  imports ClientPath
begin

text \<open>
  The bring-up of the vfio-user driver (\<^verbatim>\<open>clients/nvme-kv/kv/vfu_host/nkv_vfu.h\<close>) and the session that
  owns it (\<^verbatim>\<open>clients/rkv/csrc/nkvx_shim.c\<close>): attaching, enabling the controller with an admin queue,
  creating the I/O queue, and releasing all of it.

  The controller behind the socket, the DMA allocator and the clock are a parameter \<open>bus\<close>. A register
  is named, not addressed; \<open>bu_polls\<close> is how often the clock is still before a deadline that lies the
  given number of microseconds ahead. \<open>open_state\<close> counts what is held: the DMA blocks by their
  address, and the attachment.
\<close>

section \<open>The bus\<close>

datatype bar_reg = Cfg_command | Reg_cap | Reg_cc | Reg_csts | Reg_aqa | Reg_asq | Reg_acq

record 'b bus =
  bu_access :: "'b \<Rightarrow> bool"
  bu_setup :: "'b \<Rightarrow> bool \<times> 'b"
  bu_bar :: "'b \<Rightarrow> bool"
  bu_get :: "bar_reg \<Rightarrow> 'b \<Rightarrow> nat option \<times> 'b"
  bu_set :: "bar_reg \<Rightarrow> nat \<Rightarrow> 'b \<Rightarrow> bool \<times> 'b"
  bu_alloc :: "nat \<Rightarrow> 'b \<Rightarrow> nat option \<times> 'b"
  bu_admin :: "sqe \<Rightarrow> 'b \<Rightarrow> cpl list \<times> 'b"
  bu_polls :: "nat \<Rightarrow> nat"

record 'b open_state =
  os_bus :: 'b
  os_dma :: "nat list"
  os_attached :: bool

type_synonym ('b, 'x) driver = "'b open_state \<Rightarrow> (int + 'x) \<times> 'b open_state"

definition bindS :: "('b, 'x) driver \<Rightarrow> ('x \<Rightarrow> ('b, 'y) driver) \<Rightarrow> ('b, 'y) driver" where
  "bindS m f st = (case m st of (Inl e, st') \<Rightarrow> (Inl e, st') | (Inr x, st') \<Rightarrow> f x st')"

definition nvfu_reg_get :: "'b bus \<Rightarrow> bar_reg \<Rightarrow> ('b, nat) driver" where
  "nvfu_reg_get bus r st =
    (case bu_get bus r (os_bus st) of
       (None, b) \<Rightarrow> (Inl e_eio, st\<lparr>os_bus := b\<rparr>)
     | (Some v, b) \<Rightarrow> (Inr v, st\<lparr>os_bus := b\<rparr>))"

definition nvfu_reg_set :: "'b bus \<Rightarrow> bar_reg \<Rightarrow> nat \<Rightarrow> ('b, unit) driver" where
  "nvfu_reg_set bus r v st =
    (case bu_set bus r v (os_bus st) of (ok, b) \<Rightarrow> (if ok then Inr () else Inl e_eio, st\<lparr>os_bus := b\<rparr>))"

definition nvfu_dma_alloc :: "'b bus \<Rightarrow> nat \<Rightarrow> 'b open_state \<Rightarrow> nat option \<times> 'b open_state" where
  "nvfu_dma_alloc bus n st =
    (case bu_alloc bus n (os_bus st) of
       (None, b) \<Rightarrow> (None, st\<lparr>os_bus := b\<rparr>)
     | (Some a, b) \<Rightarrow> (Some a, st\<lparr>os_bus := b, os_dma := a # os_dma st\<rparr>))"

definition spdk_dma_free :: "nat \<Rightarrow> 'b open_state \<Rightarrow> 'b open_state" where
  "spdk_dma_free a st = st\<lparr>os_dma := remove1 a (os_dma st)\<rparr>"

section \<open>Bring-up\<close>

definition nvfu_pci_enable_dma :: "'b bus \<Rightarrow> ('b, unit) driver" where
  "nvfu_pci_enable_dma bus = bindS (nvfu_reg_get bus Cfg_command) (\<lambda>v. nvfu_reg_set bus Cfg_command (or v 1028))"

definition sqe_bytes :: nat where "sqe_bytes = 64"
definition cpl_bytes :: nat where "cpl_bytes = 16"

text \<open>The queue's memory and its bookkeeping; both rings are asked for before either is looked at.\<close>

definition nvfu_queue_alloc :: "'b bus \<Rightarrow> nvfu_dev \<Rightarrow> nat \<Rightarrow> nat \<Rightarrow> nvfu_queue \<Rightarrow> ('b, nvfu_queue) driver" where
  "nvfu_queue_alloc bus d qid depth q st =
    (case nvfu_dma_alloc bus (depth * sqe_bytes) st of
       (sq, st1) \<Rightarrow>
         (case nvfu_dma_alloc bus (depth * cpl_bytes) st1 of
            (cq, st2) \<Rightarrow>
              (case (sq, cq) of
                 (Some sa, Some ca) \<Rightarrow>
                   (Inr (nvfu_queue_init_db d (q\<lparr>nq_qid := qid, nq_depth := depth, nq_sq := replicate depth zero_sqe,
                      nq_cq := replicate depth (False, zero_cpl), nq_sq_iova := sa, nq_cq_iova := ca\<rparr>)), st2)
               | _ \<Rightarrow> (Inl e_nomem, st2))))"

definition cap_dstrd :: "nat \<Rightarrow> nat" where "cap_dstrd cap = cap div 2 ^ 32 mod 16"
definition cap_to :: "nat \<Rightarrow> nat" where "cap_to cap = cap div 2 ^ 24 mod 256"
definition csts_rdy :: "nat \<Rightarrow> bool" where "csts_rdy v = bit v 0"
definition csts_cfs :: "nat \<Rightarrow> bool" where "csts_cfs v = bit v 1"

definition cc_enable :: nat where
  "cc_enable = 1 + 6 * 2 ^ 4 + 6 * 2 ^ 16 + 4 * 2 ^ 20"

text \<open>The status is read at least once, then again while the clock is before the deadline.\<close>

primrec wait_ready :: "'b bus \<Rightarrow> nat \<Rightarrow> ('b, unit) driver" where
  "wait_ready bus 0 = (\<lambda>st. bindS (nvfu_reg_get bus Reg_csts)
    (\<lambda>v st. (if csts_cfs v then Inl e_eio else if csts_rdy v then Inr () else Inl e_timedout, st)) st)"
| "wait_ready bus (Suc n) = (\<lambda>st. bindS (nvfu_reg_get bus Reg_csts)
    (\<lambda>v st. if csts_cfs v then (Inl e_eio, st) else if csts_rdy v then (Inr (), st) else wait_ready bus n st) st)"

definition nvfu_controller_enable :: "'b bus \<Rightarrow> nvfu_dev \<Rightarrow> ('b, nvfu_dev) driver" where
  "nvfu_controller_enable bus d =
    bindS (nvfu_reg_get bus Reg_cap) (\<lambda>cap.
      let d1 = d\<lparr>nd_db_stride := 2 ^ cap_dstrd cap\<rparr> in
      bindS (nvfu_queue_alloc bus d1 0 admin_q_entries (nd_admin d1)) (\<lambda>q.
      bindS (nvfu_reg_set bus Reg_aqa ((nq_depth q - 1) + (nq_depth q - 1) * 2 ^ 16)) (\<lambda>_.
      bindS (nvfu_reg_set bus Reg_asq (nq_sq_iova q)) (\<lambda>_.
      bindS (nvfu_reg_set bus Reg_acq (nq_cq_iova q)) (\<lambda>_.
      bindS (nvfu_reg_set bus Reg_cc cc_enable) (\<lambda>_.
      bindS (wait_ready bus (bu_polls bus (cap_to cap * 500 * 1000))) (\<lambda>_ st.
        (Inr (d1\<lparr>nd_admin := q\<rparr>), st))))))))"

text \<open>A command on the admin queue; the controller's answers come before the deadline or not.\<close>

definition admin_cmd :: "'b bus \<Rightarrow> sqe \<Rightarrow> nvfu_dev \<times> ctrl \<Rightarrow> 'b open_state \<Rightarrow> (int + cpl) \<times> (nvfu_dev \<times> ctrl) \<times> 'b open_state" where
  "admin_cmd bus cmd dc st =
    (case dc of (d, c) \<Rightarrow>
      let q = nd_admin d in
      case bu_admin bus (cmd\<lparr>se_cid := nq_cid q\<rparr>) (os_bus st) of (posts, b) \<Rightarrow>
        (case nvfu_submit_poll posts d q c cmd of
           (r, d', q', c') \<Rightarrow> (r, (d'\<lparr>nd_admin := q'\<rparr>, c'), st\<lparr>os_bus := b\<rparr>)))"

definition cpl_status_ok :: "int + cpl \<Rightarrow> bool" where
  "cpl_status_ok r = (case r of Inl _ \<Rightarrow> False | Inr e \<Rightarrow> status_ok (cp_status e))"

definition nvfu_identify_controller :: "'b bus \<Rightarrow> nvfu_dev \<times> ctrl \<Rightarrow> ('b, nvfu_dev \<times> ctrl) driver" where
  "nvfu_identify_controller bus dc st =
    (case nvfu_dma_alloc bus 4096 st of
       (None, st1) \<Rightarrow> (Inl e_nomem, st1)
     | (Some iova, st1) \<Rightarrow>
         (case admin_cmd bus (zero_sqe\<lparr>se_opc := Hop_identify, se_prp1 := iova, se_cdw10 := 1\<rparr>) dc st1 of
            (r, dc', st2) \<Rightarrow> (if cpl_status_ok r then Inr dc' else Inl e_eio, spdk_dma_free iova st2)))"

definition io_qid :: nat where "io_qid = 1"

definition create_io_cq_cmd :: "nvfu_queue \<Rightarrow> sqe" where
  "create_io_cq_cmd q = zero_sqe\<lparr>se_opc := Hop_create_io_cq, se_prp1 := nq_cq_iova q,
     se_cdw10 := (nq_depth q - 1) * 2 ^ 16 + nq_qid q, se_cdw11 := 1\<rparr>"

definition create_io_sq_cmd :: "nvfu_queue \<Rightarrow> sqe" where
  "create_io_sq_cmd q = zero_sqe\<lparr>se_opc := Hop_create_io_sq, se_prp1 := nq_sq_iova q,
     se_cdw10 := (nq_depth q - 1) * 2 ^ 16 + nq_qid q, se_cdw11 := nq_qid q * 2 ^ 16 + 1\<rparr>"

definition nvfu_create_io_queue :: "'b bus \<Rightarrow> nvfu_dev \<times> ctrl \<Rightarrow> ('b, nvfu_dev \<times> ctrl) driver" where
  "nvfu_create_io_queue bus dc =
    bindS (nvfu_queue_alloc bus (fst dc) io_qid io_q_entries (nd_io (fst dc))) (\<lambda>q st.
      case admin_cmd bus (create_io_cq_cmd q) ((fst dc)\<lparr>nd_io := q\<rparr>, snd dc) st of
        (r, dc1, st1) \<Rightarrow>
          if \<not> cpl_status_ok r then (Inl e_eio, st1)
          else case admin_cmd bus (create_io_sq_cmd q) dc1 st1 of
            (r', dc2, st2) \<Rightarrow> (if cpl_status_ok r' then Inr dc2 else Inl e_eio, st2))"

definition e_noent :: int where "e_noent = - 2"

definition nvfu_open :: "'b bus \<Rightarrow> nvfu_dev \<Rightarrow> ('b, nvfu_dev) driver" where
  "nvfu_open bus d st =
    (if \<not> bu_access bus (os_bus st) then (Inl e_noent, st)
     else case bu_setup bus (os_bus st) of
       (False, b) \<Rightarrow> (Inl e_eio, st\<lparr>os_bus := b\<rparr>)
     | (True, b) \<Rightarrow>
         let st1 = st\<lparr>os_bus := b, os_attached := True\<rparr> in
         if \<not> bu_bar bus b then (Inl e_eio, st1)
         else case bindS (nvfu_pci_enable_dma bus) (\<lambda>_. nvfu_controller_enable bus d) st1 of
           (Inl e, st2) \<Rightarrow> (Inl e_eio, st2)
         | (Inr d1, st2) \<Rightarrow>
             (case bindS (nvfu_identify_controller bus (d1, fresh_ctrl)) (nvfu_create_io_queue bus) st2 of
                (Inl e, st3) \<Rightarrow> (Inl e_eio, st3)
              | (Inr (d2, c), st3) \<Rightarrow> (Inr d2, st3)))"

definition nvfu_close :: "nvfu_dev \<Rightarrow> 'b open_state \<Rightarrow> 'b open_state" where
  "nvfu_close d st =
    (let st1 = spdk_dma_free (nq_sq_iova (nd_admin d)) st;
         st2 = spdk_dma_free (nq_cq_iova (nd_admin d)) st1;
         st3 = spdk_dma_free (nq_sq_iova (nd_io d)) st2;
         st4 = spdk_dma_free (nq_cq_iova (nd_io d)) st3 in
     st4\<lparr>os_attached := False\<rparr>)"

section \<open>The session\<close>

definition zero_queue :: nvfu_queue where
  "zero_queue = \<lparr>nq_sq = [], nq_cq = [], nq_sq_iova = 0, nq_cq_iova = 0, nq_qid = 0, nq_depth = 0, nq_sq_tail = 0,
     nq_cq_head = 0, nq_cq_phase = False, nq_cid = 0, nq_sq_db = 0, nq_cq_db = 0\<rparr>"

definition zero_dev :: nvfu_dev where
  "zero_dev = \<lparr>nd_doorbells = (\<lambda>_. 0), nd_db_stride = 0, nd_admin = zero_queue, nd_io = zero_queue\<rparr>"

text \<open>The environment is initialised once in a process; \<open>init_ok\<close> is what the call would return.\<close>

definition nkvx_env_init_once :: "bool \<Rightarrow> bool \<Rightarrow> bool \<times> bool" where
  "nkvx_env_init_once init_ok g = (if g then (True, g) else if init_ok then (True, True) else (False, g))"

lemma env_init_ok: "nkvx_env_init_once True g = (True, True)"
  by (simp add: nkvx_env_init_once_def)

definition nkvx_open :: "'b bus \<Rightarrow> bool \<Rightarrow> bool \<Rightarrow> bool \<times> 'b open_state \<Rightarrow> host option \<times> bool \<times> 'b open_state" where
  "nkvx_open bus init_ok room gst =
    (case nkvx_env_init_once init_ok (fst gst) of
       (False, g) \<Rightarrow> (None, g, snd gst)
     | (True, g) \<Rightarrow>
         if \<not> room then (None, g, snd gst)
         else case nvfu_open bus zero_dev (snd gst) of
           (Inl e, st') \<Rightarrow> (None, g, st')
         | (Inr d, st') \<Rightarrow> (Some \<lparr>hs_dev = d, hs_ctrl = fresh_ctrl\<rparr>, g, st'))"

definition nkvx_close :: "host option \<Rightarrow> 'b open_state \<Rightarrow> 'b open_state" where
  "nkvx_close s st = (case s of None \<Rightarrow> st | Some h \<Rightarrow> nvfu_close (hs_dev h) st)"

section \<open>A responsive controller\<close>

text \<open>The value of the status register at the \<open>k\<close>-th read from a state of the bus.\<close>

primrec nth_status :: "'b bus \<Rightarrow> nat \<Rightarrow> 'b \<Rightarrow> nat option" where
  "nth_status bus 0 b = fst (bu_get bus Reg_csts b)"
| "nth_status bus (Suc k) b = nth_status bus k (snd (bu_get bus Reg_csts b))"

text \<open>
  What the specification asks of a controller that works, and of an allocator with memory: registers can
  be read and written, the status becomes ready before the deadline without a fatal status, and each
  admin command is answered by one completion that reports success.
\<close>

definition responsive :: "'b bus \<Rightarrow> bool" where
  "responsive bus =
    ((\<forall>b. bu_access bus b \<and> bu_bar bus b \<and> fst (bu_setup bus b))
     \<and> (\<forall>r b. \<exists>v b'. bu_get bus r b = (Some v, b'))
     \<and> (\<forall>r v b. fst (bu_set bus r v b))
     \<and> (\<forall>n b. \<exists>a b'. bu_alloc bus n b = (Some a, b'))
     \<and> (\<forall>us b. \<exists>k \<le> bu_polls bus us. (\<forall>j \<le> k. \<exists>v. nth_status bus j b = Some v \<and> \<not> csts_cfs v) \<and> (\<exists>v. nth_status bus k b = Some v \<and> csts_rdy v))
     \<and> (\<forall>cmd b. \<exists>e b'. bu_admin bus cmd b = ([e], b') \<and> status_ok (cp_status e)))"

lemma resp_get:
  assumes "responsive bus"
  obtains v b where "nvfu_reg_get bus r st = (Inr v, st\<lparr>os_bus := b\<rparr>)"
proof -
  have "\<forall>r b. \<exists>v b'. bu_get bus r b = (Some v, b')" using assms unfolding responsive_def by (elim conjE)
  then obtain v b where "bu_get bus r (os_bus st) = (Some v, b)" by blast
  then show thesis using that by (simp add: nvfu_reg_get_def)
qed

lemma resp_set:
  assumes "responsive bus"
  obtains b where "nvfu_reg_set bus r v st = (Inr (), st\<lparr>os_bus := b\<rparr>)"
proof -
  have "\<forall>r v b. fst (bu_set bus r v b)" using assms unfolding responsive_def by (elim conjE)
  then obtain b where "bu_set bus r v (os_bus st) = (True, b)" by (metis prod.collapse)
  then show thesis using that [of b] by (simp add: nvfu_reg_set_def)
qed

lemma resp_alloc:
  assumes "responsive bus"
  obtains a b where "nvfu_dma_alloc bus n st = (Some a, st\<lparr>os_bus := b, os_dma := a # os_dma st\<rparr>)"
proof -
  have "\<forall>n b. \<exists>a b'. bu_alloc bus n b = (Some a, b')" using assms unfolding responsive_def by (elim conjE)
  then obtain a b where "bu_alloc bus n (os_bus st) = (Some a, b)" by blast
  then show thesis using that by (simp add: nvfu_dma_alloc_def)
qed

lemma wait_ready_up:
  assumes "k \<le> n" "\<And>j. j \<le> k \<Longrightarrow> \<exists>v. nth_status bus j (os_bus st) = Some v \<and> \<not> csts_cfs v"
    and "\<exists>v. nth_status bus k (os_bus st) = Some v \<and> csts_rdy v"
  shows "\<exists>b. wait_ready bus n st = (Inr (), st\<lparr>os_bus := b\<rparr>)"
  using assms
proof (induction n arbitrary: k st)
  case 0
  then show ?case by (cases "bu_get bus Reg_csts (os_bus st)") (auto simp: nvfu_reg_get_def bindS_def)
next
  case (Suc n)
  obtain v b where g: "bu_get bus Reg_csts (os_bus st) = (Some v, b)" "\<not> csts_cfs v"
    using Suc.prems(2) [of 0] by (cases "bu_get bus Reg_csts (os_bus st)") auto
  show ?case
  proof (cases "csts_rdy v")
    case True
    then show ?thesis using g by (simp add: nvfu_reg_get_def bindS_def) blast
  next
    case False
    then obtain k' where k: "k = Suc k'" using Suc.prems(3) g by (cases k) auto
    have "\<exists>b'. wait_ready bus n (st\<lparr>os_bus := b\<rparr>) = (Inr (), st\<lparr>os_bus := b, os_bus := b'\<rparr>)"
      using Suc.IH [of k' "st\<lparr>os_bus := b\<rparr>"] Suc.prems k g(1) by force
    then show ?thesis using False g by (simp add: nvfu_reg_get_def bindS_def)
  qed
qed

lemma resp_wait:
  assumes "responsive bus"
  obtains b where "wait_ready bus (bu_polls bus us) st = (Inr (), st\<lparr>os_bus := b\<rparr>)"
proof -
  have "\<forall>us b. \<exists>k \<le> bu_polls bus us. (\<forall>j \<le> k. \<exists>v. nth_status bus j b = Some v \<and> \<not> csts_cfs v) \<and> (\<exists>v. nth_status bus k b = Some v \<and> csts_rdy v)"
    using assms unfolding responsive_def by (elim conjE)
  then obtain k where "k \<le> bu_polls bus us" "\<forall>j \<le> k. \<exists>v. nth_status bus j (os_bus st) = Some v \<and> \<not> csts_cfs v"
    "\<exists>v. nth_status bus k (os_bus st) = Some v \<and> csts_rdy v" by blast
  then show thesis using that wait_ready_up [of k "bu_polls bus us" bus st] by blast
qed

definition new_queue :: "nvfu_dev \<Rightarrow> nat \<Rightarrow> nat \<Rightarrow> nvfu_queue \<Rightarrow> nat \<Rightarrow> nat \<Rightarrow> nvfu_queue" where
  "new_queue d qid depth q sa ca = nvfu_queue_init_db d (q\<lparr>nq_qid := qid, nq_depth := depth, nq_sq := replicate depth zero_sqe,
     nq_cq := replicate depth (False, zero_cpl), nq_sq_iova := sa, nq_cq_iova := ca\<rparr>)"

lemma new_queue_fields [simp]:
  "nq_sq_iova (new_queue d qid depth q sa ca) = sa" "nq_cq_iova (new_queue d qid depth q sa ca) = ca"
  "nq_depth (new_queue d qid depth q sa ca) = depth" "nq_qid (new_queue d qid depth q sa ca) = qid"
  by (simp_all add: new_queue_def nvfu_queue_init_db_def)

lemma new_queue_ok:
  assumes "2 \<le> depth"
  shows "cq_ok (new_queue d qid depth q sa ca, fresh_ctrl)" "unread (new_queue d qid depth q sa ca, fresh_ctrl) = []"
  using assms by (simp_all add: new_queue_def nvfu_queue_init_db_def cq_ok_def unread_def fresh_ctrl_def)

lemma resp_queue:
  assumes "responsive bus"
  obtains sa ca b where "nvfu_queue_alloc bus d qid depth q st = (Inr (new_queue d qid depth q sa ca), st\<lparr>os_bus := b, os_dma := ca # sa # os_dma st\<rparr>)"
proof -
  obtain sa b where 1: "nvfu_dma_alloc bus (depth * sqe_bytes) st = (Some sa, st\<lparr>os_bus := b, os_dma := sa # os_dma st\<rparr>)"
    by (rule resp_alloc [OF assms])
  obtain ca b' where 2: "nvfu_dma_alloc bus (depth * cpl_bytes) (st\<lparr>os_bus := b, os_dma := sa # os_dma st\<rparr>)
      = (Some ca, st\<lparr>os_bus := b, os_dma := sa # os_dma st\<rparr>\<lparr>os_bus := b', os_dma := ca # os_dma (st\<lparr>os_bus := b, os_dma := sa # os_dma st\<rparr>)\<rparr>)"
    by (rule resp_alloc [OF assms])
  show thesis using that 1 2 by (simp add: nvfu_queue_alloc_def new_queue_def)
qed

text \<open>A command leaves the rest of the driver and the rings' addresses alone.\<close>

lemma posts_frame:
  "fold cq_post es (q, c) = (q', c') \<Longrightarrow> nq_sq_iova q' = nq_sq_iova q \<and> nq_cq_iova q' = nq_cq_iova q"
  by (induction es arbitrary: q c) (auto simp: cq_post_def Let_def)

lemma submit_poll_frame:
  assumes "nvfu_submit_poll posts d q c cmd = (r, d', q', c')"
  shows "nd_io d' = nd_io d \<and> nq_sq_iova q' = nq_sq_iova q \<and> nq_cq_iova q' = nq_cq_iova q"
proof -
  obtain q2 c2 where m: "fold cq_post posts (submitted q cmd, c) = (q2, c2)" by fastforce
  have "nq_sq_iova q2 = nq_sq_iova q \<and> nq_cq_iova q2 = nq_cq_iova q" using posts_frame [OF m] by (simp add: submitted_def)
  then show ?thesis using assms m
    by (auto simp: nvfu_submit_poll_def nvfu_produce_def submitted_def cq_take_def Let_def split: option.splits if_splits)
qed

definition admin_in_step :: "nvfu_dev \<times> ctrl \<Rightarrow> bool" where
  "admin_in_step dc = (cq_ok (nd_admin (fst dc), snd dc) \<and> unread (nd_admin (fst dc), snd dc) = [])"

lemma resp_admin:
  assumes "responsive bus" "admin_in_step (d, c)"
  obtains e d' c' b where "admin_cmd bus cmd (d, c) st = (Inr e, (d', c'), st\<lparr>os_bus := b\<rparr>)" "status_ok (cp_status e)" "admin_in_step (d', c')"
    "nd_io d' = nd_io d" "nq_sq_iova (nd_admin d') = nq_sq_iova (nd_admin d)" "nq_cq_iova (nd_admin d') = nq_cq_iova (nd_admin d)"
proof -
  let ?q = "nd_admin d"
  have "\<forall>cmd b. \<exists>e b'. bu_admin bus cmd b = ([e], b') \<and> status_ok (cp_status e)" using assms(1) unfolding responsive_def by (elim conjE)
  then obtain e b where e: "bu_admin bus (cmd\<lparr>se_cid := nq_cid ?q\<rparr>) (os_bus st) = ([e], b)" "status_ok (cp_status e)" by blast
  obtain r d' q' c' where sp: "nvfu_submit_poll [e] d ?q c cmd = (r, d', q', c')" by (metis prod_cases4)
  have ok: "cq_ok (?q, c)" "unread (?q, c) = []" using assms(2) by (auto simp: admin_in_step_def)
  have "posts_fit [e] (submitted ?q cmd, c)" using idle_not_full [OF submitted_ok(1) [OF ok(1)]] ok(2) by (simp add: submitted_ok(2))
  from submit_poll_cases [OF ok(1) this sp] ok(2) have "cq_ok (q', c')" "r = Inr e" "unread (q', c') = []" by simp_all
  then show thesis using that [of e "d'\<lparr>nd_admin := q'\<rparr>" c' b] e sp submit_poll_frame [OF sp]
    by (simp add: admin_cmd_def admin_in_step_def)
qed

lemma resp_enable:
  assumes "responsive bus"
  obtains d' sa ca b where "nvfu_controller_enable bus d st = (Inr d', st\<lparr>os_bus := b, os_dma := ca # sa # os_dma st\<rparr>)"
    "admin_in_step (d', fresh_ctrl)" "nq_sq_iova (nd_admin d') = sa" "nq_cq_iova (nd_admin d') = ca" "nd_io d' = nd_io d"
proof -
  note r = assms
  obtain cap b0 where 0: "nvfu_reg_get bus Reg_cap st = (Inr cap, st\<lparr>os_bus := b0\<rparr>)" by (rule resp_get [OF r])
  let ?d = "d\<lparr>nd_db_stride := 2 ^ cap_dstrd cap\<rparr>" and ?s0 = "st\<lparr>os_bus := b0\<rparr>"
  obtain sa ca b1 where 1: "nvfu_queue_alloc bus ?d 0 admin_q_entries (nd_admin ?d) ?s0 =
      (Inr (new_queue ?d 0 admin_q_entries (nd_admin ?d) sa ca), ?s0\<lparr>os_bus := b1, os_dma := ca # sa # os_dma ?s0\<rparr>)"
    by (rule resp_queue [OF r])
  let ?q = "new_queue ?d 0 admin_q_entries (nd_admin ?d) sa ca" and ?s = "\<lambda>b. ?s0\<lparr>os_bus := b, os_dma := ca # sa # os_dma ?s0\<rparr>"
  have set: "\<exists>b'. nvfu_reg_set bus reg v (?s b) = (Inr (), ?s b')" for reg v b
  proof -
    obtain b' where "nvfu_reg_set bus reg v (?s b) = (Inr (), ?s b\<lparr>os_bus := b'\<rparr>)" by (rule resp_set [OF r])
    moreover have "?s b\<lparr>os_bus := b'\<rparr> = ?s b'" by simp
    ultimately show ?thesis by metis
  qed
  obtain b2 where 2: "nvfu_reg_set bus Reg_aqa ((nq_depth ?q - 1) + (nq_depth ?q - 1) * 2 ^ 16) (?s b1) = (Inr (), ?s b2)" using set by blast
  obtain b3 where 3: "nvfu_reg_set bus Reg_asq (nq_sq_iova ?q) (?s b2) = (Inr (), ?s b3)" using set by blast
  obtain b4 where 4: "nvfu_reg_set bus Reg_acq (nq_cq_iova ?q) (?s b3) = (Inr (), ?s b4)" using set by blast
  obtain b5 where 5: "nvfu_reg_set bus Reg_cc cc_enable (?s b4) = (Inr (), ?s b5)" using set by blast
  obtain b6 where 6: "wait_ready bus (bu_polls bus (cap_to cap * 500 * 1000)) (?s b5) = (Inr (), ?s b5\<lparr>os_bus := b6\<rparr>)" by (rule resp_wait [OF r])
  have "nvfu_controller_enable bus d st = (Inr (?d\<lparr>nd_admin := ?q\<rparr>), ?s b5\<lparr>os_bus := b6\<rparr>)"
    by (simp only: nvfu_controller_enable_def bindS_def 0 1 2 3 4 5 6 Let_def prod.case sum.case)
  then show thesis using that [of "?d\<lparr>nd_admin := ?q\<rparr>" ca sa b6] new_queue_ok [of admin_q_entries]
    by (simp add: admin_in_step_def admin_q_entries_def)
qed

lemma resp_identify:
  assumes "responsive bus" "admin_in_step (d, c)"
  obtains d' c' b where "nvfu_identify_controller bus (d, c) st = (Inr (d', c'), st\<lparr>os_bus := b\<rparr>)" "admin_in_step (d', c')"
    "nd_io d' = nd_io d" "nq_sq_iova (nd_admin d') = nq_sq_iova (nd_admin d)" "nq_cq_iova (nd_admin d') = nq_cq_iova (nd_admin d)"
proof -
  obtain a b where 1: "nvfu_dma_alloc bus 4096 st = (Some a, st\<lparr>os_bus := b, os_dma := a # os_dma st\<rparr>)" by (rule resp_alloc [OF assms(1)])
  let ?cmd = "zero_sqe\<lparr>se_opc := Hop_identify, se_prp1 := a, se_cdw10 := 1\<rparr>" and ?s = "st\<lparr>os_bus := b, os_dma := a # os_dma st\<rparr>"
  obtain e d' c' b' where 2: "admin_cmd bus ?cmd (d, c) ?s = (Inr e, (d', c'), ?s\<lparr>os_bus := b'\<rparr>)"
      "status_ok (cp_status e)" "admin_in_step (d', c')" "nd_io d' = nd_io d"
      "nq_sq_iova (nd_admin d') = nq_sq_iova (nd_admin d)" "nq_cq_iova (nd_admin d') = nq_cq_iova (nd_admin d)"
    by (rule resp_admin [OF assms])
  show thesis using that [of d' c' b'] 1 2 by (simp add: nvfu_identify_controller_def cpl_status_ok_def spdk_dma_free_def)
qed

lemma resp_create_io:
  assumes "responsive bus" "admin_in_step (d, c)"
  obtains d' c' sa ca b where "nvfu_create_io_queue bus (d, c) st = (Inr (d', c'), st\<lparr>os_bus := b, os_dma := ca # sa # os_dma st\<rparr>)"
    "admin_in_step (d', c')" "nd_io d' = new_queue d io_qid io_q_entries (nd_io d) sa ca"
    "nq_sq_iova (nd_admin d') = nq_sq_iova (nd_admin d)" "nq_cq_iova (nd_admin d') = nq_cq_iova (nd_admin d)"
proof -
  obtain sa ca b where 1: "nvfu_queue_alloc bus d io_qid io_q_entries (nd_io d) st =
      (Inr (new_queue d io_qid io_q_entries (nd_io d) sa ca), st\<lparr>os_bus := b, os_dma := ca # sa # os_dma st\<rparr>)"
    by (rule resp_queue [OF assms(1)])
  let ?q = "new_queue d io_qid io_q_entries (nd_io d) sa ca" and ?s = "st\<lparr>os_bus := b, os_dma := ca # sa # os_dma st\<rparr>"
  have "admin_in_step (d\<lparr>nd_io := ?q\<rparr>, c)" using assms(2) by (simp add: admin_in_step_def)
  then obtain e d1 c1 b1 where 2: "admin_cmd bus (create_io_cq_cmd ?q) (d\<lparr>nd_io := ?q\<rparr>, c) ?s = (Inr e, (d1, c1), ?s\<lparr>os_bus := b1\<rparr>)"
      "status_ok (cp_status e)" "admin_in_step (d1, c1)" "nd_io d1 = nd_io (d\<lparr>nd_io := ?q\<rparr>)"
      "nq_sq_iova (nd_admin d1) = nq_sq_iova (nd_admin (d\<lparr>nd_io := ?q\<rparr>))" "nq_cq_iova (nd_admin d1) = nq_cq_iova (nd_admin (d\<lparr>nd_io := ?q\<rparr>))"
    by (rule resp_admin [OF assms(1)])
  obtain e' d2 c2 b2 where 3: "admin_cmd bus (create_io_sq_cmd ?q) (d1, c1) (?s\<lparr>os_bus := b1\<rparr>) = (Inr e', (d2, c2), ?s\<lparr>os_bus := b1\<rparr>\<lparr>os_bus := b2\<rparr>)"
      "status_ok (cp_status e')" "admin_in_step (d2, c2)" "nd_io d2 = nd_io d1"
      "nq_sq_iova (nd_admin d2) = nq_sq_iova (nd_admin d1)" "nq_cq_iova (nd_admin d2) = nq_cq_iova (nd_admin d1)"
    by (rule resp_admin [OF assms(1) 2(3)])
  have "nvfu_create_io_queue bus (d, c) st = (Inr (d2, c2), ?s\<lparr>os_bus := b1\<rparr>\<lparr>os_bus := b2\<rparr>)"
    using 1 2 3 by (simp add: nvfu_create_io_queue_def bindS_def cpl_status_ok_def)
  then show thesis using that [of d2 c2 ca sa b2] 2 3 by simp
qed

text \<open>A session on a responsive controller: ready, and owning exactly the four rings.\<close>

lemma open_ready:
  assumes "responsive bus"
  obtains h b a where "nkvx_open bus True True (g, st) = (Some h, True, st\<lparr>os_bus := b, os_attached := True, os_dma := a @ os_dma st\<rparr>)"
    "host_ok h" "nq_qid (nd_io (hs_dev h)) = io_qid" "nq_depth (nd_io (hs_dev h)) = io_q_entries"
    "a = [nq_cq_iova (nd_io (hs_dev h)), nq_sq_iova (nd_io (hs_dev h)), nq_cq_iova (nd_admin (hs_dev h)), nq_sq_iova (nd_admin (hs_dev h))]"
proof -
  note r = assms
  have "\<forall>b. bu_access bus b \<and> bu_bar bus b \<and> fst (bu_setup bus b)" using r unfolding responsive_def by (elim conjE)
  then obtain b0 where 0: "bu_access bus (os_bus st)" "bu_setup bus (os_bus st) = (True, b0)" "bu_bar bus b0" by (metis prod.collapse)
  let ?s0 = "st\<lparr>os_bus := b0, os_attached := True\<rparr>"
  obtain v b1 where 1: "nvfu_reg_get bus Cfg_command ?s0 = (Inr v, ?s0\<lparr>os_bus := b1\<rparr>)" by (rule resp_get [OF r])
  obtain b2 where 2: "nvfu_reg_set bus Cfg_command (or v 1028) (?s0\<lparr>os_bus := b1\<rparr>) = (Inr (), ?s0\<lparr>os_bus := b1\<rparr>\<lparr>os_bus := b2\<rparr>)" by (rule resp_set [OF r])
  let ?s2 = "?s0\<lparr>os_bus := b1\<rparr>\<lparr>os_bus := b2\<rparr>"
  have dma: "nvfu_pci_enable_dma bus ?s0 = (Inr (), ?s2)" by (simp only: nvfu_pci_enable_dma_def bindS_def 1 2 prod.case sum.case)
  obtain d1 sa ca b3 where 3: "nvfu_controller_enable bus zero_dev ?s2 = (Inr d1, ?s2\<lparr>os_bus := b3, os_dma := ca # sa # os_dma ?s2\<rparr>)"
      "admin_in_step (d1, fresh_ctrl)" "nq_sq_iova (nd_admin d1) = sa" "nq_cq_iova (nd_admin d1) = ca" "nd_io d1 = nd_io zero_dev"
    by (rule resp_enable [OF r])
  let ?s3 = "?s2\<lparr>os_bus := b3, os_dma := ca # sa # os_dma ?s2\<rparr>"
  obtain d2 c2 b4 where 4: "nvfu_identify_controller bus (d1, fresh_ctrl) ?s3 = (Inr (d2, c2), ?s3\<lparr>os_bus := b4\<rparr>)" "admin_in_step (d2, c2)"
      "nd_io d2 = nd_io d1" "nq_sq_iova (nd_admin d2) = nq_sq_iova (nd_admin d1)" "nq_cq_iova (nd_admin d2) = nq_cq_iova (nd_admin d1)"
    by (rule resp_identify [OF r 3(2)])
  let ?s4 = "?s3\<lparr>os_bus := b4\<rparr>"
  obtain d3 c3 sa' ca' b5 where 5: "nvfu_create_io_queue bus (d2, c2) ?s4 = (Inr (d3, c3), ?s4\<lparr>os_bus := b5, os_dma := ca' # sa' # os_dma ?s4\<rparr>)"
      "admin_in_step (d3, c3)" "nd_io d3 = new_queue d2 io_qid io_q_entries (nd_io d2) sa' ca'"
      "nq_sq_iova (nd_admin d3) = nq_sq_iova (nd_admin d2)" "nq_cq_iova (nd_admin d3) = nq_cq_iova (nd_admin d2)"
    by (rule resp_create_io [OF r 4(2)])
  have op: "nvfu_open bus zero_dev st = (Inr d3, ?s4\<lparr>os_bus := b5, os_dma := ca' # sa' # os_dma ?s4\<rparr>)"
    by (simp only: nvfu_open_def Let_def bindS_def 0 dma 3(1) 4(1) 5(1) prod.case sum.case bool.case not_True_eq_False if_False)
  let ?h = "\<lparr>hs_dev = d3, hs_ctrl = fresh_ctrl\<rparr>"
  have ok: "host_ok ?h" using 5(3) new_queue_ok [of io_q_entries] by (simp add: host_ok_def io_q_entries_def)
  have e: "?s4\<lparr>os_bus := b5, os_dma := ca' # sa' # os_dma ?s4\<rparr> = st\<lparr>os_bus := b5, os_attached := True, os_dma := [ca', sa', ca, sa] @ os_dma st\<rparr>"
    by simp
  have opened: "nkvx_open bus True True (g, st) = (Some ?h, True, st\<lparr>os_bus := b5, os_attached := True, os_dma := [ca', sa', ca, sa] @ os_dma st\<rparr>)"
    by (simp only: nkvx_open_def env_init_ok fst_conv snd_conv op e prod.case sum.case bool.case not_True_eq_False if_False)
  have admin: "nq_cq_iova (nd_admin d3) = ca" "nq_sq_iova (nd_admin d3) = sa" by (simp_all only: 5(4,5) 4(4,5) 3(3,4))
  show thesis by (rule that [OF opened ok]) (simp_all add: 5(3) admin)
qed

section \<open>The session's guarantees\<close>

text \<open>A bus with two registers' worth of behaviour: the status is ready from the second read on.\<close>

definition bus_ex :: "nat bus" where
  "bus_ex = \<lparr>bu_access = \<lambda>_. True, bu_setup = \<lambda>b. (True, b), bu_bar = \<lambda>_. True,
     bu_get = \<lambda>r b. (Some (if r = Reg_csts then (if b = 0 then 0 else 1) else 0), Suc b),
     bu_set = \<lambda>r v b. (True, if r = Reg_cc then 0 else b), bu_alloc = \<lambda>n b. (Some (4096 * Suc b), Suc b),
     bu_admin = \<lambda>cmd b. ([zero_cpl\<lparr>cp_cid := se_cid cmd\<rparr>], b), bu_polls = \<lambda>us. 5\<rparr>"

lemma bus_ex_responsive: "responsive bus_ex"
proof -
  have "nth_status bus_ex (Suc 0) b = Some 1" "\<exists>v. nth_status bus_ex 0 b = Some v \<and> \<not> csts_cfs v" for b
    by (simp_all add: bus_ex_def csts_cfs_def)
  then have "(\<forall>j \<le> Suc 0. \<exists>v. nth_status bus_ex j b = Some v \<and> \<not> csts_cfs v) \<and> (\<exists>v. nth_status bus_ex (Suc 0) b = Some v \<and> csts_rdy v)" for b
    by (auto simp: le_Suc_eq csts_cfs_def csts_rdy_def bit_0 simp del: nth_status.simps)
  moreover have "Suc 0 \<le> bu_polls bus_ex us" for us by (simp add: bus_ex_def)
  ultimately have "\<forall>us b. \<exists>k \<le> bu_polls bus_ex us. (\<forall>j \<le> k. \<exists>v. nth_status bus_ex j b = Some v \<and> \<not> csts_cfs v) \<and> (\<exists>v. nth_status bus_ex k b = Some v \<and> csts_rdy v)"
    by blast
  then show ?thesis unfolding responsive_def by (auto simp: bus_ex_def zero_cpl_def status_ok_def)
qed

definition start_ex :: "nat open_state" where
  "start_ex = \<lparr>os_bus = 0, os_dma = [], os_attached = False\<rparr>"

text \<open>
  C28. A session opens ready and closes clean. On a controller that answers, opening a session succeeds; the
  I/O queue has the identifier and depth asked for and its completion ring is in step with the controller,
  so the operations can start; the session then holds the attachment and exactly its four rings, and closing
  it gives back all of them.
\<close>

theorem session_opens_ready:
  assumes "responsive bus"
  shows "\<exists>h st'. nkvx_open bus True True (g, st) = (Some h, True, st') \<and> host_ok h
    \<and> nq_qid (nd_io (hs_dev h)) = io_qid \<and> nq_depth (nd_io (hs_dev h)) = io_q_entries
    \<and> os_attached st' \<and> length (os_dma st') = length (os_dma st) + 4
    \<and> os_dma (nkvx_close (Some h) st') = os_dma st \<and> \<not> os_attached (nkvx_close (Some h) st')"
proof -
  obtain h b a where "nkvx_open bus True True (g, st) = (Some h, True, st\<lparr>os_bus := b, os_attached := True, os_dma := a @ os_dma st\<rparr>)"
    "host_ok h" "nq_qid (nd_io (hs_dev h)) = io_qid" "nq_depth (nd_io (hs_dev h)) = io_q_entries"
    "a = [nq_cq_iova (nd_io (hs_dev h)), nq_sq_iova (nd_io (hs_dev h)), nq_cq_iova (nd_admin (hs_dev h)), nq_sq_iova (nd_admin (hs_dev h))]"
    by (rule open_ready [OF assms])
  then show ?thesis by (simp add: nkvx_close_def nvfu_close_def spdk_dma_free_def)
qed

theorem session_opens_ready_witness:
  "\<exists>h st'. nkvx_open bus_ex True True (False, start_ex) = (Some h, True, st') \<and> host_ok h \<and> length (os_dma st') = 4
    \<and> os_dma (nkvx_close (Some h) st') = []"
  using session_opens_ready [OF bus_ex_responsive, of False start_ex] by (auto simp: start_ex_def)

text \<open>Nothing in the bring-up gives the attachment back.\<close>

lemma keeps_attached:
  "os_attached (snd (nvfu_reg_get bus r st)) = os_attached st"
  "os_attached (snd (nvfu_reg_set bus r v st)) = os_attached st"
  "os_attached (snd (nvfu_dma_alloc bus n st)) = os_attached st"
  "os_attached (snd (nvfu_queue_alloc bus d qid depth q st)) = os_attached st"
  "os_attached (snd (snd (admin_cmd bus cmd dc st))) = os_attached st"
  by (auto simp: nvfu_reg_get_def nvfu_reg_set_def nvfu_dma_alloc_def nvfu_queue_alloc_def admin_cmd_def Let_def split: prod.splits option.splits)

lemma bindS_attached:
  assumes "\<And>st. os_attached (snd (m st)) = os_attached st" "\<And>x st. os_attached (snd (f x st)) = os_attached st"
  shows "os_attached (snd (bindS m f st)) = os_attached st"
  using assms(1) [of st] assms(2) by (auto simp: bindS_def split: prod.splits sum.splits)

lemma wait_attached: "os_attached (snd (wait_ready bus n st)) = os_attached st"
proof (induction n arbitrary: st)
  case 0
  show ?case unfolding wait_ready.simps by (rule bindS_attached) (simp_all add: keeps_attached)
next
  case (Suc n)
  show ?case unfolding wait_ready.simps by (rule bindS_attached) (simp_all add: keeps_attached Suc)
qed

lemma enable_attached: "os_attached (snd (nvfu_controller_enable bus d st)) = os_attached st"
  unfolding nvfu_controller_enable_def Let_def by (intro bindS_attached) (simp_all add: keeps_attached wait_attached)

lemma admin_attached: "admin_cmd bus cmd dc st = (r, dc', st') \<Longrightarrow> os_attached st' = os_attached st"
  using keeps_attached(5) [of bus cmd dc st] by simp

lemma alloc_attached: "nvfu_dma_alloc bus n st = (a, st') \<Longrightarrow> os_attached st' = os_attached st"
  using keeps_attached(3) [of bus n st] by simp

lemma identify_attached: "os_attached (snd (nvfu_identify_controller bus dc st)) = os_attached st"
  by (auto simp: nvfu_identify_controller_def spdk_dma_free_def split: prod.split option.split dest: admin_attached alloc_attached)

lemma create_io_attached: "os_attached (snd (nvfu_create_io_queue bus dc st)) = os_attached st"
proof -
  have "os_attached (snd (case admin_cmd bus c1 dc1 s of (r, dc2, s1) \<Rightarrow>
      if \<not> cpl_status_ok r then (Inl e_eio, s1)
      else case admin_cmd bus c2 dc2 s1 of (r', dc3, s2) \<Rightarrow> (if cpl_status_ok r' then Inr dc3 else Inl e_eio, s2))) = os_attached s" for c1 c2 dc1 s
  proof -
    obtain r dc2 s1 where 1: "admin_cmd bus c1 dc1 s = (r, dc2, s1)" by (metis prod_cases3)
    obtain r' dc3 s2 where 2: "admin_cmd bus c2 dc2 s1 = (r', dc3, s2)" by (metis prod_cases3)
    show ?thesis using admin_attached [OF 1] admin_attached [OF 2] by (simp add: 1 2)
  qed
  then show ?thesis unfolding nvfu_create_io_queue_def by (intro bindS_attached) (simp_all only: keeps_attached)
qed

lemma open_attached:
  assumes "bu_access bus (os_bus st)" "bu_setup bus (os_bus st) = (True, b)"
  shows "os_attached (snd (nvfu_open bus d st))"
proof -
  let ?s = "st\<lparr>os_bus := b, os_attached := True\<rparr>"
  obtain r s2 where 1: "bindS (nvfu_pci_enable_dma bus) (\<lambda>_. nvfu_controller_enable bus d) ?s = (r, s2)" by fastforce
  have "os_attached (snd (nvfu_pci_enable_dma bus s)) = os_attached s" for s
    unfolding nvfu_pci_enable_dma_def by (intro bindS_attached) (simp_all only: keeps_attached)
  then have "os_attached (snd (bindS (nvfu_pci_enable_dma bus) (\<lambda>_. nvfu_controller_enable bus d) ?s)) = os_attached ?s"
    by (intro bindS_attached) (simp_all only: enable_attached)
  then have s2: "os_attached s2" by (simp add: 1)
  show ?thesis
  proof (cases r)
    case (Inl e)
    then show ?thesis using assms 1 s2 by (simp add: nvfu_open_def Let_def)
  next
    case (Inr d1)
    obtain r3 s3 where 3: "bindS (nvfu_identify_controller bus (d1, fresh_ctrl)) (nvfu_create_io_queue bus) s2 = (r3, s3)" by fastforce
    have "os_attached (snd (bindS (nvfu_identify_controller bus (d1, fresh_ctrl)) (nvfu_create_io_queue bus) s2)) = os_attached s2"
      by (intro bindS_attached identify_attached create_io_attached)
    then have "os_attached s3" using s2 by (simp add: 3)
    then show ?thesis using assms 1 Inr 3 by (simp add: nvfu_open_def Let_def split: sum.split prod.split)
  qed
qed

text \<open>
  A failed open keeps what it took. Once the driver has attached, a bring-up that fails returns no
  session, and the attachment is never released: the session object is freed without closing the driver.
\<close>

theorem failed_open_keeps_attachment:
  assumes "bu_access bus (os_bus st)" "bu_setup bus (os_bus st) = (True, b)" "nkvx_open bus True True (g, st) = (None, g', st')"
  shows "os_attached st' \<and> nkvx_close None st' = st'"
  using open_attached [OF assms(1,2), of zero_dev] assms(3)
  by (auto simp: nkvx_open_def env_init_ok nkvx_close_def split: prod.splits sum.splits)

definition bus_refuses :: "nat bus" where
  "bus_refuses = bus_ex\<lparr>bu_set := \<lambda>r v b. (r \<noteq> Reg_asq, b)\<rparr>"

lemma bus_refuses_fails:
  "\<exists>st'. nkvx_open bus_refuses True True (False, start_ex) = (None, True, st') \<and> length (os_dma st') = 2"
proof -
  let ?s = "start_ex\<lparr>os_bus := 0, os_attached := True\<rparr>"
  have up: "bu_access bus_refuses (os_bus start_ex)" "bu_setup bus_refuses (os_bus start_ex) = (True, 0)" "bu_bar bus_refuses 0"
    by (simp_all add: bus_refuses_def bus_ex_def start_ex_def)
  have dma: "nvfu_pci_enable_dma bus_refuses ?s = (Inr (), ?s\<lparr>os_bus := 1\<rparr>)"
    by (simp add: nvfu_pci_enable_dma_def bindS_def nvfu_reg_get_def nvfu_reg_set_def bus_refuses_def bus_ex_def)
  have "\<exists>st'. nvfu_controller_enable bus_refuses zero_dev (?s\<lparr>os_bus := 1\<rparr>) = (Inl e_eio, st') \<and> length (os_dma st') = 2"
    by (simp add: nvfu_controller_enable_def bindS_def nvfu_reg_get_def nvfu_reg_set_def nvfu_queue_alloc_def nvfu_dma_alloc_def
        bus_refuses_def bus_ex_def start_ex_def Let_def)
  then obtain st' where en: "nvfu_controller_enable bus_refuses zero_dev (?s\<lparr>os_bus := 1\<rparr>) = (Inl e_eio, st')" "length (os_dma st') = 2" by blast
  have "nvfu_open bus_refuses zero_dev start_ex = (Inl e_eio, st')"
    by (simp only: nvfu_open_def Let_def bindS_def up dma en(1) prod.case sum.case bool.case not_True_eq_False if_False)
  then show ?thesis using en(2) by (simp add: nkvx_open_def env_init_ok)
qed

theorem failed_open_keeps_attachment_witness:
  "\<exists>st'. nkvx_open bus_refuses True True (False, start_ex) = (None, True, st') \<and> os_attached st' \<and> length (os_dma st') = 2"
proof -
  obtain st' where s: "nkvx_open bus_refuses True True (False, start_ex) = (None, True, st')" "length (os_dma st') = 2"
    using bus_refuses_fails by blast
  have "bu_access bus_refuses (os_bus start_ex)" "bu_setup bus_refuses (os_bus start_ex) = (True, 0)"
    by (simp_all add: bus_refuses_def bus_ex_def start_ex_def)
  from failed_open_keeps_attachment [OF this s(1)] s show ?thesis by blast
qed

end
