(* ===== verification/RkvText.thy ===== *)
theory RkvText
  imports Catalog
begin

text \<open>
  The text the command-line client works on (\<^verbatim>\<open>clients/rkv/src\<close>): what it uses of Rust's strings, and the
  \<^verbatim>\<open>ns/key\<close> paths of \<^verbatim>\<open>path.rs\<close>.

  A Rust string is the list of its scalar values; \<open>utf8\<close> gives its bytes and \<open>from_utf8\<close> reads them back,
  refusing what is not well-formed.
\<close>

type_synonym rstr = "nat list"

section \<open>UTF-8\<close>

definition scalar :: "nat \<Rightarrow> bool" where
  "scalar c = (c < 55296 \<or> 57344 \<le> c \<and> c < 1114112)"

definition cont_byte :: "nat \<Rightarrow> bool" where
  "cont_byte b = (128 \<le> b \<and> b < 192)"

text \<open>One character off the front of the bytes.\<close>

definition utf8_two :: "nat \<Rightarrow> nat list \<Rightarrow> (nat \<times> nat list) option" where
  "utf8_two x r =
    (case r of
       c # r' \<Rightarrow> if cont_byte c then Some ((x - 192) * 64 + (c - 128), r') else None
     | _ \<Rightarrow> None)"

definition utf8_three :: "nat \<Rightarrow> nat list \<Rightarrow> (nat \<times> nat list) option" where
  "utf8_three x r =
    (case r of
       c # d # r' \<Rightarrow>
         (let v = (x - 224) * 4096 + (c - 128) * 64 + (d - 128) in
          if cont_byte c \<and> cont_byte d \<and> 2048 \<le> v \<and> scalar v then Some (v, r') else None)
     | _ \<Rightarrow> None)"

definition utf8_four :: "nat \<Rightarrow> nat list \<Rightarrow> (nat \<times> nat list) option" where
  "utf8_four x r =
    (case r of
       c # d # e # r' \<Rightarrow>
         (let v = (x - 240) * 262144 + (c - 128) * 4096 + (d - 128) * 64 + (e - 128) in
          if cont_byte c \<and> cont_byte d \<and> cont_byte e \<and> 65536 \<le> v \<and> scalar v then Some (v, r') else None)
     | _ \<Rightarrow> None)"

definition utf8_step :: "nat \<Rightarrow> nat list \<Rightarrow> (nat \<times> nat list) option" where
  "utf8_step x r =
    (if x < 128 then Some (x, r)
     else if 194 \<le> x \<and> x < 224 then utf8_two x r
     else if 224 \<le> x \<and> x < 240 then utf8_three x r
     else if 240 \<le> x \<and> x < 245 then utf8_four x r
     else None)"

lemma utf8_step_shrinks: "utf8_step x r = Some (c, r') \<Longrightarrow> length r' \<le> length r"
  by (auto simp: utf8_step_def utf8_two_def utf8_three_def utf8_four_def Let_def split: if_splits list.splits)

function utf8_chars :: "nat list \<Rightarrow> rstr option" where
  "utf8_chars [] = Some []"
| "utf8_chars (x # r) =
    (case utf8_step x r of
       None \<Rightarrow> None
     | Some (c, r') \<Rightarrow> map_option ((#) c) (utf8_chars r'))"
  by pat_completeness auto
termination
  by (relation "measure length") (auto dest!: utf8_step_shrinks)

definition from_utf8 :: "bytes \<Rightarrow> rstr option" where
  "from_utf8 b = utf8_chars (map unat b)"

definition rstr_ok :: "rstr \<Rightarrow> bool" where
  "rstr_ok s = list_all scalar s"

lemma unat_byte: "n < 256 \<Longrightarrow> unat (word_of_nat n :: 8 word) = n"
  by (simp add: unat_of_nat)

lemma div_64_64: "c div 64 div 64 = c div (4096 :: nat)" "c div 4096 div 64 = c div (262144 :: nat)"
  by (simp_all add: div_mult2_eq [symmetric])

lemma digits_64: "c div 4096 * 4096 + c div 64 mod 64 * 64 + c mod 64 = (c :: nat)"
  "c div 262144 * 262144 + c div 4096 mod 64 * 4096 + c div 64 mod 64 * 64 + c mod 64 = (c :: nat)"
proof -
  have "c div 64 div 64 * 64 + c div 64 mod 64 = c div 64" "c div 64 * 64 + c mod 64 = c" "c div 4096 div 64 * 64 + c div 4096 mod 64 = c div 4096"
    by simp_all
  then show "c div 4096 * 4096 + c div 64 mod 64 * 64 + c mod 64 = c"
    "c div 262144 * 262144 + c div 4096 mod 64 * 4096 + c div 64 mod 64 * 64 + c mod 64 = c"
    unfolding div_64_64 by linarith+
qed

lemma utf8_step_char:
  assumes "scalar c"
  shows "\<exists>x r'. map unat (utf8_char c) = x # r' \<and> utf8_step x (r' @ r) = Some (c, r)"
proof -
  have m: "c mod 64 < 64" "c div 64 mod 64 < 64" "c div 4096 mod 64 < 64" by simp_all
  have b: "c < 1114112" using assms by (auto simp: scalar_def)
  consider "c < 128" | "128 \<le> c" "c < 2048" | "2048 \<le> c" "c < 65536" | "65536 \<le> c" "c < 1114112"
    using b by (meson not_less)
  then show ?thesis
  proof cases
    case 2
    then have "2 \<le> c div 64" "c div 64 < 32" by auto
    then show ?thesis using 2 m by (simp add: utf8_char_def utf8_step_def utf8_two_def unat_byte cont_byte_def del: of_nat_add)
  next
    case 3
    then have "c div 4096 < 16" by auto
    then show ?thesis using 3 m assms digits_64(1) [of c] by (simp add: utf8_char_def utf8_step_def utf8_three_def unat_byte cont_byte_def del: of_nat_add)
  next
    case 4
    then have "c div 262144 < 5" by auto
    then show ?thesis using 4 m assms digits_64(2) [of c] by (simp add: utf8_char_def utf8_step_def utf8_four_def unat_byte cont_byte_def del: of_nat_add)
  qed (simp add: utf8_char_def utf8_step_def unat_byte)
qed

lemma from_utf8_utf8: "rstr_ok s \<Longrightarrow> from_utf8 (utf8 s) = Some s"
proof (induction s)
  case (Cons c s)
  then obtain x r' where "map unat (utf8_char c) = x # r'" "utf8_step x (r' @ map unat (utf8 s)) = Some (c, map unat (utf8 s))"
    using utf8_step_char [of c "map unat (utf8 s)"] by (auto simp: rstr_ok_def)
  then show ?case using Cons by (simp add: from_utf8_def utf8_def rstr_ok_def)
qed (simp add: from_utf8_def utf8_def)

interpretation utf8_text: codec utf8 from_utf8 rstr_ok
  by unfold_locales (rule from_utf8_utf8)

text \<open>Well-formed bytes have one reading: what is read, written again, is what was there.\<close>

lemma word_of_unat_byte: "(word_of_nat (unat (b :: 8 word)) :: 8 word) = b"
  by simp

lemma cont_split: "cont_byte c \<Longrightarrow> \<exists>k < 64. c = 128 + k"
  by (auto simp: cont_byte_def intro!: exI [of _ "c - 128"])

lemma base_64: "k < 64 \<Longrightarrow> (a * 64 + k) div 64 = (a :: nat) \<and> (a * 64 + k) mod 64 = k"
  by simp

lemma utf8_step_canonical:
  assumes "utf8_step x r = Some (c, r')"
  shows "scalar c \<and> (\<exists>p. r = p @ r' \<and> map word_of_nat (x # p) = utf8_char c)"
proof -
  consider "x < 128" "c = x" "r' = r" | "194 \<le> x" "x < 224" "utf8_two x r = Some (c, r')"
    | "224 \<le> x" "x < 240" "utf8_three x r = Some (c, r')" | "240 \<le> x" "x < 245" "utf8_four x r = Some (c, r')"
    using assms by (auto simp: utf8_step_def split: if_splits)
  then show ?thesis
  proof cases
    case 2
    then obtain k where k: "k < 64" "r = (128 + k) # r'" "c = (x - 192) * 64 + k"
      by (auto simp: utf8_two_def split: list.splits if_splits dest!: cont_split)
    have "c div 64 = x - 192" "c mod 64 = k" using k by simp_all
    then show ?thesis using 2(1,2) k by (auto simp: utf8_char_def scalar_def)
  next
    case 3
    then obtain k l where k: "k < 64" "l < 64" "r = (128 + k) # (128 + l) # r'" "c = (x - 224) * 4096 + k * 64 + l" "2048 \<le> c" "scalar c"
      by (auto simp: utf8_three_def Let_def split: list.splits if_splits dest!: cont_split)
    have "c = ((x - 224) * 64 + k) * 64 + l" using k(4) by simp
    then have "c div 64 = (x - 224) * 64 + k" "c mod 64 = l" using base_64 [OF k(2), of "(x - 224) * 64 + k"] by (simp_all only:)
    moreover from this have "c div 4096 = x - 224" "c div 64 mod 64 = k" using k(1) by (simp_all flip: div_64_64)
    moreover have "x - 224 \<le> 15" using 3(2) by simp
    then have "c < 65536" using k(1,2,4) by linarith
    ultimately show ?thesis using 3(1) k(3,5,6) by (auto simp: utf8_char_def)
  next
    case 4
    then obtain k l m where k: "k < 64" "l < 64" "m < 64" "r = (128 + k) # (128 + l) # (128 + m) # r'"
      "c = (x - 240) * 262144 + k * 4096 + l * 64 + m" "65536 \<le> c" "scalar c"
      by (auto simp: utf8_four_def Let_def split: list.splits if_splits dest!: cont_split)
    have "c = (((x - 240) * 64 + k) * 64 + l) * 64 + m" using k(5) by simp
    then have "c div 64 = ((x - 240) * 64 + k) * 64 + l" "c mod 64 = m" using base_64 [OF k(3), of "((x - 240) * 64 + k) * 64 + l"] by (simp_all only:)
    moreover from this have "c div 4096 = (x - 240) * 64 + k" "c div 64 mod 64 = l"
      using base_64 [OF k(2), of "(x - 240) * 64 + k"] by (simp_all only: flip: div_64_64)
    moreover from this have "c div 262144 = x - 240" "c div 4096 mod 64 = k" using k(1) by (simp_all flip: div_64_64)
    ultimately show ?thesis using 4(1,2) k by (auto simp: utf8_char_def)
  qed (simp add: scalar_def utf8_char_def)
qed

lemma utf8_chars_canonical: "utf8_chars xs = Some s \<Longrightarrow> rstr_ok s \<and> map word_of_nat xs = utf8 s"
proof (induction xs arbitrary: s rule: utf8_chars.induct)
  case (2 x r)
  then obtain c r' s' where c: "utf8_step x r = Some (c, r')" "utf8_chars r' = Some s'" "s = c # s'" by (auto split: option.splits)
  then obtain p where "scalar c" "r = p @ r'" "map word_of_nat (x # p) = utf8_char c" using utf8_step_canonical by blast
  moreover have "rstr_ok s' \<and> map word_of_nat r' = utf8 s'" using 2(1) [OF c(1)] c(2) by simp
  ultimately show ?case using c(3) by (simp add: rstr_ok_def utf8_def flip: append_Cons)
qed (simp add: rstr_ok_def utf8_def)

lemma from_utf8_canonical: "from_utf8 b = Some s \<Longrightarrow> rstr_ok s \<and> utf8 s = b"
  using utf8_chars_canonical [of "map unat b" s] by (simp add: from_utf8_def comp_def)

section \<open>Strings\<close>

text \<open>\<open>char::is_whitespace\<close> and \<open>str::trim\<close>.\<close>

definition rust_space :: "nat \<Rightarrow> bool" where
  "rust_space c = ((9 \<le> c \<and> c \<le> 13) \<or> c \<in> {32, 133, 160, 5760, 8232, 8233, 8239, 8287, 12288} \<or> (8192 \<le> c \<and> c \<le> 8202))"

definition trim :: "rstr \<Rightarrow> rstr" where
  "trim s = rev (dropWhile rust_space (rev (dropWhile rust_space s)))"

primrec split_once :: "nat \<Rightarrow> rstr \<Rightarrow> (rstr \<times> rstr) option" where
  "split_once c [] = None"
| "split_once c (x # s) = (if x = c then Some ([], s) else map_option (\<lambda>(a, b). (x # a, b)) (split_once c s))"

definition ascii_lower :: "rstr \<Rightarrow> rstr" where
  "ascii_lower s = map (\<lambda>c. if 65 \<le> c \<and> c \<le> 90 then c + 32 else c) s"

definition ascii_digit :: "nat \<Rightarrow> bool" where
  "ascii_digit c = (48 \<le> c \<and> c \<le> 57)"

definition dec_val :: "rstr \<Rightarrow> nat" where
  "dec_val s = foldl (\<lambda>n c. 10 * n + (c - 48)) 0 s"

text \<open>\<open>str::parse\<close> for an unsigned integer below \<open>bound\<close>: an optional plus sign, then digits.\<close>

definition parse_uint :: "nat \<Rightarrow> rstr \<Rightarrow> nat option" where
  "parse_uint bound s =
    (let t = (if s \<noteq> [] \<and> hd s = 43 then tl s else s) in
     if t \<noteq> [] \<and> list_all ascii_digit t \<and> dec_val t < bound then Some (dec_val t) else None)"

function dec :: "nat \<Rightarrow> rstr" where
  "dec n = (if n < 10 then [48 + n] else dec (n div 10) @ [48 + n mod 10])"
  by auto
termination
  by (relation "measure id") auto

declare dec.simps [simp del]

text \<open>\<open>str::lines\<close>: the text up to each newline, a carriage return before it taken off as well.\<close>

definition strip_cr :: "rstr \<Rightarrow> rstr" where
  "strip_cr l = (if l \<noteq> [] \<and> last l = 13 then butlast l else l)"

primrec lines_from :: "rstr \<Rightarrow> rstr \<Rightarrow> rstr list" where
  "lines_from acc [] = (if acc = [] then [] else [rev acc])"
| "lines_from acc (c # s) = (if c = 10 then strip_cr (rev acc) # lines_from [] s else lines_from (c # acc) s)"

definition str_lines :: "rstr \<Rightarrow> rstr list" where
  "str_lines s = lines_from [] s"

lemma split_once_append: "c \<notin> set a \<Longrightarrow> split_once c (a @ c # b) = Some (a, b)"
  by (induction a) auto

lemma split_once_Some: "split_once c s = Some (a, b) \<longleftrightarrow> s = a @ c # b \<and> c \<notin> set a"
  by (induction s arbitrary: a b) (auto simp: Cons_eq_append_conv)

lemma split_once_None: "split_once c s = None \<longleftrightarrow> c \<notin> set s"
  by (induction s) auto

text \<open>Text without white space at either end.\<close>

definition plain_ends :: "rstr \<Rightarrow> bool" where
  "plain_ends s = (s = [] \<or> \<not> rust_space (hd s) \<and> \<not> rust_space (last s))"

lemma dropWhile_plain: "s = [] \<or> \<not> P (hd s) \<Longrightarrow> dropWhile P s = s"
  by (cases s) auto

lemma trim_plain: "plain_ends s \<Longrightarrow> trim s = s"
  by (auto simp: plain_ends_def trim_def dropWhile_plain hd_rev)

lemma trim_pad:
  assumes "plain_ends s"
  shows "trim (32 # s) = s" "trim (s @ [32]) = s"
proof -
  show "trim (32 # s) = s" using trim_plain [OF assms] by (simp add: trim_def rust_space_def)
  show "trim (s @ [32]) = s" using assms
    by (cases "s = []") (auto simp: plain_ends_def trim_def dropWhile_plain hd_rev rust_space_def [of 32])
qed

lemma dec_digits: "list_all ascii_digit (dec n) \<and> dec n \<noteq> []"
proof (induction n rule: dec.induct)
  case (1 n)
  then show ?case by (cases "n < 10") (simp_all add: dec.simps [of n] ascii_digit_def)
qed

lemma dec_val_dec: "dec_val (dec n) = n"
proof (induction n rule: dec.induct)
  case (1 n)
  then show ?case by (cases "n < 10") (simp_all add: dec.simps [of n] dec_val_def)
qed

lemma parse_dec: "n < bound \<Longrightarrow> parse_uint bound (dec n) = Some n"
proof -
  assume "n < bound"
  obtain c r where c: "dec n = c # r" "ascii_digit c" using dec_digits [of n] by (cases "dec n") auto
  then have "hd (dec n) \<noteq> 43" by (auto simp: ascii_digit_def)
  then show ?thesis using \<open>n < bound\<close> dec_digits [of n] dec_val_dec [of n] by (simp add: parse_uint_def Let_def)
qed

interpretation dec_text: codec dec "parse_uint bound" "\<lambda>n. n < bound"
  by unfold_locales (rule parse_dec)

lemma lines_from_line: "10 \<notin> set l \<Longrightarrow> lines_from acc (l @ 10 # s) = strip_cr (rev acc @ l) # lines_from [] s"
  by (induction l arbitrary: acc) auto

lemma str_lines_line: "10 \<notin> set l \<Longrightarrow> str_lines (l @ 10 # s) = strip_cr l # str_lines s"
  by (simp add: str_lines_def lines_from_line)

section \<open>Paths\<close>

datatype path_error = P_empty | P_empty_ns | P_empty_key | P_missing_key

record rkv_path =
  pa_ns :: rstr
  pa_key :: "rstr option"

definition path_parse :: "rstr \<Rightarrow> path_error + rkv_path" where
  "path_parse s =
    (if s = [] then Inl P_empty
     else case split_once 47 s of
       None \<Rightarrow> if s = [] then Inl P_empty_ns else Inr \<lparr>pa_ns = s, pa_key = None\<rparr>
     | Some (ns, key) \<Rightarrow>
         if ns = [] then Inl P_empty_ns
         else if key = [] then Inl P_empty_key
         else Inr \<lparr>pa_ns = ns, pa_key = Some key\<rparr>)"

definition parse_with_key :: "rstr \<Rightarrow> path_error + rstr \<times> rstr" where
  "parse_with_key s =
    (case path_parse s of
       Inl e \<Rightarrow> Inl e
     | Inr p \<Rightarrow> (case pa_key p of Some k \<Rightarrow> Inr (pa_ns p, k) | None \<Rightarrow> Inl P_missing_key))"

text \<open>A path is read as the one namespace and key that spell it.\<close>

lemma parse_with_key_iff:
  "parse_with_key s = Inr (ns, key) \<longleftrightarrow> s = ns @ 47 # key \<and> ns \<noteq> [] \<and> key \<noteq> [] \<and> 47 \<notin> set ns"
proof (cases "split_once 47 s")
  case None
  then have "47 \<notin> set s" by (simp add: split_once_None)
  then show ?thesis using None by (auto simp: parse_with_key_def path_parse_def)
next
  case (Some p)
  obtain a b where p: "p = (a, b)" by fastforce
  then have "s = a @ 47 # b" "47 \<notin> set a" using Some by (simp_all add: split_once_Some)
  moreover have "a = ns \<and> b = key" if "a @ 47 # b = ns @ 47 # key" "47 \<notin> set ns"
    using split_once_append [of 47 ns key] split_once_append [of 47 a b] calculation(2) that by simp
  ultimately show ?thesis using Some p by (auto simp: parse_with_key_def path_parse_def)
qed

end
