(* ===== verification/RkvConfig.thy ===== *)
theory RkvConfig
  imports RkvText "HOL-Library.List_Lexorder"
begin

text \<open>
  The configuration file of the command-line client (\<^verbatim>\<open>clients/rkv/src/config.rs\<close>): the reader and the
  writer of its INI text, and the lookups.

  A \<open>BTreeMap\<close> is the list of its entries in ascending order of the keys; strings compare as their
  scalar values do. An error carries the number of its line.
\<close>

section \<open>Ordered maps\<close>

type_synonym 'v btree = "(rstr \<times> 'v) list"

fun bt_insert :: "rstr \<Rightarrow> 'v \<Rightarrow> 'v btree \<Rightarrow> 'v btree" where
  "bt_insert k v [] = [(k, v)]"
| "bt_insert k v ((k', v') # m) =
    (if k < k' then (k, v) # (k', v') # m
     else if k = k' then (k, v) # m
     else (k', v') # bt_insert k v m)"

definition bt_ok :: "'v btree \<Rightarrow> bool" where
  "bt_ok m = sorted_wrt (<) (map fst m)"

lemma map_of_bt_insert: "bt_ok m \<Longrightarrow> map_of (bt_insert k v m) = (map_of m)(k \<mapsto> v)"
  by (induction k v m rule: bt_insert.induct) (auto simp: bt_ok_def fun_eq_iff)

lemma bt_insert_keys: "fst ` set (bt_insert k v m) = insert k (fst ` set m)"
  by (induction k v m rule: bt_insert.induct) auto

lemma bt_insert_ok: "bt_ok m \<Longrightarrow> bt_ok (bt_insert k v m)"
proof (induction k v m rule: bt_insert.induct)
  case (2 k v k' v' m)
  have "x \<in> set (map fst (bt_insert k v m)) \<longleftrightarrow> x = k \<or> x \<in> set (map fst m)" for x
    using bt_insert_keys [of k v m] by auto
  then show ?case using 2 by (auto simp: bt_ok_def simp del: set_map)
qed (simp add: bt_ok_def)

lemma bt_insert_last: "\<forall>x \<in> set m. fst x < k \<Longrightarrow> bt_insert k v m = m @ [(k, v)]"
  by (induction k v m rule: bt_insert.induct) auto

section \<open>The configuration\<close>

record config =
  cf_traddr :: "rstr option"
  cf_rpc_sock :: "rstr option"
  cf_nqn :: "rstr option"
  cf_gpu_bin :: "rstr option"
  cf_daemon_sock :: "rstr option"
  cf_namespaces :: "nat btree"
  cf_exec :: "nat btree"
  cf_opcodes :: "rstr btree"

definition default_config :: config where
  "default_config = \<lparr>cf_traddr = None, cf_rpc_sock = None, cf_nqn = None, cf_gpu_bin = None, cf_daemon_sock = None,
     cf_namespaces = [], cf_exec = [], cf_opcodes = []\<rparr>"

datatype config_error = Cfg_no_equals nat | Cfg_empty_key nat | Cfg_bad_nsid nat | Cfg_bad_op nat | Cfg_read

definition default_traddr :: rstr where "default_traddr = py ''/tmp/nkvx/muser/0''"
definition default_rpc_sock :: rstr where "default_rpc_sock = py ''/tmp/nkvx/rpc.sock''"

primrec strip_comment_from :: "bool \<Rightarrow> rstr \<Rightarrow> rstr" where
  "strip_comment_from prev_ws [] = []"
| "strip_comment_from prev_ws (b # s) =
    (if (b = 35 \<or> b = 59) \<and> prev_ws then [] else b # strip_comment_from (b = 32 \<or> b = 9) s)"

definition strip_inline_comment :: "rstr \<Rightarrow> rstr" where
  "strip_inline_comment line = strip_comment_from True line"

definition section_header :: "rstr \<Rightarrow> rstr option" where
  "section_header line =
    (if line \<noteq> [] \<and> hd line = 91 \<and> tl line \<noteq> [] \<and> last (tl line) = 93 then Some (butlast (tl line)) else None)"

definition set_target :: "rstr \<Rightarrow> rstr \<Rightarrow> config \<Rightarrow> config" where
  "set_target key val cfg =
    (if key = py ''traddr'' then cfg\<lparr>cf_traddr := Some val\<rparr>
     else if key = py ''rpc_sock'' then cfg\<lparr>cf_rpc_sock := Some val\<rparr>
     else if key = py ''nqn'' then cfg\<lparr>cf_nqn := Some val\<rparr>
     else if key = py ''gpu_bin'' then cfg\<lparr>cf_gpu_bin := Some val\<rparr>
     else if key = py ''daemon_sock'' then cfg\<lparr>cf_daemon_sock := Some val\<rparr>
     else cfg)"

definition set_entry :: "nat \<Rightarrow> rstr \<Rightarrow> rstr \<Rightarrow> rstr \<Rightarrow> config \<Rightarrow> config_error + config" where
  "set_entry lineno sect key val cfg =
    (if sect = py ''target'' then Inr (set_target key val cfg)
     else if sect = py ''namespaces'' then
       (case parse_uint (2 ^ 32) val of
          None \<Rightarrow> Inl (Cfg_bad_nsid lineno)
        | Some nsid \<Rightarrow> Inr (cfg\<lparr>cf_namespaces := bt_insert key nsid (cf_namespaces cfg)\<rparr>))
     else if sect = py ''exec'' then
       (case parse_uint (2 ^ 32) val of
          None \<Rightarrow> Inl (Cfg_bad_op lineno)
        | Some op \<Rightarrow> Inr (cfg\<lparr>cf_exec := bt_insert key op (cf_exec cfg)\<rparr>))
     else if sect = py ''opcodes'' then Inr (cfg\<lparr>cf_opcodes := bt_insert key val (cf_opcodes cfg)\<rparr>)
     else Inr cfg)"

definition parse_line :: "nat \<Rightarrow> rstr \<Rightarrow> config \<times> rstr \<Rightarrow> config_error + config \<times> rstr" where
  "parse_line lineno raw cs =
    (case cs of (cfg, sect) \<Rightarrow>
      let line = trim (strip_inline_comment raw) in
      if line = [] then Inr (cfg, sect)
      else case section_header line of
        Some inner \<Rightarrow> Inr (cfg, ascii_lower (trim inner))
      | None \<Rightarrow>
          (case split_once 61 line of
             None \<Rightarrow> Inl (Cfg_no_equals lineno)
           | Some (k, v) \<Rightarrow>
               let key = trim k; val = trim v in
               if key = [] then Inl (Cfg_empty_key lineno)
               else case set_entry lineno sect key val cfg of Inl e \<Rightarrow> Inl e | Inr cfg' \<Rightarrow> Inr (cfg', sect)))"

primrec parse_lines :: "rstr list \<Rightarrow> nat \<Rightarrow> config \<times> rstr \<Rightarrow> config_error + config \<times> rstr" where
  "parse_lines [] n cs = Inr cs"
| "parse_lines (l # ls) n cs = (case parse_line n l cs of Inl e \<Rightarrow> Inl e | Inr cs' \<Rightarrow> parse_lines ls (Suc n) cs')"

definition config_parse :: "rstr \<Rightarrow> config_error + config" where
  "config_parse text = map_sum id fst (parse_lines (str_lines text) 1 (default_config, []))"

text \<open>The file: absent, unreadable, or its text.\<close>

datatype config_file = No_file | Unreadable | Text rstr

definition load_from :: "config_file \<Rightarrow> config_error + config" where
  "load_from f = (case f of No_file \<Rightarrow> Inr default_config | Unreadable \<Rightarrow> Inl Cfg_read | Text t \<Rightarrow> config_parse t)"

definition ini_line :: "rstr \<Rightarrow> rstr \<Rightarrow> rstr" where
  "ini_line k v = k @ py '' = '' @ v @ [10]"

definition ini_opt :: "string \<Rightarrow> rstr option \<Rightarrow> rstr" where
  "ini_opt k v = (case v of None \<Rightarrow> [] | Some v \<Rightarrow> ini_line (py k) v)"

definition to_ini :: "config \<Rightarrow> rstr" where
  "to_ini cfg =
    py ''[target]'' @ [10]
    @ ini_opt ''traddr'' (cf_traddr cfg) @ ini_opt ''rpc_sock'' (cf_rpc_sock cfg) @ ini_opt ''nqn'' (cf_nqn cfg)
    @ ini_opt ''gpu_bin'' (cf_gpu_bin cfg) @ ini_opt ''daemon_sock'' (cf_daemon_sock cfg)
    @ [10] @ py ''[namespaces]'' @ [10] @ concat (map (\<lambda>(k, v). ini_line k (dec v)) (cf_namespaces cfg))
    @ [10] @ py ''[exec]'' @ [10] @ concat (map (\<lambda>(k, v). ini_line k (dec v)) (cf_exec cfg))
    @ (if cf_opcodes cfg = [] then [] else [10] @ py ''[opcodes]'' @ [10] @ concat (map (\<lambda>(k, v). ini_line k v) (cf_opcodes cfg)))"

definition save_to :: "bool \<Rightarrow> config \<Rightarrow> config_file \<Rightarrow> bool \<times> config_file" where
  "save_to write_ok cfg f = (if write_ok then (True, Text (to_ini cfg)) else (False, f))"

definition resolve_ns :: "config \<Rightarrow> rstr \<Rightarrow> nat option" where
  "resolve_ns cfg name = map_of (cf_namespaces cfg) name"

definition resolve_exec :: "config \<Rightarrow> rstr \<Rightarrow> nat option" where
  "resolve_exec cfg name = map_of (cf_exec cfg) name"

definition config_traddr :: "config \<Rightarrow> rstr" where
  "config_traddr cfg = (case cf_traddr cfg of Some v \<Rightarrow> v | None \<Rightarrow> default_traddr)"

definition config_rpc_sock :: "config \<Rightarrow> rstr" where
  "config_rpc_sock cfg = (case cf_rpc_sock cfg of Some v \<Rightarrow> v | None \<Rightarrow> default_rpc_sock)"

definition config_daemon_sock :: "config \<Rightarrow> rstr option \<Rightarrow> rstr option" where
  "config_daemon_sock cfg home =
    (case cf_daemon_sock cfg of
       Some v \<Rightarrow> Some v
     | None \<Rightarrow> map_option (\<lambda>h. h @ (if h = [] \<or> last h = 47 then [] else [47]) @ py ''.rados-nkv.sock'') home)"

section \<open>Reading what was written\<close>

text \<open>Text that a line of the file can carry as a value, and as a key.\<close>

definition ini_text :: "rstr \<Rightarrow> bool" where
  "ini_text v = (plain_ends v \<and> 10 \<notin> set v \<and> strip_comment_from True v = v)"

definition ini_key :: "rstr \<Rightarrow> bool" where
  "ini_key k = (k \<noteq> [] \<and> plain_ends k \<and> 10 \<notin> set k \<and> 61 \<notin> set k \<and> hd k \<noteq> 91 \<and> strip_comment_from True k = k)"

definition config_ok :: "config \<Rightarrow> bool" where
  "config_ok cfg =
    ((\<forall>v \<in> {cf_traddr cfg, cf_rpc_sock cfg, cf_nqn cfg, cf_gpu_bin cfg, cf_daemon_sock cfg}. case v of None \<Rightarrow> True | Some t \<Rightarrow> ini_text t)
     \<and> bt_ok (cf_namespaces cfg) \<and> (\<forall>(k, v) \<in> set (cf_namespaces cfg). ini_key k \<and> v < 2 ^ 32)
     \<and> bt_ok (cf_exec cfg) \<and> (\<forall>(k, v) \<in> set (cf_exec cfg). ini_key k \<and> v < 2 ^ 32)
     \<and> bt_ok (cf_opcodes cfg) \<and> (\<forall>(k, v) \<in> set (cf_opcodes cfg). ini_key k \<and> ini_text v))"

definition entry_line :: "rstr \<Rightarrow> rstr \<Rightarrow> rstr" where
  "entry_line k v = k @ [32, 61, 32] @ v"

definition opt_lines :: "string \<Rightarrow> rstr option \<Rightarrow> rstr list" where
  "opt_lines k v = (case v of None \<Rightarrow> [] | Some v \<Rightarrow> [entry_line (py k) v])"

definition ini_lines :: "config \<Rightarrow> rstr list" where
  "ini_lines cfg =
    [py ''[target]''] @ opt_lines ''traddr'' (cf_traddr cfg) @ opt_lines ''rpc_sock'' (cf_rpc_sock cfg) @ opt_lines ''nqn'' (cf_nqn cfg)
    @ opt_lines ''gpu_bin'' (cf_gpu_bin cfg) @ opt_lines ''daemon_sock'' (cf_daemon_sock cfg)
    @ [[], py ''[namespaces]''] @ map (\<lambda>(k, v). entry_line k (dec v)) (cf_namespaces cfg)
    @ [[], py ''[exec]''] @ map (\<lambda>(k, v). entry_line k (dec v)) (cf_exec cfg)
    @ (if cf_opcodes cfg = [] then [] else [[], py ''[opcodes]''] @ map (\<lambda>(k, v). entry_line k v) (cf_opcodes cfg))"

lemma py_append: "py (a @ b) = py a @ py b"
  by (simp add: py_def)

lemma ini_line_entry: "ini_line k v = entry_line k v @ [10]"
  by (simp add: ini_line_def entry_line_def py_def)

lemma concat_ini: "concat (map (\<lambda>(k, v). ini_line k (f v)) m) = concat (map (\<lambda>l. l @ [10]) (map (\<lambda>(k, v). entry_line k (f v)) m))"
  by (induction m) (auto simp: ini_line_entry)

lemma ini_opt_lines: "ini_opt k v = concat (map (\<lambda>l. l @ [10]) (opt_lines k v))"
  by (simp add: ini_opt_def opt_lines_def ini_line_entry split: option.split)

lemma to_ini_lines: "to_ini cfg = concat (map (\<lambda>l. l @ [10]) (ini_lines cfg))"
  using concat_ini [of "\<lambda>v. v"] by (simp add: to_ini_def ini_lines_def concat_ini ini_opt_lines)

definition whole_line :: "rstr \<Rightarrow> bool" where
  "whole_line l = (10 \<notin> set l \<and> strip_cr l = l)"

lemma str_lines_concat: "list_all whole_line ls \<Longrightarrow> str_lines (concat (map (\<lambda>l. l @ [10]) ls)) = ls"
proof (induction ls)
  case Nil
  show ?case by (simp add: str_lines_def)
next
  case (Cons l ls)
  then show ?case using str_lines_line [of l "concat (map (\<lambda>l. l @ [10]) ls)"] by (simp add: whole_line_def)
qed

lemma strip_comment_append:
  "strip_comment_from p a = a \<Longrightarrow>
    strip_comment_from p (a @ b) = a @ strip_comment_from (if a = [] then p else last a = 32 \<or> last a = 9) b"
  by (induction a arbitrary: p) (auto split: if_splits)

lemma plain_last: "plain_ends s \<Longrightarrow> s \<noteq> [] \<Longrightarrow> last s \<noteq> 32 \<and> last s \<noteq> 9 \<and> last s \<noteq> 13"
  by (auto simp: plain_ends_def rust_space_def)

lemma entry_whole:
  assumes "ini_key k" "ini_text v"
  shows "whole_line (entry_line k v)"
  using assms plain_last [of v] by (auto simp: whole_line_def entry_line_def ini_key_def ini_text_def strip_cr_def)

lemma entry_comment:
  assumes "ini_key k" "ini_text v"
  shows "strip_inline_comment (entry_line k v) = entry_line k v"
proof -
  have "strip_comment_from True k = k" "\<not> (last k = 32 \<or> last k = 9)" "k \<noteq> []" "strip_comment_from True v = v"
    using assms plain_last [of k] by (auto simp: ini_key_def ini_text_def)
  then show ?thesis using strip_comment_append [of True k "[32, 61, 32] @ v"] by (simp add: strip_inline_comment_def entry_line_def)
qed

lemma entry_trim:
  assumes "ini_key k" "ini_text v"
  shows "trim (entry_line k v) = k @ [32, 61] @ (if v = [] then [] else 32 # v)"
proof (cases "v = []")
  case True
  have "plain_ends (k @ [32, 61])" using assms(1) by (auto simp: ini_key_def plain_ends_def rust_space_def)
  then show ?thesis using True trim_pad(2) [of "k @ [32, 61]"] by (simp add: entry_line_def)
next
  case False
  have "plain_ends (entry_line k v)" using False assms by (auto simp: ini_key_def ini_text_def plain_ends_def entry_line_def)
  then show ?thesis using False by (simp add: trim_plain) (simp add: entry_line_def)
qed

lemma parse_entry:
  assumes "ini_key k" "ini_text v"
  shows "parse_line n (entry_line k v) (cfg, sect) = (case set_entry n sect k v cfg of Inl e \<Rightarrow> Inl e | Inr cfg' \<Rightarrow> Inr (cfg', sect))"
proof -
  have k: "k \<noteq> []" "hd k \<noteq> 91" "61 \<notin> set k" "plain_ends k" and v: "plain_ends v" using assms by (auto simp: ini_key_def ini_text_def)
  let ?l = "k @ [32, 61] @ (if v = [] then [] else 32 # v)"
  have "section_header ?l = None" using k by (simp add: section_header_def)
  moreover have "split_once 61 ?l = Some (k @ [32], if v = [] then [] else 32 # v)"
    using split_once_append [of 61 "k @ [32]" "if v = [] then [] else 32 # v"] k by simp
  moreover have "trim (if v = [] then [] else 32 # v) = v" using trim_pad(1) [OF v] by (simp add: trim_def)
  ultimately show ?thesis using trim_pad(2) [OF k(4)] k(1)
    by (simp add: parse_line_def entry_comment [OF assms] entry_trim [OF assms] Let_def)
qed

lemma parse_lines_append:
  "parse_lines (a @ b) n cs = (case parse_lines a n cs of Inl e \<Rightarrow> Inl e | Inr cs' \<Rightarrow> parse_lines b (n + length a) cs')"
  by (induction a arbitrary: n cs) (auto split: sum.split)

text \<open>Lines that are read without error, whatever their numbers.\<close>

definition runs :: "rstr list \<Rightarrow> config \<times> rstr \<Rightarrow> config \<times> rstr \<Rightarrow> bool" where
  "runs ls cs cs' = (\<forall>n. parse_lines ls n cs = Inr cs')"

lemma runs_append: "runs a cs cs' \<Longrightarrow> runs b cs' cs'' \<Longrightarrow> runs (a @ b) cs cs''"
  by (simp add: runs_def parse_lines_append)

lemma runs_header:
  "runs [py ''[target]''] (cfg, s) (cfg, py ''target'')"
  "runs [[], py ''[namespaces]''] (cfg, s) (cfg, py ''namespaces'')"
  "runs [[], py ''[exec]''] (cfg, s) (cfg, py ''exec'')"
  "runs [[], py ''[opcodes]''] (cfg, s) (cfg, py ''opcodes'')"
  by (simp_all add: runs_def parse_line_def strip_inline_comment_def trim_def rust_space_def section_header_def ascii_lower_def py_def)

lemma digits_text: "list_all ascii_digit s \<Longrightarrow> ini_text s"
proof -
  assume d: "list_all ascii_digit s"
  then have "strip_comment_from p s = s" for p by (induction s arbitrary: p) (auto simp: ascii_digit_def)
  moreover have "\<not> rust_space c" if "c \<in> set s" for c
    using d that by (auto simp: list_all_iff ascii_digit_def rust_space_def)
  ultimately show "ini_text s" using d hd_in_set [of s] last_in_set [of s]
    by (auto simp: ini_text_def plain_ends_def list_all_iff ascii_digit_def)
qed

lemma dec_text: "ini_text (dec v)"
  using dec_digits [of v] by (simp add: digits_text)

lemma target_keys:
  "ini_key (py ''traddr'')" "ini_key (py ''rpc_sock'')" "ini_key (py ''nqn'')" "ini_key (py ''gpu_bin'')" "ini_key (py ''daemon_sock'')"
  by (simp_all add: ini_key_def plain_ends_def rust_space_def py_def)

definition set_opt :: "string \<Rightarrow> rstr option \<Rightarrow> config \<Rightarrow> config" where
  "set_opt k v cfg = (case v of None \<Rightarrow> cfg | Some t \<Rightarrow> set_target (py k) t cfg)"

lemma set_opt_fresh:
  "cf_traddr c = None \<Longrightarrow> set_opt ''traddr'' v c = c\<lparr>cf_traddr := v\<rparr>"
  "cf_rpc_sock c = None \<Longrightarrow> set_opt ''rpc_sock'' v c = c\<lparr>cf_rpc_sock := v\<rparr>"
  "cf_nqn c = None \<Longrightarrow> set_opt ''nqn'' v c = c\<lparr>cf_nqn := v\<rparr>"
  "cf_gpu_bin c = None \<Longrightarrow> set_opt ''gpu_bin'' v c = c\<lparr>cf_gpu_bin := v\<rparr>"
  "cf_daemon_sock c = None \<Longrightarrow> set_opt ''daemon_sock'' v c = c\<lparr>cf_daemon_sock := v\<rparr>"
  by (cases c; cases v; simp add: set_opt_def set_target_def py_def)+

lemma runs_opt:
  assumes "ini_key (py k)" "case v of None \<Rightarrow> True | Some t \<Rightarrow> ini_text t"
  shows "runs (opt_lines k v) (cfg, py ''target'') (set_opt k v cfg, py ''target'')"
  using assms by (cases v) (simp_all add: runs_def opt_lines_def parse_entry set_entry_def set_opt_def)

text \<open>A section of entries, each put into the map behind the ones before.\<close>

lemma runs_entries:
  assumes "\<And>k v c n. (k, v) \<in> set m \<Longrightarrow> set_entry n sect k (f v) c = Inr (upd (bt_insert k v (get c)) c)"
    and "\<And>k v. (k, v) \<in> set m \<Longrightarrow> ini_key k \<and> ini_text (f v)"
    and "\<And>x c. get (upd x c) = x" "\<And>x y c. upd x (upd y c) = upd x c"
    and "bt_ok (done @ m)"
  shows "runs (map (\<lambda>(k, v). entry_line k (f v)) m) (upd done cfg, sect) (upd (done @ m) cfg, sect)"
  using assms
proof (induction m arbitrary: "done")
  case Nil
  then show ?case by (simp add: runs_def)
next
  case (Cons e m)
  obtain k v where e: "e = (k, v)" by fastforce
  have less: "\<forall>x \<in> set done. fst x < k" using Cons.prems(5) e by (auto simp: bt_ok_def sorted_wrt_append)
  have "set_entry n sect k (f v) (upd done cfg) = Inr (upd (done @ [(k, v)]) cfg)" for n
    using Cons.prems(1) [of k v n "upd done cfg"] Cons.prems(3,4) e bt_insert_last [OF less, of v] by simp
  then have "runs [entry_line k (f v)] (upd done cfg, sect) (upd (done @ [(k, v)]) cfg, sect)"
    using Cons.prems(2) [of k v] e by (simp add: runs_def parse_entry)
  moreover have "runs (map (\<lambda>(k, v). entry_line k (f v)) m) (upd (done @ [(k, v)]) cfg, sect) (upd ((done @ [(k, v)]) @ m) cfg, sect)"
  proof (rule Cons.IH)
    show "set_entry n sect ka (f va) c = Inr (upd (bt_insert ka va (get c)) c)" if "(ka, va) \<in> set m" for ka va c n
      using Cons.prems(1) that by simp
    show "ini_key ka \<and> ini_text (f va)" if "(ka, va) \<in> set m" for ka va using Cons.prems(2) [of ka va] that by simp
    show "bt_ok ((done @ [(k, v)]) @ m)" using Cons.prems(5) e by simp
  qed (rule Cons.prems)+
  ultimately show ?case using runs_append [of "[entry_line k (f v)]"] e by simp
qed

lemma runs_namespaces:
  assumes "bt_ok m" "\<forall>(k, v) \<in> set m. ini_key k \<and> v < 2 ^ 32" "cf_namespaces cfg = []"
  shows "runs (map (\<lambda>(k, v). entry_line k (dec v)) m) (cfg, py ''namespaces'') (cfg\<lparr>cf_namespaces := m\<rparr>, py ''namespaces'')"
proof -
  have "runs (map (\<lambda>(k, v). entry_line k (dec v)) m) (cfg\<lparr>cf_namespaces := []\<rparr>, py ''namespaces'') (cfg\<lparr>cf_namespaces := [] @ m\<rparr>, py ''namespaces'')"
    using assms(1,2) by (intro runs_entries [where get = cf_namespaces and upd = "\<lambda>x c. c\<lparr>cf_namespaces := x\<rparr>"])
      (auto simp: set_entry_def py_def parse_dec dec_text)
  then show ?thesis using assms(3) by (cases cfg) simp
qed

lemma runs_exec:
  assumes "bt_ok m" "\<forall>(k, v) \<in> set m. ini_key k \<and> v < 2 ^ 32" "cf_exec cfg = []"
  shows "runs (map (\<lambda>(k, v). entry_line k (dec v)) m) (cfg, py ''exec'') (cfg\<lparr>cf_exec := m\<rparr>, py ''exec'')"
proof -
  have "runs (map (\<lambda>(k, v). entry_line k (dec v)) m) (cfg\<lparr>cf_exec := []\<rparr>, py ''exec'') (cfg\<lparr>cf_exec := [] @ m\<rparr>, py ''exec'')"
    using assms(1,2) by (intro runs_entries [where get = cf_exec and upd = "\<lambda>x c. c\<lparr>cf_exec := x\<rparr>"])
      (auto simp: set_entry_def py_def parse_dec dec_text)
  then show ?thesis using assms(3) by (cases cfg) simp
qed

lemma runs_opcodes:
  assumes "bt_ok m" "\<forall>(k, v) \<in> set m. ini_key k \<and> ini_text v" "cf_opcodes cfg = []"
  shows "runs (map (\<lambda>(k, v). entry_line k v) m) (cfg, py ''opcodes'') (cfg\<lparr>cf_opcodes := m\<rparr>, py ''opcodes'')"
proof -
  have "runs (map (\<lambda>(k, v). entry_line k ((\<lambda>v. v) v)) m) (cfg\<lparr>cf_opcodes := []\<rparr>, py ''opcodes'') (cfg\<lparr>cf_opcodes := [] @ m\<rparr>, py ''opcodes'')"
    using assms(1,2) by (intro runs_entries [where get = cf_opcodes and upd = "\<lambda>x c. c\<lparr>cf_opcodes := x\<rparr>"])
      (auto simp: set_entry_def py_def)
  then show ?thesis using assms(3) by (cases cfg) simp
qed

lemma ini_lines_whole: "config_ok cfg \<Longrightarrow> list_all whole_line (ini_lines cfg)"
proof -
  assume ok: "config_ok cfg"
  have opt: "list_all whole_line (opt_lines k v)" if "ini_key (py k)" "case v of None \<Rightarrow> True | Some t \<Rightarrow> ini_text t" for k v
    using that by (cases v) (simp_all add: opt_lines_def entry_whole)
  have num: "list_all whole_line (map (\<lambda>(k, v). entry_line k (dec v)) m)" if "\<forall>(k, v) \<in> set m. ini_key k \<and> v < 2 ^ 32" for m
    using that by (auto simp: list_all_iff entry_whole dec_text)
  have texts: "list_all whole_line (map (\<lambda>(k, v). entry_line k v) m)" if "\<forall>(k, v) \<in> set m. ini_key k \<and> ini_text v" for m
    using that by (auto simp: list_all_iff entry_whole)
  have head: "whole_line (py ''[target]'')" "whole_line (py ''[namespaces]'')" "whole_line (py ''[exec]'')" "whole_line (py ''[opcodes]'')" "whole_line []"
    by (simp_all add: whole_line_def strip_cr_def py_def)
  show ?thesis using ok unfolding ini_lines_def list_all_append config_ok_def
    by (auto simp: head intro!: opt target_keys num texts)
qed

text \<open>The file up to the first entry of the namespaces.\<close>

definition base_config :: "config \<Rightarrow> config" where
  "base_config cfg = cfg\<lparr>cf_namespaces := [], cf_exec := [], cf_opcodes := []\<rparr>"

definition head_lines :: "config \<Rightarrow> rstr list" where
  "head_lines cfg = [py ''[target]''] @ opt_lines ''traddr'' (cf_traddr cfg) @ opt_lines ''rpc_sock'' (cf_rpc_sock cfg) @ opt_lines ''nqn'' (cf_nqn cfg)
    @ opt_lines ''gpu_bin'' (cf_gpu_bin cfg) @ opt_lines ''daemon_sock'' (cf_daemon_sock cfg) @ [[], py ''[namespaces]'']"

lemma runs_head:
  assumes "config_ok cfg"
  shows "runs (head_lines cfg) (default_config, []) (base_config cfg, py ''namespaces'')"
proof -
  have v: "case v of None \<Rightarrow> True | Some t \<Rightarrow> ini_text t" if "v \<in> {cf_traddr cfg, cf_rpc_sock cfg, cf_nqn cfg, cf_gpu_bin cfg, cf_daemon_sock cfg}" for v
    using assms that unfolding config_ok_def by blast
  let ?s = "set_opt ''daemon_sock'' (cf_daemon_sock cfg) (set_opt ''gpu_bin'' (cf_gpu_bin cfg)
        (set_opt ''nqn'' (cf_nqn cfg) (set_opt ''rpc_sock'' (cf_rpc_sock cfg) (set_opt ''traddr'' (cf_traddr cfg) default_config))))"
  have "runs (head_lines cfg) (default_config, []) (?s, py ''namespaces'')"
    unfolding head_lines_def
    by (rule runs_append [OF runs_header(1) runs_append [OF runs_opt [OF target_keys(1) v] runs_append [OF runs_opt [OF target_keys(2) v]
          runs_append [OF runs_opt [OF target_keys(3) v] runs_append [OF runs_opt [OF target_keys(4) v]
          runs_append [OF runs_opt [OF target_keys(5) v] runs_header(2)]]]]]]) simp_all
  moreover have "?s = base_config cfg" by (cases cfg) (simp add: set_opt_fresh default_config_def base_config_def)
  ultimately show ?thesis by (simp only:)
qed

lemma ini_lines_head:
  "ini_lines cfg = head_lines cfg @ map (\<lambda>(k, v). entry_line k (dec v)) (cf_namespaces cfg)
    @ ([[], py ''[exec]''] @ map (\<lambda>(k, v). entry_line k (dec v)) (cf_exec cfg))
    @ (if cf_opcodes cfg = [] then [] else [[], py ''[opcodes]''] @ map (\<lambda>(k, v). entry_line k v) (cf_opcodes cfg))"
  by (simp add: ini_lines_def head_lines_def)

lemma parse_to_ini:
  assumes "config_ok cfg"
  shows "config_parse (to_ini cfg) = Inr cfg"
proof -
  have m: "bt_ok (cf_namespaces cfg)" "\<forall>(k, v) \<in> set (cf_namespaces cfg). ini_key k \<and> v < 2 ^ 32"
    "bt_ok (cf_exec cfg)" "\<forall>(k, v) \<in> set (cf_exec cfg). ini_key k \<and> v < 2 ^ 32"
    "bt_ok (cf_opcodes cfg)" "\<forall>(k, v) \<in> set (cf_opcodes cfg). ini_key k \<and> ini_text v"
    using assms unfolding config_ok_def by blast+
  let ?c = "(base_config cfg)\<lparr>cf_namespaces := cf_namespaces cfg\<rparr>"
  have r2: "runs (map (\<lambda>(k, v). entry_line k (dec v)) (cf_namespaces cfg)) (base_config cfg, py ''namespaces'') (?c, py ''namespaces'')"
    by (rule runs_namespaces [OF m(1,2)]) (simp add: base_config_def)
  have r3: "runs ([[], py ''[exec]''] @ map (\<lambda>(k, v). entry_line k (dec v)) (cf_exec cfg)) (?c, py ''namespaces'') (?c\<lparr>cf_exec := cf_exec cfg\<rparr>, py ''exec'')"
    by (rule runs_append [OF runs_header(3) runs_exec [OF m(3,4)]]) (simp add: base_config_def)
  have "\<exists>s. runs (if cf_opcodes cfg = [] then [] else [[], py ''[opcodes]''] @ map (\<lambda>(k, v). entry_line k v) (cf_opcodes cfg))
      (?c\<lparr>cf_exec := cf_exec cfg\<rparr>, py ''exec'') (cfg, s)"
  proof (cases "cf_opcodes cfg = []")
    case True
    then show ?thesis by (cases cfg) (simp add: runs_def base_config_def)
  next
    case False
    have "runs ([[], py ''[opcodes]''] @ map (\<lambda>(k, v). entry_line k v) (cf_opcodes cfg)) (?c\<lparr>cf_exec := cf_exec cfg\<rparr>, py ''exec'')
        (?c\<lparr>cf_exec := cf_exec cfg\<rparr>\<lparr>cf_opcodes := cf_opcodes cfg\<rparr>, py ''opcodes'')"
      by (rule runs_append [OF runs_header(4) runs_opcodes [OF m(5,6)]]) (simp add: base_config_def)
    then show ?thesis using False by (intro exI [of _ "py ''opcodes''"]) (cases cfg, simp add: base_config_def)
  qed
  then obtain s where r4: "runs (if cf_opcodes cfg = [] then [] else [[], py ''[opcodes]''] @ map (\<lambda>(k, v). entry_line k v) (cf_opcodes cfg))
      (?c\<lparr>cf_exec := cf_exec cfg\<rparr>, py ''exec'') (cfg, s)" by blast
  have "runs (ini_lines cfg) (default_config, []) (cfg, s)"
    unfolding ini_lines_head by (rule runs_append [OF runs_head [OF assms] runs_append [OF r2 runs_append [OF r3 r4]]])
  then show ?thesis using str_lines_concat [OF ini_lines_whole [OF assms]] by (simp add: config_parse_def to_ini_lines runs_def)
qed

end
