(* ===== verification/RkvNs.thy ===== *)
theory RkvNs
  imports RkvConfig
begin

text \<open>
  The namespace commands of the command-line client (\<^verbatim>\<open>clients/rkv/src/commands/ns.rs\<close>) and the allowlist
  policy they send (\<^verbatim>\<open>clients/rkv/src/policy.rs\<close>).

  The target's control calls are parameters: a call gives the decoded result or nothing. The YAML reader
  is a parameter as well; its result, the list of entries, is what the commands work on.
\<close>

section \<open>Policies\<close>

record allow_entry =
  ae_op_id :: nat
  ae_binding :: "rstr option"
  ae_runtime :: "rstr option"
  ae_module_namespace :: "rstr option"
  ae_module_key :: "rstr option"
  ae_sha256 :: "rstr option"
  ae_caps :: "nat option"

datatype policy_error = Pol_exclusive | Pol_needs_binding | Pol_not_class_method | Pol_sha256

definition ascii_hexdigit :: "nat \<Rightarrow> bool" where
  "ascii_hexdigit c = (ascii_digit c \<or> (65 \<le> c \<and> c \<le> 70) \<or> (97 \<le> c \<and> c \<le> 102))"

definition policy_validate :: "allow_entry \<Rightarrow> policy_error option" where
  "policy_validate e =
    (let has_structured = (ae_runtime e \<noteq> None \<or> ae_module_namespace e \<noteq> None \<or> ae_module_key e \<noteq> None \<or> ae_sha256 e \<noteq> None \<or> ae_caps e \<noteq> None) in
     if ae_binding e \<noteq> None \<and> has_structured then Some Pol_exclusive
     else if ae_binding e = None \<and> ae_runtime e = None then Some Pol_needs_binding
     else if (case ae_binding e of
                None \<Rightarrow> False
              | Some b \<Rightarrow> (case split_once 58 b of Some (cls, mth) \<Rightarrow> cls = [] \<or> mth = [] | None \<Rightarrow> True)) then Some Pol_not_class_method
     else if (case ae_sha256 e of
                None \<Rightarrow> False
              | Some sha \<Rightarrow> length (utf8 sha) \<noteq> 64 \<or> \<not> list_all (\<lambda>b. ascii_hexdigit (unat b)) (utf8 sha)) then Some Pol_sha256
     else None)"

primrec policy_check :: "nat \<Rightarrow> allow_entry list \<Rightarrow> (nat \<times> policy_error) option" where
  "policy_check i [] = None"
| "policy_check i (e # es) = (case policy_validate e of Some err \<Rightarrow> Some (i + 1, err) | None \<Rightarrow> policy_check (i + 1) es)"

section \<open>Options\<close>

datatype ns_error =
    N_no_nqn | N_needs_value rstr | N_empty_value rstr | N_fixed_namespace | N_unknown_option rstr | N_no_pool
  | N_call | N_save | N_unknown_ns | N_policy_read | N_policy nat policy_error | N_no_entries

record ns_create_options =
  nc_pool :: "rstr option"
  nc_cluster :: "rstr option"
  nc_namespace :: "rstr option"

definition ns_create_option :: "rstr \<Rightarrow> ns_create_options \<Rightarrow> ns_error + ns_create_options" where
  "ns_create_option opt out =
    (case split_once 61 opt of
       None \<Rightarrow> Inl (N_needs_value opt)
     | Some (key, val) \<Rightarrow>
         if val = [] then Inl (N_empty_value key)
         else if key = py ''pool'' then Inr (out\<lparr>nc_pool := Some val\<rparr>)
         else if key = py ''cluster'' then Inr (out\<lparr>nc_cluster := Some val\<rparr>)
         else if key = py ''namespace'' then Inr (out\<lparr>nc_namespace := Some val\<rparr>)
         else Inl (N_unknown_option key))"

primrec ns_create_parse :: "rstr list \<Rightarrow> ns_create_options \<Rightarrow> ns_error + ns_create_options" where
  "ns_create_parse [] out = Inr out"
| "ns_create_parse (o' # os) out = (case ns_create_option o' out of Inl e \<Rightarrow> Inl e | Inr out' \<Rightarrow> ns_create_parse os out')"

record ns_attach_options =
  na_pool :: "rstr option"
  na_cluster :: "rstr option"

definition ns_attach_option :: "rstr \<Rightarrow> ns_attach_options \<Rightarrow> ns_error + ns_attach_options" where
  "ns_attach_option opt out =
    (case split_once 61 opt of
       None \<Rightarrow> Inl (N_needs_value opt)
     | Some (key, val) \<Rightarrow>
         if val = [] then Inl (N_empty_value key)
         else if key = py ''pool'' then Inr (out\<lparr>na_pool := Some val\<rparr>)
         else if key = py ''cluster'' then Inr (out\<lparr>na_cluster := Some val\<rparr>)
         else if key = py ''namespace'' then Inl N_fixed_namespace
         else Inl (N_unknown_option key))"

primrec ns_attach_parse :: "rstr list \<Rightarrow> ns_attach_options \<Rightarrow> ns_error + ns_attach_options" where
  "ns_attach_parse [] out = Inr out"
| "ns_attach_parse (o' # os) out = (case ns_attach_option o' out of Inl e \<Rightarrow> Inl e | Inr out' \<Rightarrow> ns_attach_parse os out')"

section \<open>Commands\<close>

record create_params =
  cp_nqn :: rstr
  cp_name :: rstr
  cp_pool :: rstr
  cp_cluster :: "rstr option"
  cp_namespace :: "rstr option"
  cp_nsid :: "nat option"

text \<open>The state of a command: the configuration it loaded and the file it was loaded from.\<close>

definition cache_nsid :: "bool \<Rightarrow> rstr \<Rightarrow> nat \<Rightarrow> config \<times> config_file \<Rightarrow> (ns_error + nat) \<times> config \<times> config_file" where
  "cache_nsid write_ok name nsid cf =
    (let cfg = (fst cf)\<lparr>cf_namespaces := bt_insert name nsid (cf_namespaces (fst cf))\<rparr> in
     case save_to write_ok cfg (snd cf) of (ok, f) \<Rightarrow> (if ok then Inr nsid else Inl N_save, cfg, f))"

definition ns_create :: "(create_params \<Rightarrow> nat option) \<Rightarrow> bool \<Rightarrow> rstr \<Rightarrow> nat option \<Rightarrow> rstr list \<Rightarrow> config \<times> config_file
    \<Rightarrow> (ns_error + nat) \<times> config \<times> config_file" where
  "ns_create rpc write_ok name nsid options cf =
    (case cf_nqn (fst cf) of
       None \<Rightarrow> (Inl N_no_nqn, cf)
     | Some nqn \<Rightarrow>
         (case ns_create_parse options \<lparr>nc_pool = None, nc_cluster = None, nc_namespace = None\<rparr> of
            Inl e \<Rightarrow> (Inl e, cf)
          | Inr opts \<Rightarrow>
              (case nc_pool opts of
                 None \<Rightarrow> (Inl N_no_pool, cf)
               | Some pool \<Rightarrow>
                   (case rpc \<lparr>cp_nqn = nqn, cp_name = name, cp_pool = pool, cp_cluster = nc_cluster opts,
                        cp_namespace = nc_namespace opts, cp_nsid = nsid\<rparr> of
                      None \<Rightarrow> (Inl N_call, cf)
                    | Some assigned \<Rightarrow> if assigned < 2 ^ 32 then cache_nsid write_ok name assigned cf else (Inl N_call, cf)))))"

record attach_params =
  ap_nqn :: rstr
  ap_name :: rstr
  ap_pool :: rstr
  ap_cluster :: "rstr option"

definition ns_attach :: "(attach_params \<Rightarrow> nat option) \<Rightarrow> bool \<Rightarrow> rstr \<Rightarrow> rstr list \<Rightarrow> config \<times> config_file
    \<Rightarrow> (ns_error + nat) \<times> config \<times> config_file" where
  "ns_attach rpc write_ok name options cf =
    (case cf_nqn (fst cf) of
       None \<Rightarrow> (Inl N_no_nqn, cf)
     | Some nqn \<Rightarrow>
         (case ns_attach_parse options \<lparr>na_pool = None, na_cluster = None\<rparr> of
            Inl e \<Rightarrow> (Inl e, cf)
          | Inr opts \<Rightarrow>
              (case na_pool opts of
                 None \<Rightarrow> (Inl N_no_pool, cf)
               | Some pool \<Rightarrow>
                   (case rpc \<lparr>ap_nqn = nqn, ap_name = name, ap_pool = pool, ap_cluster = na_cluster opts\<rparr> of
                      None \<Rightarrow> (Inl N_call, cf)
                    | Some nsid \<Rightarrow> if nsid < 2 ^ 32 then cache_nsid write_ok name nsid cf else (Inl N_call, cf)))))"

text \<open>\<open>entries\<close> is what the YAML reader makes of the file; the call gets the nqn, the nsid and the entries.\<close>

definition ns_allowlist :: "(rstr \<Rightarrow> nat \<Rightarrow> allow_entry list \<Rightarrow> bool) \<Rightarrow> config \<Rightarrow> rstr \<Rightarrow> allow_entry list option \<Rightarrow> ns_error + unit" where
  "ns_allowlist rpc cfg name entries =
    (case cf_nqn cfg of
       None \<Rightarrow> Inl N_no_nqn
     | Some nqn \<Rightarrow>
         (case resolve_ns cfg name of
            None \<Rightarrow> Inl N_unknown_ns
          | Some nsid \<Rightarrow>
              (case entries of
                 None \<Rightarrow> Inl N_policy_read
               | Some es \<Rightarrow>
                   (case policy_check 0 es of
                      Some (i, e) \<Rightarrow> Inl (N_policy i e)
                    | None \<Rightarrow>
                        if es = [] then Inl N_no_entries
                        else if rpc nqn nsid es then Inr () else Inl N_call))))"

section \<open>What a command leaves behind\<close>

lemma create_cases:
  assumes "ns_create rpc write_ok name nsid options (cfg, f) = (Inr n, cfg', f')"
  shows "n < 2 ^ 32 \<and> cfg' = cfg\<lparr>cf_namespaces := bt_insert name n (cf_namespaces cfg)\<rparr> \<and> f' = Text (to_ini cfg')"
  using assms by (auto simp: ns_create_def cache_nsid_def save_to_def Let_def split: option.splits sum.splits if_splits)

lemma set_bt_insert: "set (bt_insert k v m) \<subseteq> insert (k, v) (set m)"
  by (induction k v m rule: bt_insert.induct) auto

lemma config_ok_insert:
  assumes "config_ok cfg" "ini_key name" "n < 2 ^ 32"
  shows "config_ok (cfg\<lparr>cf_namespaces := bt_insert name n (cf_namespaces cfg)\<rparr>)"
proof -
  have "\<forall>(k, v) \<in> set (bt_insert name n (cf_namespaces cfg)). ini_key k \<and> v < 2 ^ 32"
    using assms set_bt_insert [of name n "cf_namespaces cfg"] unfolding config_ok_def by blast
  moreover have "bt_ok (bt_insert name n (cf_namespaces cfg))" using assms(1) by (simp add: config_ok_def bt_insert_ok)
  ultimately show ?thesis using assms(1) by (simp add: config_ok_def)
qed


definition config_ex :: config where
  "config_ex = default_config\<lparr>cf_nqn := Some (py ''nqn''), cf_namespaces := [(py ''a'', 3), (py ''z'', 1)]\<rparr>"

lemma config_ex_ok: "config_ok config_ex"
  by (simp add: config_ok_def config_ex_def default_config_def bt_ok_def ini_text_def ini_key_def plain_ends_def rust_space_def py_def)

lemma config_ex_create:
  "ns_create (\<lambda>p. Some 7) True name None [py ''pool=p''] (config_ex, No_file)
    = (Inr 7, config_ex\<lparr>cf_namespaces := bt_insert name 7 (cf_namespaces config_ex)\<rparr>,
       Text (to_ini (config_ex\<lparr>cf_namespaces := bt_insert name 7 (cf_namespaces config_ex)\<rparr>)))"
  by (simp add: ns_create_def ns_create_option_def cache_nsid_def save_to_def config_ex_def py_def Let_def)


section \<open>Names the file cannot carry\<close>

lemma dropWhile_stop: "\<not> P c \<Longrightarrow> dropWhile P (a @ c # r) = dropWhile P a @ c # r"
  by (induction a) auto

lemma trim_keeps: "\<not> rust_space c \<Longrightarrow> c \<in> set s \<Longrightarrow> c \<in> set (trim s)"
proof -
  have d: "c \<in> set (dropWhile rust_space t)" if "\<not> rust_space c" "c \<in> set t" for t
    using that by (induction t) auto
  assume "\<not> rust_space c" "c \<in> set s"
  then show ?thesis using d [of "rev (dropWhile rust_space s)"] d [of s] by (simp add: trim_def)
qed

lemma no_comment: "35 \<notin> set s \<Longrightarrow> 59 \<notin> set s \<Longrightarrow> strip_comment_from p s = s"
  by (induction s arbitrary: p) auto

lemma trim_last: "s \<noteq> [] \<Longrightarrow> \<not> rust_space (last s) \<Longrightarrow> trim s = dropWhile rust_space s"
proof -
  assume a: "s \<noteq> []" "\<not> rust_space (last s)"
  then obtain r c where "s = r @ [c]" "\<not> rust_space c" by (cases s rule: rev_cases) auto
  then show ?thesis using dropWhile_stop [of rust_space c r "[]"] by (simp add: trim_def)
qed

lemma parse_uint_chars: "parse_uint bound s = Some n \<Longrightarrow> c \<in> set s \<Longrightarrow> c = 43 \<or> ascii_digit c"
  by (cases s) (auto simp: parse_uint_def Let_def list_all_iff split: if_splits)

text \<open>A name with an equals sign is split there, and the rest of it ends up in front of the number.\<close>

lemma bad_name_line:
  assumes "61 \<in> set name" "35 \<notin> set name" "59 \<notin> set name"
  shows "\<exists>e. parse_line n (entry_line name (dec v)) (cfg, py ''namespaces'') = Inl e"
proof -
  obtain a b where ab: "name = a @ 61 # b" "61 \<notin> set a" using split_list_first [OF assms(1)] by blast
  let ?v = "b @ [32, 61, 32] @ dec v"
  let ?l = "dropWhile rust_space a @ 61 # ?v"
  have dg: "list_all ascii_digit (dec v)" "dec v \<noteq> []" using dec_digits [of v] by simp_all
  then have last: "ascii_digit (last (dec v))" by (simp add: list_all_iff)
  have "35 \<notin> set (dec v)" "59 \<notin> set (dec v)" using dg(1) by (auto simp: list_all_iff ascii_digit_def)
  then have "strip_inline_comment (entry_line name (dec v)) = entry_line name (dec v)"
    using assms(2,3) by (auto simp: strip_inline_comment_def entry_line_def intro!: no_comment)
  moreover have "trim (entry_line name (dec v)) = ?l"
    using trim_last [of "entry_line name (dec v)"] dg(2) last ab(1) dropWhile_stop [of rust_space 61 a ?v]
    by (simp add: entry_line_def ascii_digit_def rust_space_def [of 61]) (auto simp: rust_space_def)
  moreover have "section_header ?l = None" using last dg(2) by (auto simp: section_header_def ascii_digit_def last_tl)
  moreover have "61 \<notin> set (dropWhile rust_space a)" using ab(2) by (auto dest: set_dropWhileD)
  then have "split_once 61 ?l = Some (dropWhile rust_space a, ?v)" by (rule split_once_append)
  moreover have "61 \<in> set (trim ?v)" by (rule trim_keeps) (simp_all add: rust_space_def)
  then have "parse_uint bound (trim ?v) = None" for bound
    using parse_uint_chars [of bound "trim ?v" _ 61] by (cases "parse_uint bound (trim ?v)") (auto simp: ascii_digit_def)
  ultimately show ?thesis by (simp add: parse_line_def set_entry_def py_def Let_def)
qed

lemma bt_insert_split: "\<exists>pre post. bt_insert k v m = pre @ (k, v) # post \<and> (\<exists>mid. m = pre @ mid) "
proof (induction k v m rule: bt_insert.induct)
  case (2 k v k' v' m)
  show ?case
  proof (cases "k < k' \<or> k = k'")
    case True
    then show ?thesis by auto
  next
    case False
    then obtain pre post mid where "bt_insert k v m = pre @ (k, v) # post" "m = pre @ mid" using 2 by auto
    then have "bt_insert k v ((k', v') # m) = ((k', v') # pre) @ (k, v) # post" "(k', v') # m = ((k', v') # pre) @ mid" using False by auto
    then show ?thesis by blast
  qed
qed auto

lemma runs_then_bad:
  assumes "runs a cs cs'" "\<And>n. \<exists>e. parse_line n l cs' = Inl e"
  shows "\<exists>e. parse_lines (a @ l # b) n cs = Inl e"
  using assms(1) assms(2) [of "n + length a"] by (auto simp: runs_def parse_lines_append)

lemma whole_ns_lines:
  assumes "config_ok cfg" "10 \<notin> set name"
  shows "list_all whole_line (ini_lines (cfg\<lparr>cf_namespaces := bt_insert name n (cf_namespaces cfg)\<rparr>))"
proof -
  have "whole_line (entry_line name (dec n))"
    using dec_text [of n] dec_digits [of n] plain_last [of "dec n"] assms(2) by (auto simp: whole_line_def strip_cr_def entry_line_def ini_text_def)
  moreover have "whole_line (entry_line k (dec v))" if "(k, v) \<in> set (cf_namespaces cfg)" for k v
    using ini_lines_whole [OF assms(1)] that by (auto simp: ini_lines_head list_all_iff)
  ultimately have "list_all whole_line (map (\<lambda>(k, v). entry_line k (dec v)) (bt_insert name n (cf_namespaces cfg)))"
    using set_bt_insert [of name n "cf_namespaces cfg"] by (auto simp: list_all_iff)
  then show ?thesis using ini_lines_whole [OF assms(1)] by (cases "cf_opcodes cfg = []") (simp_all add: ini_lines_head head_lines_def)
qed

text \<open>
  A name can make the file unreadable. The writer does not quote: after \<^verbatim>\<open>ns create\<close> of a name that
  holds an equals sign, a call the target accepted, the file written no longer parses, so the load that
  every later command starts with fails.
\<close>

theorem ns_name_breaks_config:
  assumes "config_ok cfg" "61 \<in> set name" "10 \<notin> set name" "35 \<notin> set name" "59 \<notin> set name"
    and "ns_create rpc write_ok name nsid options (cfg, f) = (Inr n, cfg', f')"
  shows "\<exists>e. load_from f' = Inl e"
proof -
  from create_cases [OF assms(6)] have c: "cfg' = cfg\<lparr>cf_namespaces := bt_insert name n (cf_namespaces cfg)\<rparr>" "f' = Text (to_ini cfg')" by simp_all
  obtain pre post mid where sp: "bt_insert name n (cf_namespaces cfg) = pre @ (name, n) # post" "cf_namespaces cfg = pre @ mid"
    using bt_insert_split [of name n "cf_namespaces cfg"] by blast
  have pre: "bt_ok pre" "\<forall>(k, v) \<in> set pre. ini_key k \<and> v < 2 ^ 32"
    using assms(1) sp(2) by (auto simp: config_ok_def bt_ok_def sorted_wrt_append)
  have "runs (head_lines cfg @ map (\<lambda>(k, v). entry_line k (dec v)) pre) (default_config, []) ((base_config cfg)\<lparr>cf_namespaces := pre\<rparr>, py ''namespaces'')"
    by (rule runs_append [OF runs_head [OF assms(1)] runs_namespaces [OF pre]]) (simp add: base_config_def)
  then have bad: "\<exists>e. parse_lines ((head_lines cfg @ map (\<lambda>(k, v). entry_line k (dec v)) pre) @ entry_line name (dec n) # rest) 1 (default_config, []) = Inl e" for rest
    by (rule runs_then_bad) (rule bad_name_line [OF assms(2,4,5)])
  have "\<exists>rest. ini_lines cfg' = (head_lines cfg @ map (\<lambda>(k, v). entry_line k (dec v)) pre) @ entry_line name (dec n) # rest"
    by (simp add: ini_lines_head c(1) sp(1) head_lines_def)
  then obtain e where "parse_lines (ini_lines cfg') 1 (default_config, []) = Inl e" using bad by metis
  then show ?thesis using str_lines_concat [OF whole_ns_lines [OF assms(1,3)], of n] c by (simp add: load_from_def config_parse_def to_ini_lines)
qed

theorem ns_name_breaks_config_witness:
  "\<exists>cfg' f' e. ns_create (\<lambda>p. Some 7) True (py ''m=x'') None [py ''pool=p''] (config_ex, No_file) = (Inr 7, cfg', f') \<and> load_from f' = Inl e"
proof -
  have "61 \<in> set (py ''m=x'')" "10 \<notin> set (py ''m=x'')" "35 \<notin> set (py ''m=x'')" "59 \<notin> set (py ''m=x'')" by (simp_all add: py_def)
  from ns_name_breaks_config [OF config_ex_ok this config_ex_create] show ?thesis unfolding config_ex_create by blast
qed

end
