(* ===== verification/RkvProto.thy ===== *)
theory RkvProto
  imports RkvText
begin

text \<open>
  The framing between the command-line client and its session daemon (\<^verbatim>\<open>clients/rkv/src/proto.rs\<close>):
  requests and responses, their encoders, and the decoders over a byte stream.

  A stream is the list of the bytes that arrive before it ends, and a reader hands back what it has not
  consumed; a cursor over a wire_frame body is the rest of the body. An \<open>io::Error\<close> is its kind.
\<close>

section \<open>Messages\<close>

datatype request = Q_store nat rstr bytes | Q_get nat rstr | Q_exec nat nat rstr bytes | Q_ping | Q_shutdown

datatype response = A_ok bytes | A_err rstr

datatype io_kind = Io_eof | Io_invalid

definition tag_store :: byte where "tag_store = 1"
definition tag_get :: byte where "tag_get = 2"
definition tag_exec :: byte where "tag_exec = 3"
definition tag_ping :: byte where "tag_ping = 4"
definition tag_shutdown :: byte where "tag_shutdown = 5"
definition tag_ok :: byte where "tag_ok = 1"
definition tag_err :: byte where "tag_err = 2"

lemmas tags = tag_store_def tag_get_def tag_exec_def tag_ping_def tag_shutdown_def tag_ok_def tag_err_def

definition max_frame :: nat where
  "max_frame = 80 * 1024 * 1024"

section \<open>Writing\<close>

definition put_u32 :: "nat \<Rightarrow> bytes" where
  "put_u32 v = le_bytes 4 v"

definition put_bytes :: "bytes \<Rightarrow> bytes" where
  "put_bytes b = put_u32 (u32 (length b)) @ b"

definition wire_frame :: "bytes \<Rightarrow> bytes" where
  "wire_frame body = put_u32 (u32 (length body)) @ body"

definition request_body :: "request \<Rightarrow> bytes" where
  "request_body r =
    (case r of
       Q_store nsid key val \<Rightarrow> tag_store # put_u32 nsid @ put_bytes (utf8 key) @ put_bytes val
     | Q_get nsid key \<Rightarrow> tag_get # put_u32 nsid @ put_bytes (utf8 key)
     | Q_exec nsid op_id key input \<Rightarrow> tag_exec # put_u32 nsid @ put_u32 op_id @ put_bytes (utf8 key) @ put_bytes input
     | Q_ping \<Rightarrow> [tag_ping]
     | Q_shutdown \<Rightarrow> [tag_shutdown])"

definition request_encode :: "request \<Rightarrow> bytes" where
  "request_encode r = wire_frame (request_body r)"

definition response_body :: "response \<Rightarrow> bytes" where
  "response_body r = (case r of A_ok payload \<Rightarrow> tag_ok # payload | A_err msg \<Rightarrow> tag_err # utf8 msg)"

definition response_encode :: "response \<Rightarrow> bytes" where
  "response_encode r = wire_frame (response_body r)"

section \<open>Reading\<close>

type_synonym 'a reader = "bytes \<Rightarrow> io_kind + 'a \<times> bytes"

definition andThen :: "'a reader \<Rightarrow> ('a \<Rightarrow> 'b reader) \<Rightarrow> 'b reader" where
  "andThen p f bs = (case p bs of Inl e \<Rightarrow> Inl e | Inr (x, rest) \<Rightarrow> f x rest)"

definition read_ret :: "'a \<Rightarrow> 'a reader" where
  "read_ret x bs = Inr (x, bs)"

definition andOk :: "'a reader \<Rightarrow> ('a \<Rightarrow> io_kind + 'b) \<Rightarrow> 'b reader" where
  "andOk p f bs = (case p bs of Inl e \<Rightarrow> Inl e | Inr (x, rest) \<Rightarrow> (case f x of Inl e \<Rightarrow> Inl e | Inr y \<Rightarrow> Inr (y, rest)))"

lemma andOk_Inr: "andOk p f bs = Inr (y, rest) \<longleftrightarrow> (\<exists>x. p bs = Inr (x, rest) \<and> f x = Inr y)"
  by (cases "p bs") (auto simp: andOk_def split: sum.splits)

lemma andThen_Inr: "andThen p f bs = Inr (y, rest) \<longleftrightarrow> (\<exists>x r. p bs = Inr (x, r) \<and> f x r = Inr (y, rest))"
  by (auto simp: andThen_def split: sum.splits)

lemma read_ret_Inr [simp]: "read_ret x bs = Inr (y, r) \<longleftrightarrow> x = y \<and> bs = r"
  by (simp add: read_ret_def)

definition read_exact :: "nat \<Rightarrow> bytes reader" where
  "read_exact n bs = (if n \<le> length bs then Inr (take n bs, drop n bs) else Inl Io_eof)"

definition read_frame :: "bytes reader" where
  "read_frame = andThen (read_exact 4) (\<lambda>lenbuf bs.
    let len = le_val lenbuf in
    if len = 0 \<or> len > max_frame then Inl Io_invalid else read_exact len bs)"

definition cursor_take :: "nat \<Rightarrow> bytes reader" where
  "cursor_take n bs = (if n > length bs then Inl Io_invalid else Inr (take n bs, drop n bs))"

definition cursor_u8 :: "byte reader" where
  "cursor_u8 = andThen (cursor_take 1) (\<lambda>s. read_ret (s ! 0))"

definition cursor_u32 :: "nat reader" where
  "cursor_u32 = andThen (cursor_take 4) (\<lambda>s. read_ret (le_val s))"

definition cursor_bytes :: "bytes reader" where
  "cursor_bytes = andThen cursor_u32 cursor_take"

definition cursor_string :: "rstr reader" where
  "cursor_string = andOk cursor_bytes (\<lambda>b. case from_utf8 b of Some s \<Rightarrow> Inr s | None \<Rightarrow> Inl Io_invalid)"

definition expect_end :: "bytes \<Rightarrow> io_kind + unit" where
  "expect_end bs = (if bs \<noteq> [] then Inl Io_invalid else Inr ())"

definition request_fields :: "byte \<Rightarrow> request reader" where
  "request_fields tag =
    (if tag = tag_store then andThen cursor_u32 (\<lambda>nsid. andThen cursor_string (\<lambda>key. andThen cursor_bytes (\<lambda>val. read_ret (Q_store nsid key val))))
     else if tag = tag_get then andThen cursor_u32 (\<lambda>nsid. andThen cursor_string (\<lambda>key. read_ret (Q_get nsid key)))
     else if tag = tag_exec then andThen cursor_u32 (\<lambda>nsid. andThen cursor_u32 (\<lambda>op_id. andThen cursor_string (\<lambda>key.
       andThen cursor_bytes (\<lambda>input. read_ret (Q_exec nsid op_id key input)))))
     else if tag = tag_ping then read_ret Q_ping
     else if tag = tag_shutdown then read_ret Q_shutdown
     else (\<lambda>bs. Inl Io_invalid))"

definition request_decode :: "bytes \<Rightarrow> io_kind + request" where
  "request_decode body =
    (case andThen cursor_u8 request_fields body of
       Inl e \<Rightarrow> Inl e
     | Inr (req, rest) \<Rightarrow> (case expect_end rest of Inl e \<Rightarrow> Inl e | Inr _ \<Rightarrow> Inr req))"

definition request_read_from :: "request reader" where
  "request_read_from = andOk read_frame request_decode"

definition response_decode :: "bytes \<Rightarrow> io_kind + response" where
  "response_decode body =
    (case body of
       [] \<Rightarrow> Inl Io_invalid
     | tag # rest \<Rightarrow>
         if tag = tag_ok then Inr (A_ok rest)
         else if tag = tag_err then (case from_utf8 rest of Some msg \<Rightarrow> Inr (A_err msg) | None \<Rightarrow> Inl Io_invalid)
         else Inl Io_invalid)"

definition response_read_from :: "response reader" where
  "response_read_from = andOk read_frame response_decode"

section \<open>Reading is the inverse of writing\<close>

lemma le_bytes_le_val: "le_bytes (length bs) (le_val bs) = bs"
proof (induction bs)
  case (Cons b bs)
  have "unat b < 256" using unsigned_less [of b] by simp
  then show ?case using Cons by simp
qed simp

lemma le_val_four: "length bs = 4 \<Longrightarrow> le_val bs < 2 ^ 32 \<and> put_u32 (le_val bs) = bs"
  using le_val_bound [of bs] le_bytes_le_val [of bs] by (simp add: put_u32_def)

lemma put_u32_val: "v < 2 ^ 32 \<Longrightarrow> le_val (put_u32 v) = v"
  by (simp add: put_u32_def le_val_le_bytes)

lemma length_put_u32 [simp]: "length (put_u32 v) = 4"
  by (simp add: put_u32_def)

lemma take_prefix: "n \<le> length bs \<Longrightarrow> (take n bs = x \<and> drop n bs = r) = (bs = x @ r \<and> length x = n)"
  by (metis append_eq_conv_conj append_take_drop_id length_take min.absorb2)

lemma cursor_take_iff: "cursor_take n bs = Inr (x, r) \<longleftrightarrow> bs = x @ r \<and> length x = n"
  using take_prefix [of n bs x r] by (auto simp: cursor_take_def)

lemma read_exact_iff: "read_exact n bs = Inr (x, r) \<longleftrightarrow> bs = x @ r \<and> length x = n"
  using take_prefix [of n bs x r] by (auto simp: read_exact_def)

lemma cursor_u8_iff: "cursor_u8 bs = Inr (t, r) \<longleftrightarrow> bs = t # r"
  by (auto simp: cursor_u8_def andThen_Inr cursor_take_iff length_Suc_conv)

lemma cursor_u32_iff: "cursor_u32 bs = Inr (v, r) \<longleftrightarrow> bs = put_u32 v @ r \<and> v < 2 ^ 32"
proof -
  have "(\<exists>x. bs = x @ r \<and> length x = 4 \<and> le_val x = v) \<longleftrightarrow> bs = put_u32 v @ r \<and> v < 2 ^ 32"
    using le_val_four put_u32_val length_put_u32 by metis
  then show ?thesis by (auto simp: cursor_u32_def andThen_Inr cursor_take_iff)
qed

lemma cursor_bytes_iff: "cursor_bytes bs = Inr (b, r) \<longleftrightarrow> bs = put_bytes b @ r \<and> length b < 2 ^ 32"
  by (auto simp: cursor_bytes_def andThen_Inr cursor_take_iff cursor_u32_iff put_bytes_def u32_def)

lemma from_utf8_iff: "from_utf8 b = Some s \<longleftrightarrow> b = utf8 s \<and> rstr_ok s"
  using from_utf8_canonical [of b s] from_utf8_utf8 [of s] by auto

lemma cursor_string_iff: "cursor_string bs = Inr (s, r) \<longleftrightarrow> bs = put_bytes (utf8 s) @ r \<and> length (utf8 s) < 2 ^ 32 \<and> rstr_ok s"
proof -
  have "(case from_utf8 b of Some s \<Rightarrow> Inr s | None \<Rightarrow> Inl Io_invalid) = Inr s \<longleftrightarrow> b = utf8 s \<and> rstr_ok s" for b
    using from_utf8_iff [of b s] by (auto split: option.splits)
  then show ?thesis by (auto simp: cursor_string_def andOk_Inr cursor_bytes_iff)
qed

lemmas cursor_iffs = cursor_u8_iff cursor_u32_iff cursor_bytes_iff cursor_string_iff andThen_Inr

lemma read_frame_iff: "read_frame bs = Inr (body, r) \<longleftrightarrow> bs = wire_frame body @ r \<and> body \<noteq> [] \<and> length body \<le> max_frame"
proof -
  have m: "max_frame < 2 ^ 32" by (simp add: max_frame_def)
  have "read_frame bs = Inr (body, r) \<longleftrightarrow> (\<exists>x. bs = x @ body @ r \<and> length x = 4 \<and> le_val x = length body \<and> 0 < le_val x \<and> le_val x \<le> max_frame)"
  proof -
    have "(if len = 0 \<or> len > max_frame then Inl Io_invalid else read_exact len rs) = Inr (body, r)
        \<longleftrightarrow> rs = body @ r \<and> length body = len \<and> 0 < len \<and> len \<le> max_frame" for len rs
      using read_exact_iff [of len rs body r] by auto
    then show ?thesis unfolding read_frame_def andThen_Inr read_exact_iff Let_def by auto
  qed
  also have "\<dots> \<longleftrightarrow> bs = wire_frame body @ r \<and> body \<noteq> [] \<and> length body \<le> max_frame"
  proof
    assume "\<exists>x. bs = x @ body @ r \<and> length x = 4 \<and> le_val x = length body \<and> 0 < le_val x \<and> le_val x \<le> max_frame"
    then obtain x where x: "bs = x @ body @ r" "length x = 4" "le_val x = length body" "0 < length body" "length body \<le> max_frame" by auto
    have "put_u32 (u32 (length body)) = x" using le_val_four [OF x(2)] x(3,5) m by (simp add: u32_def)
    then show "bs = wire_frame body @ r \<and> body \<noteq> [] \<and> length body \<le> max_frame" using x by (simp add: wire_frame_def)
  next
    assume a: "bs = wire_frame body @ r \<and> body \<noteq> [] \<and> length body \<le> max_frame"
    then have "le_val (put_u32 (u32 (length body))) = length body" using m by (simp add: put_u32_val u32_def)
    then show "\<exists>x. bs = x @ body @ r \<and> length x = 4 \<and> le_val x = length body \<and> 0 < le_val x \<and> le_val x \<le> max_frame"
      using a by (intro exI [of _ "put_u32 (u32 (length body))"]) (auto simp: wire_frame_def)
  qed
  finally show ?thesis .
qed

text \<open>The requests and responses that a frame can carry.\<close>

definition message_ok :: "request \<Rightarrow> bool" where
  "message_ok r =
    (case r of
       Q_store nsid key val \<Rightarrow> nsid < 2 ^ 32 \<and> rstr_ok key
     | Q_get nsid key \<Rightarrow> nsid < 2 ^ 32 \<and> rstr_ok key
     | Q_exec nsid op_id key input \<Rightarrow> nsid < 2 ^ 32 \<and> op_id < 2 ^ 32 \<and> rstr_ok key
     | _ \<Rightarrow> True)"

definition request_fits :: "request \<Rightarrow> bool" where
  "request_fits r = (message_ok r \<and> length (request_body r) \<le> max_frame)"

definition response_fits :: "response \<Rightarrow> bool" where
  "response_fits r = ((case r of A_ok _ \<Rightarrow> True | A_err msg \<Rightarrow> rstr_ok msg) \<and> length (response_body r) \<le> max_frame)"

lemma request_fields_iff:
  "request_fields t bs = Inr (r, rest) \<longleftrightarrow> t # bs = request_body r @ rest \<and> message_ok r
    \<and> (case r of Q_store _ key val \<Rightarrow> length (utf8 key) < 2 ^ 32 \<and> length val < 2 ^ 32
       | Q_get _ key \<Rightarrow> length (utf8 key) < 2 ^ 32
       | Q_exec _ _ key input \<Rightarrow> length (utf8 key) < 2 ^ 32 \<and> length input < 2 ^ 32 | _ \<Rightarrow> True)"
  by (cases r) (auto simp: request_fields_def cursor_iffs request_body_def message_ok_def tags)

lemma request_body_ne: "request_body r \<noteq> []"
  by (cases r) (simp_all add: request_body_def)

lemma body_sizes:
  "length (request_body r) \<le> max_frame \<Longrightarrow>
    (case r of Q_store _ key val \<Rightarrow> length (utf8 key) < 2 ^ 32 \<and> length val < 2 ^ 32
     | Q_get _ key \<Rightarrow> length (utf8 key) < 2 ^ 32
     | Q_exec _ _ key input \<Rightarrow> length (utf8 key) < 2 ^ 32 \<and> length input < 2 ^ 32 | _ \<Rightarrow> True)"
  by (cases r) (simp_all add: request_body_def put_bytes_def max_frame_def)

lemma request_decode_iff:
  assumes "length body \<le> max_frame"
  shows "request_decode body = Inr r \<longleftrightarrow> body = request_body r \<and> message_ok r"
proof -
  have "request_decode body = Inr r \<longleftrightarrow> andThen cursor_u8 request_fields body = Inr (r, [])"
    by (auto simp: request_decode_def expect_end_def split: sum.splits if_splits)
  also have "\<dots> \<longleftrightarrow> body = request_body r \<and> message_ok r"
    using assms body_sizes [of r] request_body_ne [of r] by (auto simp: cursor_iffs request_fields_iff neq_Nil_conv)
  finally show ?thesis .
qed

lemma request_read_iff: "request_read_from bs = Inr (r, rest) \<longleftrightarrow> bs = request_encode r @ rest \<and> request_fits r"
  using request_body_ne [of r]
  by (auto simp: request_read_from_def andOk_Inr read_frame_iff request_decode_iff request_encode_def request_fits_def)

lemma response_decode_iff:
  "response_decode body = Inr r \<longleftrightarrow> body = response_body r \<and> (case r of A_ok _ \<Rightarrow> True | A_err msg \<Rightarrow> rstr_ok msg)"
  by (cases r) (auto simp: response_decode_def response_body_def tags from_utf8_utf8 dest: from_utf8_canonical split: list.splits option.splits)

lemma response_read_iff: "response_read_from bs = Inr (r, rest) \<longleftrightarrow> bs = response_encode r @ rest \<and> response_fits r"
proof -
  have ne: "response_body r \<noteq> []" by (cases r) (simp_all add: response_body_def)
  have "response_read_from bs = Inr (r, rest) \<longleftrightarrow> (\<exists>body. (bs = wire_frame body @ rest \<and> body \<noteq> [] \<and> length body \<le> max_frame)
      \<and> body = response_body r \<and> (case r of A_ok _ \<Rightarrow> True | A_err msg \<Rightarrow> rstr_ok msg))"
    by (simp only: response_read_from_def andOk_Inr read_frame_iff response_decode_iff)
  then show ?thesis using ne unfolding response_encode_def response_fits_def by blast
qed

interpretation requests: stream_codec request_encode "\<lambda>bs. case request_read_from bs of Inr x \<Rightarrow> Some x | Inl _ \<Rightarrow> None" request_fits
  by unfold_locales (simp add: request_read_iff [THEN iffD2])

interpretation responses: stream_codec response_encode "\<lambda>bs. case response_read_from bs of Inr x \<Rightarrow> Some x | Inl _ \<Rightarrow> None" response_fits
  by unfold_locales (simp add: response_read_iff [THEN iffD2])

text \<open>
  C29. The framing is exact. Reading a request (a response) from a stream succeeds precisely when the stream
  begins with the encoding of that message, the message being one a frame can carry, and leaves exactly
  the bytes behind it: what is written is read back, nothing else is accepted, and no byte of the next
  message is consumed.
\<close>

theorem frames_exact:
  "(request_read_from bs = Inr (q, rest) \<longleftrightarrow> bs = request_encode q @ rest \<and> request_fits q)
    \<and> (response_read_from bs = Inr (a, rest) \<longleftrightarrow> bs = response_encode a @ rest \<and> response_fits a)"
  by (simp add: request_read_iff response_read_iff)

end
