(* ===== verification/RkvDaemon.thy ===== *)
theory RkvDaemon
  imports RkvProto VfuOpen
begin

text \<open>
  The session daemon of the command-line client (\<^verbatim>\<open>clients/rkv/src/daemon.rs\<close>): one connection, the accept
  loop around it, and the fast path by which a command hands its operation to a live daemon.

  A connection is the bytes the client sends before it hangs up, and \<open>takes\<close>, the number of responses it
  still accepts. \<open>render\<close> is the text of an error. A link says what the socket does for a client:
  whether the file exists, the connection is accepted, and each of the two writes goes through. Read
  timeouts appear as the end of a stream.
\<close>

section \<open>Serving\<close>

text \<open>A Store has no bytes to give back.\<close>

definition as_bytes :: "(cli_error + unit) \<times> host \<times> 's \<Rightarrow> (cli_error + bytes) \<times> host \<times> 's" where
  "as_bytes r = (case r of (Inr _, hs) \<Rightarrow> (Inr [], hs) | (Inl e, hs) \<Rightarrow> (Inl e, hs))"

text \<open>No response stands for the \<open>unreachable!\<close> of the operations that the caller handles itself.\<close>

definition serve_op :: "client_env \<Rightarrow> 's target \<Rightarrow> (cli_error \<Rightarrow> rstr) \<Rightarrow> request \<Rightarrow> host \<times> 's \<Rightarrow> response option \<times> host \<times> 's" where
  "serve_op env dev render op hs =
    (let reply = (\<lambda>(r, hs'). (Some (case r of Inr bytes \<Rightarrow> A_ok bytes | Inl e \<Rightarrow> A_err (render e)), hs')) in
     case op of
       Q_store nsid key val \<Rightarrow> reply (as_bytes (session_store env dev nsid (utf8 key) val hs))
     | Q_get nsid key \<Rightarrow> reply (session_retrieve env dev nsid (utf8 key) hs)
     | Q_exec nsid op_id key input \<Rightarrow> reply (session_exec env dev nsid (utf8 key) op_id input hs)
     | _ \<Rightarrow> (None, hs))"

datatype conn_end = End_closed | End_shutdown | End_panic

lemma request_read_shrinks: "request_read_from bs = Inr (q, rest) \<Longrightarrow> length rest < length bs"
  by (auto simp: request_read_iff request_encode_def wire_frame_def)

function handle_conn :: "client_env \<Rightarrow> 's target \<Rightarrow> (cli_error \<Rightarrow> rstr) \<Rightarrow> nat \<Rightarrow> bytes \<Rightarrow> host \<times> 's \<Rightarrow> conn_end \<times> bytes \<times> host \<times> 's" where
  "handle_conn env dev render takes bs hs =
    (case request_read_from bs of
       Inl e \<Rightarrow> (End_closed, [], hs)
     | Inr (q, rest) \<Rightarrow>
         let answer = (\<lambda>a hs'.
           if takes = 0 then (End_closed, [], hs')
           else case handle_conn env dev render (takes - 1) rest hs' of (e, out, hs'') \<Rightarrow> (e, response_encode a @ out, hs'')) in
         case q of
           Q_ping \<Rightarrow> answer (A_ok []) hs
         | Q_shutdown \<Rightarrow> (End_shutdown, if takes = 0 then [] else response_encode (A_ok []), hs)
         | op \<Rightarrow>
             (case serve_op env dev render op hs of
                (None, hs') \<Rightarrow> (End_panic, [], hs')
              | (Some a, hs') \<Rightarrow> answer a hs'))"
  by pat_completeness auto
termination
  by (relation "measure (\<lambda>(env, dev, render, takes, bs, hs). length bs)") (auto dest: request_read_shrinks)

declare handle_conn.simps [simp del]

text \<open>
  The accept loop: what each turn of the listener gives, a connection or nothing, and whether a stop was
  asked for before it is looked at. The result is the bytes sent on each connection.
\<close>

datatype accepted = No_conn | Conn nat bytes

primrec daemon_loop :: "client_env \<Rightarrow> 's target \<Rightarrow> (cli_error \<Rightarrow> rstr) \<Rightarrow> (bool \<times> accepted) list \<Rightarrow> host \<times> 's \<Rightarrow> bytes list \<times> host \<times> 's" where
  "daemon_loop env dev render [] hs = ([], hs)"
| "daemon_loop env dev render (ev # evs) hs =
    (case ev of (stopping, a) \<Rightarrow>
      if stopping then ([], hs)
      else case a of
        No_conn \<Rightarrow> daemon_loop env dev render evs hs
      | Conn takes bs \<Rightarrow>
          (case handle_conn env dev render takes bs hs of
             (e, out, hs') \<Rightarrow>
               if e \<noteq> End_closed then ([out], hs')
               else case daemon_loop env dev render evs hs' of (outs, hs'') \<Rightarrow> (out # outs, hs'')))"

datatype daemon_error = D_open | D_bind

text \<open>The process: the session first, then the socket, then the loop; the session is dropped at the end.\<close>

definition daemon_run :: "client_env \<Rightarrow> 's target \<Rightarrow> (cli_error \<Rightarrow> rstr) \<Rightarrow> 'b bus \<Rightarrow> bool \<Rightarrow> bool \<Rightarrow> bool \<Rightarrow> (bool \<times> accepted) list
    \<Rightarrow> bool \<times> 'b open_state \<Rightarrow> 's \<Rightarrow> (daemon_error + bytes list) \<times> 'b open_state \<times> 's" where
  "daemon_run env dev render bus init_ok room bind_ok evs gst s =
    (case nkvx_open bus init_ok room gst of
       (None, g, st) \<Rightarrow> (Inl D_open, st, s)
     | (Some h, g, st) \<Rightarrow>
         if \<not> bind_ok then (Inl D_bind, nkvx_close (Some h) st, s)
         else case daemon_loop env dev render evs (h, s) of
           (outs, h', s') \<Rightarrow> (Inr outs, nkvx_close (Some h') st, s'))"

section \<open>Forwarding\<close>

record link =
  ln_exists :: bool
  ln_connects :: bool
  ln_write_ping :: bool
  ln_write_op :: bool

datatype forward_error = F_write | F_read io_kind

text \<open>
  \<open>peer\<close> is the other end of the connection: for the bytes sent so far, the bytes it has sent. The
  response to the operation is read behind the bytes the first response took.
\<close>

definition try_forward :: "link \<Rightarrow> (bytes \<Rightarrow> 'd \<Rightarrow> conn_end \<times> bytes \<times> 'd) \<Rightarrow> request \<Rightarrow> 'd \<Rightarrow> (forward_error + response option) \<times> 'd" where
  "try_forward ln peer req d =
    (if \<not> ln_exists ln \<or> \<not> ln_connects ln \<or> \<not> ln_write_ping ln then (Inr None, d)
     else
       let ping = request_encode Q_ping in
       case peer ping d of
         (e1, out1, d1) \<Rightarrow>
           (case response_read_from out1 of
              Inr (A_ok payload, rest) \<Rightarrow>
                if \<not> ln_write_op ln then (Inl F_write, d1)
                else (case peer (ping @ request_encode req) d of
                  (e2, out2, d2) \<Rightarrow>
                    (case response_read_from (drop (length out1 - length rest) out2) of
                       Inl e \<Rightarrow> (Inl (F_read e), d2)
                     | Inr (resp, _) \<Rightarrow> (Inr (Some resp), d2)))
            | _ \<Rightarrow> (Inr None, d1)))"

text \<open>The probe of \<^verbatim>\<open>daemon status\<close>, \<^verbatim>\<open>start\<close> and \<^verbatim>\<open>stop\<close>.\<close>

definition daemon_ping :: "link \<Rightarrow> (bytes \<Rightarrow> 'd \<Rightarrow> conn_end \<times> bytes \<times> 'd) \<Rightarrow> 'd \<Rightarrow> bool \<times> 'd" where
  "daemon_ping ln peer d =
    (if \<not> ln_exists ln \<or> \<not> ln_connects ln \<or> \<not> ln_write_ping ln then (False, d)
     else case peer (request_encode Q_ping) d of
       (e, out, d') \<Rightarrow> (case response_read_from out of Inr (A_ok _, _) \<Rightarrow> True | _ \<Rightarrow> False, d'))"

definition link_up :: "link \<Rightarrow> bool" where
  "link_up ln = (ln_exists ln \<and> ln_connects ln \<and> ln_write_ping ln \<and> ln_write_op ln)"

text \<open>What a command does with the answer: take it, fail with the daemon's text, or open a session of its own.\<close>

datatype op_error = O_daemon rstr | O_forward forward_error | O_open | O_session cli_error

definition via_daemon :: "link \<Rightarrow> (bytes \<Rightarrow> host \<times> 's \<Rightarrow> conn_end \<times> bytes \<times> host \<times> 's) \<Rightarrow> request
    \<Rightarrow> (host \<times> 's \<Rightarrow> (cli_error + bytes) \<times> host \<times> 's) \<Rightarrow> host option \<Rightarrow> host \<times> 's \<Rightarrow> (op_error + bytes) \<times> host \<times> 's" where
  "via_daemon ln peer req direct sess hs =
    (case try_forward ln peer req hs of
       (Inl e, hs') \<Rightarrow> (Inl (O_forward e), hs')
     | (Inr (Some (A_ok bytes)), hs') \<Rightarrow> (Inr bytes, hs')
     | (Inr (Some (A_err msg)), hs') \<Rightarrow> (Inl (O_daemon msg), hs')
     | (Inr None, hs') \<Rightarrow>
         (case sess of
            None \<Rightarrow> (Inl O_open, hs')
          | Some h \<Rightarrow>
              (case direct (h, snd hs') of
                 (Inl e, _, s') \<Rightarrow> (Inl (O_session e), fst hs', s')
               | (Inr bytes, _, s') \<Rightarrow> (Inr bytes, fst hs', s'))))"

definition store_route :: "client_env \<Rightarrow> 's target \<Rightarrow> link \<Rightarrow> (bytes \<Rightarrow> host \<times> 's \<Rightarrow> conn_end \<times> bytes \<times> host \<times> 's) \<Rightarrow> host option \<Rightarrow> nat \<Rightarrow> rstr \<Rightarrow> bytes
    \<Rightarrow> host \<times> 's \<Rightarrow> (op_error + bytes) \<times> host \<times> 's" where
  "store_route env dev ln peer sess nsid key val =
    via_daemon ln peer (Q_store nsid key val) (\<lambda>hs. as_bytes (session_store env dev nsid (utf8 key) val hs)) sess"

definition get_route :: "client_env \<Rightarrow> 's target \<Rightarrow> link \<Rightarrow> (bytes \<Rightarrow> host \<times> 's \<Rightarrow> conn_end \<times> bytes \<times> host \<times> 's) \<Rightarrow> host option \<Rightarrow> nat \<Rightarrow> rstr
    \<Rightarrow> host \<times> 's \<Rightarrow> (op_error + bytes) \<times> host \<times> 's" where
  "get_route env dev ln peer sess nsid key = via_daemon ln peer (Q_get nsid key) (session_retrieve env dev nsid (utf8 key)) sess"

definition exec_route :: "client_env \<Rightarrow> 's target \<Rightarrow> link \<Rightarrow> (bytes \<Rightarrow> host \<times> 's \<Rightarrow> conn_end \<times> bytes \<times> host \<times> 's) \<Rightarrow> host option \<Rightarrow> nat \<Rightarrow> nat \<Rightarrow> rstr \<Rightarrow> bytes
    \<Rightarrow> host \<times> 's \<Rightarrow> (op_error + bytes) \<times> host \<times> 's" where
  "exec_route env dev ln peer sess nsid op_id key input =
    via_daemon ln peer (Q_exec nsid op_id key input) (session_exec env dev nsid (utf8 key) op_id input) sess"

section \<open>One connection\<close>

lemma request_read_encode: "request_fits q \<Longrightarrow> request_read_from (request_encode q @ rest) = Inr (q, rest)"
  by (simp add: request_read_iff)

lemma response_read_encode: "response_fits a \<Longrightarrow> response_read_from (response_encode a @ rest) = Inr (a, rest)"
  by (simp add: response_read_iff)

lemma small_fits: "request_fits Q_ping" "response_fits (A_ok [])"
  by (simp_all add: request_fits_def message_ok_def request_body_def response_fits_def response_body_def max_frame_def)

lemma read_nothing: "request_read_from [] = Inl Io_eof" "response_read_from [] = Inl Io_eof"
  by (simp_all add: request_read_from_def response_read_from_def andOk_def read_frame_def andThen_def read_exact_def)

definition is_op :: "request \<Rightarrow> bool" where
  "is_op q = (q \<noteq> Q_ping \<and> q \<noteq> Q_shutdown)"

lemma serve_op_answers: "is_op q \<Longrightarrow> \<exists>a hs'. serve_op env dev render q hs = (Some a, hs')"
  by (cases q) (auto simp: is_op_def serve_op_def Let_def split: prod.split)

lemma handle_end: "handle_conn env dev render n [] hs = (End_closed, [], hs)"
  by (simp add: handle_conn.simps [of env dev render n "[]"] read_nothing)

lemma handle_ping:
  "handle_conn env dev render (Suc n) (request_encode Q_ping @ rest) hs
    = (case handle_conn env dev render n rest hs of (e, out, hs') \<Rightarrow> (e, response_encode (A_ok []) @ out, hs'))"
  by (subst handle_conn.simps) (simp add: request_read_encode [OF small_fits(1)] Let_def)

lemma handle_op:
  assumes "request_fits q" "is_op q" "serve_op env dev render q hs = (Some a, hs')"
  shows "handle_conn env dev render (Suc n) (request_encode q @ rest) hs
    = (case handle_conn env dev render n rest hs' of (e, out, hs'') \<Rightarrow> (e, response_encode a @ out, hs''))"
  using assms(2,3) request_read_encode [OF assms(1), of rest]
  by (subst handle_conn.simps) (cases q, simp_all add: is_op_def Let_def)

lemma handle_no_panic: "fst (handle_conn env dev render n bs hs) \<noteq> End_panic"
proof (induction env dev render n bs hs rule: handle_conn.induct)
  case (1 env dev render takes bs hs)
  show ?case
  proof (cases "request_read_from bs")
    case (Inl e)
    then show ?thesis by (subst handle_conn.simps) simp
  next
    case (Inr p)
    obtain q rest where p: "p = (q, rest)" by fastforce
    have IH: "fst (handle_conn env dev render (takes - 1) rest hs') \<noteq> End_panic" if "takes \<noteq> 0" for hs'
      using 1 [OF Inr p [symmetric] that] .
    obtain a hs' where "is_op q \<longrightarrow> serve_op env dev render q hs = (Some a, hs')" using serve_op_answers by blast
    then show ?thesis using Inr p IH [of hs] IH [of hs']
      by (subst handle_conn.simps) (cases q, auto simp: is_op_def Let_def split: prod.split)
  qed
qed

section \<open>The fast path\<close>

abbreviation peer_of :: "client_env \<Rightarrow> 's target \<Rightarrow> (cli_error \<Rightarrow> rstr) \<Rightarrow> bytes \<Rightarrow> host \<times> 's \<Rightarrow> conn_end \<times> bytes \<times> host \<times> 's" where
  "peer_of env dev render \<equiv> handle_conn env dev render 2"

lemma peer_ping: "peer_of env dev render (request_encode Q_ping) hs = (End_closed, response_encode (A_ok []), hs)"
  using handle_ping [of env dev render 1 "[]" hs] by (simp add: handle_end numeral_2_eq_2)

lemma forward_live:
  assumes "link_up ln" "request_fits q" "is_op q" "serve_op env dev render q hs = (Some a, hs')" "response_fits a"
  shows "try_forward ln (peer_of env dev render) q hs = (Inr (Some a), hs')"
proof -
  have "peer_of env dev render (request_encode Q_ping @ request_encode q) hs = (End_closed, response_encode (A_ok []) @ response_encode a, hs')"
    using handle_ping [of env dev render 1 "request_encode q" hs] handle_op [OF assms(2-4), of 0 "[]"] by (simp add: handle_end numeral_2_eq_2)
  then show ?thesis
    using assms(1) response_read_encode [OF small_fits(2), of "[]"] response_read_encode [OF assms(5), of "[]"]
    by (simp add: try_forward_def link_up_def peer_ping Let_def)
qed

lemma forward_absent: "\<not> ln_exists ln \<or> \<not> ln_connects ln \<or> \<not> ln_write_ping ln \<Longrightarrow> try_forward ln peer q hs = (Inr None, hs)"
  by (simp add: try_forward_def)

text \<open>What a read or an Exec returns fits a frame: the session gives out at most 64 MiB.\<close>

lemma probe_bound: "probe_and_retry raw hs = (Inr b, hs') \<Longrightarrow> length b \<le> max_value"
  by (auto simp: probe_and_retry_def retrieve_hint_def max_value_def split: prod.splits sum.splits if_splits)

lemma session_bounds:
  "session_retrieve env dev nsid key hs = (Inr b, hs') \<Longrightarrow> length b \<le> max_value"
  "session_exec env dev nsid key op_id input hs = (Inr b, hs') \<Longrightarrow> length b \<le> max_value"
  by (auto simp: session_retrieve_def session_exec_def dest: probe_bound split: if_splits)

definition renders :: "(cli_error \<Rightarrow> rstr) \<Rightarrow> bool" where
  "renders render = (\<forall>e. response_fits (A_err (render e)))"

lemma ok_fits: "length b \<le> max_value \<Longrightarrow> response_fits (A_ok b)"
  by (simp add: response_fits_def response_body_def max_value_def max_frame_def)

text \<open>The outcome of an operation as a command sees it through a daemon.\<close>

definition through :: "(cli_error \<Rightarrow> rstr) \<Rightarrow> (cli_error + bytes) \<times> host \<times> 's \<Rightarrow> (op_error + bytes) \<times> host \<times> 's" where
  "through render r = (case r of (Inr b, hs) \<Rightarrow> (Inr b, hs) | (Inl e, hs) \<Rightarrow> (Inl (O_daemon (render e)), hs))"

definition reply_of :: "(cli_error \<Rightarrow> rstr) \<Rightarrow> cli_error + bytes \<Rightarrow> response" where
  "reply_of render r = (case r of Inr b \<Rightarrow> A_ok b | Inl e \<Rightarrow> A_err (render e))"

lemma via_live:
  assumes "link_up ln" "request_fits q" "is_op q" "serve_op env dev render q hs = (Some (reply_of render r), hs')" "response_fits (reply_of render r)"
  shows "via_daemon ln (peer_of env dev render) q direct sess hs = through render (r, hs')"
  using forward_live [OF assms] by (cases r) (auto simp: via_daemon_def through_def reply_of_def split: prod.split)

lemma via_absent:
  assumes "\<not> ln_exists ln \<or> \<not> ln_connects ln \<or> \<not> ln_write_ping ln" "direct (h, s) = (Inr b, h', s')"
  shows "via_daemon ln peer q direct (Some h) (dh, s) = (Inr b, dh, s')"
  using assms by (simp add: via_daemon_def forward_absent)

lemma reply_fits: "renders render \<Longrightarrow> (\<And>b. r = Inr b \<Longrightarrow> length b \<le> max_value) \<Longrightarrow> response_fits (reply_of render r)"
  by (cases r) (auto simp: reply_of_def renders_def ok_fits)

lemma store_live:
  assumes "link_up ln" "renders render" "request_fits (Q_store nsid key val)"
  shows "store_route env dev ln (peer_of env dev render) sess nsid key val hs
    = through render (as_bytes (session_store env dev nsid (utf8 key) val hs))"
proof -
  obtain r hs' where r: "as_bytes (session_store env dev nsid (utf8 key) val hs) = (r, hs')" by (metis surj_pair)
  have e: "b = []" if "r = Inr b" for b using r that by (auto simp: as_bytes_def split: prod.splits sum.splits)
  have "serve_op env dev render (Q_store nsid key val) hs = (Some (reply_of render r), hs')"
    by (simp add: serve_op_def r reply_of_def Let_def)
  moreover have "response_fits (reply_of render r)" using assms(2) e by (intro reply_fits) auto
  ultimately show ?thesis unfolding store_route_def r using via_live [OF assms(1,3)] by (simp add: is_op_def)
qed

lemma get_live:
  assumes "link_up ln" "renders render" "request_fits (Q_get nsid key)"
  shows "get_route env dev ln (peer_of env dev render) sess nsid key hs = through render (session_retrieve env dev nsid (utf8 key) hs)"
proof -
  obtain r hs' where r: "session_retrieve env dev nsid (utf8 key) hs = (r, hs')" by (metis surj_pair)
  have "serve_op env dev render (Q_get nsid key) hs = (Some (reply_of render r), hs')" by (simp add: serve_op_def r reply_of_def Let_def)
  moreover have "response_fits (reply_of render r)" using assms(2) r session_bounds(1) by (intro reply_fits) blast+
  ultimately show ?thesis unfolding get_route_def r using via_live [OF assms(1,3)] by (simp add: is_op_def)
qed

lemma exec_live:
  assumes "link_up ln" "renders render" "request_fits (Q_exec nsid op_id key input)"
  shows "exec_route env dev ln (peer_of env dev render) sess nsid op_id key input hs = through render (session_exec env dev nsid (utf8 key) op_id input hs)"
proof -
  obtain r hs' where r: "session_exec env dev nsid (utf8 key) op_id input hs = (r, hs')" by (metis surj_pair)
  have "serve_op env dev render (Q_exec nsid op_id key input) hs = (Some (reply_of render r), hs')" by (simp add: serve_op_def r reply_of_def Let_def)
  moreover have "response_fits (reply_of render r)" using assms(2) r session_bounds(2) by (intro reply_fits) blast+
  ultimately show ?thesis unfolding exec_route_def r using via_live [OF assms(1,3)] by (simp add: is_op_def)
qed

section \<open>The rings of a session\<close>

text \<open>No operation moves the rings, so what the end of the process gives back is what the start took.\<close>

definition rings :: "host \<Rightarrow> nat list" where
  "rings h = [nq_cq_iova (nd_io (hs_dev h)), nq_sq_iova (nd_io (hs_dev h)), nq_cq_iova (nd_admin (hs_dev h)), nq_sq_iova (nd_admin (hs_dev h))]"

lemma submit_poll_admin: "nvfu_submit_poll posts d q c cmd = (r, d', q', c') \<Longrightarrow> nd_admin d' = nd_admin d"
  by (auto simp: nvfu_submit_poll_def nvfu_produce_def Let_def split: prod.splits option.splits)

lemma run_io_rings:
  assumes "run_io dev cmd segs (h, s) = (r, segs', h', s')"
  shows "rings h' = rings h"
proof -
  let ?q = "nd_io (hs_dev h)"
  obtain posts t s1 where d: "dev s (cmd\<lparr>se_cid := nq_cid ?q\<rparr>) segs = (posts, t, s1)" by (metis prod_cases3)
  obtain r' d' q' c' where sp: "nvfu_submit_poll posts (hs_dev h) ?q (hs_ctrl h) cmd = (r', d', q', c')" by (metis prod_cases4)
  have "h' = \<lparr>hs_dev = d'\<lparr>nd_io := q'\<rparr>, hs_ctrl = c'\<rparr>" using assms d sp by (simp add: run_io_def Let_def)
  then show ?thesis using submit_poll_frame [OF sp] submit_poll_admin [OF sp] by (simp add: rings_def)
qed

lemma xfer_rings:
  "xfer_buf env dev iova cmd buf len (h, s) = (r, buf', h', s') \<Longrightarrow> rings h' = rings h"
  "nvfu_kv_xfer_sgl env dev nsid opc key buf vsize iova ro ttl (h, s) = (r2, buf', h', s') \<Longrightarrow> rings h' = rings h"
  by (auto simp: xfer_buf_def nvfu_kv_xfer_sgl_def Let_def split: option.splits prod.splits sum.splits dest: run_io_rings)

lemma shim_rings:
  "nkvx_store_shim env dev nsid key v so ttl (h, s) = (r, h', s') \<Longrightarrow> rings h' = rings h"
  "nkvx_retrieve_shim env dev nsid key n (h, s) = (r2, h', s') \<Longrightarrow> rings h' = rings h"
  "nkvx_exec_shim env dev nsid key op_id input n (h, s) = (r3, h', s') \<Longrightarrow> rings h' = rings h"
  by (auto simp: nkvx_store_shim_def nkvx_retrieve_shim_def nkvx_exec_shim_def exec_xfer_def Let_def
      split: option.splits prod.splits sum.splits if_splits dest: xfer_rings)

lemma raw_rings:
  "retrieve_raw env dev nsid key n (h, s) = (r, h', s') \<Longrightarrow> rings h' = rings h"
  "exec_raw env dev nsid key op_id input n (h, s) = (r, h', s') \<Longrightarrow> rings h' = rings h"
  by (auto simp: retrieve_raw_def exec_raw_def into_buf_def split: prod.splits sum.splits dest: shim_rings)

lemma probe_rings:
  assumes "\<And>n h s r h' s'. raw n (h, s) = (r, h', s') \<Longrightarrow> rings h' = rings h" "probe_and_retry raw (h, s) = (r, h', s')"
  shows "rings h' = rings h"
proof -
  obtain r1 h1 s1 where 1: "raw retrieve_hint (h, s) = (r1, h1, s1)" by (metis prod_cases3)
  have a: "rings h1 = rings h" using assms(1) [OF 1] .
  have "rings h2 = rings h1" if "raw n (h1, s1) = (r2, h2, s2)" for n r2 h2 s2 using assms(1) [OF that] .
  then show ?thesis using assms(2) 1 a
    by (auto simp: probe_and_retry_def split: prod.splits sum.splits if_splits)
qed

lemma session_rings:
  "session_store env dev nsid key v (h, s) = (r, h', s') \<Longrightarrow> rings h' = rings h"
  "session_retrieve env dev nsid key (h, s) = (r2, h', s') \<Longrightarrow> rings h' = rings h"
  "session_exec env dev nsid key op_id input (h, s) = (r2, h', s') \<Longrightarrow> rings h' = rings h"
  using probe_rings [OF raw_rings(1)] probe_rings [OF raw_rings(2)]
  by (auto simp: session_store_def session_store_opts_def session_retrieve_def session_exec_def
      split: prod.splits sum.splits if_splits dest: shim_rings(1))

lemma serve_rings: "serve_op env dev render q (h, s) = (a, h', s') \<Longrightarrow> rings h' = rings h"
  by (cases q) (auto simp: serve_op_def as_bytes_def Let_def split: prod.splits sum.splits dest: session_rings)

lemma handle_rings: "handle_conn env dev render n bs hs = (e, out, hs') \<Longrightarrow> rings (fst hs') = rings (fst hs)"
proof (induction env dev render n bs hs arbitrary: e out hs' rule: handle_conn.induct)
  case (1 env dev render takes bs hs)
  show ?case
  proof (cases "request_read_from bs")
    case (Inl e)
    then show ?thesis using 1(2) by (simp add: handle_conn.simps [of env dev render takes bs])
  next
    case (Inr p)
    obtain q rest where p: "p = (q, rest)" by fastforce
    have IH: "rings (fst hs2) = rings (fst hs1)" if "takes \<noteq> 0" "handle_conn env dev render (takes - 1) rest hs1 = (e', out', hs2)" for hs1 e' out' hs2
      using 1(1) [OF Inr p [symmetric] that] .
    obtain a h1 s1 where so: "serve_op env dev render q hs = (a, h1, s1)" by (metis prod_cases3)
    have "rings h1 = rings (fst hs)" using serve_rings [of env dev render q "fst hs" "snd hs" a h1 s1] so by simp
    then show ?thesis using 1(2) [unfolded handle_conn.simps [of env dev render takes bs hs]] Inr p so IH [of hs] IH [of "(h1, s1)"]
      by (cases q; cases "takes = 0"; cases a) (auto simp: Let_def split: prod.splits)
  qed
qed

lemma loop_rings: "daemon_loop env dev render evs hs = (outs, hs') \<Longrightarrow> rings (fst hs') = rings (fst hs)"
proof (induction evs arbitrary: hs outs)
  case (Cons ev evs)
  show ?case
  proof (cases "fst ev \<or> snd ev = No_conn")
    case True
    then show ?thesis using Cons by (cases ev) (auto split: if_splits)
  next
    case False
    then obtain n bs where ev: "ev = (False, Conn n bs)" by (cases ev; cases "snd ev") auto
    obtain e out hs1 where h: "handle_conn env dev render n bs hs = (e, out, hs1)" by (metis prod_cases3)
    have "hs' = hs1 \<or> (\<exists>outs'. daemon_loop env dev render evs hs1 = (outs', hs'))"
      using Cons.prems ev h by (auto split: if_splits prod.splits)
    then show ?thesis using Cons.IH [of hs1] handle_rings [OF h] by auto
  qed
qed simp

section \<open>Guarantees\<close>

definition link_ex :: link where
  "link_ex = \<lparr>ln_exists = True, ln_connects = True, ln_write_ping = True, ln_write_op = True\<rparr>"

lemma examples_up: "link_up link_ex" "renders (\<lambda>e. [])"
  by (simp_all add: link_up_def link_ex_def renders_def response_fits_def response_body_def rstr_ok_def utf8_def max_frame_def)

text \<open>
  C31. A daemon does what a session does. Over a live connection, an operation that fits a frame is carried out
  on the daemon's session exactly as the session itself would: the command gets the bytes of the
  result, or the text of the session's error, and the target and the daemon's session end up in the same
  state. No result is too large for the way back.
\<close>

theorem daemon_transparent:
  assumes "link_up ln" "renders render" "request_fits q"
  shows "case q of
      Q_store nsid key val \<Rightarrow> store_route env dev ln (peer_of env dev render) sess nsid key val hs
        = through render (as_bytes (session_store env dev nsid (utf8 key) val hs))
    | Q_get nsid key \<Rightarrow> get_route env dev ln (peer_of env dev render) sess nsid key hs = through render (session_retrieve env dev nsid (utf8 key) hs)
    | Q_exec nsid op_id key input \<Rightarrow> exec_route env dev ln (peer_of env dev render) sess nsid op_id key input hs
        = through render (session_exec env dev nsid (utf8 key) op_id input hs)
    | _ \<Rightarrow> \<not> is_op q"
  using assms by (cases q) (simp_all add: store_live get_live exec_live is_op_def)

theorem daemon_transparent_witness:
  "get_route client_ex (target_dev stack_ex) link_ex (peer_of client_ex (target_dev stack_ex) (\<lambda>e. [])) None 1 [107] (host_ex, executor_ex)
    = through (\<lambda>e. []) (session_retrieve client_ex (target_dev stack_ex) 1 (utf8 [107]) (host_ex, executor_ex))"
proof -
  have "request_fits (Q_get 1 [107])"
    by (simp add: request_fits_def message_ok_def rstr_ok_def scalar_def request_body_def put_bytes_def max_frame_def utf8_def utf8_char_def)
  from daemon_transparent [OF examples_up this] show ?thesis by simp
qed

text \<open>Either the daemon is up, or it is not there at all.\<close>

definition link_settled :: "link \<Rightarrow> bool" where
  "link_settled ln = (link_up ln \<or> \<not> ln_exists ln \<or> \<not> ln_connects ln \<or> \<not> ln_write_ping ln)"

lemma small_request_fits:
  assumes "nsid < 2 ^ 32" "rstr_ok key" "key_ok (utf8 key)" "length v \<le> nkvx_inline_max"
  shows "request_fits (Q_store nsid key v)" "request_fits (Q_get nsid key)"
  using assms by (simp_all add: request_fits_def message_ok_def request_body_def put_bytes_def max_frame_def key_ok_def exec_key_max_len_def nkvx_inline_max_def)

lemma store_any_route:
  assumes "healthy_stack view k" "exec_inv view ex" "client_ready env" "host_ok dh" "host_ok h" "link_settled ln" "renders render"
    and "key_ok (utf8 key)" "0 \<notin> set (utf8 key)" "rstr_ok key" "nsid < 2 ^ 32" "length v \<le> nkvx_inline_max"
  obtains dh' ex' where "store_route env (target_dev k) ln (peer_of env (target_dev k) render) (Some h) nsid key v (dh, ex) = (Inr [], dh', ex')"
    "host_ok dh'" "exec_inv view ex'" "view (ex_rados ex') = (view (ex_rados ex))(key_oid (utf8 key) \<mapsto> v)"
proof (cases "link_up ln")
  case True
  obtain h' ex' where s: "session_store env (target_dev k) nsid (utf8 key) v (dh, ex) = (Inr (), h', ex')" "host_ok h'" "exec_inv view ex'"
    "view (ex_rados ex') = (view (ex_rados ex))(key_oid (utf8 key) \<mapsto> v)" by (rule session_store_ok [OF assms(1-4,8,9,12)])
  have "store_route env (target_dev k) ln (peer_of env (target_dev k) render) (Some h) nsid key v (dh, ex) = (Inr [], h', ex')"
    unfolding store_live [OF True assms(7) small_request_fits(1) [OF assms(11,10,8,12)]] s(1) by (simp add: through_def as_bytes_def)
  then show thesis using that s(2-4) by blast
next
  case False
  then have a: "\<not> ln_exists ln \<or> \<not> ln_connects ln \<or> \<not> ln_write_ping ln" using assms(6) by (simp add: link_settled_def)
  obtain h' ex' where s: "session_store env (target_dev k) nsid (utf8 key) v (h, ex) = (Inr (), h', ex')" "host_ok h'" "exec_inv view ex'"
    "view (ex_rados ex') = (view (ex_rados ex))(key_oid (utf8 key) \<mapsto> v)" by (rule session_store_ok [OF assms(1-3,5,8,9,12)])
  have "store_route env (target_dev k) ln (peer_of env (target_dev k) render) (Some h) nsid key v (dh, ex) = (Inr [], dh, ex')"
    unfolding store_route_def using s(1) by (intro via_absent [OF a]) (simp add: as_bytes_def)
  then show thesis using that s assms(4) by blast
qed

lemma get_any_route:
  assumes "healthy_stack view k" "exec_inv view ex" "client_ready env" "host_ok dh" "host_ok h" "link_settled ln" "renders render"
    and "key_ok (utf8 key)" "0 \<notin> set (utf8 key)" "rstr_ok key" "nsid < 2 ^ 32" "length v \<le> nkvx_inline_max" "view (ex_rados ex) (key_oid (utf8 key)) = Some v"
  obtains dh' ex' where "get_route env (target_dev k) ln (peer_of env (target_dev k) render) (Some h) nsid key (dh, ex) = (Inr v, dh', ex')"
    "host_ok dh'" "exec_inv view ex'" "view (ex_rados ex') = view (ex_rados ex)"
proof (cases "link_up ln")
  case True
  obtain h' ex' where s: "session_retrieve env (target_dev k) nsid (utf8 key) (dh, ex) = (Inr v, h', ex')" "host_ok h'" "exec_inv view ex'"
    "view (ex_rados ex') = view (ex_rados ex)" by (rule session_retrieve_ok [OF assms(1-4,8,9,12,13)])
  have "get_route env (target_dev k) ln (peer_of env (target_dev k) render) (Some h) nsid key (dh, ex) = (Inr v, h', ex')"
    unfolding get_live [OF True assms(7) small_request_fits(2) [OF assms(11,10,8,12)]] s(1) by (simp add: through_def)
  then show thesis using that s(2-4) by blast
next
  case False
  then have a: "\<not> ln_exists ln \<or> \<not> ln_connects ln \<or> \<not> ln_write_ping ln" using assms(6) by (simp add: link_settled_def)
  obtain h' ex' where s: "session_retrieve env (target_dev k) nsid (utf8 key) (h, ex) = (Inr v, h', ex')" "host_ok h'" "exec_inv view ex'"
    "view (ex_rados ex') = view (ex_rados ex)" by (rule session_retrieve_ok [OF assms(1-3,5,8,9,12,13)])
  have "get_route env (target_dev k) ln (peer_of env (target_dev k) render) (Some h) nsid key (dh, ex) = (Inr v, dh, ex')"
    unfolding get_route_def using s(1) by (intro via_absent [OF a])
  then show thesis using that s assms(4) by blast
qed





end
