(* ===== verification/RkvList.thy ===== *)
theory RkvList
  imports RkvConfig
begin

text \<open>
  Listing with the command-line client (\<^verbatim>\<open>clients/rkv/src/commands/list.rs\<close>), the lookup of namespace names
  (\<^verbatim>\<open>clients/rkv/src/rpc.rs\<close>, \<^verbatim>\<open>main.rs\<close>) and the options of store and get
  (\<^verbatim>\<open>clients/rkv/src/commands/options.rs\<close>).

  The target's calls are parameters. The loop over pages has fuel: it counts the calls, and running
  out of it is \<open>None\<close>. Keys compare byte by byte, which is the order of lists of bytes.
\<close>

section \<open>Hexadecimal keys\<close>

datatype list_error = L_odd | L_not_hex | L_panic | L_no_nqn | L_unknown_ns | L_call | L_no_last

definition hex_digit_val :: "nat \<Rightarrow> nat option" where
  "hex_digit_val c =
    (if 48 \<le> c \<and> c \<le> 57 then Some (c - 48)
     else if 97 \<le> c \<and> c \<le> 102 then Some (c - 87)
     else if 65 \<le> c \<and> c \<le> 70 then Some (c - 55)
     else None)"

text \<open>\<open>u8::from_str_radix\<close> on two bytes of text: a plus sign is allowed in front.\<close>

definition radix_16 :: "nat \<Rightarrow> nat \<Rightarrow> nat option" where
  "radix_16 a b =
    (if a = 43 then hex_digit_val b
     else case (hex_digit_val a, hex_digit_val b) of (Some x, Some y) \<Rightarrow> Some (16 * x + y) | _ \<Rightarrow> None)"

text \<open>The text is cut every two bytes; a cut inside a character panics.\<close>

fun decode_pairs :: "nat list \<Rightarrow> list_error + bytes" where
  "decode_pairs (a # b # r) =
    (if cont_byte a \<or> r \<noteq> [] \<and> cont_byte (hd r) then Inl L_panic
     else case radix_16 a b of
       None \<Rightarrow> Inl L_not_hex
     | Some v \<Rightarrow> (case decode_pairs r of Inl e \<Rightarrow> Inl e | Inr bs \<Rightarrow> Inr (word_of_nat v # bs)))"
| "decode_pairs _ = Inr []"

definition decode_hex :: "rstr \<Rightarrow> list_error + bytes" where
  "decode_hex hex = (let b = map unat (utf8 hex) in if length b mod 2 \<noteq> 0 then Inl L_odd else decode_pairs b)"

definition hex_char :: "nat \<Rightarrow> nat" where
  "hex_char n = (if n < 10 then 48 + n else 87 + n)"

definition encode_hex :: "bytes \<Rightarrow> rstr" where
  "encode_hex bs = concat (map (\<lambda>b. [hex_char (unat b div 16), hex_char (unat b mod 16)]) bs)"

definition format_key :: "rstr \<Rightarrow> list_error + rstr" where
  "format_key hex =
    (case decode_hex hex of
       Inl e \<Rightarrow> Inl e
     | Inr bs \<Rightarrow>
         if bs \<noteq> [] \<and> list_all (\<lambda>b. 32 \<le> unat b \<and> unat b < 127) bs then Inr (map unat bs)
         else Inr (py ''0x'' @ hex))"

text \<open>The last byte that is not 255 is incremented and ends the key; a key of 255s stays as it is.\<close>

fun bump_last :: "byte list \<Rightarrow> byte list option" where
  "bump_last [] = None"
| "bump_last (b # rest) = (if b \<noteq> 255 then Some ((b + 1) # rest) else bump_last rest)"

definition next_key :: "bytes \<Rightarrow> bytes" where
  "next_key bs = (if length bs < 16 then bs @ [0] else case bump_last (rev bs) of Some r \<Rightarrow> rev r | None \<Rightarrow> bs)"

definition next_hex_key :: "rstr \<Rightarrow> list_error + rstr" where
  "next_hex_key hex = (case decode_hex hex of Inl e \<Rightarrow> Inl e | Inr bs \<Rightarrow> Inr (encode_hex (next_key bs)))"

section \<open>The listing\<close>

text \<open>A page: the keys in hexadecimal, and whether there are more. What is printed accumulates in \<open>out\<close>.\<close>

type_synonym list_rpc = "rstr option \<Rightarrow> (rstr list \<times> bool) option"

primrec print_keys :: "rstr list \<Rightarrow> rstr list \<Rightarrow> (list_error option) \<times> rstr list" where
  "print_keys [] out = (None, out)"
| "print_keys (hex # hs) out = (case format_key hex of Inl e \<Rightarrow> (Some e, out) | Inr line \<Rightarrow> print_keys hs (out @ [line]))"

primrec list_loop :: "list_rpc \<Rightarrow> nat \<Rightarrow> rstr option \<Rightarrow> rstr list \<Rightarrow> ((list_error + unit) \<times> rstr list) option" where
  "list_loop rpc 0 start out = None"
| "list_loop rpc (Suc n) start out =
    (case rpc start of
       None \<Rightarrow> Some (Inl L_call, out)
     | Some (keys, more_keys) \<Rightarrow>
         (case print_keys keys out of
            (Some e, out') \<Rightarrow> Some (Inl e, out')
          | (None, out') \<Rightarrow>
              if \<not> more_keys then Some (Inr (), out')
              else if keys = [] then Some (Inl L_no_last, out')
              else (case next_hex_key (last keys) of
                      Inl e \<Rightarrow> Some (Inl e, out')
                    | Inr s \<Rightarrow> list_loop rpc n (Some s) out')))"

definition list_keys :: "(rstr \<Rightarrow> nat \<Rightarrow> list_rpc) \<Rightarrow> nat \<Rightarrow> config \<Rightarrow> rstr \<Rightarrow> ((list_error + unit) \<times> rstr list) option" where
  "list_keys rpc fuel cfg name =
    (case cf_nqn cfg of
       None \<Rightarrow> Some (Inl L_no_nqn, [])
     | Some nqn \<Rightarrow>
         (case resolve_ns cfg name of
            None \<Rightarrow> Some (Inl L_unknown_ns, [])
          | Some nsid \<Rightarrow> list_loop (rpc nqn nsid) fuel None []))"

definition list_namespaces :: "config \<Rightarrow> rstr list" where
  "list_namespaces cfg = map (\<lambda>(name, nsid). name @ [9] @ dec nsid) (cf_namespaces cfg)"

section \<open>Names known to the target\<close>

datatype json = J_null | J_bool bool | J_num nat | J_str rstr | J_arr "json list" | J_obj "(rstr \<times> json) list"

definition j_get :: "string \<Rightarrow> json \<Rightarrow> json option" where
  "j_get k v = (case v of J_obj m \<Rightarrow> map_of m (py k) | _ \<Rightarrow> None)"

definition j_str :: "json option \<Rightarrow> rstr option" where
  "j_str v = (case v of Some (J_str s) \<Rightarrow> Some s | _ \<Rightarrow> None)"

definition j_u64 :: "json option \<Rightarrow> nat option" where
  "j_u64 v = (case v of Some (J_num n) \<Rightarrow> if n < 2 ^ 64 then Some n else None | _ \<Rightarrow> None)"

definition j_arr :: "json option \<Rightarrow> json list option" where
  "j_arr v = (case v of Some (J_arr xs) \<Rightarrow> Some xs | _ \<Rightarrow> None)"

definition add_ns :: "json \<Rightarrow> nat btree \<Rightarrow> nat btree" where
  "add_ns ns m =
    (case (j_str (j_get ''kv_name'' ns), j_u64 (j_get ''nsid'' ns)) of
       (Some name, Some nsid) \<Rightarrow> bt_insert name (u32 nsid) m
     | _ \<Rightarrow> m)"

definition kv_name_map_from_subsystems :: "json list \<Rightarrow> rstr \<Rightarrow> nat btree" where
  "kv_name_map_from_subsystems subs nqn =
    fold (\<lambda>sub m.
      if j_str (j_get ''nqn'' sub) \<noteq> Some nqn then m
      else case j_arr (j_get ''namespaces'' sub) of None \<Rightarrow> m | Some nss \<Rightarrow> fold add_ns nss m) subs []"

definition resolve_ns_via_server :: "(rstr \<Rightarrow> json list option) \<Rightarrow> config \<Rightarrow> rstr \<Rightarrow> nat option" where
  "resolve_ns_via_server rpc cfg ns =
    (case cf_nqn cfg of
       None \<Rightarrow> None
     | Some nqn \<Rightarrow> (case rpc nqn of None \<Rightarrow> None | Some subs \<Rightarrow> map_of (kv_name_map_from_subsystems subs nqn) ns))"

definition resolve_name :: "(rstr \<Rightarrow> json list option) \<Rightarrow> config \<Rightarrow> rstr \<Rightarrow> nat option" where
  "resolve_name rpc cfg ns = (case resolve_ns_via_server rpc cfg ns of Some nsid \<Rightarrow> Some nsid | None \<Rightarrow> resolve_ns cfg ns)"

section \<open>Options of store and get\<close>

datatype opt_error = Opt_empty_key | Opt_no_value rstr | Opt_needs_duration | Opt_unknown rstr
  | Dur_empty | Dur_no_number | Dur_bad_number | Dur_no_unit | Dur_bad_unit | Dur_overflow

record store_options =
  so_ephemeral :: bool
  so_ttl :: "nat option"
  so_touch :: bool
  so_prefetch :: bool

definition default_store_options :: store_options where
  "default_store_options = \<lparr>so_ephemeral = False, so_ttl = None, so_touch = False, so_prefetch = False\<rparr>"

definition split_kv :: "rstr \<Rightarrow> opt_error + rstr \<times> rstr option" where
  "split_kv raw =
    (case split_once 61 raw of
       Some (k, v) \<Rightarrow> if trim k = [] then Inl Opt_empty_key else Inr (ascii_lower (trim k), Some (trim v))
     | None \<Rightarrow> if trim raw = [] then Inl Opt_empty_key else Inr (ascii_lower (trim raw), None))"

definition parse_duration :: "rstr \<Rightarrow> opt_error + nat" where
  "parse_duration s0 =
    (let s = trim s0; num = takeWhile ascii_digit s; unit = dropWhile ascii_digit s in
     if s = [] then Inl Dur_empty
     else if num = [] then Inl Dur_no_number
     else case parse_uint (2 ^ 64) num of
       None \<Rightarrow> Inl Dur_bad_number
     | Some n \<Rightarrow>
         (case (if unit = py ''s'' then Inr 1 else if unit = py ''m'' then Inr 60 else if unit = py ''h'' then Inr (60 * 60)
                else if unit = py ''d'' then Inr (60 * 60 * 24) else if unit = [] then Inl Dur_no_unit else Inl Dur_bad_unit) of
            Inl e \<Rightarrow> Inl e
          | Inr mult \<Rightarrow> if n * mult < 2 ^ 64 then Inr (n * mult) else Inl Dur_overflow))"

definition store_option :: "rstr \<Rightarrow> store_options \<Rightarrow> opt_error + store_options" where
  "store_option token o' =
    (case split_kv token of
       Inl e \<Rightarrow> Inl e
     | Inr (key, val) \<Rightarrow>
         let flag = (\<lambda>upd. if val \<noteq> None then Inl (Opt_no_value key) else Inr (upd o')) in
         if key = py ''ephemeral'' then flag (\<lambda>x. x\<lparr>so_ephemeral := True\<rparr>)
         else if key = py ''touch'' then flag (\<lambda>x. x\<lparr>so_touch := True\<rparr>)
         else if key = py ''prefetch'' then flag (\<lambda>x. x\<lparr>so_prefetch := True\<rparr>)
         else if key = py ''ttl'' then
           (case val of
              None \<Rightarrow> Inl Opt_needs_duration
            | Some v \<Rightarrow> (case parse_duration v of Inl e \<Rightarrow> Inl e | Inr d \<Rightarrow> Inr (o'\<lparr>so_ttl := Some d\<rparr>)))
         else Inl (Opt_unknown key))"

primrec store_options_parse :: "rstr list \<Rightarrow> store_options \<Rightarrow> opt_error + store_options" where
  "store_options_parse [] o' = Inr o'"
| "store_options_parse (t # ts) o' = (case store_option t o' of Inl e \<Rightarrow> Inl e | Inr o'' \<Rightarrow> store_options_parse ts o'')"

definition has_honored :: "store_options \<Rightarrow> bool" where
  "has_honored o' = (so_ttl o' \<noteq> None \<or> so_ephemeral o' \<or> so_touch o')"

definition options_wire :: "store_options \<Rightarrow> nat \<times> nat" where
  "options_wire o' =
    (let opt = (case so_ttl o' of Some _ \<Rightarrow> 2 ^ 3 | None \<Rightarrow> 0);
         ttl = (case so_ttl o' of Some d \<Rightarrow> min d (2 ^ 32 - 1) | None \<Rightarrow> 0);
         opt1 = (if so_ephemeral o' then or opt (2 ^ 4) else opt);
         opt2 = (if so_touch o' then or opt1 (2 ^ 5) else opt1) in
     (opt2, ttl))"

primrec get_options_parse :: "rstr list \<Rightarrow> bool \<Rightarrow> opt_error + bool" where
  "get_options_parse [] prefetch = Inr prefetch"
| "get_options_parse (t # ts) prefetch =
    (case split_kv t of
       Inl e \<Rightarrow> Inl e
     | Inr (key, val) \<Rightarrow>
         if key = py ''prefetch'' then (if val \<noteq> None then Inl (Opt_no_value key) else get_options_parse ts True)
         else Inl (Opt_unknown key))"

section \<open>Hexadecimal text\<close>

lemma hex_char_val: "n < 16 \<Longrightarrow> hex_digit_val (hex_char n) = Some n"
  by (auto simp: hex_digit_val_def hex_char_def)

lemma hex_char_ascii: "n < 16 \<Longrightarrow> hex_char n < 128" "n < 16 \<Longrightarrow> hex_char n \<noteq> 43"
  by (simp_all add: hex_char_def)

lemma byte_le_255: "unat (b :: byte) \<le> 255"
  using unsigned_less [of b, where 'a = nat] by simp

lemma byte_nibbles: "unat (b :: byte) div 16 < 16" "unat b mod 16 < 16"
  using byte_le_255 [of b] by simp_all

lemma encode_hex_simps [simp]:
  "encode_hex [] = []"
  "encode_hex (b # bs) = hex_char (unat b div 16) # hex_char (unat b mod 16) # encode_hex bs"
  by (simp_all add: encode_hex_def)

lemma utf8_ascii: "list_all (\<lambda>c. c < 128) s \<Longrightarrow> map unat (utf8 s) = s"
  by (induction s) (simp_all add: utf8_def utf8_char_def unat_of_nat take_bit_nat_def)

lemma encode_hex_ascii: "list_all (\<lambda>c. c < 128) (encode_hex bs)"
  by (induction bs) (simp_all add: hex_char_ascii byte_nibbles)

lemma length_encode_hex [simp]: "length (encode_hex bs) = 2 * length bs"
  by (induction bs) simp_all

lemma radix_hex: "radix_16 (hex_char (unat b div 16)) (hex_char (unat b mod 16)) = Some (unat (b :: byte))"
  by (simp add: radix_16_def hex_char_val hex_char_ascii byte_nibbles)

lemma decode_pairs_encode: "decode_pairs (encode_hex bs) = Inr bs"
proof (induction bs)
  case (Cons b bs)
  have "\<not> cont_byte (hex_char (unat b div 16))" using hex_char_ascii [OF byte_nibbles(1) [of b]] by (simp add: cont_byte_def)
  moreover have "encode_hex bs \<noteq> [] \<Longrightarrow> \<not> cont_byte (hd (encode_hex bs))"
    using encode_hex_ascii [of bs] by (cases "encode_hex bs") (auto simp: cont_byte_def)
  ultimately show ?case using Cons by (auto simp: radix_hex)
qed simp

lemma decode_encode_hex [simp]: "decode_hex (encode_hex bs) = Inr bs"
  by (simp add: decode_hex_def utf8_ascii encode_hex_ascii decode_pairs_encode Let_def)

interpretation hex_keys: codec encode_hex "\<lambda>s. case decode_hex s of Inr bs \<Rightarrow> Some bs | Inl _ \<Rightarrow> None" "\<lambda>_. True"
  by unfold_locales simp

section \<open>The successor of a key\<close>

text \<open>Among keys of at most 16 bytes, the ones at or after the successor are the ones strictly after the key.\<close>

lemma append_zero_le: "k @ [0 :: byte] \<le> x \<longleftrightarrow> k < x"
proof (induction k arbitrary: x)
  case Nil then show ?case by (cases x) (auto simp: word_gt_0)
next
  case (Cons a k) then show ?case by (cases x) auto
qed

lemma all_max_not_less: "length ys \<le> n \<Longrightarrow> \<not> replicate n (255 :: byte) < ys"
proof (induction n arbitrary: ys)
  case (Suc n)
  have "\<not> (255 :: byte) < y" for y using byte_le_255 [of y] by (simp add: word_less_nat_alt)
  with Suc show ?case by (cases ys) auto
qed simp

lemma byte_succ_le: "b \<noteq> (255 :: byte) \<Longrightarrow> b + 1 < y \<or> b + 1 = y \<longleftrightarrow> b < y"
proof -
  assume "b \<noteq> 255"
  then have "unat b < 255" using byte_le_255 [of b] word_unat_eq_iff [of b 255] by simp
  then have "unat (b + 1) = unat b + 1" by (simp add: unat_word_ariths)
  then show ?thesis by (auto simp: word_less_nat_alt word_unat_eq_iff)
qed

lemma bump_le: "b \<noteq> 255 \<Longrightarrow> length x \<le> length p + 1 + n \<Longrightarrow> p @ [b + 1] \<le> x \<longleftrightarrow> p @ b # replicate n (255 :: byte) < x"
proof (induction p arbitrary: x)
  case Nil
  then show ?case using byte_succ_le [of b] all_max_not_less by (cases x) auto
next
  case (Cons a p) then show ?case by (cases x) auto
qed

lemma bump_last_Some: "bump_last xs = Some r \<Longrightarrow> \<exists>n b p. xs = replicate n 255 @ b # p \<and> b \<noteq> 255 \<and> r = (b + 1) # p"
proof (induction xs)
  case (Cons x xs)
  show ?case
  proof (cases "x = 255")
    case True
    then obtain n b p where "xs = replicate n 255 @ b # p \<and> b \<noteq> 255 \<and> r = (b + 1) # p" using Cons by auto
    then have "x # xs = replicate (Suc n) 255 @ b # p \<and> b \<noteq> 255 \<and> r = (b + 1) # p" using True by simp
    then show ?thesis by blast
  next
    case False
    then have "x # xs = replicate 0 255 @ x # xs \<and> x \<noteq> 255 \<and> r = (x + 1) # xs" using Cons by simp
    then show ?thesis by blast
  qed
qed simp

lemma bump_last_None: "bump_last xs = None \<Longrightarrow> xs = replicate (length xs) 255"
  by (induction xs) (auto split: if_splits)

lemma next_key_long:
  assumes "16 \<le> length k" "k \<noteq> replicate (length k) 255"
  obtains p b n where "k = p @ b # replicate n 255" "b \<noteq> 255" "next_key k = p @ [b + 1]"
proof (cases "bump_last (rev k)")
  case None
  then have "rev k = replicate (length k) 255" using bump_last_None [of "rev k"] by simp
  then have "k = replicate (length k) 255" by (metis rev_replicate rev_rev_ident)
  then show ?thesis using assms(2) by simp
next
  case (Some r)
  then obtain n b p where r: "rev k = replicate n 255 @ b # p" "b \<noteq> 255" "r = (b + 1) # p" using bump_last_Some by blast
  then have "k = rev p @ b # replicate n 255" by (metis append.assoc append_Cons append_Nil rev.simps(2) rev_append rev_replicate rev_rev_ident)
  then show ?thesis using that r Some assms(1) by (simp add: next_key_def)
qed

lemma next_key_le_iff:
  assumes "length k \<le> 16" "length x \<le> 16" "length k < 16 \<or> k \<noteq> replicate (length k) 255"
  shows "next_key k \<le> x \<longleftrightarrow> k < x"
proof (cases "length k < 16")
  case True then show ?thesis by (simp add: next_key_def append_zero_le)
next
  case False
  then have "16 \<le> length k" "k \<noteq> replicate (length k) 255" using assms(3) by simp_all
  then obtain p b n where k: "k = p @ b # replicate n 255" "b \<noteq> 255" "next_key k = p @ [b + 1]"
    by (rule next_key_long)
  have "length x \<le> length p + 1 + n" using k(1) assms(2) False by simp
  from bump_le [OF k(2) this] show ?thesis using k by simp
qed

lemma next_key_max: "16 \<le> n \<Longrightarrow> next_key (replicate n 255) = replicate n 255"
proof -
  have "bump_last (replicate n 255) = None" for n by (induction n) simp_all
  then show "16 \<le> n \<Longrightarrow> next_key (replicate n 255) = replicate n 255" by (simp add: next_key_def)
qed

lemma bump_above: "b \<noteq> (255 :: byte) \<Longrightarrow> \<not> p @ [b + 1] \<le> p @ b # z"
  using byte_succ_le [of b b] by (induction p) auto

lemma prefix_le: "(k :: bytes) \<le> k @ y"
  by (induction k) simp_all

section \<open>A complete listing\<close>

text \<open>
  What the target documents of its listing: a page has at least one key unless none is left, pages
  start at or after the given key, follow the order of keys, and say whether they were cut short.
\<close>

definition page :: "bytes list \<Rightarrow> nat \<Rightarrow> (rstr list \<times> bool) option" where
  "page ks n = Some (map encode_hex (take n ks), n < length ks)"

definition lists :: "list_rpc \<Rightarrow> bytes list \<Rightarrow> bool" where
  "lists rpc ks = (\<exists>cap. (\<forall>s. 0 < cap s) \<and> rpc None = page ks (cap None)
    \<and> (\<forall>s. rpc (Some (encode_hex s)) = page (filter (\<lambda>k. s \<le> k) ks) (cap (Some s))))"

text \<open>What a user sees of a key.\<close>

definition shown :: "bytes \<Rightarrow> rstr" where
  "shown k = (if k \<noteq> [] \<and> list_all (\<lambda>b. 32 \<le> unat b \<and> unat b < 127) k then map unat k else py ''0x'' @ encode_hex k)"

lemma format_key_encode [simp]: "format_key (encode_hex k) = Inr (shown k)"
  by (simp add: format_key_def shown_def)

lemma print_keys_encode [simp]: "print_keys (map encode_hex ks) out = (None, out @ map shown ks)"
  by (induction ks arbitrary: out) simp_all

lemma next_hex_key_encode [simp]: "next_hex_key (encode_hex k) = Inr (encode_hex (next_key k))"
  by (simp add: next_hex_key_def)

lemma after_page:
  assumes "sorted_wrt (<) (ks :: bytes list)" "ks = seen @ todo" "0 < n" "n < length todo" "\<forall>k \<in> set ks. length k \<le> 16"
  shows "filter (\<lambda>x. next_key (todo ! (n - 1)) \<le> x) ks = drop n todo"
proof -
  define k where "k = todo ! (n - 1)"
  have split: "todo = take (n - 1) todo @ k # drop n todo"
    using id_take_nth_drop [of "n - 1" todo] assms(3,4) by (simp add: k_def)
  then have ks: "ks = (seen @ take (n - 1) todo) @ k # drop n todo" using assms(2) by simp
  then have s: "sorted_wrt (<) ((seen @ take (n - 1) todo) @ k # drop n todo)" using assms(1) by simp
  have above: "\<forall>x \<in> set (drop n todo). k < x" and below: "\<forall>x \<in> set (seen @ take (n - 1) todo). x < k"
    using s by (auto simp: sorted_wrt_append)
  obtain x where x: "x \<in> set (drop n todo)" "k < x" using above assms(4) by (cases "drop n todo") auto
  have len: "\<forall>x \<in> set ks. length x \<le> 16" "k \<in> set ks" "x \<in> set ks" using assms(5) x(1) ks by auto
  have "length k < 16 \<or> k \<noteq> replicate (length k) 255"
    using all_max_not_less [of x 16] x(2) len by (metis le_neq_implies_less)
  then have "\<forall>x \<in> set ks. next_key k \<le> x \<longleftrightarrow> k < x" using len next_key_le_iff by blast
  then have "filter (\<lambda>x. next_key k \<le> x) ks = filter (\<lambda>x. k < x) ks" by (intro filter_cong) simp_all
  also have "\<dots> = filter (\<lambda>x. k < x) (seen @ take (n - 1) todo) @ filter (\<lambda>x. k < x) (drop n todo)"
    by (subst ks) (simp only: filter_append filter.simps less_irrefl if_False)
  also have "filter (\<lambda>x. k < x) (seen @ take (n - 1) todo) = []"
    unfolding filter_empty_conv using below by (blast dest: less_asym)
  also have "filter (\<lambda>x. k < x) (drop n todo) = drop n todo" using above by (simp only: filter_id_conv)
  finally show ?thesis by (simp only: k_def append_Nil)
qed

lemma loop_lists:
  assumes "sorted_wrt (<) (ks :: bytes list)" "\<forall>k \<in> set ks. length k \<le> 16" "\<forall>s. 0 < cap s"
    and "\<forall>s. rpc (Some (encode_hex s)) = page (filter (\<lambda>k. s \<le> k) ks) (cap s)"
  shows "ks = seen @ todo \<Longrightarrow> rpc start = page todo n \<Longrightarrow> 0 < n \<Longrightarrow> length todo < fuel
    \<Longrightarrow> list_loop rpc fuel start out = Some (Inr (), out @ map shown todo)"
proof (induction fuel arbitrary: start seen todo n out)
  case (Suc fuel)
  show ?case
  proof (cases "n < length todo")
    case False
    then show ?thesis using Suc.prems(2) by (simp add: page_def)
  next
    case True
    let ?s = "next_key (todo ! (n - 1))"
    have "todo \<noteq> []" "take n todo \<noteq> []" using True Suc.prems(3) by auto
    then have l: "last (map encode_hex (take n todo)) = encode_hex (todo ! (n - 1))"
      using True by (simp add: last_map last_conv_nth)
    have "rpc (Some (encode_hex ?s)) = page (drop n todo) (cap ?s)"
      using assms(4) after_page [OF assms(1) Suc.prems(1,3) True assms(2)] by simp
    moreover have "ks = (seen @ take n todo) @ drop n todo" using Suc.prems(1) by simp
    ultimately have "list_loop rpc fuel (Some (encode_hex ?s)) (out @ map shown (take n todo)) = Some (Inr (), (out @ map shown (take n todo)) @ map shown (drop n todo))"
      using Suc.IH [of "seen @ take n todo" "drop n todo" "Some (encode_hex ?s)" "cap ?s"] assms(3) Suc.prems(3,4) True by simp
    moreover have "map shown (take n todo) @ map shown (drop n todo) = map shown todo" by (metis append_take_drop_id map_append)
    ultimately show ?thesis using Suc.prems(2) True l \<open>take n todo \<noteq> []\<close> by (simp add: page_def)
  qed
qed simp

section \<open>Options\<close>

lemma duration_exact:
  assumes "(u, mult) \<in> {(py ''s'', 1), (py ''m'', 60), (py ''h'', 3600), (py ''d'', 86400)}" "n < 2 ^ 64"
  shows "parse_duration (dec n @ u) = (if n * mult < 2 ^ 64 then Inr (n * mult) else Inl Dur_overflow)"
proof -
  obtain c where u: "u = [c]" "\<not> ascii_digit c" "\<not> rust_space c" using assms(1) by (auto simp: py_def ascii_digit_def rust_space_def)
  have d: "list_all ascii_digit (dec n)" "dec n \<noteq> []" using dec_digits [of n] by simp_all
  then have "\<not> rust_space (hd (dec n))" by (cases "dec n") (auto simp: ascii_digit_def rust_space_def)
  then have "trim (dec n @ u) = dec n @ u" using u d(2) by (intro trim_plain) (simp add: plain_ends_def)
  moreover have "takeWhile ascii_digit (dec n @ u) = dec n" "dropWhile ascii_digit (dec n @ u) = u"
    using d(1) u by (simp_all add: takeWhile_append dropWhile_append list_all_iff)
  ultimately show ?thesis using d(2) assms parse_dec [OF assms(2)] by (auto simp: parse_duration_def Let_def py_def)
qed

text \<open>The bits sent say which options were given, and nothing is sent for the plain store.\<close>

lemma options_wire_fst:
  "fst (options_wire o') = (if so_ttl o' \<noteq> None then 8 else 0) + (if so_ephemeral o' then 16 else 0) + (if so_touch o' then 32 else 0)"
  by (cases "so_ttl o'") (simp_all add: options_wire_def Let_def)

lemma options_wire_bounds: "fst (options_wire o') = 0 \<longleftrightarrow> \<not> has_honored o'" "fst (options_wire o') < 2 ^ 8" "snd (options_wire o') < 2 ^ 32"
proof -
  show "fst (options_wire o') = 0 \<longleftrightarrow> \<not> has_honored o'" "fst (options_wire o') < 2 ^ 8"
    unfolding options_wire_fst has_honored_def by simp_all
  show "snd (options_wire o') < 2 ^ 32" by (cases "so_ttl o'") (simp_all add: options_wire_def Let_def)
qed

lemma options_wire_separates:
  "fst (options_wire o1) = fst (options_wire o2) \<longleftrightarrow>
    (so_ttl o1 = None \<longleftrightarrow> so_ttl o2 = None) \<and> so_ephemeral o1 = so_ephemeral o2 \<and> so_touch o1 = so_touch o2"
  unfolding options_wire_fst by (cases "so_ttl o1"; cases "so_ttl o2"; simp)

section \<open>Names\<close>

text \<open>A name of the target resolves only to a namespace of the configured subsystem that carries it.\<close>

definition named_in :: "json list \<Rightarrow> rstr \<Rightarrow> rstr \<Rightarrow> nat \<Rightarrow> bool" where
  "named_in subs nqn name nsid = (\<exists>sub \<in> set subs. \<exists>nss. j_str (j_get ''nqn'' sub) = Some nqn \<and> j_arr (j_get ''namespaces'' sub) = Some nss
    \<and> (\<exists>ns \<in> set nss. \<exists>n. j_str (j_get ''kv_name'' ns) = Some name \<and> j_u64 (j_get ''nsid'' ns) = Some n \<and> nsid = u32 n))"

lemma add_ns_lookup:
  assumes "bt_ok m" "map_of (add_ns ns m) name = Some nsid"
  shows "map_of m name = Some nsid \<or> (\<exists>n. j_str (j_get ''kv_name'' ns) = Some name \<and> j_u64 (j_get ''nsid'' ns) = Some n \<and> nsid = u32 n)"
  using assms by (auto simp: add_ns_def map_of_bt_insert split: option.splits if_splits)

lemma add_ns_ok: "bt_ok m \<Longrightarrow> bt_ok (add_ns ns m)"
  by (simp add: add_ns_def bt_insert_ok split: option.split)

lemma fold_add_ns:
  assumes "bt_ok m"
  shows "bt_ok (fold add_ns nss m) \<and> (map_of (fold add_ns nss m) name = Some nsid \<longrightarrow> map_of m name = Some nsid
    \<or> (\<exists>ns \<in> set nss. \<exists>n. j_str (j_get ''kv_name'' ns) = Some name \<and> j_u64 (j_get ''nsid'' ns) = Some n \<and> nsid = u32 n))"
  using assms
proof (induction nss arbitrary: m)
  case (Cons ns nss)
  from Cons.IH [OF add_ns_ok [OF Cons.prems]] add_ns_lookup [OF Cons.prems] show ?case by simp blast
qed simp

lemma name_map_sound: "map_of (kv_name_map_from_subsystems subs nqn) name = Some nsid \<Longrightarrow> named_in subs nqn name nsid"
proof -
  have "bt_ok m \<Longrightarrow> bt_ok (fold (\<lambda>sub m. if j_str (j_get ''nqn'' sub) \<noteq> Some nqn then m
      else case j_arr (j_get ''namespaces'' sub) of None \<Rightarrow> m | Some nss \<Rightarrow> fold add_ns nss m) subs m)
    \<and> (map_of (fold (\<lambda>sub m. if j_str (j_get ''nqn'' sub) \<noteq> Some nqn then m
      else case j_arr (j_get ''namespaces'' sub) of None \<Rightarrow> m | Some nss \<Rightarrow> fold add_ns nss m) subs m) name = Some nsid
      \<longrightarrow> map_of m name = Some nsid \<or> named_in subs nqn name nsid)" for m
  proof (induction subs arbitrary: m)
    case (Cons sub subs)
    show ?case
    proof (cases "j_str (j_get ''nqn'' sub) = Some nqn \<and> j_arr (j_get ''namespaces'' sub) \<noteq> None")
      case True
      then obtain nss where n: "j_arr (j_get ''namespaces'' sub) = Some nss" by auto
      from Cons.IH [of "fold add_ns nss m"] fold_add_ns [OF Cons.prems, of nss name nsid] show ?thesis using True n by (auto simp: named_in_def)
    next
      case False
      with Cons.IH [OF Cons.prems] show ?thesis by (auto simp: named_in_def split: option.splits)
    qed
  qed simp
  then show "map_of (kv_name_map_from_subsystems subs nqn) name = Some nsid \<Longrightarrow> named_in subs nqn name nsid"
    by (force simp: kv_name_map_from_subsystems_def bt_ok_def)
qed

section \<open>Properties\<close>

text \<open>
  C34. A listing ends and is complete. In a namespace whose keys have at most 16 bytes, however the target cuts its
  pages, listing prints every key exactly once, in the order of keys, and ends after at most one call more
  than there are keys.
\<close>

theorem list_complete:
  assumes "cf_nqn cfg = Some nqn" "resolve_ns cfg name = Some nsid" "lists (rpc nqn nsid) ks"
    and "sorted_wrt (<) ks" "\<forall>k \<in> set ks. length k \<le> 16" "length ks < fuel"
  shows "list_keys rpc fuel cfg name = Some (Inr (), map shown ks)"
proof -
  obtain cap where c: "\<forall>s. 0 < cap s" "rpc nqn nsid None = page ks (cap None)"
    "\<forall>s. rpc nqn nsid (Some (encode_hex s)) = page (filter (\<lambda>k. s \<le> k) ks) (cap (Some s))" using assms(3) by (auto simp: lists_def)
  have "list_loop (rpc nqn nsid) fuel None [] = Some (Inr (), [] @ map shown ks)"
    by (rule loop_lists [OF assms(4,5), of "\<lambda>s. cap (Some s)"]) (use c assms(6) in auto)
  then show ?thesis using assms(1,2) by (simp add: list_keys_def)
qed

text \<open>A target that gives \<open>n\<close> keys a page.\<close>

definition paging :: "nat \<Rightarrow> bytes list \<Rightarrow> list_rpc" where
  "paging n ks start = (case start of None \<Rightarrow> page ks n
    | Some h \<Rightarrow> (case decode_hex h of Inl _ \<Rightarrow> None | Inr s \<Rightarrow> page (filter (\<lambda>k. s \<le> k) ks) n))"

lemma paging_lists: "0 < n \<Longrightarrow> lists (paging n ks) ks"
  unfolding lists_def by (rule exI [of _ "\<lambda>_. n"]) (simp add: paging_def)

definition list_config_ex :: config where
  "list_config_ex = default_config\<lparr>cf_nqn := Some (py ''nqn''), cf_namespaces := [(py ''m'', 1)]\<rparr>"

theorem list_complete_witness:
  "list_keys (\<lambda>_ _. paging 1 [[0], [107], [107, 0]]) 4 list_config_ex (py ''m'') = Some (Inr (), map shown [[0], [107], [107, 0]])"
proof -
  have "lists (paging 1 [[0], [107], [107, 0]]) [[0], [107], [107, 0]]" by (rule paging_lists) simp
  moreover have "cf_nqn list_config_ex = Some (py ''nqn'')" "resolve_ns list_config_ex (py ''m'') = Some 1"
    by (simp_all add: list_config_ex_def resolve_ns_def)
  ultimately show ?thesis
    using list_complete [of list_config_ex "py ''nqn''" "py ''m''" 1 "\<lambda>_ _. paging 1 [[0], [107], [107, 0]]" "[[0], [107], [107, 0]]" 4]
    by simp
qed



end
