(* ===== verification/Spec2Isabelle.thy ===== *)
theory Spec2Isabelle
  imports Prelude Kvdev Rpc Bdev ObjCache MemStore Executor Wasm ExecRun Service ServiceSafety
    FrontClient FrontSafety FrontBridge Channel EndToEnd VfuQueue VfuClient ClientPath
    ResultCache Worker Ticker Catalog ManifestWf Loader Publish PublishLoad TableBytes PublishProps Gc
    VfuOpen RkvText RkvConfig RkvNs RkvProto RkvDaemon RkvList
begin

text \<open>
  A verification development for rados-nkv: an NVMe key-value device whose objects live in RADOS.

  \<^bold>\<open>The program.\<close> A tenant sends NVMe KV commands (Store, Retrieve, Delete, Exist, List, Exec) to a
  virtual NVMe controller. In the target process the forwarder bdev (\<^verbatim>\<open>target/bdev_kvrados.c\<close>) parses
  the key out of the payload, applies the read-only and allowlist gates, and hands the request to the
  front bridge (\<^verbatim>\<open>target/kvdev_rados_nkvx_front.c\<close>) and the front client
  (\<^verbatim>\<open>target/nkvx_front_client.c\<close>), which sends it over Mercury (\<^verbatim>\<open>target/nkvx_exec_rpc.c\<close> is the wire
  format). The executor process answers it: the service (\<^verbatim>\<open>rados-nkvx/nkvx_service.c\<close>) keeps the
  requests in flight and their cancellation, the executor (\<^verbatim>\<open>rados-nkvx/nkvx_executor.c\<close>) does the verb
  on RADOS or on a table in memory, and Exec runs a WebAssembly module beside the data with caches of
  objects, instances and compiled modules (\<^verbatim>\<open>target/kvdev_rados_nkvx_wasm.c\<close>) and of results, on a
  worker thread (\<^verbatim>\<open>target/kvdev_rados_nkvx.c\<close>). Clients reach the controller with a driver in user
  space (\<^verbatim>\<open>clients/nvme-kv/kv/vfu_host/nkv_vfu.h\<close>), below the Rust command line
  (\<^verbatim>\<open>clients/rkv\<close>) and below a catalog of model weights in Python
  (\<^verbatim>\<open>clients/vllm-weights\<close>).

  \<^bold>\<open>The theories, from the device to the clients.\<close>
  \<^item> \<^verbatim>\<open>Prelude\<close>: C scalars and memory, and the interfaces as locales: \<open>codec\<close>, \<open>stream_codec\<close>,
    \<open>invariant_system\<close>, \<open>object_map\<close>, \<open>fifo\<close>. Each is interpreted on the model's own definitions.
  \<^item> \<^verbatim>\<open>Kvdev\<close>: statuses, limits and the object-id codec of \<^verbatim>\<open>kvdev.h\<close>, \<^verbatim>\<open>kvdev_rados.h\<close>, \<^verbatim>\<open>nkvx_oid.h\<close>.
  \<^item> \<^verbatim>\<open>Rpc\<close>: the serializers of \<^verbatim>\<open>nkvx_exec_rpc.c\<close>; each message decodes to what was encoded, and one
    decoder accepts an inconsistent length.
  \<^item> \<^verbatim>\<open>Bdev\<close>, \<^verbatim>\<open>Channel\<close>: the forwarder's handlers, its allowlist and bindings, abort, channel creation and
    the teardown with its drain.
  \<^item> \<^verbatim>\<open>ObjCache\<close>, \<^verbatim>\<open>Wasm\<close>, \<^verbatim>\<open>Ticker\<close>: the object and warm caches with pins, the compiled-module cache with its
    hash gate, runs and linear memory, and the thread that ticks the engines.
  \<^item> \<^verbatim>\<open>MemStore\<close>, \<^verbatim>\<open>Executor\<close>, \<^verbatim>\<open>ExecRun\<close>: the KV verbs on both backends, the listing, and Exec with its
    built-ins and the wasm route; both backends refine an abstract map from keys to values.
  \<^item> \<^verbatim>\<open>Service\<close>, \<^verbatim>\<open>ServiceSafety\<close>: the handlers of the service and a step relation over requests, cancels,
    transfer completions and ticks, with its invariants and a progress measure.
  \<^item> \<^verbatim>\<open>FrontClient\<close>, \<^verbatim>\<open>FrontSafety\<close>, \<^verbatim>\<open>FrontBridge\<close>: the same for the front: bulk handles, answers, cancellation.
  \<^item> \<^verbatim>\<open>ResultCache\<close>, \<^verbatim>\<open>Worker\<close>: the memo of results and the worker with its queue, over interleavings of
    dispatches, the thread and stops.
  \<^item> \<^verbatim>\<open>EndToEnd\<close>: the KV path as one composition, refined by the abstract map.
  \<^item> \<^verbatim>\<open>VfuQueue\<close>, \<^verbatim>\<open>VfuClient\<close>, \<^verbatim>\<open>ClientPath\<close>: the client's driver (queues with phase bits, scatter lists, the KV
    commands), the C shim and the Rust session, and the client against the whole stack. \<^verbatim>\<open>VfuOpen\<close> is the
    bring-up of the controller and the opening and closing of a session.
  \<^item> \<^verbatim>\<open>RkvText\<close>, \<^verbatim>\<open>RkvConfig\<close>, \<^verbatim>\<open>RkvNs\<close>, \<^verbatim>\<open>RkvProto\<close>: the Rust command line: strings and paths, the configuration
    file with its reader and writer, the namespace commands, and the framing between a command and
    the session daemon. \<^verbatim>\<open>RkvDaemon\<close> is the daemon (its loop over connections, the requests of one
    connection) and the two routes of store, get and exec: through the daemon, or a session of their own.
    \<^verbatim>\<open>RkvList\<close> is the listing with its pages, the lookup of names on the target, and the options of store and get.
  \<^item> \<^verbatim>\<open>Catalog\<close>, \<^verbatim>\<open>ManifestWf\<close>, \<^verbatim>\<open>Loader\<close>, \<^verbatim>\<open>Publish\<close>, \<^verbatim>\<open>PublishLoad\<close>, \<^verbatim>\<open>PublishProps\<close>, \<^verbatim>\<open>Gc\<close>: the weights catalog: keys,
    chunks and manifests, the loader with its verified values, the publisher with packing and
    deduplication, and the mark-sweep collector. \<^verbatim>\<open>TableBytes\<close> is a table format with which the properties
    about the catalog are applied to concrete models.

  A C struct is a record with the struct's fields, an enum a datatype, and a function of the source one
  definition of the same name; where a handler is long, its branches are definitions of their own
  composed in the source's order. State is passed explicitly. Concurrent parts (service, front, worker,
  ticker, caches) are step relations whose steps are those definitions.

  \<^bold>\<open>What the properties show.\<close>
  \<^item> \<^emph>\<open>Data\<close>: the front and the executor agree on object ids; both backends, the whole forwarded path and the
    client above it do what a map from keys to values does; a listing parses back; what a publisher
    stores a loader gets back, also after merging and collecting; a namespace that was created resolves in
    the next command, and a message to the session daemon is read as it was written. A command through the
    daemon does what its own session would, and the daemon ends with all it took given back. A listing prints every key once.
  \<^item> \<^emph>\<open>Requests\<close>: every accepted request is answered exactly once on the service and on the front, every
    request in flight makes progress, no transfer starts after a cancel was acknowledged, handles are
    released after the acknowledgement and freed once, and a channel's teardown ends and answers all.
  \<^item> \<^emph>\<open>Isolation\<close>: a module runs only if its bytes have the bound hash and the operation is allowlisted; a
    pinned object stays as it is while another module runs; results are shared only between
    requests that agree on module, hash, object and input; a load detects changed values.
  \<^item> \<^emph>\<open>Divergences\<close>: the properties of kind \<^emph>\<open>error\<close> state what the code does where it does not do what its
    comments or documents say.

  \<^bold>\<open>Parameters.\<close> Code outside the repository is an argument of the definitions that use it, with the
  documented behaviour a property relies on as a hypothesis: Mercury's serialization primitives and
  the outcome of its calls (\<open>hg_prims_ok\<close>, \<open>front_env\<close>, the service's environment), librados
  (\<open>rados\<close>), wasmtime (\<open>wasmtime\<close>), OpenSSL's digest, the NVMe-oF target of SPDK (\<open>stack\<close>), Arrow,
  BLAKE2b and Unicode normalisation (\<open>lib\<close>, \<open>arrow_ok\<close>), the controller behind a session (\<open>bus\<close>, \<open>responsive\<close>)
  and the target's control calls. Where a property needs that hashes do not
  collide, it asks it of the values at hand only (\<open>values_apart\<close>), or its conclusion names the collision.

  \<^bold>\<open>Bounds and fuel.\<close> Loops are structural recursions or have a termination proof. Two loops may wait for
  others: the drain of a channel runs over the list of Mercury's turns, and \<open>teardown_terminates\<close> gives
  the number of completions after which it ends; the worker's loop runs over its queue, and
  \<open>stop_drains_queue\<close> shows that it ends with the queue empty. The listing of the command line has fuel, one unit a call;
  \<open>list_complete\<close> shows that one call more than there are keys is enough. The poll of the driver takes the list of what
  the controller shows at each turn; running out of it is the timeout. Counters of identifiers (call
  ids, handles) are unbounded where the source has 64 bits; lengths are truncated where the source
  stores them in a narrower field.

  \<^bold>\<open>Not modelled.\<close>
  \<^item> Process set-up: command lines, address files, signals, loading wasmtime, registration with SPDK; they
    are calls into libraries with no state of the program behind them.
  \<^item> The GPU data path (HIP kernels and device memory): its behaviour is that of the GPU runtime.
  \<^item> Of the Rust command line, argument parsing, terminal output, signals and the start and stop of the daemon
    process; a connection to the daemon is the bytes on it and where it breaks off.
  \<^item> The ctypes bindings and the vLLM plugin.
  \<^item> Test programs, guest modules for tests, build scripts, and the vendored headers of wasmtime.
\<close>

section \<open>Properties that span components\<close>

text \<open>
  C1. The front and the executor derive the same RADOS object id from a key, the executor
  recovers the key from the object id, and distinct keys have distinct object ids.
\<close>

theorem oid_agreement:
  assumes "key_ok k" and "key_ok k'"
  shows "kvdev_rados_key_to_oid k (length k) = nkvx_key_to_oid k (length k) \<and>
    nkvx_oid_to_key (nkvx_key_to_oid k (length k)) = k \<and>
    (nkvx_key_to_oid k (length k) = nkvx_key_to_oid k' (length k') \<longleftrightarrow> k = k')"
  using assms by (simp add: kvdev_rados_key_to_oid_eq nkvx_oid_to_key_of_key oid_codec.enc_inject)

theorem oid_agreement_witness:
  "kvdev_rados_key_to_oid [0xca, 0xfe] 2 = nkvx_key_to_oid [0xca, 0xfe] 2 \<and>
   nkvx_oid_to_key (nkvx_key_to_oid [0xca, 0xfe] 2) = [0xca, 0xfe]"
  using oid_agreement [of "[0xca, 0xfe]" "[0xca, 0xfe]"]
  by (simp add: key_ok_def exec_key_max_len_def numeral_2_eq_2)

text \<open>
  The built-ins served in the front process and the ones on the executor agree: for the two
  input-observing modules, the same input and the same output buffer give the same status, the same
  reported length and the same delivered bytes, whatever the executor's state and the stored object.
\<close>

theorem native_builtins_agree:
  assumes "key \<in> {''inputlen'', ''inputecho''}" "ei_input_inline i = Some b" "ei_input_len i \<le> length b"
    and "ei_key_len i \<noteq> 0" "ei_runtime i = runtime_nkvx" "ei_module_ns i = Some ''nkvx''" "ei_module_key i = Some key" "ee_alloc env"
    and "kvrados_native_builtin_exec (Some key) (Some b) (ei_input_len i) True (ei_osize i) = (st, n, out)"
  shows "nkvx_executor_run wt wenv env rd s i =
    Some (\<lparr>er_status = st, er_result_len = n, er_buf = (if out = [] then None else Some out)\<rparr>, s)"
proof -
  have run: "nkvx_executor_run wt wenv env rd s i = map_option (\<lambda>r. (r, s))
      (nkvx_run_builtin env rd (xs_ex s) key (nkvx_key_to_oid (ei_key i) (ei_key_len i)) i)"
    using assms(4-7) by (simp add: nkvx_executor_run_def)
  show ?thesis
  proof (cases "key = ''inputlen''")
    case True
    have le: "le_bytes 8 (ei_input_len i) \<noteq> []" by (metis length_le_bytes list.size(3) zero_neq_numeral)
    have "st = size_status 8 (ei_osize i)" "n = 8" "out = take (min (ei_osize i) 8) (le_bytes 8 (ei_input_len i))"
      using assms(9) True by (auto simp: kvrados_native_builtin_exec_def size_status_def Let_def simp del: le_bytes.simps)
    then show ?thesis using run True assms(8) le
      by (cases "ei_osize i = 0") (simp_all add: nkvx_run_builtin_def nkvx_result_set_def min_def Let_def del: le_bytes.simps)
  next
    case False
    then have key: "key = ''inputecho''" using assms(1) by simp
    have "out = take (min (ei_osize i) (ei_input_len i)) b" "n = ei_input_len i" "st = size_status (ei_input_len i) (ei_osize i)"
      using assms(9) key by (auto simp: kvrados_native_builtin_exec_def size_status_def Let_def split: if_splits)
    moreover have "take (min (ei_osize i) (ei_input_len i)) b = [] \<longleftrightarrow> min (ei_osize i) (ei_input_len i) = 0"
      using assms(3) by auto
    ultimately show ?thesis using run key assms(2,8)
      by (cases "min (ei_osize i) (ei_input_len i) = 0") (simp_all add: nkvx_run_builtin_def nkvx_result_set_def Let_def)
  qed
qed

theorem native_builtins_agree_witness:
  "nkvx_executor_run wasmtime_ex wasm_env_ex exec_env_ex alist_rados exec_state_ex (exec_call ''nkvx'' ''inputecho'' [107] 2 (Some [4, 5, 6])) =
    Some (\<lparr>er_status = IO_BUFFER_TOO_SMALL, er_result_len = 3, er_buf = Some [4, 5]\<rparr>, exec_state_ex)"
  using native_builtins_agree [of "''inputecho''" "exec_call ''nkvx'' ''inputecho'' [107] 2 (Some [4, 5, 6])" "[4, 5, 6]" exec_env_ex
      IO_BUFFER_TOO_SMALL 3 "[4, 5]" wasmtime_ex wasm_env_ex alist_rados exec_state_ex]
  by (simp add: exec_call_def runtime_nkvx_def exec_env_ex_def kvrados_native_builtin_exec_def Let_def)

end
